(* ===== verification/Badger_Prelude.thy ===== *)
theory Badger_Prelude
  imports Main "HOL-Library.Word" "HOL-Library.List_Lexorder" "HOL-Library.Monad_Syntax"
begin

section \<open>Prelude: machine integers, byte strings, searching and big-endian codecs\<close>

text \<open>
  What every component of the development shares: the machine types of the Rust sources,
  slices and in-place writes on byte buffers with Rust's bounds checks, the three-way
  comparison and \<open>slice::binary_search_by\<close> of the standard library, the big-endian
  reads and writes of the \<open>byteorder\<close> traits, and sorted association lists, which are the
  abstract view of a memtable, a block and a table.

  Conventions. A Rust function that returns \<open>T\<close> is modelled by a HOL function into
  \<open>T\<close> when it cannot panic and into \<open>T option\<close> when it can, \<^term>\<open>None\<close> being a
  panic, an out-of-range access through a raw pointer, or a loop that does not end. A
  function that returns \<open>Result<T>\<close> maps into \<open>error + T\<close> (inside \<open>option\<close> when it
  can panic as well). \<open>usize\<close> quantities that the code guards against overflow are \<open>nat\<close>;
  every narrowing cast of the source (\<open>as u16\<close>, \<open>as u32\<close>) is kept as a word.
\<close>

named_theorems codec_simps \<open>evaluation of encoders and decoders\<close>
named_theorems sorted_simps \<open>facts on strictly sorted lists\<close>

type_synonym byte = "8 word"
type_synonym bytes = "8 word list"
type_synonym u16 = "16 word"
type_synonym u32 = "32 word"
type_synonym u64 = "64 word"

subsection \<open>Slices and buffers\<close>

text \<open>\<open>&buf[a..b]\<close>: a panic unless \<open>a \<le> b \<le> buf.len()\<close>.\<close>

definition slice :: "'a list \<Rightarrow> nat \<Rightarrow> nat \<Rightarrow> 'a list option" where
  "slice xs a b = (if a \<le> b \<and> b \<le> length xs then Some (take (b - a) (drop a xs)) else None)"

text \<open>Copying a slice into a buffer at an offset; a panic when it does not fit.\<close>

definition write_at :: "'a list \<Rightarrow> nat \<Rightarrow> 'a list \<Rightarrow> 'a list option" where
  "write_at buf off xs =
     (if off + length xs \<le> length buf
      then Some (take off buf @ xs @ drop (off + length xs) buf) else None)"

lemma slice_length: "slice xs a b = Some ys \<Longrightarrow> length ys = b - a"
  by (auto simp: slice_def split: if_splits)

lemma slice_Some: "a \<le> b \<Longrightarrow> b \<le> length xs \<Longrightarrow> slice xs a b = Some (take (b - a) (drop a xs))"
  by (simp add: slice_def)

lemma slice_append_mid [simp]:
  "slice (xs @ ys @ zs) (length xs) (length xs + length ys) = Some ys"
  by (simp add: slice_def)

lemma slice_append_midI:
  "a = length xs \<Longrightarrow> b = a + length ys \<Longrightarrow> slice (xs @ ys @ zs) a b = Some ys"
  by simp

lemma slice_prefix [simp]: "slice (ys @ zs) 0 (length ys) = Some ys"
  by (simp add: slice_def)

lemma write_at_length: "write_at buf off xs = Some buf' \<Longrightarrow> length buf' = length buf"
  by (auto simp: write_at_def split: if_splits)

lemma write_at_Some:
  "off + length xs \<le> length buf \<Longrightarrow>
   write_at buf off xs = Some (take off buf @ xs @ drop (off + length xs) buf)"
  by (simp add: write_at_def)

lemma slice_write_at_same:
  "write_at buf off xs = Some buf' \<Longrightarrow> slice buf' off (off + length xs) = Some xs"
  by (auto simp: write_at_def slice_def split: if_splits)

lemma nth_write_at:
  assumes "write_at buf off xs = Some buf'" and "i < length buf"
  shows "buf' ! i = (if off \<le> i \<and> i < off + length xs then xs ! (i - off) else buf ! i)"
  using assms by (auto simp: write_at_def nth_append split: if_splits)

lemma slice_write_at_other:
  assumes w: "write_at buf off xs = Some buf'" and "b \<le> off \<or> off + length xs \<le> a"
  shows "slice buf' a b = slice buf a b"
proof (cases "a \<le> b \<and> b \<le> length buf")
  case True
  have "take (b - a) (drop a buf') = take (b - a) (drop a buf)"
    using True assms(2) write_at_length [OF w]
    by (intro nth_equalityI) (auto simp: nth_write_at [OF w])
  with True write_at_length [OF w] show ?thesis by (simp add: slice_def)
next
  case False
  with write_at_length [OF w] show ?thesis by (auto simp: slice_def)
qed

subsection \<open>Comparison and binary search\<close>

datatype ordering = Less | Equal | Greater

text \<open>\<open>Ord::cmp\<close>; on byte strings the order is the lexicographic one of \<open>List_Lexorder\<close>.\<close>

definition rcmp :: "'a::linorder \<Rightarrow> 'a \<Rightarrow> ordering" where
  "rcmp a b = (if a < b then Less else if a = b then Equal else Greater)"

lemma rcmp_Less [simp]: "rcmp a b = Less \<longleftrightarrow> a < b"
  and rcmp_Equal [simp]: "rcmp a b = Equal \<longleftrightarrow> a = b"
  and rcmp_Greater [simp]: "rcmp a b = Greater \<longleftrightarrow> b < a"
  by (auto simp: rcmp_def)

text \<open>
  \<open>slice::binary_search_by\<close> of the standard library on the probe \<open>f\<close> (the closure applied
  to the element at an index): \<open>Inr i\<close> is \<open>Ok(i)\<close>, \<open>Inl i\<close> is \<open>Err(i)\<close>.
\<close>

function bsearch_loop :: "(nat \<Rightarrow> ordering) \<Rightarrow> nat \<Rightarrow> nat \<Rightarrow> nat + nat" where
  "bsearch_loop f left right =
     (if left < right then
        (let mid = left + (right - left) div 2 in
         case f mid of
           Less \<Rightarrow> bsearch_loop f (mid + 1) right
         | Greater \<Rightarrow> bsearch_loop f left mid
         | Equal \<Rightarrow> Inr mid)
      else Inl left)"
  by pat_completeness auto
termination
  by (relation "measure (\<lambda>(f, l, r). r - l)") auto

declare bsearch_loop.simps [simp del]

definition binary_search_by :: "'a list \<Rightarrow> ('a \<Rightarrow> ordering) \<Rightarrow> nat + nat" where
  "binary_search_by xs f = bsearch_loop (\<lambda>i. f (xs ! i)) 0 (length xs)"

text \<open>A probe is monotone on \<open>[0, n)\<close> when \<open>Less\<close> is down-closed and \<open>Greater\<close> is up-closed.\<close>

definition mono_probe :: "(nat \<Rightarrow> ordering) \<Rightarrow> nat \<Rightarrow> bool" where
  "mono_probe f n \<longleftrightarrow> (\<forall>i j. i < j \<longrightarrow> j < n \<longrightarrow>
     (f j = Less \<longrightarrow> f i = Less) \<and> (f i = Greater \<longrightarrow> f j = Greater))"

lemma bsearch_loop_spec:
  assumes "mono_probe f n" and "l \<le> r" and "r \<le> n"
    and "\<forall>i<l. f i = Less" and "\<forall>i. r \<le> i \<and> i < n \<longrightarrow> f i = Greater"
  shows "case bsearch_loop f l r of
           Inr i \<Rightarrow> i < n \<and> f i = Equal
         | Inl i \<Rightarrow> i \<le> n \<and> (\<forall>j<i. f j = Less) \<and> (\<forall>j. i \<le> j \<and> j < n \<longrightarrow> f j = Greater)"
  using assms
proof (induction f l r rule: bsearch_loop.induct)
  case (1 f l r)
  define mid where "mid = l + (r - l) div 2"
  show ?case
  proof (cases "l < r")
    case False
    with 1(4-7) show ?thesis by (simp add: bsearch_loop.simps [of f r r])
  next
    case True
    then have mid: "l \<le> mid" "mid < r" by (auto simp: mid_def)
    have down: "f i = Less" if "f mid = Less" "i < mid" for i
      using 1(3) that mid 1(5) unfolding mono_probe_def
      by (meson dual_order.strict_trans1 leD linorder_not_less)
    have up: "f i = Greater" if "f mid = Greater" "mid < i" "i < n" for i
      using 1(3) that unfolding mono_probe_def by blast
    show ?thesis
    proof (cases "f mid")
      case Less
      have "\<forall>i<mid + 1. f i = Less"
        using Less down less_Suc_eq by auto
      with 1(1) [OF True mid_def Less 1(3)] 1(5,7) mid
      show ?thesis using True Less
        by (simp add: bsearch_loop.simps [of f l r] mid_def Let_def)
    next
      case Equal
      with True mid 1(5) show ?thesis
        by (simp add: bsearch_loop.simps [of f l r] mid_def Let_def)
    next
      case Greater
      have "\<forall>i. mid \<le> i \<and> i < n \<longrightarrow> f i = Greater"
        using Greater up le_neq_implies_less by blast
      with 1(2) [OF True mid_def Greater 1(3)] 1(5,6) mid
      show ?thesis using True Greater
        by (simp add: bsearch_loop.simps [of f l r] mid_def Let_def)
    qed
  qed
qed

lemma binary_search_by_spec:
  assumes "mono_probe (\<lambda>i. f (xs ! i)) (length xs)"
  shows "case binary_search_by xs f of
           Inr i \<Rightarrow> i < length xs \<and> f (xs ! i) = Equal
         | Inl i \<Rightarrow> i \<le> length xs \<and> (\<forall>j<i. f (xs ! j) = Less)
             \<and> (\<forall>j. i \<le> j \<and> j < length xs \<longrightarrow> f (xs ! j) = Greater)"
  unfolding binary_search_by_def
  by (rule bsearch_loop_spec [OF assms]) auto

lemma binary_search_Ok:
  assumes "mono_probe (\<lambda>i. f (xs ! i)) (length xs)" and "binary_search_by xs f = Inr i"
  shows "i < length xs" and "f (xs ! i) = Equal"
  using binary_search_by_spec [OF assms(1)] assms(2) by auto

lemma binary_search_Err:
  assumes "mono_probe (\<lambda>i. f (xs ! i)) (length xs)" and "binary_search_by xs f = Inl i"
  shows "i \<le> length xs" and "\<And>j. j < i \<Longrightarrow> f (xs ! j) = Less"
    and "\<And>j. i \<le> j \<Longrightarrow> j < length xs \<Longrightarrow> f (xs ! j) = Greater"
  using binary_search_by_spec [OF assms(1)] assms(2) by auto

text \<open>Probing the keys of a sorted list against a key is monotone.\<close>

lemma mono_probe_sorted:
  assumes "sorted (map g xs)"
  shows "mono_probe (\<lambda>i. rcmp (g (xs ! i)) k) (length xs)"
proof -
  have "g (xs ! i) \<le> g (xs ! j)" if "i < j" "j < length xs" for i j
    using sorted_nth_mono [OF assms, of i j] that by simp
  then show ?thesis by (fastforce simp: mono_probe_def)
qed

subsection \<open>Big-endian integers\<close>

text \<open>The \<open>n\<close> low bytes of a number, most significant first, and back.\<close>

fun be_enc :: "nat \<Rightarrow> nat \<Rightarrow> bytes" where
  "be_enc 0 v = []"
| "be_enc (Suc n) v = be_enc n (v div 256) @ [of_nat v]"

definition be_dec :: "bytes \<Rightarrow> nat" where
  "be_dec bs = foldl (\<lambda>a b. a * 256 + unat b) 0 bs"

lemma be_enc_length [simp]: "length (be_enc n v) = n"
  by (induction n arbitrary: v) auto

lemma be_dec_snoc [simp]: "be_dec (bs @ [b]) = be_dec bs * 256 + unat b"
  by (simp add: be_dec_def)

lemma be_dec_Nil [simp]: "be_dec [] = 0"
  by (simp add: be_dec_def)

lemma be_dec_enc: "be_dec (be_enc n v) = v mod 256 ^ n"
proof (induction n arbitrary: v)
  case 0
  show ?case by simp
next
  case (Suc n)
  have "be_dec (be_enc (Suc n) v) = (v div 256 mod 256 ^ n) * 256 + v mod 256"
    by (simp add: Suc unat_of_nat take_bit_eq_mod)
  also have "\<dots> = v mod (256 * 256 ^ n)"
    by (simp add: mod_mult2_eq)
  finally show ?case by simp
qed

definition enc_u16 :: "u16 \<Rightarrow> bytes" where "enc_u16 w = be_enc 2 (unat w)"
definition enc_u32 :: "u32 \<Rightarrow> bytes" where "enc_u32 w = be_enc 4 (unat w)"
definition enc_u64 :: "u64 \<Rightarrow> bytes" where "enc_u64 w = be_enc 8 (unat w)"

text \<open>
  A reader is a function from the bytes left to a value and the bytes left after it;
  \<^term>\<open>None\<close> is \<open>ErrorKind::UnexpectedEof\<close>.
\<close>

definition read_exact :: "nat \<Rightarrow> bytes \<Rightarrow> (bytes \<times> bytes) option" where
  "read_exact n bs = (if n \<le> length bs then Some (take n bs, drop n bs) else None)"

definition read_u8 :: "bytes \<Rightarrow> (byte \<times> bytes) option" where
  "read_u8 bs = (case bs of [] \<Rightarrow> None | b # r \<Rightarrow> Some (b, r))"

definition read_u16 :: "bytes \<Rightarrow> (u16 \<times> bytes) option" where
  "read_u16 bs = do { (d, r) \<leftarrow> read_exact 2 bs; Some (of_nat (be_dec d), r) }"

definition read_u32 :: "bytes \<Rightarrow> (u32 \<times> bytes) option" where
  "read_u32 bs = do { (d, r) \<leftarrow> read_exact 4 bs; Some (of_nat (be_dec d), r) }"

definition read_u64 :: "bytes \<Rightarrow> (u64 \<times> bytes) option" where
  "read_u64 bs = do { (d, r) \<leftarrow> read_exact 8 bs; Some (of_nat (be_dec d), r) }"

lemma enc_u16_length [simp]: "length (enc_u16 a) = 2"
  and enc_u32_length [simp]: "length (enc_u32 b) = 4"
  and enc_u64_length [simp]: "length (enc_u64 c) = 8"
  by (simp_all add: enc_u16_def enc_u32_def enc_u64_def)

lemma read_exact_append [simp]: "length xs = n \<Longrightarrow> read_exact n (xs @ r) = Some (xs, r)"
  by (simp add: read_exact_def)

lemma read_exact_short [simp]: "length bs < n \<Longrightarrow> read_exact n bs = None"
  by (simp add: read_exact_def)

lemma read_u8_Cons [simp]: "read_u8 (b # r) = Some (b, r)"
  by (simp add: read_u8_def)

lemma unat_lt_16: "unat (w :: u16) < 65536"
  using unsigned_less [of w, where ?'a = nat] by simp

lemma unat_lt_32: "unat (w :: u32) < 4294967296"
  using unsigned_less [of w, where ?'a = nat] by simp

lemma unat_lt_64: "unat (w :: u64) < 18446744073709551616"
  using unsigned_less [of w, where ?'a = nat] by simp

lemma read_enc_u16 [simp]: "read_u16 (enc_u16 w @ r) = Some (w, r)"
  using unat_lt_16 [of w] by (simp add: read_u16_def enc_u16_def be_dec_enc)

lemma read_enc_u32 [simp]: "read_u32 (enc_u32 w @ r) = Some (w, r)"
  using unat_lt_32 [of w] by (simp add: read_u32_def enc_u32_def be_dec_enc)

lemma read_enc_u64 [simp]: "read_u64 (enc_u64 w @ r) = Some (w, r)"
  using unat_lt_64 [of w] by (simp add: read_u64_def enc_u64_def be_dec_enc)

lemmas read_enc_end [simp] =
  read_enc_u16 [where r = "[]", simplified]
  read_enc_u32 [where r = "[]", simplified]
  read_enc_u64 [where r = "[]", simplified]

lemmas codec_defs [codec_simps] =
  enc_u16_def enc_u32_def enc_u64_def read_u16_def read_u32_def read_u64_def
  read_u8_def read_exact_def be_dec_def

lemma unat_of_nat_u16 [simp]: "n < 65536 \<Longrightarrow> unat (of_nat n :: u16) = n"
  by (simp add: unat_of_nat)

lemma unat_of_nat_u32 [simp]: "n < 4294967296 \<Longrightarrow> unat (of_nat n :: u32) = n"
  by (simp add: unat_of_nat)

lemma unat_of_nat_u64 [simp]: "n < 18446744073709551616 \<Longrightarrow> unat (of_nat n :: u64) = n"
  by (simp add: unat_of_nat)

subsection \<open>Sorted association lists\<close>

text \<open>
  The abstract content of a memtable or a table: a list of key-value pairs with strictly
  increasing keys. \<open>assoc_put\<close> is the abstract write.
\<close>

abbreviation strictly_sorted :: "'a::linorder list \<Rightarrow> bool" where
  "strictly_sorted \<equiv> sorted_wrt (<)"

fun assoc_put :: "'k::linorder \<Rightarrow> 'v \<Rightarrow> ('k \<times> 'v) list \<Rightarrow> ('k \<times> 'v) list" where
  "assoc_put k v [] = [(k, v)]"
| "assoc_put k v ((a, b) # ps) =
     (if k < a then (k, v) # (a, b) # ps
      else if k = a then (k, v) # ps
      else (a, b) # assoc_put k v ps)"

lemma map_of_assoc_put [simp]: "map_of (assoc_put k v ps) = (map_of ps)(k \<mapsto> v)"
  by (induction k v ps rule: assoc_put.induct) (auto simp: fun_upd_twist)

lemma keys_assoc_put: "set (map fst (assoc_put k v ps)) = insert k (set (map fst ps))"
  by (induction k v ps rule: assoc_put.induct) auto

lemma sorted_assoc_put [sorted_simps]:
  "strictly_sorted (map fst ps) \<Longrightarrow> strictly_sorted (map fst (assoc_put k v ps))"
proof (induction k v ps rule: assoc_put.induct)
  case (2 k v a b ps)
  then show ?case
    using keys_assoc_put [of k v ps] by (auto simp: less_le_trans)
qed simp

lemma assoc_put_append_less:
  assumes "\<forall>p\<in>set xs. fst p < k"
  shows "assoc_put k v (xs @ ys) = xs @ assoc_put k v ys"
  using assms by (induction xs) auto

lemma assoc_put_less: "\<forall>p\<in>set ys. k < fst p \<Longrightarrow> assoc_put k v ys = (k, v) # ys"
  by (cases ys) auto

lemma strictly_sorted_distinct [sorted_simps]:
  "strictly_sorted xs \<Longrightarrow> distinct (xs :: 'a::linorder list)"
  by (simp add: strict_sorted_iff)

lemma strictly_sorted_sorted [sorted_simps]:
  "strictly_sorted xs \<Longrightarrow> sorted (xs :: 'a::linorder list)"
  by (simp add: strict_sorted_iff)

text \<open>The first and the last element of a list that satisfy a predicate.\<close>

lemma find_append: "find P (xs @ ys) = (case find P xs of None \<Rightarrow> find P ys | Some x \<Rightarrow> Some x)"
  by (induction xs) auto

definition find_last :: "('a \<Rightarrow> bool) \<Rightarrow> 'a list \<Rightarrow> 'a option" where
  "find_last P xs = find P (rev xs)"

lemma find_last_snoc [simp]:
  "find_last P (xs @ [x]) = (if P x then Some x else find_last P xs)"
  by (simp add: find_last_def)

lemma find_last_Nil [simp]: "find_last P [] = None"
  by (simp add: find_last_def)

lemma find_none: "\<forall>x\<in>set xs. \<not> P x \<Longrightarrow> find P xs = None"
  by (simp add: find_None_iff)

lemma find_last_append:
  "find_last P (xs @ ys) = (case find_last P ys of None \<Rightarrow> find_last P xs | Some y \<Rightarrow> Some y)"
  by (simp add: find_last_def find_append split: option.split)

lemma find_last_none: "\<forall>x\<in>set xs. \<not> P x \<Longrightarrow> find_last P xs = None"
  by (simp add: find_last_def find_none)

lemma map_of_find: "map_of ps k = map_option snd (find (\<lambda>p. fst p = k) ps)"
  by (induction ps) auto

text \<open>The first element, if any.\<close>

definition hd_opt :: "'a list \<Rightarrow> 'a option" where
  "hd_opt xs = (case xs of [] \<Rightarrow> None | x # _ \<Rightarrow> Some x)"

lemma hd_opt_simps [simp]: "hd_opt [] = None" "hd_opt (x # xs) = Some x"
  by (simp_all add: hd_opt_def)

lemma find_dropWhile: "find P xs = hd_opt (dropWhile (\<lambda>x. \<not> P x) xs)"
  by (induction xs) auto

end
