(* ===== verification/Y_Module.thy ===== *)
theory Y_Module
  imports Badger_Prelude
begin

section \<open>The utility module: errors, searching, value structs\<close>

text \<open>
  Models \<open>src/src/y/mod.rs\<close> (the error type and its classifiers, \<open>binary_search\<close>,
  \<open>slice_cmp_gte\<close>), \<open>src/src/y/iterator.rs\<close> (\<open>ValueStruct\<close> and its wire format) and the
  alignment helper of \<open>src/src/lib.rs\<close>. File handles, mmap and the thread pool of \<open>y/mod.rs\<close>
  are operating-system calls and are not modelled.
\<close>

subsection \<open>Errors\<close>

text \<open>The \<open>io::ErrorKind\<close>s that the code distinguishes; a wrapped I/O error also carries its OS code.\<close>

datatype io_kind = UnexpectedEof | AlreadyExists | KindNotFound | OtherKind

datatype error =
    StdIO io_kind "int option"
  | Io string
  | Unexpected string
  | ValueRetry
  | ValueCasMisMatch
  | ValueKeyExists
  | ValueThresholdZero
  | ValueNoRewrite
  | ValueRejected
  | ValueInvalidRequest
  | InValidDir
  | ValueLogSize
  | TooFewBytes
  | EOF
  | BadMagic
  | NotFound
  | StopGC

type_synonym 'a result = "error + 'a"

definition is_io :: "error \<Rightarrow> bool" where
  "is_io e = (case e of StdIO k c \<Rightarrow> True | _ \<Rightarrow> False)"

definition is_io_eof :: "error \<Rightarrow> bool" where
  "is_io_eof e = (case e of StdIO k c \<Rightarrow> k = UnexpectedEof | _ \<Rightarrow> False)"

definition is_io_existing :: "error \<Rightarrow> bool" where
  "is_io_existing e =
     (case e of
        StdIO k c \<Rightarrow>
          (if k = AlreadyExists then True
           else (case c of Some code \<Rightarrow> code = 2 | None \<Rightarrow> False))
      | _ \<Rightarrow> False)"

definition is_io_notfound :: "error \<Rightarrow> bool" where
  "is_io_notfound e = (case e of StdIO k c \<Rightarrow> k = KindNotFound | _ \<Rightarrow> False)"

definition is_not_found :: "error \<Rightarrow> bool" where
  "is_not_found e = (case e of NotFound \<Rightarrow> True | _ \<Rightarrow> False)"

definition is_exists :: "error \<Rightarrow> bool" where
  "is_exists e = (case e of ValueKeyExists \<Rightarrow> True | _ \<Rightarrow> False)"

text \<open>\<open>is_eof\<close> and \<open>is_existing\<close> on a raw \<open>io::Result\<close>, whose error is a kind.\<close>

definition is_eof :: "io_kind + 'a \<Rightarrow> bool" where
  "is_eof r = (case r of Inr x \<Rightarrow> False | Inl k \<Rightarrow> k = UnexpectedEof)"

definition is_existing :: "io_kind + 'a \<Rightarrow> bool" where
  "is_existing r = (case r of Inr x \<Rightarrow> False | Inl k \<Rightarrow> k = AlreadyExists)"

subsection \<open>Searching\<close>

definition slice_cmp_gte :: "bytes \<Rightarrow> bytes \<Rightarrow> ordering" where
  "slice_cmp_gte a b =
     (case rcmp a b of Less \<Rightarrow> Less | Greater \<Rightarrow> Equal | Equal \<Rightarrow> Equal)"

text \<open>
  \<open>binary_search\<close>: the loop with its inclusive upper bound. On an empty slice
  \<open>array.len() - 1\<close> underflows and the first probe is out of range, so the call panics.
\<close>

function binary_search_loop :: "'a list \<Rightarrow> ('a \<Rightarrow> ordering) \<Rightarrow> nat \<Rightarrow> nat \<Rightarrow> nat option option" where
  "binary_search_loop array f low high =
     (if low \<le> high then
        (let mid = (low + high) div 2 in
         if mid < length array then
           (case f (array ! mid) of
              Equal \<Rightarrow> Some (Some mid)
            | Less \<Rightarrow> binary_search_loop array f (mid + 1) high
            | Greater \<Rightarrow> if mid \<le> 0 then Some None
                         else binary_search_loop array f low (mid - 1))
         else None)
      else Some None)"
  by pat_completeness auto
termination
  by (relation "measure (\<lambda>(a, f, l, h). Suc h - l)") auto

declare binary_search_loop.simps [simp del]

definition binary_search :: "'a list \<Rightarrow> ('a \<Rightarrow> ordering) \<Rightarrow> nat option option" where
  "binary_search array f =
     (if array = [] then None
      else binary_search_loop array f 0 (length array - 1))"

lemma binary_search_loop_spec:
  assumes "mono_probe (\<lambda>i. f (xs ! i)) (length xs)" and "l \<le> Suc h" and "h < length xs"
    and "\<forall>i<l. f (xs ! i) = Less" and "\<forall>i. h < i \<and> i < length xs \<longrightarrow> f (xs ! i) = Greater"
  shows "\<exists>r. binary_search_loop xs f l h = Some r \<and>
    (case r of Some i \<Rightarrow> i < length xs \<and> f (xs ! i) = Equal
     | None \<Rightarrow> \<forall>i<length xs. f (xs ! i) \<noteq> Equal)"
  using assms
proof (induction xs f l h rule: binary_search_loop.induct)
  case (1 xs f l h)
  define mid where "mid = (l + h) div 2"
  note unfold = binary_search_loop.simps [of xs f l h] Let_def
  show ?case
  proof (cases "l \<le> h")
    case False
    then have "f (xs ! i) \<noteq> Equal" if "i < length xs" for i
      using 1(6,7) that by (cases "i < l") auto
    with False show ?thesis by (simp add: unfold)
  next
    case True
    then have mid: "l \<le> mid" "mid \<le> h" "mid < length xs"
      using 1(5) by (auto simp: mid_def)
    have down: "f (xs ! i) = Less" if "f (xs ! mid) = Less" "i \<le> mid" for i
      using 1(3) that mid unfolding mono_probe_def by (metis le_neq_implies_less)
    have up: "f (xs ! i) = Greater" if "f (xs ! mid) = Greater" "mid \<le> i" "i < length xs" for i
      using 1(3) that unfolding mono_probe_def by (metis le_neq_implies_less)
    show ?thesis
    proof (cases "f (xs ! mid)")
      case Less
      have "\<forall>i<mid + 1. f (xs ! i) = Less"
        using down [OF Less] by simp
      with 1(1) [OF True mid_def mid(3) Less 1(3)] 1(5,7) mid Less True show ?thesis
        by (simp add: unfold mid_def)
    next
      case Equal
      with True mid show ?thesis by (simp add: unfold mid_def)
    next
      case Greater
      show ?thesis
      proof (cases "mid = 0")
        case True
        then have "f (xs ! i) \<noteq> Equal" if "i < length xs" for i
          using up [OF Greater _ that] by simp
        with Greater mid \<open>l \<le> h\<close> \<open>mid = 0\<close> show ?thesis
          unfolding unfold mid_def [symmetric] by simp
      next
        case False
        have "\<forall>i. mid - 1 < i \<and> i < length xs \<longrightarrow> f (xs ! i) = Greater"
          using up [OF Greater] by auto
        with 1(2) [OF \<open>l \<le> h\<close> mid_def mid(3) Greater _ 1(3)] 1(6) mid False Greater \<open>l \<le> h\<close>
        show ?thesis by (simp add: unfold mid_def)
      qed
    qed
  qed
qed

subsection \<open>Alignment\<close>

unbundle bit_operations_syntax

definition cals_size_with_align :: "u64 \<Rightarrow> u64 \<Rightarrow> u64" where
  "cals_size_with_align sz align_sz = (sz + align_sz) AND (NOT align_sz)"

text \<open>With \<open>align_sz = 7\<close> the mask rounds up to the next multiple of eight.\<close>

lemma and_not_7: "unat (w AND NOT 7 :: u64) = unat w - unat w mod 8"
proof -
  have m: "(7 :: u64) = mask 3" by (simp add: mask_eq_exp_minus_1)
  have "w AND NOT (mask 3) = push_bit 3 (drop_bit 3 w)"
    by (rule bit_eqI) (auto simp: bit_simps)
  then have eq: "w AND NOT (mask 3) = w - take_bit 3 w"
    using bits_ident [of 3 w] by (simp add: algebra_simps)
  have le: "unat (take_bit 3 w) \<le> unat w"
    by (simp add: unsigned_take_bit_eq take_bit_nat_less_eq_self)
  then have "unat (w - take_bit 3 w) = unat w - unat (take_bit 3 w)"
    by (simp add: unat_sub word_le_nat_alt)
  then show ?thesis
    unfolding m eq by (simp add: unat_mod_distrib take_bit_eq_mod)
qed

lemma cals_size_with_align_8:
  assumes "unat sz + 7 < 2 ^ 64"
  shows "unat (cals_size_with_align sz 7) = (unat sz + 7) div 8 * 8"
proof -
  have "unat (sz + 7) = unat sz + 7"
    using assms by (simp add: unat_word_ariths)
  then show ?thesis
    unfolding cals_size_with_align_def and_not_7 by (simp add: minus_mod_eq_div_mult)
qed

subsection \<open>ValueStruct\<close>

record value_struct =
  vs_meta :: byte
  vs_user_meta :: byte
  vs_cas_counter :: u64
  vs_value :: bytes

definition vs_default :: value_struct where
  "vs_default = \<lparr>vs_meta = 0, vs_user_meta = 0, vs_cas_counter = 0, vs_value = []\<rparr>"

definition vs_new :: "bytes \<Rightarrow> byte \<Rightarrow> byte \<Rightarrow> u64 \<Rightarrow> value_struct" where
  "vs_new value meta user_meta cas_counter =
     \<lparr>vs_meta = meta, vs_user_meta = user_meta, vs_cas_counter = cas_counter, vs_value = value\<rparr>"

definition vs_header_size :: nat where
  "vs_header_size = 10"

definition vs_size :: "value_struct \<Rightarrow> nat" where
  "vs_size v = vs_header_size + length (vs_value v)"

text \<open>\<open>write_data\<close> writes the fields through a cursor over the buffer; a short buffer panics.\<close>

definition vs_write_data :: "value_struct \<Rightarrow> bytes \<Rightarrow> bytes option" where
  "vs_write_data v buffer =
     write_at buffer 0
       ([vs_meta v, vs_user_meta v] @ enc_u64 (vs_cas_counter v) @ vs_value v)"

definition vs_read_data :: "value_struct \<Rightarrow> bytes \<Rightarrow> value_struct option" where
  "vs_read_data v buffer = do {
     (m, r) \<leftarrow> read_u8 buffer;
     (um, r) \<leftarrow> read_u8 r;
     (cas, r) \<leftarrow> read_u64 r;
     rest \<leftarrow> slice buffer vs_header_size (length buffer);
     Some (v\<lparr>vs_meta := m, vs_user_meta := um, vs_cas_counter := cas,
             vs_value := vs_value v @ rest\<rparr>) }"

text \<open>\<open>From<T: AsRef<[u8]>>\<close> and \<open>Into<Vec<u8>>\<close>.\<close>

definition vs_from :: "bytes \<Rightarrow> value_struct option" where
  "vs_from buffer = vs_read_data vs_default buffer"

definition vs_into :: "value_struct \<Rightarrow> bytes option" where
  "vs_into v = vs_write_data v (replicate (vs_size v) 0)"

text \<open>The wire image, which \<open>into\<close> always produces.\<close>

definition vs_bytes :: "value_struct \<Rightarrow> bytes" where
  "vs_bytes v = [vs_meta v, vs_user_meta v] @ enc_u64 (vs_cas_counter v) @ vs_value v"

lemma vs_bytes_length [simp]: "length (vs_bytes v) = vs_size v"
  by (simp add: vs_bytes_def vs_size_def vs_header_size_def)

lemma vs_into_bytes [simp]: "vs_into v = Some (vs_bytes v)"
  by (simp add: vs_into_def vs_write_data_def vs_bytes_def write_at_def vs_size_def vs_header_size_def)

lemma vs_size_ge: "10 \<le> vs_size v"
  by (simp add: vs_size_def vs_header_size_def)

lemma vs_from_bytes [simp]: "vs_from (vs_bytes v) = Some v"
  by (simp add: vs_from_def vs_read_data_def vs_bytes_def vs_header_size_def vs_default_def slice_def)

text \<open>
  The wire format of a value struct round-trips: \<open>into\<close> never panics, its image has
  exactly \<open>size()\<close> bytes, and \<open>from\<close> reads the same struct back, for every meta byte,
  user meta byte, CAS counter and value.
\<close>

lemma value_struct_roundtrip:
  "map_option length (vs_into v) = Some (vs_size v) \<and> Option.bind (vs_into v) vs_from = Some v"
  by simp

end
