(* ===== verification/Arena.thy ===== *)
theory Arena
  imports Y_Module
begin

section \<open>The skip list's arena: two-ended allocator, nodes, keys and values\<close>

text \<open>
  Models \<open>src/src/skl/alloc.rs\<close> (\<open>DoubleAlloc\<close>), \<open>src/src/skl/arena.rs\<close> (\<open>Arena\<close>) and
  \<open>src/src/skl/node.rs\<close> (\<open>Node\<close>). The allocator owns one buffer: nodes grow up from its low
  end, key and value bytes grow down from its high end. A \<open>&Node\<close> of the source is the
  offset of the node in the buffer; the node structs that the source reads and writes
  through a pointer cast are kept in a typed map \<open>da_nodes\<close> from offsets to node records,
  beside the bytes of the high end. The split is sound because no node region ever meets a
  byte region, which \<open>arena_regions_disjoint\<close> proves. The atomics are plain fields: these are the
  operations of one thread.
\<close>

unbundle bit_operations_syntax

subsection \<open>Node\<close>

definition MAX_HEIGHT :: nat where "MAX_HEIGHT = 20"

record node =
  key_offset :: u32
  key_size :: u16
  height :: u16
  node_value :: u64
  tower :: "u32 list"

definition node_default :: node where
  "node_default = \<lparr>key_offset = 0, key_size = 0, height = 0, node_value = 0,
                   tower = replicate MAX_HEIGHT 0\<rparr>"

definition PtrAlign :: u64 where "PtrAlign = 7"

text \<open>\<open>size_of::<Node>()\<close> of the \<open>repr(C)\<close> struct: u32, u16, u16, u64 and 20 times u32.\<close>

definition node_size :: nat where "node_size = 4 + 2 + 2 + 8 + 4 * MAX_HEIGHT"

definition node_align_size :: nat where
  "node_align_size = unat ((of_nat node_size + PtrAlign) AND NOT PtrAlign)"

definition encode_value :: "u32 \<Rightarrow> u16 \<Rightarrow> u64" where
  "encode_value value_offset value_size = push_bit 32 (ucast value_size) OR ucast value_offset"

definition decode_value :: "u64 \<Rightarrow> u32 \<times> u16" where
  "decode_value v = (ucast v, ucast (drop_bit 32 v))"

definition get_value_offset :: "node \<Rightarrow> u32 \<times> u16" where
  "get_value_offset nd = decode_value (node_value nd)"

text \<open>\<open>tower[h]\<close> panics for \<open>h \<ge> MAX_HEIGHT\<close>.\<close>

definition get_next_offset :: "node \<Rightarrow> nat \<Rightarrow> u32 option" where
  "get_next_offset nd h = (if h < length (tower nd) then Some (tower nd ! h) else None)"

subsection \<open>DoubleAlloc\<close>

record double_alloc =
  da_head :: nat
  da_tail :: nat
  da_ptr :: bytes
  da_cap :: nat
  da_nodes :: "nat \<rightharpoonup> node"

type_synonym arena = double_alloc

definition da_new :: "nat \<Rightarrow> double_alloc option" where
  "da_new n =
     (let n = unat (cals_size_with_align (of_nat n) PtrAlign) in
      if n mod (unat PtrAlign + 1) = 0
      then Some \<lparr>da_head = unat PtrAlign + 1, da_tail = n, da_ptr = replicate n 0,
                 da_cap = n, da_nodes = Map.empty\<rparr>
      else None)"

definition free_count :: "double_alloc \<Rightarrow> nat option" where
  "free_count a = (if da_head a < da_tail a then Some (da_tail a - da_head a) else None)"

definition da_alloc :: "double_alloc \<Rightarrow> nat \<Rightarrow> (nat \<times> double_alloc) option" where
  "da_alloc a sz = do {
     fc \<leftarrow> free_count a;
     if fc > sz then Some (da_head a, a\<lparr>da_head := da_head a + sz\<rparr>) else None }"

definition da_alloc_rev :: "double_alloc \<Rightarrow> nat \<Rightarrow> (nat \<times> double_alloc) option" where
  "da_alloc_rev a sz = do {
     fc \<leftarrow> free_count a;
     if fc > sz then Some (da_tail a - sz, a\<lparr>da_tail := da_tail a - sz\<rparr>) else None }"

definition da_len :: "double_alloc \<Rightarrow> nat" where
  "da_len a = da_cap a - (da_tail a - da_head a)"

subsection \<open>Arena\<close>

definition arena_new :: "nat \<Rightarrow> arena option" where
  "arena_new n = (if n > 0 then da_new (n + 1) else None)"

definition arena_size :: "arena \<Rightarrow> u32" where "arena_size a = of_nat (da_len a)"
definition arena_cap :: "arena \<Rightarrow> u32" where "arena_cap a = of_nat (da_cap a)"
definition arena_free_size :: "arena \<Rightarrow> u32" where
  "arena_free_size a = arena_cap a - arena_size a"

text \<open>Offset 0 is the nil pointer; elsewhere the node struct at the offset is read.\<close>

definition get_node :: "arena \<Rightarrow> nat \<Rightarrow> nat option" where
  "get_node a offset = (if offset = 0 then None else Some offset)"

definition node_at :: "arena \<Rightarrow> nat \<Rightarrow> node option" where
  "node_at a offset = da_nodes a offset"

definition put_key :: "arena \<Rightarrow> bytes \<Rightarrow> (u32 \<times> arena) option" where
  "put_key a key = do {
     (offset, a) \<leftarrow> da_alloc_rev a (length key);
     mem \<leftarrow> write_at (da_ptr a) offset key;
     Some (of_nat offset, a\<lparr>da_ptr := mem\<rparr>) }"

definition put_val :: "arena \<Rightarrow> value_struct \<Rightarrow> ((u32 \<times> u16) \<times> arena) option" where
  "put_val a v = do {
     buf \<leftarrow> vs_into v;
     (offset, a) \<leftarrow> put_key a buf;
     Some ((offset, of_nat (length buf)), a) }"

definition get_key :: "arena \<Rightarrow> u32 \<Rightarrow> u16 \<Rightarrow> bytes option" where
  "get_key a offset sz = slice (da_ptr a) (unat offset) (unat offset + unat sz)"

definition get_val :: "arena \<Rightarrow> u32 \<Rightarrow> u16 \<Rightarrow> value_struct option" where
  "get_val a offset sz = do { buffer \<leftarrow> get_key a offset sz; vs_from buffer }"

text \<open>The fresh node region still holds the zero bytes of the buffer, the all-zero node.\<close>

definition put_node :: "arena \<Rightarrow> (u32 \<times> arena) option" where
  "put_node a = do {
     (offset, a) \<leftarrow> da_alloc a node_align_size;
     Some (of_nat offset, a\<lparr>da_nodes := (da_nodes a)(offset \<mapsto> node_default)\<rparr>) }"

definition get_node_offset :: "nat option \<Rightarrow> nat" where
  "get_node_offset nd = (case nd of None \<Rightarrow> 0 | Some off \<Rightarrow> off)"

subsection \<open>Node operations that use the arena\<close>

definition node_new :: "arena \<Rightarrow> bytes \<Rightarrow> value_struct \<Rightarrow> nat \<Rightarrow> (nat \<times> arena) option" where
  "node_new a key v h = do {
     (k_off, a) \<leftarrow> put_key a key;
     ((v_off, v_size), a) \<leftarrow> put_val a v;
     (off, a) \<leftarrow> put_node a;
     p \<leftarrow> get_node a (unat off);
     nd \<leftarrow> node_at a p;
     let nd = nd\<lparr>key_offset := k_off, key_size := of_nat (length key),
                node_value := encode_value v_off v_size, height := of_nat h\<rparr>;
     Some (p, a\<lparr>da_nodes := (da_nodes a)(p \<mapsto> nd)\<rparr>) }"

definition set_value :: "arena \<Rightarrow> nat \<Rightarrow> value_struct \<Rightarrow> arena option" where
  "set_value a p v = do {
     ((v_off, v_size), a) \<leftarrow> put_val a v;
     nd \<leftarrow> node_at a p;
     Some (a\<lparr>da_nodes := (da_nodes a)(p \<mapsto> nd\<lparr>node_value := encode_value v_off v_size\<rparr>)\<rparr>) }"

definition node_key :: "arena \<Rightarrow> nat \<Rightarrow> bytes option" where
  "node_key a p = do { nd \<leftarrow> node_at a p; get_key a (key_offset nd) (key_size nd) }"

definition node_val :: "arena \<Rightarrow> nat \<Rightarrow> value_struct option" where
  "node_val a p = do {
     nd \<leftarrow> node_at a p;
     let (off, sz) = get_value_offset nd;
     get_val a off sz }"

definition store_next_offset :: "arena \<Rightarrow> nat \<Rightarrow> nat \<Rightarrow> u32 \<Rightarrow> arena option" where
  "store_next_offset a p h val = do {
     nd \<leftarrow> node_at a p;
     if h < length (tower nd)
     then Some (a\<lparr>da_nodes := (da_nodes a)(p \<mapsto> nd\<lparr>tower := (tower nd)[h := val]\<rparr>)\<rparr>)
     else None }"

definition cas_next_offset :: "arena \<Rightarrow> nat \<Rightarrow> nat \<Rightarrow> u32 \<Rightarrow> u32 \<Rightarrow> (bool \<times> arena) option" where
  "cas_next_offset a p h old val = do {
     nd \<leftarrow> node_at a p;
     cur \<leftarrow> get_next_offset nd h;
     if cur = old then do { a \<leftarrow> store_next_offset a p h val; Some (True, a) }
     else Some (False, a) }"

subsection \<open>Constants and codecs\<close>

lemma PtrAlign_unat [simp]: "unat PtrAlign = 7"
  by (simp add: PtrAlign_def)

lemma node_align_size_96 [simp]: "node_align_size = 96"
proof -
  have "unat ((96 + 7 :: u64) AND NOT 7) = 96"
    unfolding and_not_7 by simp
  then show ?thesis
    by (simp add: node_align_size_def node_size_def MAX_HEIGHT_def PtrAlign_def)
qed

lemma decode_encode_value [simp]: "decode_value (encode_value off sz) = (off, sz)"
proof -
  have "ucast (push_bit 32 (ucast sz :: u64) OR ucast off) = off"
    by (rule bit_word_eqI) (auto simp: bit_simps)
  moreover have "ucast (drop_bit 32 (push_bit 32 (ucast sz :: u64) OR ucast off)) = sz"
  proof (rule bit_word_eqI)
    fix n assume "n < LENGTH(16)"
    moreover have "\<not> bit off (32 + n)"
      using bit_imp_le_length [of off "32 + n"] by auto
    ultimately show "bit (ucast (drop_bit 32 (push_bit 32 (ucast sz :: u64) OR ucast off)) :: u16) n
        = bit sz n"
      by (auto simp: bit_simps)
  qed
  ultimately show ?thesis
    by (simp add: decode_value_def encode_value_def)
qed

subsection \<open>The arena invariant\<close>

definition arena_ok :: "arena \<Rightarrow> bool" where
  "arena_ok a \<longleftrightarrow> 8 \<le> da_head a \<and> da_head a \<le> da_tail a \<and> da_tail a \<le> da_cap a
     \<and> length (da_ptr a) = da_cap a \<and> da_cap a < 2 ^ 32 \<and> da_head a mod 8 = 0
     \<and> (\<forall>p nd. da_nodes a p = Some nd \<longrightarrow>
            8 \<le> p \<and> p + 96 \<le> da_head a \<and> p mod 8 = 0 \<and> length (tower nd) = MAX_HEIGHT)"

lemma arena_new_ok:
  assumes "arena_new n = Some a" and "n < 2 ^ 31" and "7 \<le> n"
  shows "arena_ok a" and "da_nodes a = Map.empty" and "da_head a = 8"
    and "da_tail a = da_cap a" and "da_cap a = (n + 8) div 8 * 8"
proof -
  have "unat (of_nat (n + 1) :: u64) = n + 1"
    using assms(2) by (intro unat_of_nat_u64) simp
  then have cap: "unat (cals_size_with_align (of_nat (n + 1)) 7) = (n + 8) div 8 * 8"
    using assms(2) by (subst cals_size_with_align_8) auto
  then have a: "a = \<lparr>da_head = 8, da_tail = (n + 8) div 8 * 8,
      da_ptr = replicate ((n + 8) div 8 * 8) 0, da_cap = (n + 8) div 8 * 8, da_nodes = Map.empty\<rparr>"
    using assms(1,3) by (simp add: arena_new_def da_new_def PtrAlign_def Let_def split: if_splits)
  show "da_nodes a = Map.empty" "da_head a = 8" "da_tail a = da_cap a"
    "da_cap a = (n + 8) div 8 * 8"
    by (simp_all add: a)
  have "(n + 8) div 8 * 8 \<le> n + 8" "8 \<le> (n + 8) div 8 * 8"
    by auto
  with assms(2) show "arena_ok a"
    by (simp add: arena_ok_def a)
qed

text \<open>\<open>byte_stable a a'\<close>: the bytes handed out so far are unchanged and the high end only grows down.\<close>

definition byte_stable :: "arena \<Rightarrow> arena \<Rightarrow> bool" where
  "byte_stable a a' \<longleftrightarrow> da_tail a' \<le> da_tail a \<and> da_cap a' = da_cap a
     \<and> (\<forall>x y. da_tail a \<le> x \<longrightarrow> slice (da_ptr a') x y = slice (da_ptr a) x y)"

lemma byte_stable_refl [simp]: "byte_stable a a"
  by (simp add: byte_stable_def)

lemma byte_stable_trans: "byte_stable a b \<Longrightarrow> byte_stable b c \<Longrightarrow> byte_stable a c"
  by (auto simp: byte_stable_def)

lemma byte_stable_get_key:
  "byte_stable a a' \<Longrightarrow> da_tail a \<le> unat off \<Longrightarrow> get_key a' off sz = get_key a off sz"
  by (simp add: byte_stable_def get_key_def)

text \<open>A call of \<open>put_key\<close> with room: where the bytes go, and what is kept.\<close>

lemma put_key_ok:
  assumes ok: "arena_ok a" and room: "da_head a + length key < da_tail a"
  obtains off a' where "put_key a key = Some (off, a')" and "arena_ok a'"
    and "unat off = da_tail a - length key" and "da_tail a' = da_tail a - length key"
    and "da_head a' = da_head a" and "da_nodes a' = da_nodes a"
    and "slice (da_ptr a') (unat off) (unat off + length key) = Some key"
    and "byte_stable a a'"
proof -
  let ?off = "da_tail a - length key"
  have fits: "?off + length key \<le> length (da_ptr a)"
    using ok room by (auto simp: arena_ok_def)
  then obtain mem where mem: "write_at (da_ptr a) ?off key = Some mem"
    by (simp add: write_at_def)
  let ?a' = "a\<lparr>da_tail := ?off, da_ptr := mem\<rparr>"
  have eq: "put_key a key = Some (of_nat ?off, ?a')"
    using room mem by (simp add: put_key_def da_alloc_rev_def free_count_def)
  have off: "unat (of_nat ?off :: u32) = ?off"
    using ok by (intro unat_of_nat_u32) (auto simp: arena_ok_def)
  have "arena_ok ?a'"
    using ok room write_at_length [OF mem] by (auto simp: arena_ok_def)
  moreover have "byte_stable a ?a'"
    using slice_write_at_other [OF mem] fits room by (auto simp: byte_stable_def)
  ultimately show ?thesis
    using that [OF eq _ off] slice_write_at_same [OF mem] off by simp
qed

lemma put_val_ok:
  assumes ok: "arena_ok a" and room: "da_head a + vs_size v < da_tail a"
    and small: "vs_size v < 65536"
  obtains off sz a' where "put_val a v = Some ((off, sz), a')" and "arena_ok a'"
    and "da_tail a' = da_tail a - vs_size v" and "da_head a' = da_head a"
    and "da_nodes a' = da_nodes a" and "get_val a' off sz = Some v"
    and "da_tail a' \<le> unat off" and "byte_stable a a'"
proof -
  obtain off a' where p: "put_key a (vs_bytes v) = Some (off, a')" "arena_ok a'"
    "unat off = da_tail a - vs_size v" "da_tail a' = da_tail a - vs_size v"
    "da_head a' = da_head a" "da_nodes a' = da_nodes a"
    "slice (da_ptr a') (unat off) (unat off + vs_size v) = Some (vs_bytes v)" "byte_stable a a'"
    using put_key_ok [OF ok, of "vs_bytes v"] room by (metis vs_bytes_length)
  have "put_val a v = Some ((off, of_nat (vs_size v)), a')"
    using p(1) by (simp add: put_val_def)
  moreover have "get_val a' off (of_nat (vs_size v)) = Some v"
    using p(7) small by (simp add: get_val_def get_key_def)
  ultimately show ?thesis using that p by simp
qed

lemma arena_ok_nodeD:
  assumes "arena_ok a" and "da_nodes a p = Some nd"
  shows "8 \<le> p" and "p + 96 \<le> da_head a" and "p mod 8 = 0" and "length (tower nd) = MAX_HEIGHT"
  using assms by (auto simp: arena_ok_def)

lemma arena_ok_node_update:
  assumes ok: "arena_ok a" and p: "8 \<le> p" "p + 96 \<le> da_head a + 96" "p mod 8 = 0"
    and room: "da_head a + 96 < da_tail a" and t: "length (tower nd) = MAX_HEIGHT"
  shows "arena_ok (a\<lparr>da_head := da_head a + 96, da_nodes := (da_nodes a)(p \<mapsto> nd)\<rparr>)"
proof -
  have "8 \<le> q \<and> q + 96 \<le> da_head a + 96 \<and> q mod 8 = 0 \<and> length (tower m) = MAX_HEIGHT"
    if "((da_nodes a)(p \<mapsto> nd)) q = Some m" for q m
    using that p t arena_ok_nodeD [OF ok, of q m] by (cases "q = p") auto
  moreover have "(da_head a + 96) mod 8 = 0"
    using ok by (simp add: arena_ok_def mod_add_eq [symmetric])
  ultimately show ?thesis
    using ok room by (simp add: arena_ok_def)
qed

lemma put_node_ok:
  assumes ok: "arena_ok a" and room: "da_head a + 96 < da_tail a"
  obtains a' where "put_node a = Some (of_nat (da_head a), a')" and "arena_ok a'"
    and "unat (of_nat (da_head a) :: u32) = da_head a"
    and "da_tail a' = da_tail a" and "da_head a' = da_head a + 96" and "da_ptr a' = da_ptr a"
    and "da_cap a' = da_cap a"
    and "da_nodes a' = (da_nodes a)(da_head a \<mapsto> node_default)" and "da_nodes a (da_head a) = None"
proof -
  have fresh: "da_nodes a (da_head a) = None"
    using ok by (cases "da_nodes a (da_head a)") (fastforce simp: arena_ok_def)+
  let ?a' = "a\<lparr>da_head := da_head a + 96, da_nodes := (da_nodes a)(da_head a \<mapsto> node_default)\<rparr>"
  have "put_node a = Some (of_nat (da_head a), ?a')"
    using room by (simp add: put_node_def da_alloc_def free_count_def)
  moreover have "unat (of_nat (da_head a) :: u32) = da_head a"
    using ok by (intro unat_of_nat_u32) (auto simp: arena_ok_def)
  moreover have "arena_ok ?a'"
    by (rule arena_ok_node_update [where a = a and p = "da_head a" and nd = node_default, OF ok _ _ _ room])
      (use ok in \<open>auto simp: arena_ok_def node_default_def\<close>)
  ultimately show ?thesis using that fresh by simp
qed

subsection \<open>Nodes whose key and value can be read\<close>

text \<open>
  \<open>node_wf a p\<close>: there is a node at \<open>p\<close> and the bytes of its key and of its value lie in the
  part of the buffer that was handed out from the high end.
\<close>

definition node_wf :: "arena \<Rightarrow> nat \<Rightarrow> bool" where
  "node_wf a p \<longleftrightarrow> (\<exists>nd k v. da_nodes a p = Some nd
     \<and> da_tail a \<le> unat (key_offset nd) \<and> node_key a p = Some k
     \<and> da_tail a \<le> unat (fst (get_value_offset nd)) \<and> node_val a p = Some v)"

text \<open>Two node structs that agree on everything but the tower.\<close>

definition same_payload :: "node \<Rightarrow> node \<Rightarrow> bool" where
  "same_payload n m \<longleftrightarrow> key_offset n = key_offset m \<and> key_size n = key_size m
     \<and> node_value n = node_value m"

lemma node_key_stable:
  assumes "byte_stable a a'" and "da_nodes a p = Some nd" and "da_nodes a' p = Some nd'"
    and "key_offset nd' = key_offset nd" and "key_size nd' = key_size nd"
    and "da_tail a \<le> unat (key_offset nd)"
  shows "node_key a' p = node_key a p"
  using assms byte_stable_get_key [OF assms(1)] by (simp add: node_key_def node_at_def)

lemma node_val_stable:
  assumes "byte_stable a a'" and "da_nodes a p = Some nd" and "da_nodes a' p = Some nd'"
    and "node_value nd' = node_value nd" and "da_tail a \<le> unat (fst (get_value_offset nd))"
  shows "node_val a' p = node_val a p"
  using assms byte_stable_get_key [OF assms(1)]
  by (cases "decode_value (node_value nd)")
    (simp add: node_val_def node_at_def get_val_def get_value_offset_def)

lemma node_wf_stable:
  assumes st: "byte_stable a a'" and wf: "node_wf a p"
    and nodes: "\<And>nd. da_nodes a p = Some nd \<Longrightarrow> \<exists>nd'. da_nodes a' p = Some nd' \<and> same_payload nd nd'"
  shows "node_wf a' p" and "node_key a' p = node_key a p" and "node_val a' p = node_val a p"
proof -
  obtain nd k v where w: "da_nodes a p = Some nd" "da_tail a \<le> unat (key_offset nd)"
    "node_key a p = Some k" "da_tail a \<le> unat (fst (get_value_offset nd))" "node_val a p = Some v"
    using wf by (auto simp: node_wf_def)
  obtain nd' where n: "da_nodes a' p = Some nd'" "same_payload nd nd'"
    using nodes [OF w(1)] by auto
  show key: "node_key a' p = node_key a p"
    using node_key_stable [OF st w(1) n(1)] n(2) w(2) by (simp add: same_payload_def)
  show val: "node_val a' p = node_val a p"
    using node_val_stable [OF st w(1) n(1)] n(2) w(4) by (simp add: same_payload_def)
  show "node_wf a' p"
    using st n key val w by (auto simp: node_wf_def byte_stable_def same_payload_def get_value_offset_def)
qed

lemma node_new_ok:
  assumes ok: "arena_ok a" and room: "da_head a + 96 + length key + vs_size v < da_tail a"
    and small: "length key < 65536" "vs_size v < 65536"
  obtains a' nd where "node_new a key v h = Some (da_head a, a')" and "arena_ok a'"
    and "da_nodes a (da_head a) = None" and "da_nodes a' = (da_nodes a)(da_head a \<mapsto> nd)"
    and "tower nd = replicate MAX_HEIGHT 0" and "height nd = of_nat h"
    and "node_wf a' (da_head a)" and "node_key a' (da_head a) = Some key"
    and "node_val a' (da_head a) = Some v" and "byte_stable a a'"
    and "da_head a' = da_head a + 96"
    and "da_tail a' = da_tail a - length key - vs_size v"
proof -
  let ?p = "da_head a"
  obtain k_off a1 where a1: "put_key a key = Some (k_off, a1)" "arena_ok a1"
    "unat k_off = da_tail a - length key" "da_tail a1 = da_tail a - length key"
    "da_head a1 = da_head a" "da_nodes a1 = da_nodes a"
    "slice (da_ptr a1) (unat k_off) (unat k_off + length key) = Some key" "byte_stable a a1"
    using put_key_ok [OF ok, of key] room by auto
  have r1: "da_head a1 + vs_size v < da_tail a1" using room a1(4,5) by simp
  obtain v_off v_sz a2 where a2: "put_val a1 v = Some ((v_off, v_sz), a2)" "arena_ok a2"
    "da_tail a2 = da_tail a1 - vs_size v" "da_head a2 = da_head a1" "da_nodes a2 = da_nodes a1"
    "get_val a2 v_off v_sz = Some v" "da_tail a2 \<le> unat v_off" "byte_stable a1 a2"
    using put_val_ok [OF a1(2) r1 small(2)] by auto
  have r2: "da_head a2 + 96 < da_tail a2" using room a1(4,5) a2(3,4) by simp
  obtain a3 where a3: "put_node a2 = Some (of_nat ?p, a3)" "arena_ok a3"
    "unat (of_nat ?p :: u32) = ?p" "da_tail a3 = da_tail a2" "da_head a3 = ?p + 96"
    "da_ptr a3 = da_ptr a2" "da_cap a3 = da_cap a2"
    "da_nodes a3 = (da_nodes a)(?p \<mapsto> node_default)" "da_nodes a ?p = None"
    using put_node_ok [OF a2(2) r2] a1 a2 by auto
  define nd where "nd = node_default\<lparr>key_offset := k_off, key_size := of_nat (length key),
      node_value := encode_value v_off v_sz, height := of_nat h\<rparr>"
  define a4 where "a4 = a3\<lparr>da_nodes := (da_nodes a)(?p \<mapsto> nd)\<rparr>"
  have nz: "?p \<noteq> 0" using ok by (simp add: arena_ok_def)
  have eq: "node_new a key v h = Some (?p, a4)"
    using nz by (simp add: node_new_def a1(1) a2(1) a3(1,3,8) get_node_def node_at_def nd_def a4_def)
  have bs: "byte_stable a2 a4" "byte_stable a a4"
    using byte_stable_trans [OF a1(8) a2(8)] a3(4,6,7)
    by (auto simp: byte_stable_def a4_def)
  have k: "node_key a4 ?p = Some key"
    using byte_stable_get_key [OF a2(8), of k_off "of_nat (length key)"] a1(3,4,7) small(1)
    by (simp add: node_key_def node_at_def a4_def nd_def get_key_def a3(6))
  have v: "node_val a4 ?p = Some v"
    using a2(6) by (simp add: node_val_def node_at_def a4_def nd_def get_value_offset_def
        get_val_def get_key_def a3(6))
  have wf: "node_wf a4 ?p"
    using k v a1(3,4) a2(3,7) a3(4)
    by (auto simp: node_wf_def a4_def nd_def get_value_offset_def)
  have "arena_ok a4"
    using a3(2) a3(8) unfolding arena_ok_def
    by (auto simp: a4_def nd_def node_default_def split: if_splits)
  then show ?thesis
    using that [OF eq] a3 k v wf bs a1(4) a2(3)
    by (simp add: a4_def nd_def node_default_def)
qed

lemma set_value_ok:
  assumes ok: "arena_ok a" and room: "da_head a + vs_size v < da_tail a"
    and small: "vs_size v < 65536" and wf: "node_wf a p"
  obtains a' nd nd' where "set_value a p v = Some a'" and "arena_ok a'"
    and "da_nodes a p = Some nd" and "da_nodes a' = (da_nodes a)(p \<mapsto> nd')"
    and "tower nd' = tower nd" and "height nd' = height nd"
    and "node_wf a' p" and "node_key a' p = node_key a p" and "node_val a' p = Some v"
    and "byte_stable a a'" and "da_head a' = da_head a" and "da_tail a' = da_tail a - vs_size v"
proof -
  obtain nd k where w: "da_nodes a p = Some nd" "da_tail a \<le> unat (key_offset nd)"
    "node_key a p = Some k"
    using wf by (auto simp: node_wf_def)
  obtain off sz a1 where a1: "put_val a v = Some ((off, sz), a1)" "arena_ok a1"
    "da_tail a1 = da_tail a - vs_size v" "da_head a1 = da_head a" "da_nodes a1 = da_nodes a"
    "get_val a1 off sz = Some v" "da_tail a1 \<le> unat off" "byte_stable a a1"
    using put_val_ok [OF ok room small] by auto
  define nd' where "nd' = nd\<lparr>node_value := encode_value off sz\<rparr>"
  define a2 where "a2 = a1\<lparr>da_nodes := (da_nodes a)(p \<mapsto> nd')\<rparr>"
  have eq: "set_value a p v = Some a2"
    by (simp add: set_value_def a1(1,5) node_at_def w(1) nd'_def a2_def)
  have bs: "byte_stable a a2"
    using a1(8) by (simp add: byte_stable_def a2_def)
  have key: "node_key a2 p = node_key a p"
    by (rule node_key_stable [OF bs w(1) _ _ _ w(2), where nd' = nd']) (simp_all add: a2_def nd'_def)
  have val: "node_val a2 p = Some v"
    using a1(6) by (simp add: node_val_def node_at_def a2_def nd'_def get_value_offset_def
        get_val_def get_key_def)
  have "node_wf a2 p"
    using key val w a1(3,7) by (auto simp: node_wf_def a2_def nd'_def get_value_offset_def)
  moreover have "arena_ok a2"
    using a1(2,5) w(1) unfolding arena_ok_def by (auto simp: a2_def nd'_def split: if_splits)
  moreover have "da_nodes a2 = (da_nodes a)(p \<mapsto> nd')" "tower nd' = tower nd" "height nd' = height nd"
    "da_head a2 = da_head a" "da_tail a2 = da_tail a - vs_size v"
    using a1(3,4) by (simp_all add: a2_def nd'_def)
  ultimately show ?thesis
    using that [OF eq _ w(1)] key val bs by blast
qed

subsection \<open>Regions handed out by the arena\<close>

text \<open>
  A sequence of allocating calls, with the region (start and length) that each call hands
  out: the offset the code returns and the number of bytes it may write there.
\<close>

datatype arena_call = PutKey bytes | PutVal value_struct | PutNode

fun do_call :: "arena_call \<Rightarrow> arena \<Rightarrow> ((nat \<times> nat) \<times> arena) option" where
  "do_call (PutKey k) a = do { (off, a) \<leftarrow> put_key a k; Some ((unat off, length k), a) }"
| "do_call (PutVal v) a = do { ((off, sz), a) \<leftarrow> put_val a v; Some ((unat off, unat sz), a) }"
| "do_call PutNode a = do { (off, a) \<leftarrow> put_node a; Some ((unat off, node_align_size), a) }"

fun arena_calls :: "arena_call list \<Rightarrow> arena \<Rightarrow> ((nat \<times> nat) list \<times> arena) option" where
  "arena_calls [] a = Some ([], a)"
| "arena_calls (c # cs) a = do {
     (r, a) \<leftarrow> do_call c a;
     (rs, a) \<leftarrow> arena_calls cs a;
     Some (r # rs, a) }"

definition regions_disjoint :: "nat \<times> nat \<Rightarrow> nat \<times> nat \<Rightarrow> bool" where
  "regions_disjoint r q \<longleftrightarrow> fst r + snd r \<le> fst q \<or> fst q + snd q \<le> fst r"

text \<open>A region lies in the part that the low or the high end gave away between two states.\<close>

definition region_between :: "arena \<Rightarrow> arena \<Rightarrow> nat \<times> nat \<Rightarrow> bool" where
  "region_between a a' r \<longleftrightarrow>
     (da_head a \<le> fst r \<and> fst r + snd r \<le> da_head a') \<or>
     (da_tail a' \<le> fst r \<and> fst r + snd r \<le> da_tail a)"

definition arena_shrinks :: "arena \<Rightarrow> arena \<Rightarrow> bool" where
  "arena_shrinks a a' \<longleftrightarrow> arena_ok a' \<and> da_head a \<le> da_head a' \<and> da_tail a' \<le> da_tail a
     \<and> da_cap a' = da_cap a"

lemma put_key_room: "put_key a k = Some r \<Longrightarrow> da_head a + length k < da_tail a"
  by (auto simp: put_key_def da_alloc_rev_def free_count_def bind_eq_Some_conv split: if_splits)

lemma put_key_step:
  assumes ok: "arena_ok a" and put: "put_key a k = Some (off, a')"
  shows "arena_shrinks a a'" and "region_between a a' (unat off, length k)"
proof -
  note room = put_key_room [OF put]
  obtain off2 a2 where p: "put_key a k = Some (off2, a2)" "arena_ok a2"
    "unat off2 = da_tail a - length k" "da_tail a2 = da_tail a - length k"
    "da_head a2 = da_head a" "byte_stable a a2"
    using put_key_ok [OF ok room] by metis
  then have "off2 = off" "a2 = a'" using put by auto
  with p room show "arena_shrinks a a'" "region_between a a' (unat off, length k)"
    by (auto simp: arena_shrinks_def region_between_def byte_stable_def)
qed

lemma arena_call_step:
  assumes ok: "arena_ok a" and call: "do_call c a = Some (r, a')"
    and small: "\<And>v. c = PutVal v \<Longrightarrow> vs_size v < 65536"
  shows "arena_shrinks a a' \<and> region_between a a' r"
proof (cases c)
  case (PutKey k)
  with call show ?thesis
    using put_key_step [OF ok] by (auto simp: bind_eq_Some_conv)
next
  case (PutVal v)
  with call small [OF PutVal] show ?thesis
    using put_key_step [OF ok, of "vs_bytes v"]
    by (auto simp: bind_eq_Some_conv put_val_def)
next
  case PutNode
  with call have room: "da_head a + 96 < da_tail a"
    by (auto simp: put_node_def da_alloc_def free_count_def bind_eq_Some_conv split: if_splits)
  obtain a2 where p: "put_node a = Some (of_nat (da_head a), a2)" "arena_ok a2"
    "unat (of_nat (da_head a) :: u32) = da_head a" "da_tail a2 = da_tail a"
    "da_head a2 = da_head a + 96" "da_cap a2 = da_cap a"
    using put_node_ok [OF ok room] by metis
  with call PutNode show ?thesis
    by (auto simp: arena_shrinks_def region_between_def)
qed

lemma region_between_later:
  assumes "arena_shrinks a b" and "arena_shrinks b c"
  shows "region_between a b r \<Longrightarrow> region_between a c r"
    and "region_between b c q \<Longrightarrow> region_between a c q"
    and "region_between a b r \<Longrightarrow> region_between b c q \<Longrightarrow> regions_disjoint r q"
  using assms by (auto simp: region_between_def arena_shrinks_def regions_disjoint_def arena_ok_def)

lemma arena_calls_regions:
  assumes "arena_ok a" and "arena_calls cs a = Some (rs, a')"
    and "\<forall>v. PutVal v \<in> set cs \<longrightarrow> vs_size v < 65536"
  shows "arena_shrinks a a' \<and> list_all (region_between a a') rs \<and> sorted_wrt regions_disjoint rs"
  using assms
proof (induction cs arbitrary: a rs)
  case Nil
  then show ?case by (simp add: arena_shrinks_def)
next
  case (Cons c cs)
  from Cons.prems(2) obtain r b rs' where
    rs: "rs = r # rs'" "do_call c a = Some (r, b)" "arena_calls cs b = Some (rs', a')"
    by (auto simp: bind_eq_Some_conv)
  have ab: "arena_shrinks a b" "region_between a b r"
    using arena_call_step [OF Cons.prems(1) rs(2)] Cons.prems(3) by auto
  then have bc: "arena_shrinks b a'" "list_all (region_between b a') rs'"
    "sorted_wrt regions_disjoint rs'"
    using Cons.IH [of b rs'] rs(3) Cons.prems(3) by (auto simp: arena_shrinks_def)
  note later = region_between_later [OF ab(1) bc(1)]
  have "arena_shrinks a a'"
    using ab(1) bc(1) by (auto simp: arena_shrinks_def)
  moreover have "\<forall>q\<in>set rs'. regions_disjoint r q"
    using later(3) [OF ab(2)] bc(2) by (auto simp: list_all_iff)
  ultimately show ?case
    using later(1) [OF ab(2)] later(2) bc by (auto simp: rs(1) list_all_iff)
qed

text \<open>
  C35. The arena never hands out the same byte twice. After any sequence of successful
  \<open>put_key\<close>, \<open>put_val\<close> and \<open>put_node\<close> calls on a fresh arena, the regions that the calls
  returned are pairwise disjoint, none contains offset 0 (the nil pointer) and all lie inside
  the buffer, and the two ends of the allocator have not crossed.
\<close>

theorem arena_regions_disjoint:
  assumes "arena_new n = Some a" and "7 \<le> n" and "n < 2 ^ 31"
    and "arena_calls cs a = Some (rs, a')" and "\<forall>v. PutVal v \<in> set cs \<longrightarrow> vs_size v < 65536"
  shows "sorted_wrt regions_disjoint rs
    \<and> (\<forall>r\<in>set rs. 8 \<le> fst r \<and> fst r + snd r \<le> da_cap a) \<and> da_head a' \<le> da_tail a'"
proof -
  have ok: "arena_ok a" and h: "da_head a = 8" "da_tail a = da_cap a"
    using arena_new_ok [OF assms(1,3,2)] by auto
  note r = arena_calls_regions [OF ok assms(4,5)]
  then have "arena_ok a'" "da_head a \<le> da_head a'" "da_tail a' \<le> da_tail a"
    by (auto simp: arena_shrinks_def)
  with r h show ?thesis
    by (fastforce simp: list_all_iff region_between_def arena_ok_def)
qed

text \<open>Non-vacuity of C35: a key and a node on a concrete small arena.\<close>

theorem arena_regions_disjoint_witness:
  "\<exists>a rs a'. arena_new 199 = Some a \<and> arena_calls [PutKey [1, 2], PutNode] a = Some (rs, a')
     \<and> rs = [(198, 2), (8, 96)] \<and> sorted_wrt regions_disjoint rs"
proof -
  define a where "a = \<lparr>da_head = 8, da_tail = 200, da_ptr = replicate 200 0, da_cap = 200,
    da_nodes = Map.empty\<rparr>"
  have "unat (cals_size_with_align 200 7) = 200"
    by (subst cals_size_with_align_8) auto
  then have new: "arena_new 199 = Some a"
    by (simp add: arena_new_def da_new_def PtrAlign_def a_def Let_def)
  obtain a' where run: "arena_calls [PutKey [1, 2], PutNode] a = Some ([(198, 2), (8, 96)], a')"
    by (simp add: put_key_def put_node_def da_alloc_def da_alloc_rev_def free_count_def
        write_at_def a_def)
  show ?thesis
    using arena_regions_disjoint [OF new _ _ run] new run by auto
qed

end
