(* ===== verification/Skiplist.thy ===== *)
theory Skiplist
  imports Arena
begin

section \<open>The skip list\<close>

text \<open>
  Models \<open>src/src/skl/skip.rs\<close> (\<open>SkipList\<close>): the search loops, the insertion with its splice
  search, node creation, height bump and level-by-level linking, and the traversals. A node
  pointer is an offset into the arena; a null raw pointer is \<^term>\<open>None\<close>. Every loop that
  follows next-pointers is a partial function into \<open>option\<close>, so that its termination is
  something the theorems have to show. The operations are those of one thread: a
  \<open>compare_exchange\<close> compares and stores in one step, and the branch in which it fails is kept.
\<close>

subsection \<open>State\<close>

record skip_list =
  sl_height :: nat
  sl_head :: nat
  sl_ref :: int
  sl_arena :: arena
  sl_id :: u32

definition HEIGHT_INCREASE :: u32 where "HEIGHT_INCREASE = 4294967295 div 3"

text \<open>\<open>random::<u32>()\<close> is a stream of draws.\<close>

function random_height_loop :: "(nat \<Rightarrow> u32) \<Rightarrow> nat \<Rightarrow> nat \<Rightarrow> nat" where
  "random_height_loop rnd i h =
     (if h < MAX_HEIGHT \<and> rnd i \<le> HEIGHT_INCREASE then random_height_loop rnd (i + 1) (h + 1) else h)"
  by pat_completeness auto
termination
  by (relation "measure (\<lambda>(r, i, h). MAX_HEIGHT - h)") auto

declare random_height_loop.simps [simp del]

definition random_height :: "(nat \<Rightarrow> u32) \<Rightarrow> nat" where
  "random_height rnd = random_height_loop rnd 0 1"

definition sl_new :: "nat \<Rightarrow> u32 \<Rightarrow> skip_list option" where
  "sl_new arena_sz sid = do {
     arena \<leftarrow> arena_new arena_sz;
     (nd, arena) \<leftarrow> node_new arena [] vs_default MAX_HEIGHT;
     Some \<lparr>sl_height = 1, sl_head = nd, sl_ref = 1, sl_arena = arena, sl_id = sid\<rparr> }"

definition incr_ref :: "skip_list \<Rightarrow> skip_list" where
  "incr_ref s = s\<lparr>sl_ref := sl_ref s + 1\<rparr>"

definition decr_ref :: "skip_list \<Rightarrow> skip_list" where
  "decr_ref s = s\<lparr>sl_ref := sl_ref s - 1\<rparr>"

definition mem_size :: "skip_list \<Rightarrow> u32" where "mem_size s = arena_size (sl_arena s)"

definition free_size :: "skip_list \<Rightarrow> u32" where "free_size s = arena_free_size (sl_arena s)"

definition sl_cap :: "skip_list \<Rightarrow> u32" where "sl_cap s = arena_cap (sl_arena s)"

definition get_next :: "skip_list \<Rightarrow> nat \<Rightarrow> nat \<Rightarrow> nat option option" where
  "get_next s nd h = do {
     n \<leftarrow> node_at (sl_arena s) nd;
     off \<leftarrow> get_next_offset n h;
     Some (get_node (sl_arena s) (unat off)) }"

subsection \<open>Searching\<close>

text \<open>The loop of \<open>find_near\<close>; \<open>x\<close> and \<open>level\<close> are its two mutable variables.\<close>

partial_function (option) find_near_loop ::
    "skip_list \<Rightarrow> bytes \<Rightarrow> bool \<Rightarrow> bool \<Rightarrow> nat \<Rightarrow> nat \<Rightarrow> (nat option \<times> bool) option" where
  "find_near_loop s key lesser allow_equal x level = do {
     next \<leftarrow> get_next s x level;
     (case next of
        None \<Rightarrow>
          if level > 0 then find_near_loop s key lesser allow_equal x (level - 1)
          else if \<not> lesser then Some (None, False)
          else if x = sl_head s then Some (None, False)
          else Some (Some x, False)
      | Some next \<Rightarrow> do {
          next_key \<leftarrow> node_key (sl_arena s) next;
          (case rcmp key next_key of
             Greater \<Rightarrow> find_near_loop s key lesser allow_equal next level
           | Equal \<Rightarrow>
               if allow_equal then Some (Some next, True)
               else if \<not> lesser then do { n \<leftarrow> get_next s next 0; Some (n, False) }
               else if level > 0 then find_near_loop s key lesser allow_equal x (level - 1)
               else if x = sl_head s then Some (None, False)
               else Some (Some x, False)
           | Less \<Rightarrow>
               if level > 0 then find_near_loop s key lesser allow_equal x (level - 1)
               else if \<not> lesser then Some (Some next, False)
               else if x = sl_head s then Some (None, False)
               else Some (Some x, False)) }) }"

definition find_near :: "skip_list \<Rightarrow> bytes \<Rightarrow> bool \<Rightarrow> bool \<Rightarrow> (nat option \<times> bool) option" where
  "find_near s key lesser allow_equal =
     find_near_loop s key lesser allow_equal (sl_head s) (sl_height s - 1)"

partial_function (option) find_splice_for_level ::
    "skip_list \<Rightarrow> bytes \<Rightarrow> nat \<Rightarrow> nat \<Rightarrow> (nat \<times> nat option) option" where
  "find_splice_for_level s key before level = do {
     next \<leftarrow> get_next s before level;
     (case next of
        None \<Rightarrow> Some (before, None)
      | Some next \<Rightarrow> do {
          next_key \<leftarrow> node_key (sl_arena s) next;
          (case rcmp key next_key of
             Equal \<Rightarrow> Some (next, Some next)
           | Less \<Rightarrow> Some (before, Some next)
           | Greater \<Rightarrow> find_splice_for_level s key next level) }) }"

partial_function (option) find_last_loop :: "skip_list \<Rightarrow> nat \<Rightarrow> nat \<Rightarrow> nat option option" where
  "find_last_loop s n level = do {
     next \<leftarrow> get_next s n level;
     (case next of
        Some m \<Rightarrow> find_last_loop s m level
      | None \<Rightarrow>
          if level = 0 then (if n = sl_head s then Some None else Some (Some n))
          else find_last_loop s n (level - 1)) }"

definition sl_find_last :: "skip_list \<Rightarrow> nat option option" where
  "sl_find_last s = find_last_loop s (sl_head s) (sl_height s - 1)"

definition sl_empty :: "skip_list \<Rightarrow> bool option" where
  "sl_empty s = map_option (\<lambda>n. n = None) (sl_find_last s)"

definition sl_get :: "skip_list \<Rightarrow> bytes \<Rightarrow> value_struct option option" where
  "sl_get s key = do {
     (node, found) \<leftarrow> find_near s key False True;
     if \<not> found then Some None
     else (case node of
             Some p \<Rightarrow> do {
               nd \<leftarrow> node_at (sl_arena s) p;
               let (offset, sz) = get_value_offset nd;
               value \<leftarrow> get_val (sl_arena s) offset sz;
               Some (Some value) }
           | None \<Rightarrow> Some None) }"

partial_function (option) key_values_loop ::
    "skip_list \<Rightarrow> nat \<Rightarrow> (bytes \<times> value_struct) list \<Rightarrow> (bytes \<times> value_struct) list option" where
  "key_values_loop s cur v =
     (if cur > 0 then do {
        p \<leftarrow> get_node (sl_arena s) cur;
        key \<leftarrow> node_key (sl_arena s) p;
        nd \<leftarrow> node_at (sl_arena s) p;
        let (value_offset, value_sz) = get_value_offset nd;
        value \<leftarrow> get_val (sl_arena s) value_offset value_sz;
        nxt \<leftarrow> get_next_offset nd 0;
        key_values_loop s (unat nxt) (v @ [(key, value)]) }
      else Some v)"

definition key_values :: "skip_list \<Rightarrow> (bytes \<times> value_struct) list option" where
  "key_values s = do {
     nd \<leftarrow> node_at (sl_arena s) (sl_head s);
     cur \<leftarrow> get_next_offset nd 0;
     key_values_loop s (unat cur) [] }"

subsection \<open>Insertion\<close>

text \<open>
  The first loop of \<open>_put\<close>, from \<open>i - 1\<close> down to 0: it fills \<open>prev\<close> and \<open>next\<close>, or
  overwrites the value of an existing node and returns (\<open>Inl\<close>).
\<close>

type_synonym splice = "nat option list \<times> nat option list"

primrec put_splices ::
    "skip_list \<Rightarrow> bytes \<Rightarrow> value_struct \<Rightarrow> nat \<Rightarrow> splice \<Rightarrow> (skip_list + splice) option" where
  "put_splices s key v 0 sp = Some (Inr sp)"
| "put_splices s key v (Suc i) sp = do {
     let (prev, next) = sp;
     cur \<leftarrow> prev ! (i + 1);
     (pre, nxt) \<leftarrow> find_splice_for_level s key cur i;
     let prev = prev[i := Some pre];
     if nxt = Some pre then do {
       a \<leftarrow> set_value (sl_arena s) pre v;
       Some (Inl (s\<lparr>sl_arena := a\<rparr>)) }
     else put_splices s key v i (prev, if nxt \<noteq> None then next[i := nxt] else next) }"

text \<open>The \<open>loop\<close> that links the new node \<open>x\<close> on level \<open>i\<close>; \<open>Inl\<close> is the early return.\<close>

partial_function (option) link_level ::
    "bytes \<Rightarrow> value_struct \<Rightarrow> nat \<Rightarrow> nat \<Rightarrow> skip_list \<Rightarrow> splice
      \<Rightarrow> (skip_list + skip_list \<times> splice) option" where
  "link_level key v x i s sp = do {
     let (prev, next) = sp;
     (prev, next) \<leftarrow>
       (if prev ! i = None then
          if i > 1 then do {
            (pre, nxt) \<leftarrow> find_splice_for_level s key (sl_head s) i;
            let prev = prev[i := Some pre];
            let next = (if nxt \<noteq> None then next[i := nxt] else next);
            if prev ! i \<noteq> next ! i then Some (prev, next) else None }
          else None
        else Some (prev, next));
     let next_offset = (of_nat (get_node_offset (next ! i)) :: u32);
     a \<leftarrow> store_next_offset (sl_arena s) x i next_offset;
     p \<leftarrow> prev ! i;
     (ok, a) \<leftarrow> cas_next_offset a p i next_offset (of_nat x);
     let s = s\<lparr>sl_arena := a\<rparr>;
     if ok then Some (Inr (s, (prev, next)))
     else do {
       (pre, nxt) \<leftarrow> find_splice_for_level s key p i;
       let prev = prev[i := Some pre];
       let next = next[i := nxt];
       if nxt = Some pre then
         (if i = 0 then do {
            a \<leftarrow> set_value (sl_arena s) pre v;
            Some (Inl (s\<lparr>sl_arena := a\<rparr>)) }
          else None)
       else link_level key v x i s (prev, next) } }"

text \<open>\<open>for i in 0..height\<close>: the next \<open>n\<close> levels, starting at level \<open>i\<close>.\<close>

primrec link_levels ::
    "bytes \<Rightarrow> value_struct \<Rightarrow> nat \<Rightarrow> nat \<Rightarrow> nat \<Rightarrow> skip_list \<Rightarrow> splice \<Rightarrow> skip_list option" where
  "link_levels key v x i 0 s sp = Some s"
| "link_levels key v x i (Suc n) s sp = do {
     r \<leftarrow> link_level key v x i s sp;
     (case r of
        Inl s \<Rightarrow> Some s
      | Inr (s, sp) \<Rightarrow> link_levels key v x (i + 1) n s sp) }"

text \<open>The second half of \<open>_put\<close>: create the node, raise the height, link every level.\<close>

definition put_new_node ::
    "skip_list \<Rightarrow> bytes \<Rightarrow> value_struct \<Rightarrow> (nat \<Rightarrow> u32) \<Rightarrow> splice \<Rightarrow> skip_list option" where
  "put_new_node s key v rnd sp = do {
     let h = random_height rnd;
     (x, a) \<leftarrow> node_new (sl_arena s) key v h;
     let s = s\<lparr>sl_arena := a\<rparr>;
     let s = (if h > sl_height s then s\<lparr>sl_height := h\<rparr> else s);
     link_levels key v x 0 h s sp }"

definition sl_put :: "skip_list \<Rightarrow> bytes \<Rightarrow> value_struct \<Rightarrow> (nat \<Rightarrow> u32) \<Rightarrow> skip_list option" where
  "sl_put s key v rnd = do {
     let list_height = sl_height s;
     let prev = replicate (MAX_HEIGHT + 1) None;
     let next = replicate (MAX_HEIGHT + 1) None;
     prev \<leftarrow> (if list_height < length prev then Some (prev[list_height := Some (sl_head s)]) else None);
     r \<leftarrow> put_splices s key v list_height (prev, next);
     (case r of Inl s \<Rightarrow> Some s | Inr sp \<Rightarrow> put_new_node s key v rnd sp) }"

end
