(* ===== verification/Skiplist_Correct.thy ===== *)
theory Skiplist_Correct
  imports Skiplist
begin

section \<open>Correctness of the skip list\<close>

text \<open>
  The invariant of the skip list and the refinement of its operations to a sorted
  association list. \<open>skip_inv s L\<close> says that \<open>L l\<close> is the list of nodes on level \<open>l\<close>, linked
  by the towers: every level ends in the nil pointer, level 0 is strictly sorted by key, and
  each level is contained in the one below.
\<close>

subsection \<open>Chains of next-pointers\<close>

definition nxt :: "arena \<Rightarrow> nat \<Rightarrow> nat \<Rightarrow> nat option" where
  "nxt a l p = map_option (\<lambda>nd. unat (tower nd ! l)) (da_nodes a p)"

fun chain :: "arena \<Rightarrow> nat \<Rightarrow> nat \<Rightarrow> nat list \<Rightarrow> bool" where
  "chain a l p [] \<longleftrightarrow> nxt a l p = Some 0"
| "chain a l p (q # qs) \<longleftrightarrow> nxt a l p = Some q \<and> q \<noteq> 0 \<and> chain a l q qs"

definition key_of :: "arena \<Rightarrow> nat \<Rightarrow> bytes" where "key_of a p = the (node_key a p)"
definition val_of :: "arena \<Rightarrow> nat \<Rightarrow> value_struct" where "val_of a p = the (node_val a p)"

lemma chain_append:
  "chain a l p (xs @ ys) \<Longrightarrow> chain a l (last (p # xs)) ys"
  by (induction xs arbitrary: p) auto

lemma chain_cong:
  "\<forall>q\<in>set (p # qs). nxt a' l q = nxt a l q \<Longrightarrow> chain a' l p qs = chain a l p qs"
  by (induction qs arbitrary: p) auto

lemma chain_nxt_last: "chain a l p (xs @ ys) \<Longrightarrow> nxt a l (last (p # xs)) = Some (get_node_offset (hd_opt ys))"
  by (drule chain_append, cases ys) (auto simp: get_node_offset_def)

lemma chain_insert:
  assumes "chain a l p (xs @ ys)" and "distinct (p # xs @ ys)" and "x \<notin> set (p # xs @ ys)" and "x \<noteq> 0"
    and "nxt a' l (last (p # xs)) = Some x" and "nxt a' l x = Some (get_node_offset (hd_opt ys))"
    and "\<And>q. q \<in> set (p # xs @ ys) \<Longrightarrow> q \<noteq> last (p # xs) \<Longrightarrow> nxt a' l q = nxt a l q"
  shows "chain a' l p (xs @ x # ys)"
  using assms
proof (induction xs arbitrary: p)
  case Nil
  show ?case
  proof (cases ys)
    case Nil
    with Nil.prems show ?thesis by (simp add: get_node_offset_def)
  next
    case (Cons y zs)
    have "chain a' l y zs = chain a l y zs"
      using Nil.prems(2,7) Cons by (intro chain_cong) auto
    with Nil.prems Cons show ?thesis by (simp add: get_node_offset_def)
  qed
next
  case (Cons q xs)
  have "p \<noteq> last (q # xs)"
    using Cons.prems(2) last_in_set [of "q # xs"] by auto
  then have "nxt a' l p = nxt a l p"
    using Cons.prems(7) [of p] by simp
  moreover have "chain a' l q (xs @ x # ys)"
    using Cons.prems by (intro Cons.IH) auto
  ultimately show ?case using Cons.prems(1) by simp
qed

subsection \<open>The invariant\<close>

definition skip_inv :: "skip_list \<Rightarrow> (nat \<Rightarrow> nat list) \<Rightarrow> bool" where
  "skip_inv s L \<longleftrightarrow> arena_ok (sl_arena s) \<and> 1 \<le> sl_height s \<and> sl_height s \<le> MAX_HEIGHT
     \<and> (\<forall>l<MAX_HEIGHT. chain (sl_arena s) l (sl_head s) (L l))
     \<and> (\<forall>l. sl_height s \<le> l \<longrightarrow> L l = [])
     \<and> (\<forall>l. strictly_sorted (map (key_of (sl_arena s)) (L l)))
     \<and> (\<forall>l. set (L (Suc l)) \<subseteq> set (L l))
     \<and> (\<forall>p\<in>set (L 0). node_wf (sl_arena s) p)
     \<and> sl_head s \<notin> set (L 0)"

lemma skip_invD:
  assumes "skip_inv s L"
  shows "arena_ok (sl_arena s)" and "1 \<le> sl_height s" and "sl_height s \<le> MAX_HEIGHT"
    and "\<And>l. l < MAX_HEIGHT \<Longrightarrow> chain (sl_arena s) l (sl_head s) (L l)"
    and "\<And>l. sl_height s \<le> l \<Longrightarrow> L l = []"
    and "\<And>l. strictly_sorted (map (key_of (sl_arena s)) (L l))"
    and "\<And>l. set (L (Suc l)) \<subseteq> set (L l)"
    and "\<And>p. p \<in> set (L 0) \<Longrightarrow> node_wf (sl_arena s) p"
    and "sl_head s \<notin> set (L 0)"
  using assms unfolding skip_inv_def by blast+

lemma level_subset:
  assumes "skip_inv s L"
  shows "set (L l) \<subseteq> set (L 0)"
  by (induction l) (use skip_invD(7) [OF assms] in auto)

lemma level_facts:
  assumes "skip_inv s L"
  shows "distinct (sl_head s # L l)" and "p \<in> set (L l) \<Longrightarrow> node_wf (sl_arena s) p"
    and "p \<in> set (L l) \<Longrightarrow> node_key (sl_arena s) p = Some (key_of (sl_arena s) p)"
    and "p \<in> set (L l) \<Longrightarrow> node_val (sl_arena s) p = Some (val_of (sl_arena s) p)"
proof -
  have "distinct (map (key_of (sl_arena s)) (L l))"
    using skip_invD(6) [OF assms] strictly_sorted_distinct by blast
  then show "distinct (sl_head s # L l)"
    using level_subset [OF assms] skip_invD(9) [OF assms] by (auto simp: distinct_map)
  show "p \<in> set (L l) \<Longrightarrow> node_wf (sl_arena s) p" for p
    using level_subset [OF assms] skip_invD(8) [OF assms] by blast
  then show "p \<in> set (L l) \<Longrightarrow> node_key (sl_arena s) p = Some (key_of (sl_arena s) p)"
    and "p \<in> set (L l) \<Longrightarrow> node_val (sl_arena s) p = Some (val_of (sl_arena s) p)" for p
    by (fastforce simp: node_wf_def key_of_def val_of_def)+
qed

lemma level_split:
  assumes "skip_inv s L" and "p \<in> set (L l)"
  obtains xs ys where "L l = xs @ p # ys"
    and "\<forall>q\<in>set xs. key_of (sl_arena s) q < key_of (sl_arena s) p"
    and "\<forall>q\<in>set ys. key_of (sl_arena s) p < key_of (sl_arena s) q"
proof -
  obtain xs ys where "L l = xs @ p # ys"
    using assms(2) by (meson split_list)
  with that skip_invD(6) [OF assms(1), of l] show ?thesis
    by (auto simp: sorted_wrt_append)
qed

text \<open>A search has arrived behind the nodes \<open>xs\<close> of level \<open>l\<close>, all of them below the key.\<close>

definition at_splice :: "skip_list \<Rightarrow> (nat \<Rightarrow> nat list) \<Rightarrow> bytes \<Rightarrow> nat \<Rightarrow> nat \<Rightarrow> nat list \<Rightarrow> nat list \<Rightarrow> bool" where
  "at_splice s L k l x xs ys \<longleftrightarrow> L l = xs @ ys \<and> x = last (sl_head s # xs)
     \<and> (\<forall>p\<in>set xs. key_of (sl_arena s) p < k)"

lemma at_splice_head: "at_splice s L k l (sl_head s) [] (L l)"
  by (simp add: at_splice_def)

lemma at_splice_move:
  "at_splice s L k l x xs (y # ys) \<Longrightarrow> key_of (sl_arena s) y < k \<Longrightarrow> at_splice s L k l y (xs @ [y]) ys"
  by (auto simp: at_splice_def)

lemma at_splice_descend:
  assumes inv: "skip_inv s L" and at: "at_splice s L k (Suc l) x xs ys"
  obtains xs' ys' where "at_splice s L k l x xs' ys'"
proof (cases "xs = []")
  case True
  with at have "x = sl_head s" by (simp add: at_splice_def)
  with that at_splice_head [of s L k l] show ?thesis by blast
next
  case False
  with at have x: "x \<in> set xs" "key_of (sl_arena s) x < k" by (auto simp: at_splice_def)
  with at have "x \<in> set (L l)" using skip_invD(7) [OF inv, of l] by (auto simp: at_splice_def)
  then obtain as bs where "L l = as @ x # bs" "\<forall>q\<in>set as. key_of (sl_arena s) q < key_of (sl_arena s) x"
    by (rule level_split [OF inv]) auto
  with x have "at_splice s L k l x (as @ [x]) bs" by (auto simp: at_splice_def)
  with that show ?thesis .
qed

lemma MAX_HEIGHT_pos [simp]: "0 < MAX_HEIGHT"
  by (simp add: MAX_HEIGHT_def)

lemma get_next_offset_ok:
  "arena_ok a \<Longrightarrow> node_at a p = Some nd \<Longrightarrow> l < MAX_HEIGHT \<Longrightarrow> get_next_offset nd l = Some (tower nd ! l)"
  using arena_ok_nodeD(4) by (simp add: get_next_offset_def node_at_def)

lemma get_next_nxt:
  assumes "arena_ok (sl_arena s)" and "l < MAX_HEIGHT" and "nxt (sl_arena s) l p = Some (get_node_offset r)"
    and "r \<noteq> Some 0"
  shows "get_next s p l = Some r"
proof -
  obtain nd where nd: "da_nodes (sl_arena s) p = Some nd" "unat (tower nd ! l) = get_node_offset r"
    using assms(3) by (auto simp: nxt_def)
  then have "length (tower nd) = MAX_HEIGHT" using arena_ok_nodeD(4) [OF assms(1)] by blast
  with nd assms(2,4) show ?thesis
    by (cases r) (auto simp: get_next_def node_at_def get_next_offset_def get_node_def get_node_offset_def)
qed

lemma get_next_chain:
  assumes "arena_ok (sl_arena s)" and "l < MAX_HEIGHT" and "chain (sl_arena s) l p ys"
  shows "get_next s p l = Some (hd_opt ys)"
  using assms by (intro get_next_nxt) (cases ys; auto simp: get_node_offset_def)+

lemma get_next_at:
  assumes "skip_inv s L" and "at_splice s L k l x xs ys" and "l < MAX_HEIGHT"
  shows "get_next s x l = Some (hd_opt ys)"
proof -
  have "chain (sl_arena s) l x ys"
    using assms(2) chain_append skip_invD(4) [OF assms(1,3)] by (metis at_splice_def)
  with skip_invD(1) [OF assms(1)] assms(3) show ?thesis by (rule get_next_chain)
qed

subsection \<open>find_near\<close>

definition find_near_spec :: "arena \<Rightarrow> nat list \<Rightarrow> bytes \<Rightarrow> bool \<Rightarrow> bool \<Rightarrow> nat option \<times> bool" where
  "find_near_spec a ps k lesser allow_equal =
     (if lesser then find_last (\<lambda>p. key_of a p < k \<or> allow_equal \<and> key_of a p = k) ps
      else find (\<lambda>p. k < key_of a p \<or> allow_equal \<and> key_of a p = k) ps,
      allow_equal \<and> k \<in> key_of a ` set ps)"

text \<open>What the search answers when no key is equal, and when one is.\<close>

lemma find_near_spec_gap:
  assumes "ps = xs @ ys" and "\<forall>p\<in>set xs. key_of a p < k" and "\<forall>p\<in>set ys. k < key_of a p"
  shows "find_near_spec a ps k lesser eq =
    (if lesser then (if xs = [] then None else Some (last xs)) else hd_opt ys, False)"
proof -
  have "find_last (\<lambda>p. key_of a p < k \<or> eq \<and> key_of a p = k) ys = None"
    using assms(3) by (intro find_last_none) auto
  moreover have "find (\<lambda>p. k < key_of a p \<or> eq \<and> key_of a p = k) xs = None"
    using assms(2) by (intro find_none) auto
  moreover have "find_last (\<lambda>p. key_of a p < k \<or> eq \<and> key_of a p = k) xs
      = (if xs = [] then None else Some (last xs))"
    using assms(2) by (cases xs rule: rev_cases) auto
  moreover have "find (\<lambda>p. k < key_of a p \<or> eq \<and> key_of a p = k) ys = hd_opt ys"
    using assms(3) by (cases ys) auto
  ultimately show ?thesis
    using assms by (auto simp: find_near_spec_def find_append find_last_append)
qed

lemma find_near_spec_hit:
  assumes "ps = xs @ p # ys" and "\<forall>q\<in>set xs. key_of a q < k" and "\<forall>q\<in>set ys. k < key_of a q"
    and "key_of a p = k"
  shows "find_near_spec a ps k lesser eq =
    (if eq then (Some p, True)
     else (if lesser then (if xs = [] then None else Some (last xs)) else hd_opt ys, False))"
proof -
  have "find_last (\<lambda>q. key_of a q < k \<or> eq \<and> key_of a q = k) ys = None"
    using assms(3) by (intro find_last_none) auto
  moreover have "find (\<lambda>q. k < key_of a q \<or> eq \<and> key_of a q = k) xs = None"
    using assms(2) by (intro find_none) auto
  moreover have "find_last (\<lambda>q. key_of a q < k) xs = (if xs = [] then None else Some (last xs))"
    using assms(2) by (cases xs rule: rev_cases) auto
  moreover have "find (\<lambda>q. k < key_of a q) ys = hd_opt ys"
    using assms(3) by (cases ys) auto
  moreover have "find_last (\<lambda>q. key_of a q < k) ys = None"
    using assms(3) by (intro find_last_none) auto
  moreover have "find_last Q (p # ys) = (case find_last Q ys of None \<Rightarrow> if Q p then Some p else None | Some y \<Rightarrow> Some y)" for Q
    using find_last_append [of Q "[p]" ys] find_last_snoc [of Q "[]" p] by (simp split: option.splits)
  ultimately show ?thesis
    using assms(1,4) by (auto simp: find_near_spec_def find_append find_last_append)
qed

lemma at_splice_sorted:
  assumes "skip_inv s L" and "at_splice s L k l x xs (y # ys)"
  shows "\<forall>p\<in>set ys. key_of (sl_arena s) y < key_of (sl_arena s) p"
  using skip_invD(6) [OF assms(1), of l] assms(2) by (simp add: at_splice_def sorted_wrt_append)

lemma at_splice_last:
  assumes "skip_inv s L" and "at_splice s L k l x xs ys"
  shows "x = sl_head s \<longleftrightarrow> xs = []" and "xs \<noteq> [] \<Longrightarrow> x = last xs"
proof -
  have "sl_head s \<notin> set xs" and x: "x = last (sl_head s # xs)"
    using assms(2) level_facts(1) [OF assms(1), of l] by (auto simp: at_splice_def)
  then show "x = sl_head s \<longleftrightarrow> xs = []"
    by (metis last_ConsL last_ConsR last_in_set)
  show "xs \<noteq> [] \<Longrightarrow> x = last xs" using x by simp
qed

lemma find_near_loop_correct:
  assumes inv: "skip_inv s L" and "at_splice s L k l x xs ys" and "l < MAX_HEIGHT"
  shows "find_near_loop s k lesser eq x l = Some (find_near_spec (sl_arena s) (L 0) k lesser eq)"
  using assms(2,3)
proof (induction "(l, length ys)" arbitrary: l x xs ys rule: wf_induct_rule [OF wf_lex_prod [OF wf_less_than wf_less_than]])
  case 1
  note at = 1(2) and IH = 1(1)
  let ?a = "sl_arena s"
  note unfold = find_near_loop.simps [of s k lesser eq x l] get_next_at [OF inv at 1(3)]
  have down: "find_near_loop s k lesser eq x (l - 1) = Some (find_near_spec ?a (L 0) k lesser eq)" if "l > 0"
  proof -
    have "at_splice s L k (Suc (l - 1)) x xs ys" using at that by simp
    then obtain xs' ys' where "at_splice s L k (l - 1) x xs' ys'"
      by (rule at_splice_descend [OF inv])
    then show ?thesis using IH that 1(3) by (auto simp: in_lex_prod)
  qed
  have base: "L 0 = xs @ ys \<and> x = last (sl_head s # xs) \<and> (\<forall>p\<in>set xs. key_of ?a p < k)" if "l = 0"
    using at that by (auto simp: at_splice_def)
  note last = at_splice_last [OF inv at]
  show ?case
  proof (cases ys)
    case Nil
    have "find_near_spec ?a (L 0) k lesser eq = (if lesser \<and> xs \<noteq> [] then Some (last xs) else None, False)"
      if "l = 0"
      using find_near_spec_gap [of "L 0" xs "[]" ?a k] base [OF that] Nil by simp
    then show ?thesis
      using down last Nil unfolding unfold by (cases "l > 0") auto
  next
    case (Cons y zs)
    note sorted = at_splice_sorted [OF inv at [unfolded Cons]]
    have y: "y \<in> set (L l)" using at Cons by (simp add: at_splice_def)
    note yk = level_facts(3) [OF inv y]
    consider (gt) "key_of ?a y < k" | (eq) "key_of ?a y = k" | (lt) "k < key_of ?a y" by fastforce
    then show ?thesis
    proof cases
      case gt
      then have "find_near_loop s k lesser eq y l = Some (find_near_spec ?a (L 0) k lesser eq)"
        using IH [of l zs y] at_splice_move [OF at [unfolded Cons] gt] 1(3) Cons by (auto simp: in_lex_prod)
      moreover have "rcmp k (key_of ?a y) = Greater" using gt by simp
      ultimately show ?thesis unfolding unfold Cons by (simp only: yk hd_opt_simps ordering.case option.case bind.bind_lunit)
    next
      case eq
      have "y \<in> set (L 0)" using y level_subset [OF inv] by blast
      then obtain as bs where b: "L 0 = as @ y # bs" "\<forall>q\<in>set as. key_of ?a q < k" "\<forall>q\<in>set bs. k < key_of ?a q"
        using level_split [OF inv] eq by metis
      note spec = find_near_spec_hit [OF b eq]
      have "chain ?a 0 y bs"
        using skip_invD(4) [OF inv, of 0] chain_append [of ?a 0 "sl_head s" "as @ [y]" bs] b(1)
        by (simp add: MAX_HEIGHT_def)
      then have n0: "get_next s y 0 = Some (hd_opt bs)"
        using get_next_chain [OF skip_invD(1) [OF inv]] by (simp add: MAX_HEIGHT_def)
      have "as = xs \<and> bs = zs" if "l = 0"
        using b base [OF that] Cons eq level_facts(1) [OF inv, of 0]
        by (intro append_Cons_eq_iff [THEN iffD1, of y as bs xs zs]) auto
      moreover have rc: "rcmp k (key_of ?a y) = Equal" using eq by simp
      ultimately show ?thesis
        unfolding unfold using down last by (cases "l > 0") (auto simp: Cons yk spec n0 rc)
    next
      case lt
      have rc: "rcmp k (key_of ?a y) = Less" using lt by simp
      have "find_near_spec ?a (L 0) k lesser eq =
          (if lesser then (if xs = [] then None else Some (last xs)) else Some y, False)" if "l = 0"
        using base [OF that] find_near_spec_gap [of "L 0" xs ys ?a k] lt sorted Cons by fastforce
      then show ?thesis unfolding unfold using down last by (cases "l > 0") (simp_all add: Cons yk rc)
    qed
  qed
qed

lemma find_near_correct:
  assumes "skip_inv s L"
  shows "find_near s k lesser eq = Some (find_near_spec (sl_arena s) (L 0) k lesser eq)"
  using find_near_loop_correct [OF assms at_splice_head] skip_invD(2,3) [OF assms]
  by (simp add: find_near_def)

subsection \<open>The abstract content\<close>

definition entries :: "arena \<Rightarrow> nat list \<Rightarrow> (bytes \<times> value_struct) list" where
  "entries a ps = map (\<lambda>p. (key_of a p, val_of a p)) ps"

lemma entries_simps [simp]:
  "entries a [] = []" "entries a (p # ps) = (key_of a p, val_of a p) # entries a ps"
  "entries a (ps @ qs) = entries a ps @ entries a qs"
  "map fst (entries a ps) = map (key_of a) ps" "entries a ps = [] \<longleftrightarrow> ps = []"
  by (auto simp: entries_def)

text \<open>\<open>skip_abs s kvs\<close>: the skip list is well formed and holds exactly the pairs \<open>kvs\<close>.\<close>

definition skip_abs :: "skip_list \<Rightarrow> (bytes \<times> value_struct) list \<Rightarrow> bool" where
  "skip_abs s kvs \<longleftrightarrow> (\<exists>L. skip_inv s L \<and> kvs = entries (sl_arena s) (L 0))"

lemma skip_abs_sorted: "skip_abs s kvs \<Longrightarrow> strictly_sorted (map fst kvs)"
  by (auto simp: skip_abs_def dest: skip_invD(6))

lemma map_of_entries_hit:
  assumes "distinct (map (key_of a) ps)" and "p \<in> set ps"
  shows "map_of (entries a ps) (key_of a p) = Some (val_of a p)"
  using assms by (intro map_of_is_SomeI) (auto simp: entries_def comp_def)

lemma map_of_entries_miss: "k \<notin> key_of a ` set ps \<Longrightarrow> map_of (entries a ps) k = None"
  by (auto simp: map_of_eq_None_iff entries_def)

lemma node_val_read:
  assumes "node_val a p = Some v"
  obtains nd off sz where "node_at a p = Some nd" and "get_value_offset nd = (off, sz)"
    and "get_val a off sz = Some v"
  using assms by (cases "node_at a p") (auto simp: node_val_def split: prod.splits)

lemma sl_get_inv:
  assumes inv: "skip_inv s L"
  shows "sl_get s k = Some (map_of (entries (sl_arena s) (L 0)) k)"
proof (cases "k \<in> key_of (sl_arena s) ` set (L 0)")
  case True
  then obtain p where p: "p \<in> set (L 0)" "key_of (sl_arena s) p = k" by auto
  then obtain xs ys where "L 0 = xs @ p # ys" "\<forall>q\<in>set xs. key_of (sl_arena s) q < k"
    "\<forall>q\<in>set ys. k < key_of (sl_arena s) q"
    using level_split [OF inv p(1)] by metis
  then have "find_near s k False True = Some (Some p, True)"
    using find_near_correct [OF inv] find_near_spec_hit p(2) by simp
  moreover obtain nd off sz where "node_at (sl_arena s) p = Some nd" "get_value_offset nd = (off, sz)"
    "get_val (sl_arena s) off sz = Some (val_of (sl_arena s) p)"
    using node_val_read [OF level_facts(4) [OF inv p(1)]] .
  moreover have "map_of (entries (sl_arena s) (L 0)) k = Some (val_of (sl_arena s) p)"
    using map_of_entries_hit [OF _ p(1)] skip_invD(6) [OF inv] strictly_sorted_distinct p(2) by blast
  ultimately show ?thesis by (simp add: sl_get_def)
next
  case False
  then have "\<exists>n. find_near s k False True = Some (n, False)"
    using find_near_correct [OF inv] by (simp add: find_near_spec_def)
  with False show ?thesis by (auto simp: sl_get_def map_of_entries_miss)
qed

lemma sl_get_abs: "skip_abs s kvs \<Longrightarrow> sl_get s k = Some (map_of kvs k)"
  using sl_get_inv by (auto simp: skip_abs_def)

lemma key_values_loop_chain:
  assumes "arena_ok (sl_arena s)" and "nxt (sl_arena s) 0 p = Some off" and "chain (sl_arena s) 0 p ps"
    and "\<forall>q\<in>set ps. node_wf (sl_arena s) q"
  shows "key_values_loop s off acc = Some (acc @ entries (sl_arena s) ps)"
  using assms
proof (induction ps arbitrary: p off acc)
  case Nil
  then show ?case by (simp add: key_values_loop.simps)
next
  case (Cons q ps)
  let ?a = "sl_arena s"
  from Cons.prems have off: "off = q" "q \<noteq> 0" by auto
  have wf: "node_key ?a q = Some (key_of ?a q)" "node_val ?a q = Some (val_of ?a q)"
    using Cons.prems(4) by (auto simp: node_wf_def key_of_def val_of_def)
  obtain nd o2 sz where nd: "node_at ?a q = Some nd" "get_value_offset nd = (o2, sz)"
    "get_val ?a o2 sz = Some (val_of ?a q)"
    using node_val_read [OF wf(2)] .
  note t = get_next_offset_ok [OF Cons.prems(1) nd(1) MAX_HEIGHT_pos]
  have "key_values_loop s (unat (tower nd ! 0)) (acc @ [(key_of ?a q, val_of ?a q)])
      = Some ((acc @ [(key_of ?a q, val_of ?a q)]) @ entries ?a ps)"
    using Cons.prems nd(1) by (intro Cons.IH [of q]) (auto simp: nxt_def node_at_def)
  with off wf nd t show ?case
    by (subst key_values_loop.simps) (simp add: get_node_def)
qed

lemma key_values_abs:
  assumes "skip_abs s kvs"
  shows "key_values s = Some kvs"
proof -
  obtain L where inv: "skip_inv s L" and kvs: "kvs = entries (sl_arena s) (L 0)"
    using assms by (auto simp: skip_abs_def)
  let ?a = "sl_arena s"
  have ch: "chain ?a 0 (sl_head s) (L 0)"
    using skip_invD(4) [OF inv, of 0] by simp
  then obtain nd where nd: "da_nodes ?a (sl_head s) = Some nd"
    by (cases "L 0") (auto simp: nxt_def)
  then have "get_next_offset nd 0 = Some (tower nd ! 0)"
    using get_next_offset_ok [OF skip_invD(1) [OF inv]] by (simp add: node_at_def)
  moreover have "key_values_loop s (unat (tower nd ! 0)) [] = Some kvs"
    using key_values_loop_chain [OF skip_invD(1) [OF inv] _ ch, of "unat (tower nd ! 0)" "[]"]
      skip_invD(8) [OF inv] nd kvs by (simp add: nxt_def)
  ultimately show ?thesis
    using nd by (simp add: key_values_def node_at_def)
qed

subsection \<open>find_last\<close>

lemma find_last_loop_correct:
  assumes inv: "skip_inv s L" and "L l = xs @ ys" and "x = last (sl_head s # xs)" and "l < MAX_HEIGHT"
  shows "find_last_loop s x l = Some (if L 0 = [] then None else Some (last (L 0)))"
  using assms(2-4)
proof (induction "(l, length ys)" arbitrary: l x xs ys rule: wf_induct_rule [OF wf_lex_prod [OF wf_less_than wf_less_than]])
  case 1
  have at: "chain (sl_arena s) l x ys"
    using skip_invD(4) [OF inv 1(4)] chain_append 1(2,3) by metis
  note unfold = find_last_loop.simps [of s x l] get_next_chain [OF skip_invD(1) [OF inv] 1(4) at]
  show ?case
  proof (cases ys)
    case (Cons y zs)
    then have "find_last_loop s y l = Some (if L 0 = [] then None else Some (last (L 0)))"
      using 1(1) [of l zs "xs @ [y]" y] 1(2,4) by (simp add: in_lex_prod)
    then show ?thesis unfolding unfold Cons by simp
  next
    case Nil
    show ?thesis
    proof (cases l)
      case 0
      then have "x = sl_head s \<longleftrightarrow> L 0 = []" "L 0 \<noteq> [] \<Longrightarrow> x = last (L 0)"
        using 1(2,3) Nil skip_invD(9) [OF inv] by (auto, metis last_in_set)
      then show ?thesis unfolding unfold Nil using 0 by simp
    next
      case (Suc m)
      have "x = sl_head s \<or> x \<in> set (L m)"
        using 1(2,3) Suc skip_invD(7) [OF inv, of m] subsetD [of "set xs" "set (L m)" "last xs"]
        by (cases "xs = []") auto
      then obtain as bs where "L m = as @ bs" "x = last (sl_head s # as)"
      proof
        assume "x \<in> set (L m)"
        then obtain as bs where "L m = as @ x # bs" by (meson split_list)
        with that [of "as @ [x]" bs] show ?thesis by simp
      qed (use that [of "[]" "L m"] in simp)
      then have "find_last_loop s x m = Some (if L 0 = [] then None else Some (last (L 0)))"
        using 1(1) [of m bs as x] 1(4) Suc by (simp add: in_lex_prod)
      then show ?thesis unfolding unfold Nil using Suc by simp
    qed
  qed
qed

lemma sl_find_last_correct:
  "skip_inv s L \<Longrightarrow> sl_find_last s = Some (if L 0 = [] then None else Some (last (L 0)))"
  using find_last_loop_correct [of s L "sl_height s - 1" "[]"] skip_invD(2,3) [of s L]
  by (simp add: sl_find_last_def)

subsection \<open>Splices\<close>

definition below :: "skip_list \<Rightarrow> (nat \<Rightarrow> nat list) \<Rightarrow> bytes \<Rightarrow> nat \<Rightarrow> nat list" where
  "below s L k l = takeWhile (\<lambda>p. key_of (sl_arena s) p < k) (L l)"

definition behind :: "skip_list \<Rightarrow> (nat \<Rightarrow> nat list) \<Rightarrow> bytes \<Rightarrow> nat \<Rightarrow> nat list" where
  "behind s L k l = dropWhile (\<lambda>p. key_of (sl_arena s) p < k) (L l)"

lemma below_above: "L l = below s L k l @ behind s L k l"
  by (simp add: below_def behind_def)

lemma at_splice_below: "at_splice s L k l (last (sl_head s # below s L k l)) (below s L k l) (behind s L k l)"
  using below_above [of L l s k] by (auto simp: at_splice_def below_def dest: set_takeWhileD)

lemma at_splice_above: "at_splice s L k l x xs ys \<Longrightarrow>
    behind s L k l = dropWhile (\<lambda>p. key_of (sl_arena s) p < k) ys
    \<and> below s L k l = xs @ takeWhile (\<lambda>p. key_of (sl_arena s) p < k) ys"
  by (simp add: at_splice_def behind_def below_def)

lemma above_greater:
  assumes inv: "skip_inv s L" and miss: "k \<notin> key_of (sl_arena s) ` set (L l)"
    and p: "p \<in> set (behind s L k l)"
  shows "k < key_of (sl_arena s) p"
proof (cases "behind s L k l")
  case Nil
  with p show ?thesis by simp
next
  case (Cons y ys)
  have y: "\<not> key_of (sl_arena s) y < k"
    using Cons hd_dropWhile [of "\<lambda>p. key_of (sl_arena s) p < k" "L l"] by (simp add: behind_def)
  have "y \<in> set (L l)"
    using Cons below_above [of L l s k] by (metis in_set_conv_decomp)
  with miss y have "k < key_of (sl_arena s) y"
    by (metis image_eqI linorder_neqE)
  moreover have "\<forall>q\<in>set ys. key_of (sl_arena s) y < key_of (sl_arena s) q"
    using at_splice_sorted [OF inv] at_splice_below [of s L k l] Cons by metis
  ultimately show ?thesis using p Cons by auto
qed

lemma find_splice_step:
  assumes "skip_inv s L" and "at_splice s L k l x xs ys" and "l < MAX_HEIGHT"
  shows "find_splice_for_level s k x l =
    (case ys of
       [] \<Rightarrow> Some (x, None)
     | y # _ \<Rightarrow>
         if key_of (sl_arena s) y < k then find_splice_for_level s k y l
         else if key_of (sl_arena s) y = k then Some (y, Some y) else Some (x, Some y))"
proof (cases ys)
  case Nil
  with get_next_at [OF assms] show ?thesis by (simp add: find_splice_for_level.simps)
next
  case (Cons y zs)
  have key: "node_key (sl_arena s) y = Some (key_of (sl_arena s) y)"
    using assms(2) Cons by (intro level_facts(3) [OF assms(1), where l = l]) (simp add: at_splice_def)
  have "get_next s x l = Some (Some y)" using get_next_at [OF assms] Cons by simp
  then have "find_splice_for_level s k x l =
      (case rcmp k (key_of (sl_arena s) y) of Equal \<Rightarrow> Some (y, Some y) | Less \<Rightarrow> Some (x, Some y)
       | Greater \<Rightarrow> find_splice_for_level s k y l)"
    by (subst find_splice_for_level.simps) (simp add: key)
  then show ?thesis
    using Cons by (auto simp: rcmp_def)
qed

lemma find_splice_correct:
  assumes inv: "skip_inv s L" and "at_splice s L k l x xs ys" and "l < MAX_HEIGHT"
  shows "find_splice_for_level s k x l =
    (case behind s L k l of
       [] \<Rightarrow> Some (last (sl_head s # below s L k l), None)
     | y # _ \<Rightarrow>
         if key_of (sl_arena s) y = k then Some (y, Some y)
         else Some (last (sl_head s # below s L k l), Some y))"
  using assms(2)
proof (induction ys arbitrary: x xs)
  case Nil
  then show ?case
    using find_splice_step [OF inv Nil assms(3)] at_splice_above [OF Nil] by (simp add: at_splice_def)
next
  case (Cons y ys)
  note at = Cons.prems
  show ?case
  proof (cases "key_of (sl_arena s) y < k")
    case True
    with Cons.IH [OF at_splice_move [OF at True]] find_splice_step [OF inv at assms(3)]
    show ?thesis by simp
  next
    case False
    then have "behind s L k l = y # ys" "below s L k l = xs"
      using at_splice_above [OF at] by simp_all
    with False find_splice_step [OF inv at assms(3)] at show ?thesis
      by (auto simp: at_splice_def)
  qed
qed

lemma find_splice_miss:
  assumes inv: "skip_inv s L" and at: "at_splice s L k l x xs ys" and l: "l < MAX_HEIGHT"
    and miss: "k \<notin> key_of (sl_arena s) ` set (L l)"
  shows "find_splice_for_level s k x l = Some (last (sl_head s # below s L k l), hd_opt (behind s L k l))"
    and "hd_opt (behind s L k l) \<noteq> Some (last (sl_head s # below s L k l))"
proof -
  have g: "\<forall>p\<in>set (behind s L k l). k < key_of (sl_arena s) p"
    using above_greater [OF inv miss] by blast
  show "find_splice_for_level s k x l = Some (last (sl_head s # below s L k l), hd_opt (behind s L k l))"
    using find_splice_correct [OF inv at l] g by (auto split: list.splits)
  have "distinct ((sl_head s # below s L k l) @ behind s L k l)"
    using level_facts(1) [OF inv, of l] below_above [of L l s k] by simp
  then have "last (sl_head s # below s L k l) \<notin> set (behind s L k l)"
    using last_in_set [of "sl_head s # below s L k l"] by (metis IntI distinct_append empty_iff list.distinct(1))
  then show "hd_opt (behind s L k l) \<noteq> Some (last (sl_head s # below s L k l))"
    by (cases "behind s L k l") auto
qed

lemma find_splice_hit:
  assumes inv: "skip_inv s L" and at: "at_splice s L k l x xs ys" and l: "l < MAX_HEIGHT"
    and p: "p \<in> set (L l)" "key_of (sl_arena s) p = k"
  shows "find_splice_for_level s k x l = Some (p, Some p)"
proof -
  obtain as bs where "L l = as @ p # bs" "\<forall>q\<in>set as. key_of (sl_arena s) q < k"
    using level_split [OF inv p(1)] p(2) by metis
  then have "behind s L k l = p # bs" using p(2) by (simp add: behind_def)
  with find_splice_correct [OF inv at l] p(2) show ?thesis by simp
qed

subsection \<open>The splice search of put\<close>

lemma put_splices_hit:
  assumes inv: "skip_inv s L" and p: "p \<in> set (L 0)" "key_of (sl_arena s) p = k"
    and "at_splice s L k (Suc i) x xs ys" and "prev ! Suc i = Some x" and "i < MAX_HEIGHT"
    and "Suc i < length prev"
  shows "put_splices s k v (Suc i) (prev, next)
    = map_option (\<lambda>a. Inl (s\<lparr>sl_arena := a\<rparr>)) (set_value (sl_arena s) p v)"
  using assms(4-7)
proof (induction i arbitrary: x xs ys prev "next")
  case 0
  obtain xs' ys' where at: "at_splice s L k 0 x xs' ys'"
    using at_splice_descend [OF inv 0(1)] .
  then show ?case
    using find_splice_hit [OF inv at 0(3) p] 0(2) by (cases "set_value (sl_arena s) p v") auto
next
  case (Suc i)
  obtain xs' ys' where at: "at_splice s L k (Suc i) x xs' ys'"
    using at_splice_descend [OF inv Suc.prems(1)] .
  show ?case
  proof (cases "p \<in> set (L (Suc i))")
    case True
    then show ?thesis
      using find_splice_hit [OF inv at Suc.prems(3) True p(2)] Suc.prems(2)
      by (cases "set_value (sl_arena s) p v") auto
  next
    case False
    have "k \<notin> key_of (sl_arena s) ` set (L (Suc i))"
    proof
      assume "k \<in> key_of (sl_arena s) ` set (L (Suc i))"
      then obtain q where q: "q \<in> set (L (Suc i))" "key_of (sl_arena s) q = k" by auto
      then have "q = p"
        using level_subset [OF inv] p skip_invD(6) [OF inv, of 0] strictly_sorted_distinct
        by (metis distinct_map inj_onD subsetD)
      with q False show False by simp
    qed
    note sp = find_splice_miss [OF inv at Suc.prems(3) this]
    let ?pre = "last (sl_head s # below s L k (Suc i))"
    have "put_splices s k v (Suc i) (prev[Suc i := Some ?pre], n2)
        = map_option (\<lambda>a. Inl (s\<lparr>sl_arena := a\<rparr>)) (set_value (sl_arena s) p v)" for n2
      by (rule Suc.IH [OF at_splice_below]) (use Suc.prems in auto)
    then show ?thesis using sp Suc.prems(2) by simp
  qed
qed

definition splices_ok :: "skip_list \<Rightarrow> (nat \<Rightarrow> nat list) \<Rightarrow> bytes \<Rightarrow> nat \<Rightarrow> splice \<Rightarrow> bool" where
  "splices_ok s L k n sp \<longleftrightarrow> (\<forall>j<n. fst sp ! j = Some (last (sl_head s # below s L k j))
     \<and> snd sp ! j = hd_opt (behind s L k j))"

lemma put_splices_miss:
  assumes inv: "skip_inv s L" and miss: "k \<notin> key_of (sl_arena s) ` set (L 0)"
    and "at_splice s L k i x xs ys" and "prev ! i = Some x" and "i \<le> MAX_HEIGHT"
    and "length prev = Suc MAX_HEIGHT" and "length next = Suc MAX_HEIGHT" and "\<forall>j<i. next ! j = None"
  shows "\<exists>prev' next'. put_splices s k v i (prev, next) = Some (Inr (prev', next'))
    \<and> splices_ok s L k i (prev', next') \<and> (\<forall>j\<ge>i. prev' ! j = prev ! j \<and> next' ! j = next ! j)
    \<and> length prev' = Suc MAX_HEIGHT \<and> length next' = Suc MAX_HEIGHT"
  using assms(3-8)
proof (induction i arbitrary: x xs ys prev "next")
  case 0
  then show ?case by (simp add: splices_ok_def)
next
  case (Suc i)
  obtain xs' ys' where at: "at_splice s L k i x xs' ys'"
    using at_splice_descend [OF inv Suc.prems(1)] .
  have i: "i < MAX_HEIGHT" using Suc.prems(3) by simp
  have missi: "k \<notin> key_of (sl_arena s) ` set (L i)"
    using miss level_subset [OF inv, of i] by blast
  note sp = find_splice_miss [OF inv at i missi]
  let ?pre = "last (sl_head s # below s L k i)" and ?nx = "hd_opt (behind s L k i)"
  define prev2 where "prev2 = prev[i := Some ?pre]"
  define next2 where "next2 = (if ?nx \<noteq> None then next[i := ?nx] else next)"
  have two: "next2 ! i = ?nx" "length next2 = Suc MAX_HEIGHT" "\<forall>j. j \<noteq> i \<longrightarrow> next2 ! j = next ! j"
    "prev2 ! i = Some ?pre" "length prev2 = Suc MAX_HEIGHT" "\<forall>j. j \<noteq> i \<longrightarrow> prev2 ! j = prev ! j"
    using Suc.prems(4-6) i by (auto simp: prev2_def next2_def)
  obtain prev' next' where IH: "put_splices s k v i (prev2, next2) = Some (Inr (prev', next'))"
    "splices_ok s L k i (prev', next')" "\<forall>j\<ge>i. prev' ! j = prev2 ! j \<and> next' ! j = next2 ! j"
    "length prev' = Suc MAX_HEIGHT" "length next' = Suc MAX_HEIGHT"
    using Suc.IH [OF at_splice_below two(4) _ two(5,2)] i Suc.prems(6) two(3) by fastforce
  have "splices_ok s L k (Suc i) (prev', next')"
    using IH(2,3) two by (auto simp: splices_ok_def less_Suc_eq)
  moreover have "\<forall>j\<ge>Suc i. prev' ! j = prev ! j \<and> next' ! j = next ! j"
    using IH(3) two(3,6) by auto
  moreover have "put_splices s k v (Suc i) (prev, next) = Some (Inr (prev', next'))"
    using sp Suc.prems(2) IH(1) unfolding prev2_def next2_def by simp
  ultimately show ?case using IH(4,5) by blast
qed

subsection \<open>Linking a new node\<close>

lemma skip_inv_transfer:
  assumes inv: "skip_inv s L" and ok: "arena_ok a'"
    and nx: "\<And>l q. q \<in> set (sl_head s # L 0) \<Longrightarrow> nxt a' l q = nxt (sl_arena s) l q"
    and wf: "\<And>q. q \<in> set (L 0) \<Longrightarrow> node_wf a' q \<and> key_of a' q = key_of (sl_arena s) q"
    and h: "sl_height s \<le> h'" "h' \<le> MAX_HEIGHT"
  shows "skip_inv (s\<lparr>sl_arena := a', sl_height := h'\<rparr>) L"
proof -
  note D = skip_invD [OF inv] and sub = level_subset [OF inv]
  have "chain a' l (sl_head s) (L l)" if "l < MAX_HEIGHT" for l
    using D(4) [OF that] chain_cong [of "sl_head s" "L l" a' l "sl_arena s"] nx sub [of l] by auto
  moreover have "map (key_of a') (L l) = map (key_of (sl_arena s)) (L l)" for l
    using wf sub [of l] by auto
  then have "strictly_sorted (map (key_of a') (L l))" for l
    using D(6) [of l] by metis
  ultimately show ?thesis
    using D ok wf h by (simp add: skip_inv_def)
qed

text \<open>\<open>tower_upd a a' p i w\<close>: only entry \<open>i\<close> of the tower at \<open>p\<close> changed, to \<open>w\<close>.\<close>

definition tower_upd :: "arena \<Rightarrow> arena \<Rightarrow> nat \<Rightarrow> nat \<Rightarrow> u32 \<Rightarrow> bool" where
  "tower_upd a a' p i w \<longleftrightarrow> arena_ok a' \<and> da_head a' = da_head a \<and> da_tail a' = da_tail a
     \<and> (\<forall>l q. nxt a' l q = (if q = p \<and> l = i then Some (unat w) else nxt a l q))
     \<and> (\<forall>q. (node_wf a' q \<longleftrightarrow> node_wf a q) \<and> node_key a' q = node_key a q \<and> node_val a' q = node_val a q)"

lemma store_next_offset_ok:
  assumes ok: "arena_ok a" and nd: "da_nodes a p = Some nd" and i: "i < MAX_HEIGHT"
  obtains a' where "store_next_offset a p i w = Some a'" and "tower_upd a a' p i w"
proof -
  let ?nd = "nd\<lparr>tower := (tower nd)[i := w]\<rparr>"
  let ?a = "a\<lparr>da_nodes := (da_nodes a)(p \<mapsto> ?nd)\<rparr>"
  have len: "length (tower nd) = MAX_HEIGHT" using arena_ok_nodeD(4) [OF ok nd] .
  then have eq: "store_next_offset a p i w = Some ?a"
    using nd i by (simp add: store_next_offset_def node_at_def)
  have kv: "node_key ?a q = node_key a q" "node_val ?a q = node_val a q" for q
    using nd by (auto simp: node_key_def node_val_def node_at_def get_key_def get_val_def
        get_value_offset_def)
  have wf: "node_wf ?a q \<longleftrightarrow> node_wf a q" for q
    using nd by (auto simp: node_wf_def kv get_value_offset_def)
  have nx: "nxt ?a l q = (if q = p \<and> l = i then Some (unat w) else nxt a l q)" for l q
    using nd len i by (auto simp: nxt_def)
  have "arena_ok ?a"
    using ok nd unfolding arena_ok_def by (auto split: if_splits)
  with that [OF eq] kv wf nx show ?thesis by (simp add: tower_upd_def)
qed

lemma cas_next_offset_ok:
  assumes ok: "arena_ok a" and i: "i < MAX_HEIGHT" and cur: "nxt a i p = Some (unat old)"
  obtains a' where "cas_next_offset a p i old w = Some (True, a')" and "tower_upd a a' p i w"
proof -
  obtain nd where nd: "da_nodes a p = Some nd" "tower nd ! i = old"
    using cur by (auto simp: nxt_def word_unat_eq_iff)
  obtain a' where "store_next_offset a p i w = Some a'" "tower_upd a a' p i w"
    using store_next_offset_ok [OF ok nd(1) i] .
  with that nd get_next_offset_ok [OF ok _ i, of p nd] show ?thesis
    by (auto simp: cas_next_offset_def node_at_def)
qed

text \<open>The levels after \<open>i\<close> of them were linked.\<close>

definition linked :: "(nat \<Rightarrow> nat list) \<Rightarrow> (nat \<Rightarrow> nat list) \<Rightarrow> (nat \<Rightarrow> nat list) \<Rightarrow> nat \<Rightarrow> nat \<Rightarrow> nat \<Rightarrow> nat list" where
  "linked L A B x i l = (if l < i then A l @ x # B l else L l)"

lemma linked_0 [simp]: "linked L A B x 0 = L"
  by (simp add: linked_def fun_eq_iff)

text \<open>The state of the linking loop before level \<open>i\<close>.\<close>

definition link_inv ::
    "skip_list \<Rightarrow> (nat \<Rightarrow> nat list) \<Rightarrow> (nat \<Rightarrow> nat list) \<Rightarrow> (nat \<Rightarrow> nat list) \<Rightarrow> bytes \<Rightarrow> nat \<Rightarrow> nat \<Rightarrow> bool" where
  "link_inv s L A B k x i \<longleftrightarrow> skip_inv s (linked L A B x i)
     \<and> (\<forall>l. L l = A l @ B l \<and> (\<forall>p\<in>set (A l). key_of (sl_arena s) p < k)
            \<and> (\<forall>p\<in>set (B l). k < key_of (sl_arena s) p))
     \<and> (\<forall>l. set (L (Suc l)) \<subseteq> set (L l))
     \<and> node_wf (sl_arena s) x \<and> key_of (sl_arena s) x = k \<and> x \<notin> set (sl_head s # L 0)"

lemma link_inv_fresh:
  assumes "link_inv s L A B k x i"
  shows "x \<notin> set (sl_head s # A l @ B l)" and "x \<noteq> last (sl_head s # A l)"
proof -
  have sub: "set (L (Suc m)) \<subseteq> set (L m)" and AB: "L l = A l @ B l" and "x \<notin> set (sl_head s # L 0)" for m
    using assms unfolding link_inv_def by blast+
  moreover have "set (L l) \<subseteq> set (L 0)" by (induction l) (use sub in auto)
  ultimately show "x \<notin> set (sl_head s # A l @ B l)" by auto
  then show "x \<noteq> last (sl_head s # A l)"
    using last_in_set [of "sl_head s # A l"] by auto
qed

lemma link_inv_step:
  assumes J: "link_inv s L A B k x i" and i: "i < sl_height s"
    and t1: "tower_upd (sl_arena s) a1 x i (of_nat (get_node_offset (hd_opt (B i))))"
    and t2: "tower_upd a1 a2 (last (sl_head s # A i)) i (of_nat x)"
    and offs: "unat (of_nat (get_node_offset (hd_opt (B i))) :: u32) = get_node_offset (hd_opt (B i))"
      "unat (of_nat x :: u32) = x" "x \<noteq> 0"
  shows "link_inv (s\<lparr>sl_arena := a2\<rparr>) L A B k x (Suc i)"
proof -
  let ?a = "sl_arena s" and ?M = "linked L A B x i" and ?N = "linked L A B x (Suc i)"
  have inv: "skip_inv s ?M"
    and AB: "L l = A l @ B l" "\<forall>p\<in>set (A l). key_of ?a p < k" "\<forall>p\<in>set (B l). k < key_of ?a p"
    and sub: "set (L (Suc l)) \<subseteq> set (L l)"
    and x: "node_wf ?a x" "key_of ?a x = k" "x \<notin> set (sl_head s # L 0)" for l
    using J unfolding link_inv_def by blast+
  note D = skip_invD [OF inv]
  have key: "key_of a2 q = key_of ?a q" and wf: "node_wf a2 q \<longleftrightarrow> node_wf ?a q" for q
    using t1 t2 by (auto simp: tower_upd_def key_of_def)
  have nx: "nxt a2 l q = (if l = i \<and> q = last (sl_head s # A i) then Some x
      else if l = i \<and> q = x then Some (get_node_offset (hd_opt (B i))) else nxt ?a l q)" for l q
    using t1 t2 offs by (auto simp: tower_upd_def)
  have Mi: "?M i = A i @ B i" using AB(1) by (simp add: linked_def)
  have dist: "distinct (sl_head s # A i @ B i)"
    using level_facts(1) [OF inv, of i] Mi by simp
  note xi = link_inv_fresh [OF J, of i]
  have chain: "chain a2 l (sl_head s) (?N l)" if l: "l < MAX_HEIGHT" for l
  proof (cases "l = i")
    case True
    have "chain a2 i (sl_head s) (A i @ x # B i)"
      using D(4) [OF l] True Mi xi
      by (intro chain_insert [OF _ dist xi(1) offs(3)]) (auto simp: nx)
    then show ?thesis using True by (simp add: linked_def)
  next
    case False
    then have "?N l = ?M l" by (auto simp: linked_def)
    with False D(4) [OF l] show ?thesis
      using chain_cong [of "sl_head s" "?M l" a2 l ?a] by (simp add: nx)
  qed
  have keyf: "key_of a2 = key_of ?a" using key by (simp add: fun_eq_iff)
  have sorted: "strictly_sorted (map (key_of a2) (?N l))" for l
  proof (cases "l = i")
    case True
    then show ?thesis
      using D(6) [of i] Mi AB(2,3) [of i] x(2) unfolding keyf
      by (auto simp: linked_def sorted_wrt_append)
  next
    case False
    then have "?N l = ?M l" by (auto simp: linked_def)
    then show ?thesis using D(6) [of l] keyf by simp
  qed
  have nsub: "set (?N (Suc l)) \<subseteq> set (?N l)" for l
    using sub [of l] AB(1) [of l] AB(1) [of "Suc l"] by (auto simp: linked_def)
  have "skip_inv (s\<lparr>sl_arena := a2\<rparr>) ?N"
  proof -
    have "?N l = []" if "sl_height s \<le> l" for l
      using D(5) [OF that] i that by (auto simp: linked_def)
    moreover have "\<forall>p\<in>set (?N 0). node_wf a2 p"
      using D(8) x(1) AB(1) [of 0] by (auto simp: linked_def wf)
    moreover have "sl_head s \<notin> set (?N 0)"
      using D(9) x(3) AB(1) [of 0] by (auto simp: linked_def split: if_splits)
    ultimately show ?thesis
      using D(2,3) t2 chain sorted nsub unfolding skip_inv_def by (simp add: tower_upd_def)
  qed
  with AB sub x show ?thesis by (simp add: link_inv_def key wf)
qed

lemma link_inv_next_node:
  assumes "link_inv s L A B k x i" and "i < MAX_HEIGHT"
  shows "nxt (sl_arena s) i (last (sl_head s # A i)) = Some (get_node_offset (hd_opt (B i)))"
proof -
  have "chain (sl_arena s) i (sl_head s) (A i @ B i)"
    using assms skip_invD(4) [of s "linked L A B x i" i] by (auto simp: link_inv_def linked_def)
  then show ?thesis by (rule chain_nxt_last)
qed

lemma node_offset_u32:
  assumes "arena_ok a" and "da_nodes a p = Some nd"
  shows "unat (of_nat p :: u32) = p" and "p \<noteq> 0"
  using arena_ok_nodeD(1,2) [OF assms] assms(1) by (auto simp: arena_ok_def)

lemma link_level_correct:
  assumes J: "link_inv s L A B k x i" and i: "i < sl_height s"
    and prev: "prev ! i = Some (last (sl_head s # A i))" and nx: "next ! i = hd_opt (B i)"
  obtains a' where "link_level k v x i s (prev, next) = Some (Inr (s\<lparr>sl_arena := a'\<rparr>, (prev, next)))"
    and "link_inv (s\<lparr>sl_arena := a'\<rparr>) L A B k x (Suc i)"
    and "val_of a' = val_of (sl_arena s)"
    and "key_of a' = key_of (sl_arena s)" and "da_head a' = da_head (sl_arena s)"
    and "da_tail a' = da_tail (sl_arena s)"
proof -
  let ?a = "sl_arena s" and ?p = "last (sl_head s # A i)" and ?n = "get_node_offset (hd_opt (B i))"
  have inv: "skip_inv s (linked L A B x i)" using J by (simp add: link_inv_def)
  note ok = skip_invD(1) [OF inv]
  have iM: "i < MAX_HEIGHT" using i skip_invD(3) [OF inv] by simp
  obtain xn where xn: "da_nodes ?a x = Some xn" using J by (auto simp: link_inv_def node_wf_def)
  note xo = node_offset_u32 [OF ok xn]
  note cur = link_inv_next_node [OF J iM]
  then obtain pn where pn: "da_nodes ?a ?p = Some pn" "unat (tower pn ! i) = ?n"
    by (auto simp: nxt_def)
  then have no: "unat (of_nat ?n :: u32) = ?n" by (simp flip: pn(2))
  have px: "?p \<noteq> x" using link_inv_fresh(2) [OF J, of i] by (rule not_sym)
  obtain a1 where a1: "store_next_offset ?a x i (of_nat ?n) = Some a1" "tower_upd ?a a1 x i (of_nat ?n)"
    using store_next_offset_ok [OF ok xn iM] .
  have "nxt a1 i ?p = Some (unat (of_nat ?n :: u32))"
    using a1(2) cur px no by (simp add: tower_upd_def)
  moreover have "arena_ok a1" using a1(2) by (simp add: tower_upd_def)
  ultimately obtain a2 where a2: "cas_next_offset a1 ?p i (of_nat ?n) (of_nat x) = Some (True, a2)"
    "tower_upd a1 a2 ?p i (of_nat x)"
    using cas_next_offset_ok [OF _ iM] by blast
  have "link_level k v x i s (prev, next) = Some (Inr (s\<lparr>sl_arena := a2\<rparr>, (prev, next)))"
    by (subst link_level.simps) (simp add: prev nx a1(1) a2(1) Let_def del: last.simps)
  moreover have "link_inv (s\<lparr>sl_arena := a2\<rparr>) L A B k x (Suc i)"
    by (rule link_inv_step [OF J i a1(2) a2(2) no xo])
  moreover have "val_of a2 = val_of ?a" "key_of a2 = key_of ?a" "da_head a2 = da_head ?a" "da_tail a2 = da_tail ?a"
    using a1(2) a2(2) by (auto simp: tower_upd_def val_of_def key_of_def fun_eq_iff)
  ultimately show ?thesis using that by blast
qed

text \<open>On a level that was not searched before, the list is empty and the search from the head finds that.\<close>

lemma link_level_null:
  assumes inv: "skip_inv s M" and "M i = []" and "i < MAX_HEIGHT" and "1 < i"
    and "prev ! i = None" and "i < length prev" and "next ! i = None"
  shows "link_level k v x i s (prev, next) = link_level k v x i s (prev[i := Some (sl_head s)], next)"
proof -
  have "find_splice_for_level s k (sl_head s) i = Some (sl_head s, None)"
    using find_splice_step [OF inv at_splice_head assms(3)] assms(2) by simp
  with assms(4-7) show ?thesis
    by (subst (1 2) link_level.simps) (simp add: Let_def)
qed

lemma link_levels_correct:
  assumes "link_inv s L A B k x i" and "i + n \<le> sl_height s" and "length prev = Suc MAX_HEIGHT"
    and "\<forall>j. i \<le> j \<and> j < i + n \<longrightarrow> next ! j = hd_opt (B j)
      \<and> (prev ! j = Some (last (sl_head s # A j)) \<or> prev ! j = None \<and> 1 < j \<and> L j = [])"
  shows "\<exists>a'. link_levels k v x i n s (prev, next) = Some (s\<lparr>sl_arena := a'\<rparr>)
    \<and> link_inv (s\<lparr>sl_arena := a'\<rparr>) L A B k x (i + n) \<and> val_of a' = val_of (sl_arena s)
    \<and> key_of a' = key_of (sl_arena s) \<and> da_head a' = da_head (sl_arena s)
    \<and> da_tail a' = da_tail (sl_arena s)"
  using assms
proof (induction n arbitrary: i s prev)
  case 0
  then show ?case by (intro exI [of _ "sl_arena s"]) simp
next
  case (Suc n)
  have J: "skip_inv s (linked L A B x i)" "L i = A i @ B i"
    using Suc.prems(1) by (auto simp: link_inv_def)
  have i: "i < sl_height s" "i < MAX_HEIGHT"
    using Suc.prems(2) skip_invD(3) [OF J(1)] by auto
  define prev' where "prev' = (if prev ! i = None then prev[i := Some (sl_head s)] else prev)"
  have at_i: "next ! i = hd_opt (B i)"
    "prev ! i = Some (last (sl_head s # A i)) \<or> prev ! i = None \<and> 1 < i \<and> L i = []"
    using Suc.prems(4) by auto
  then have prev'i: "prev' ! i = Some (last (sl_head s # A i))"
    using J(2) Suc.prems(3) i(2) by (auto simp: prev'_def)
  have same: "link_level k v x i s (prev, next) = link_level k v x i s (prev', next)"
    using at_i link_level_null [OF J(1) _ i(2), of prev "next" k v x] J(2) Suc.prems(3) i(2)
    by (auto simp: prev'_def linked_def)
  obtain a where a: "link_level k v x i s (prev', next) = Some (Inr (s\<lparr>sl_arena := a\<rparr>, (prev', next)))"
    "link_inv (s\<lparr>sl_arena := a\<rparr>) L A B k x (Suc i)" "val_of a = val_of (sl_arena s)"
    "key_of a = key_of (sl_arena s)" "da_head a = da_head (sl_arena s)" "da_tail a = da_tail (sl_arena s)"
    using link_level_correct [OF Suc.prems(1) i(1) prev'i at_i(1)] .
  have "\<forall>j. Suc i \<le> j \<and> j < Suc i + n \<longrightarrow> next ! j = hd_opt (B j)
      \<and> (prev' ! j = Some (last (sl_head s # A j)) \<or> prev' ! j = None \<and> 1 < j \<and> L j = [])"
    using Suc.prems(4) by (auto simp: prev'_def)
  moreover have "length prev' = Suc MAX_HEIGHT"
    using Suc.prems(3) by (simp add: prev'_def)
  ultimately obtain a' where "link_levels k v x (Suc i) n (s\<lparr>sl_arena := a\<rparr>) (prev', next) = Some (s\<lparr>sl_arena := a'\<rparr>)"
    "link_inv (s\<lparr>sl_arena := a'\<rparr>) L A B k x (Suc i + n)" "val_of a' = val_of a" "key_of a' = key_of a"
    "da_head a' = da_head a" "da_tail a' = da_tail a"
    using Suc.IH [OF a(2), of prev'] Suc.prems(2) by auto
  with a same show ?case by (intro exI [of _ a']) simp
qed

subsection \<open>put\<close>

lemma random_height_loop_bounds:
  "h \<le> MAX_HEIGHT \<Longrightarrow> h \<le> random_height_loop rnd i h \<and> random_height_loop rnd i h \<le> MAX_HEIGHT"
proof (induction rnd i h rule: random_height_loop.induct)
  case (1 rnd i h)
  then show ?case by (subst (1 2) random_height_loop.simps) auto
qed

lemma random_height_bounds: "1 \<le> random_height rnd" "random_height rnd \<le> MAX_HEIGHT"
  using random_height_loop_bounds [of 1 rnd 0] by (auto simp: random_height_def MAX_HEIGHT_def)

text \<open>The arena has room for one more node with this key and value.\<close>

definition sl_room :: "skip_list \<Rightarrow> bytes \<Rightarrow> value_struct \<Rightarrow> bool" where
  "sl_room s k v \<longleftrightarrow> da_head (sl_arena s) + 96 + length k + vs_size v < da_tail (sl_arena s)
     \<and> length k < 65536 \<and> vs_size v < 65536"

text \<open>The bytes between the two ends, and what one write takes of them at most.\<close>

definition sl_free :: "skip_list \<Rightarrow> nat" where
  "sl_free s = da_tail (sl_arena s) - da_head (sl_arena s)"

definition put_cost :: "bytes \<Rightarrow> value_struct \<Rightarrow> nat" where
  "put_cost k v = 96 + length k + vs_size v"

definition put_small :: "bytes \<Rightarrow> value_struct \<Rightarrow> bool" where
  "put_small k v \<longleftrightarrow> length k < 65536 \<and> vs_size v < 65536"

lemma sl_room_free: "put_cost k v < sl_free s \<Longrightarrow> put_small k v \<Longrightarrow> sl_room s k v"
  by (auto simp: put_cost_def sl_free_def put_small_def sl_room_def)

lemma node_in_arena: "node_wf a p \<Longrightarrow> \<exists>nd. da_nodes a p = Some nd"
  by (auto simp: node_wf_def)

lemma skip_head_node: "skip_inv s L \<Longrightarrow> \<exists>nd. da_nodes (sl_arena s) (sl_head s) = Some nd"
  using skip_invD(4) [of s L 0] by (cases "L 0") (auto simp: nxt_def)

lemma put_start:
  assumes "sl_height s \<le> MAX_HEIGHT"
  obtains prev "next" where "length prev = Suc MAX_HEIGHT" and "length next = Suc MAX_HEIGHT"
    and "prev ! sl_height s = Some (sl_head s)"
    and "\<forall>j\<le>MAX_HEIGHT. j \<noteq> sl_height s \<longrightarrow> prev ! j = None"
    and "\<forall>j\<le>MAX_HEIGHT. next ! j = None"
    and "sl_put s k v rnd = Option.bind (put_splices s k v (sl_height s) (prev, next))
      (\<lambda>r. case r of Inl s \<Rightarrow> Some s | Inr sp \<Rightarrow> put_new_node s k v rnd sp)"
proof -
  let ?prev = "(replicate (MAX_HEIGHT + 1) None)[sl_height s := Some (sl_head s)]"
  let ?next = "replicate (MAX_HEIGHT + 1) (None :: nat option)"
  have "sl_put s k v rnd = Option.bind (put_splices s k v (sl_height s) (?prev, ?next))
      (\<lambda>r. case r of Inl s \<Rightarrow> Some s | Inr sp \<Rightarrow> put_new_node s k v rnd sp)"
    using assms by (simp add: sl_put_def Let_def del: replicate.simps)
  with that [of ?prev ?next] assms show ?thesis by (simp del: replicate.simps)
qed

lemma sl_put_hit:
  assumes inv: "skip_inv s L" and p: "p \<in> set (L 0)" "key_of (sl_arena s) p = k"
    and room: "sl_room s k v"
  shows "\<exists>s'. sl_put s k v rnd = Some s' \<and> skip_inv s' L
    \<and> entries (sl_arena s') (L 0) = assoc_put k v (entries (sl_arena s) (L 0))
    \<and> sl_free s \<le> sl_free s' + put_cost k v"
proof -
  let ?a = "sl_arena s"
  note D = skip_invD [OF inv]
  have "da_head ?a + vs_size v < da_tail ?a" "vs_size v < 65536"
    using room by (auto simp: sl_room_def)
  then obtain a' nd nd' where a': "set_value ?a p v = Some a'" "arena_ok a'" "da_nodes ?a p = Some nd"
    "da_nodes a' = (da_nodes ?a)(p \<mapsto> nd')" "tower nd' = tower nd" "height nd' = height nd"
    "node_wf a' p" "node_key a' p = node_key ?a p" "node_val a' p = Some v" "byte_stable ?a a'"
    "da_head a' = da_head ?a" "da_tail a' = da_tail ?a - vs_size v"
    using set_value_ok [OF D(1) _ _ D(8) [OF p(1)]] by metis
  have other: "node_wf a' q \<and> node_key a' q = node_key ?a q \<and> node_val a' q = node_val ?a q"
    if "q \<in> set (L 0)" "q \<noteq> p" for q
    using node_wf_stable [OF a'(10) D(8) [OF that(1)]] that(2) a'(4) by (auto simp: same_payload_def)
  have nx: "nxt a' l q = nxt ?a l q" for l q
    using a'(3,4,5) by (simp add: nxt_def)
  have wf: "node_wf a' q \<and> key_of a' q = key_of ?a q" if "q \<in> set (L 0)" for q
    using other [OF that] a'(7,8) by (cases "q = p") (auto simp: key_of_def)
  have "skip_inv (s\<lparr>sl_arena := a', sl_height := sl_height s\<rparr>) L"
    using nx wf D(3) by (intro skip_inv_transfer [OF inv a'(2)]) auto
  moreover have "sl_put s k v rnd = Some (s\<lparr>sl_arena := a'\<rparr>)"
  proof -
    obtain prev "next" where st: "length prev = Suc MAX_HEIGHT" "prev ! sl_height s = Some (sl_head s)"
      "sl_put s k v rnd = Option.bind (put_splices s k v (sl_height s) (prev, next))
        (\<lambda>r. case r of Inl s \<Rightarrow> Some s | Inr sp \<Rightarrow> put_new_node s k v rnd sp)"
      by (rule put_start [OF D(3)])
    obtain i where i: "sl_height s = Suc i" using D(2) by (cases "sl_height s") auto
    have "put_splices s k v (Suc i) (prev, next) = Some (Inl (s\<lparr>sl_arena := a'\<rparr>))"
      using put_splices_hit [OF inv p at_splice_head, of prev i v "next"] st(1,2) D(3) a'(1) i by simp
    then show ?thesis unfolding st(3) i by (simp del: put_splices.simps)
  qed
  moreover have "entries a' (L 0) = assoc_put k v (entries ?a (L 0))"
  proof -
    obtain xs ys where L0: "L 0 = xs @ p # ys" "\<forall>q\<in>set xs. key_of ?a q < k" "\<forall>q\<in>set ys. k < key_of ?a q"
      using level_split [OF inv p(1)] p(2) by metis
    have "val_of a' q = val_of ?a q \<and> key_of a' q = key_of ?a q" if "q \<in> set xs \<union> set ys" for q
      using other [of q] wf [of q] L0 p(2) that by (cases "q = p") (auto simp: val_of_def)
    then have "entries a' xs = entries ?a xs" "entries a' ys = entries ?a ys"
      by (auto simp: entries_def)
    moreover have "key_of a' p = k" "val_of a' p = v"
      using wf [OF p(1)] p(2) a'(9) by (auto simp: val_of_def)
    moreover have "\<forall>e\<in>set (entries ?a xs). fst e < k" using L0(2) by (auto simp: entries_def)
    ultimately show ?thesis
      using p(2) by (simp add: L0(1) assoc_put_append_less)
  qed
  moreover have "sl_free s \<le> sl_free (s\<lparr>sl_arena := a'\<rparr>) + put_cost k v"
    using a'(11,12) by (simp add: sl_free_def put_cost_def)
  ultimately show ?thesis by auto
qed

text \<open>The state right after the node is made: it is in the arena and linked on no level.\<close>

lemma new_node_link_inv:
  assumes inv: "skip_inv s L" and miss: "k \<notin> key_of (sl_arena s) ` set (L 0)"
    and a1: "arena_ok a1" "da_nodes (sl_arena s) x = None" "da_nodes a1 = (da_nodes (sl_arena s))(x \<mapsto> nd)" "node_wf a1 x"
      "node_key a1 x = Some k" "byte_stable (sl_arena s) a1"
    and h: "sl_height s \<le> h" "h \<le> MAX_HEIGHT"
  shows "link_inv (s\<lparr>sl_arena := a1, sl_height := h\<rparr>) L (below s L k) (behind s L k) k x 0"
    and "\<And>q. q \<in> set (L 0) \<Longrightarrow> node_key a1 q = node_key (sl_arena s) q \<and> node_val a1 q = node_val (sl_arena s) q"
proof -
  let ?a = "sl_arena s" and ?A = "below s L k" and ?B = "behind s L k" and ?s = "s\<lparr>sl_arena := a1, sl_height := h\<rparr>"
  note D = skip_invD [OF inv]
  have kept: "\<exists>m. da_nodes a1 q = Some m \<and> same_payload n m" if "da_nodes ?a q = Some n" for q n
    using a1(2,3) that by (cases "q = x") (auto simp: same_payload_def)
  have old: "node_wf a1 q \<and> node_key a1 q = node_key ?a q \<and> node_val a1 q = node_val ?a q" if "q \<in> set (L 0)" for q
    using node_wf_stable [OF a1(6) D(8) [OF that] kept] by blast
  then show "node_key a1 q = node_key ?a q \<and> node_val a1 q = node_val ?a q" if "q \<in> set (L 0)" for q using that by blast
  have fresh: "x \<notin> set (sl_head s # L 0)"
    using a1(2) skip_head_node [OF inv] node_in_arena [OF D(8), of x] by auto
  then have nx: "nxt a1 l q = nxt ?a l q" if "q \<in> set (sl_head s # L 0)" for l q
    using a1(3) that by (auto simp: nxt_def)
  have keys: "key_of a1 q = key_of ?a q" if "q \<in> set (L l)" for q l
    using old level_subset [OF inv, of l] that by (auto simp: key_of_def)
  have "skip_inv ?s L"
    using nx old h by (intro skip_inv_transfer [OF inv a1(1)]) (auto simp: key_of_def)
  moreover have "\<forall>p\<in>set (?A l). key_of a1 p < k" "\<forall>p\<in>set (?B l). k < key_of a1 p" for l
  proof -
    have sets: "set (?A l) \<subseteq> set (L l)" "set (?B l) \<subseteq> set (L l)"
      using below_above [of L l s k] by (metis Un_upper1 Un_upper2 set_append)+
    then show "\<forall>p\<in>set (?A l). key_of a1 p < k"
      using at_splice_below [of s L k l] keys [of _ l] by (auto simp: at_splice_def subset_iff)
    have "k \<notin> key_of ?a ` set (L l)" using miss level_subset [OF inv, of l] by blast
    then show "\<forall>p\<in>set (?B l). k < key_of a1 p"
      using above_greater [OF inv] keys sets by fastforce
  qed
  moreover have "key_of a1 x = k" using a1(5) by (simp add: key_of_def)
  ultimately show "link_inv ?s L ?A ?B k x 0"
    using D(7) a1(4) fresh below_above [of L _ s k]
    unfolding link_inv_def linked_0 by simp
qed

text \<open>The new pair enters the pairs of level 0 at the place of its key.\<close>

lemma linked_entries:
  assumes inv: "skip_inv s L" and miss: "k \<notin> key_of (sl_arena s) ` set (L 0)" and "0 < h"
    and old: "\<And>q. q \<in> set (L 0) \<Longrightarrow> key_of a q = key_of (sl_arena s) q \<and> val_of a q = val_of (sl_arena s) q"
    and x: "key_of a x = k" "val_of a x = v"
  shows "entries a (linked L (below s L k) (behind s L k) x h 0) = assoc_put k v (entries (sl_arena s) (L 0))"
proof -
  let ?a = "sl_arena s" and ?A = "below s L k 0" and ?B = "behind s L k 0"
  have "linked L (below s L k) (behind s L k) x h 0 = ?A @ x # ?B" using assms(3) by (simp add: linked_def)
  moreover have "entries a ps = entries ?a ps" if "set ps \<subseteq> set (L 0)" for ps
    using old that by (auto simp: entries_def)
  then have "entries a ?A = entries ?a ?A" "entries a ?B = entries ?a ?B"
    using below_above [of L 0 s k] by (metis Un_upper1 Un_upper2 set_append)+
  moreover have "\<forall>e\<in>set (entries ?a ?A). fst e < k" "\<forall>e\<in>set (entries ?a ?B). k < fst e"
    using at_splice_below [of s L k 0] above_greater [OF inv miss]
    by (auto simp: entries_def at_splice_def)
  ultimately show ?thesis
    using x below_above [of L 0 s k] assoc_put_append_less assoc_put_less entries_simps(2,3) by metis
qed

lemma sl_put_miss:
  assumes inv: "skip_inv s L" and miss: "k \<notin> key_of (sl_arena s) ` set (L 0)"
    and room: "sl_room s k v"
  shows "\<exists>s' L'. sl_put s k v rnd = Some s' \<and> skip_inv s' L'
    \<and> entries (sl_arena s') (L' 0) = assoc_put k v (entries (sl_arena s) (L 0))
    \<and> sl_free s \<le> sl_free s' + put_cost k v"
proof -
  let ?a = "sl_arena s" and ?h = "random_height rnd" and ?A = "below s L k" and ?B = "behind s L k"
  let ?x = "da_head ?a"
  note D = skip_invD [OF inv]
  obtain prev "next" where st: "length prev = Suc MAX_HEIGHT" "length next = Suc MAX_HEIGHT"
    "prev ! sl_height s = Some (sl_head s)"
    "\<forall>j\<le>MAX_HEIGHT. j \<noteq> sl_height s \<longrightarrow> prev ! j = None"
    "\<forall>j\<le>MAX_HEIGHT. next ! j = None"
    "sl_put s k v rnd = Option.bind (put_splices s k v (sl_height s) (prev, next))
      (\<lambda>r. case r of Inl s \<Rightarrow> Some s | Inr sp \<Rightarrow> put_new_node s k v rnd sp)"
    by (rule put_start [OF D(3), of k v rnd])
  obtain prev' next' where sp: "put_splices s k v (sl_height s) (prev, next) = Some (Inr (prev', next'))"
    "splices_ok s L k (sl_height s) (prev', next')"
    "\<forall>j\<ge>sl_height s. prev' ! j = prev ! j \<and> next' ! j = next ! j" "length prev' = Suc MAX_HEIGHT"
    using put_splices_miss [OF inv miss at_splice_head st(3) D(3) st(1,2), of v] st(5) D(3) by auto
  have "da_head ?a + 96 + length k + vs_size v < da_tail ?a" "length k < 65536" "vs_size v < 65536"
    using room by (auto simp: sl_room_def)
  then obtain a1 nd where a1: "node_new ?a k v ?h = Some (?x, a1)" "arena_ok a1" "da_nodes ?a ?x = None"
    "da_nodes a1 = (da_nodes ?a)(?x \<mapsto> nd)" "node_wf a1 ?x" "node_key a1 ?x = Some k"
    "node_val a1 ?x = Some v" "byte_stable ?a a1" "da_head a1 = ?x + 96"
    "da_tail a1 = da_tail ?a - length k - vs_size v"
    using node_new_ok [OF D(1)] by metis
  define s1 where "s1 = s\<lparr>sl_arena := a1, sl_height := max (sl_height s) ?h\<rparr>"
  have "max (sl_height s) ?h \<le> MAX_HEIGHT" using D(3) random_height_bounds(2) [of rnd] by simp
  note new = new_node_link_inv [OF inv miss a1(2-6,8) max.cobounded1 this]
  have J: "link_inv s1 L ?A ?B k ?x 0" using new(1) by (simp add: s1_def)
  have hh: "0 + ?h \<le> sl_height s1" by (simp add: s1_def)
  have "next' ! j = hd_opt (?B j) \<and> (prev' ! j = Some (last (sl_head s1 # ?A j)) \<or> prev' ! j = None \<and> 1 < j \<and> L j = [])"
    if j: "j < ?h" for j
  proof (cases "j < sl_height s")
    case True
    then show ?thesis using sp(2) by (simp add: splices_ok_def s1_def)
  next
    case False
    then have "L j = []" "j \<le> MAX_HEIGHT" "prev' ! j = prev ! j" "next' ! j = None"
      using D(5) j random_height_bounds(2) [of rnd] sp(3) st(5) by auto
    with False D(2) st(3,4) show ?thesis
      by (cases "j = sl_height s") (auto simp: below_def behind_def s1_def)
  qed
  then obtain a' where a': "link_levels k v ?x 0 ?h s1 (prev', next') = Some (s1\<lparr>sl_arena := a'\<rparr>)"
    "link_inv (s1\<lparr>sl_arena := a'\<rparr>) L ?A ?B k ?x ?h" "val_of a' = val_of a1" "key_of a' = key_of a1"
    "da_head a' = da_head a1" "da_tail a' = da_tail a1"
    using link_levels_correct [OF J hh sp(4), of next' v] by (auto simp: s1_def)
  have "(if sl_height s < ?h then s\<lparr>sl_arena := a1, sl_height := ?h\<rparr> else s\<lparr>sl_arena := a1\<rparr>) = s1"
    by (cases s) (simp add: s1_def max_def)
  then have "sl_put s k v rnd = Some (s1\<lparr>sl_arena := a'\<rparr>)"
    using st(6) sp(1) a1(1) a'(1) by (simp add: put_new_node_def Let_def)
  moreover have "skip_inv (s1\<lparr>sl_arena := a'\<rparr>) (linked L ?A ?B ?x ?h)"
    using a'(2) by (simp add: link_inv_def)
  moreover have "entries a' (linked L ?A ?B ?x ?h 0) = assoc_put k v (entries ?a (L 0))"
    using random_height_bounds(1) [of rnd] new(2) a'(3,4) a1(6,7)
    by (intro linked_entries [OF inv miss]) (auto simp: key_of_def val_of_def)
  moreover have "sl_free s \<le> sl_free (s1\<lparr>sl_arena := a'\<rparr>) + put_cost k v"
    using a'(5,6) a1(9,10) by (simp add: sl_free_def put_cost_def)
  ultimately show ?thesis by auto
qed

lemma sl_put_abs:
  assumes "skip_abs s kvs" and "sl_room s k v"
  shows "\<exists>s'. sl_put s k v rnd = Some s' \<and> skip_abs s' (assoc_put k v kvs)
    \<and> sl_free s \<le> sl_free s' + put_cost k v"
proof -
  obtain L where inv: "skip_inv s L" and kvs: "kvs = entries (sl_arena s) (L 0)"
    using assms(1) by (auto simp: skip_abs_def)
  show ?thesis
  proof (cases "k \<in> key_of (sl_arena s) ` set (L 0)")
    case True
    then obtain p where "p \<in> set (L 0)" "key_of (sl_arena s) p = k" by auto
    from sl_put_hit [OF inv this assms(2), of rnd] show ?thesis
      unfolding skip_abs_def kvs by metis
  next
    case False
    from sl_put_miss [OF inv False assms(2), of rnd] show ?thesis
      unfolding skip_abs_def kvs by metis
  qed
qed

subsection \<open>new\<close>

lemma sl_new_abs:
  assumes "128 \<le> n" and "n < 2 ^ 31"
  shows "\<exists>s. sl_new n i = Some s \<and> skip_abs s [] \<and> da_head (sl_arena s) = 104
    \<and> da_tail (sl_arena s) + 10 = (n + 8) div 8 * 8"
proof -
  have "unat (of_nat (n + 1) :: u64) = n + 1"
    using assms(2) by (intro unat_of_nat_u64) simp
  then have "unat (cals_size_with_align (of_nat (n + 1)) 7) = (n + 8) div 8 * 8"
    using assms(2) by (subst cals_size_with_align_8) auto
  then obtain a where new: "arena_new n = Some a"
    using assms(1) by (simp add: arena_new_def da_new_def PtrAlign_def Let_def)
  note a = arena_new_ok [OF new assms(2)]
  have cap: "128 \<le> da_cap a" using a(5) assms(1) by simp
  have sz: "vs_size vs_default = 10" by (simp add: vs_size_def vs_header_size_def vs_default_def)
  obtain a' nd where n: "node_new a [] vs_default MAX_HEIGHT = Some (da_head a, a')" "arena_ok a'"
    "da_nodes a' = (da_nodes a)(da_head a \<mapsto> nd)" "tower nd = replicate MAX_HEIGHT 0"
    "da_head a' = da_head a + 96" "da_tail a' = da_tail a - length ([] :: bytes) - vs_size vs_default"
  proof (rule node_new_ok [of a "[]" vs_default MAX_HEIGHT])
    show "da_head a + 96 + length ([] :: bytes) + vs_size vs_default < da_tail a"
      using a(3,4) cap sz assms(1) by simp
  qed (use a(1) sz assms(1) that in auto)
  let ?s = "\<lparr>sl_height = 1, sl_head = 8, sl_ref = 1, sl_arena = a', sl_id = i\<rparr>"
  have "skip_inv ?s (\<lambda>_. [])"
    using n(2-4) a(3) assms(1) by (simp add: skip_inv_def nxt_def MAX_HEIGHT_def)
  then have "skip_abs ?s []" by (auto simp: skip_abs_def)
  moreover have "sl_new n i = Some ?s"
    using new n(1) a(3) assms(1) by (simp add: sl_new_def)
  ultimately show ?thesis using n(5,6) a(3-5) sz cap assms(1) by (intro exI [of _ ?s]) simp
qed

subsection \<open>The memtable interface\<close>

text \<open>
  What the store relies on in its memtable: a write that fits is an update of the sorted
  association list, it uses up at most its cost, and a lookup reads that list.
\<close>

fun put_all :: "('s \<Rightarrow> 'k \<Rightarrow> 'v \<Rightarrow> 'r \<Rightarrow> 's option) \<Rightarrow> 's \<Rightarrow> ('k \<times> 'v \<times> 'r) list \<Rightarrow> 's option" where
  "put_all put s [] = Some s"
| "put_all put s ((k, v, r) # ws) = do { s \<leftarrow> put s k v r; put_all put s ws }"

definition assoc_puts :: "('k::linorder \<times> 'v) list \<Rightarrow> ('k \<times> 'v \<times> 'r) list \<Rightarrow> ('k \<times> 'v) list" where
  "assoc_puts m ws = foldl (\<lambda>m (k, v, _). assoc_put k v m) m ws"

lemma map_of_assoc_puts:
  "map_of (assoc_puts m ws) = map_of m ++ map_of (rev (map (\<lambda>(k, v, _). (k, v)) ws))"
  unfolding assoc_puts_def by (induction ws arbitrary: m) (auto simp: map_add_upd_left fun_upd_def map_add_def fun_eq_iff split: option.splits)

locale memtable =
  fixes rep :: "'s \<Rightarrow> ('k::linorder \<times> 'v) list \<Rightarrow> bool"
    and put :: "'s \<Rightarrow> 'k \<Rightarrow> 'v \<Rightarrow> 'r \<Rightarrow> 's option"
    and get :: "'s \<Rightarrow> 'k \<Rightarrow> 'v option option"
    and free :: "'s \<Rightarrow> nat"
    and cost :: "'k \<Rightarrow> 'v \<Rightarrow> nat"
    and fits :: "'k \<Rightarrow> 'v \<Rightarrow> bool"
  assumes put_law: "rep s m \<Longrightarrow> cost k v < free s \<Longrightarrow> fits k v \<Longrightarrow>
      \<exists>s'. put s k v r = Some s' \<and> rep s' (assoc_put k v m) \<and> free s \<le> free s' + cost k v"
    and get_law: "rep s m \<Longrightarrow> get s k = Some (map_of m k)"
begin

lemma put_all_rep:
  assumes "rep s m" and "sum_list (map (\<lambda>(k, v, _). cost k v) ws) < free s"
    and "\<forall>(k, v, _)\<in>set ws. fits k v"
  shows "\<exists>s'. put_all put s ws = Some s' \<and> rep s' (assoc_puts m ws)"
  using assms
proof (induction ws arbitrary: s m)
  case Nil
  then show ?case by (simp add: assoc_puts_def)
next
  case (Cons w ws)
  obtain k v r where w: "w = (k, v, r)" by (cases w)
  then obtain s1 where s1: "put s k v r = Some s1" "rep s1 (assoc_put k v m)" "free s \<le> free s1 + cost k v"
    using put_law [OF Cons.prems(1), of k v r] Cons.prems(2,3) by auto
  then obtain s' where "put_all put s1 ws = Some s'" "rep s' (assoc_puts (assoc_put k v m) ws)"
    using Cons.IH [OF s1(2)] Cons.prems(2,3) w by auto
  with s1(1) w show ?case by (simp add: assoc_puts_def)
qed

text \<open>After any sequence of writes that fits, a lookup returns the last write to the key.\<close>

lemma get_after_puts:
  assumes "rep s []" and "sum_list (map (\<lambda>(k, v, _). cost k v) ws) < free s"
    and "\<forall>(k, v, _)\<in>set ws. fits k v"
  shows "\<exists>s'. put_all put s ws = Some s'
    \<and> (\<forall>k. get s' k = Some (map_of (rev (map (\<lambda>(k, v, _). (k, v)) ws)) k))"
  using put_all_rep [OF assms] get_law map_of_assoc_puts [of "[]" ws] by fastforce

end

interpretation sl: memtable skip_abs sl_put sl_get sl_free put_cost put_small
  using sl_put_abs sl_room_free sl_get_abs by unfold_locales blast+

text \<open>
  C5. The skip list is a correct map. Starting from \<open>SkipList::new(n)\<close>, any sequence of \<open>put\<close>
  calls whose total cost fits into the arena succeeds, whatever tower heights the random
  generator draws for each node; afterwards \<open>get\<close> returns for every key the value of the last
  \<open>put\<close> to it (\<open>None\<close> for a key never written), and \<open>key_values\<close> terminates and lists
  exactly the written pairs in strictly increasing key order.
\<close>

theorem skiplist_is_a_map:
  assumes "128 \<le> n" and "n < 2 ^ 31"
    and "sum_list (map (\<lambda>(k, v, _). 96 + length k + vs_size v) ws) + 122 < n"
    and "\<forall>(k, v, _)\<in>set ws. length k < 65536 \<and> vs_size v < 65536"
  shows "\<exists>s s' kvs. sl_new n i = Some s \<and> put_all sl_put s ws = Some s'
    \<and> (\<forall>k. sl_get s' k = Some (map_of (rev (map (\<lambda>(k, v, _). (k, v)) ws)) k))
    \<and> key_values s' = Some kvs \<and> strictly_sorted (map fst kvs)
    \<and> map_of kvs = map_of (rev (map (\<lambda>(k, v, _). (k, v)) ws))"
proof -
  obtain s where s: "sl_new n i = Some s" "skip_abs s []" "da_head (sl_arena s) = 104"
    "da_tail (sl_arena s) + 10 = (n + 8) div 8 * 8"
    using sl_new_abs [OF assms(1,2)] by blast
  have "n < (n + 8) div 8 * 8" by linarith
  then have free: "sum_list (map (\<lambda>(k, v, _). put_cost k v) ws) < sl_free s"
    using assms(3) s(3,4) by (simp add: put_cost_def sl_free_def)
  have small: "\<forall>(k, v, _)\<in>set ws. put_small k v" using assms(4) by (auto simp: put_small_def)
  obtain s' where s': "put_all sl_put s ws = Some s'" "skip_abs s' (assoc_puts [] ws)"
    using sl.put_all_rep [OF s(2) free small] by blast
  have "map_of (assoc_puts [] ws) = map_of (rev (map (\<lambda>(k, v, _). (k, v)) ws))"
    by (simp add: map_of_assoc_puts)
  with s(1) s' sl_get_abs [OF s'(2)] key_values_abs [OF s'(2)] skip_abs_sorted [OF s'(2)]
  show ?thesis by metis
qed

text \<open>Non-vacuity of C5: two writes to the same key into a small list.\<close>

theorem skiplist_is_a_map_witness:
  "\<exists>s s'. sl_new 400 7 = Some s
    \<and> put_all sl_put s [([1], vs_new [5] 0 0 1, \<lambda>_. 0), ([1], vs_new [6] 0 0 2, \<lambda>_. 0)] = Some s'
    \<and> sl_get s' [1] = Some (Some (vs_new [6] 0 0 2)) \<and> sl_get s' [2] = Some None"
  using skiplist_is_a_map [of 400 "[([1], vs_new [5] 0 0 1, \<lambda>_. 0), ([1], vs_new [6] 0 0 2, \<lambda>_. 0)]" 7]
  by (auto simp: vs_size_def vs_header_size_def vs_new_def)

text \<open>
  C34. The four searches of \<open>find_near\<close>. On a well-formed list the loop terminates and returns,
  with \<open>less\<close>, the rightmost node with a key below the target and, without it, the leftmost one
  above it; with \<open>allow_equal\<close> a node with exactly the target key is returned instead, and the
  flag says that it was found.
\<close>

theorem find_near_finds:
  assumes "skip_inv s L"
  shows "find_near s k lesser allow_equal =
    Some (if lesser then find_last (\<lambda>p. key_of (sl_arena s) p < k \<or> allow_equal \<and> key_of (sl_arena s) p = k) (L 0)
          else find (\<lambda>p. k < key_of (sl_arena s) p \<or> allow_equal \<and> key_of (sl_arena s) p = k) (L 0),
          allow_equal \<and> k \<in> key_of (sl_arena s) ` set (L 0))"
  using find_near_correct [OF assms] by (simp add: find_near_spec_def)

text \<open>A list with two keys.\<close>

abbreviation example_writes :: "(bytes \<times> value_struct \<times> (nat \<Rightarrow> u32)) list" where
  "example_writes \<equiv> [([2], vs_new [6] 0 0 2, \<lambda>_. 0), ([1], vs_new [5] 0 0 1, \<lambda>_. 0)]"

lemma example_filled:
  "\<exists>s s'. sl_new 600 7 = Some s \<and> put_all sl_put s example_writes = Some s'
    \<and> skip_abs s' [([1], vs_new [5] 0 0 1), ([2], vs_new [6] 0 0 2)]"
proof -
  obtain s where s: "sl_new 600 7 = Some s" "skip_abs s []" "da_head (sl_arena s) = 104" "da_tail (sl_arena s) + 10 = 608"
    using sl_new_abs [of 600 7] by auto
  have "sum_list (map (\<lambda>(k, v, _). put_cost k v) example_writes) < sl_free s"
    using s(3,4) by (simp add: put_cost_def sl_free_def vs_size_def vs_header_size_def vs_new_def)
  moreover have "\<forall>(k, v, _)\<in>set example_writes. put_small k v"
    by (simp add: put_small_def vs_size_def vs_header_size_def vs_new_def)
  ultimately obtain s' where s': "put_all sl_put s example_writes = Some s'" "skip_abs s' (assoc_puts [] example_writes)"
    using sl.put_all_rep [OF s(2)] by blast
  have "assoc_puts [] example_writes = [([1], vs_new [5] 0 0 1), ([2], vs_new [6] 0 0 2)]" by (simp add: assoc_puts_def)
  with s(1) s' show ?thesis by auto
qed

text \<open>Non-vacuity of C34: a list with the keys 1 and 2, searched at and around them.\<close>

theorem find_near_finds_witness:
  "\<exists>s s' p q. sl_new 600 7 = Some s \<and> put_all sl_put s example_writes = Some s'
    \<and> key_of (sl_arena s') p = [1] \<and> key_of (sl_arena s') q = [2]
    \<and> find_near s' [2] True False = Some (Some p, False) \<and> find_near s' [1] False True = Some (Some p, True)
    \<and> find_near s' [1] False False = Some (Some q, False)"
proof -
  obtain s s' where s: "sl_new 600 7 = Some s" "put_all sl_put s example_writes = Some s'"
    "skip_abs s' [([1], vs_new [5] 0 0 1), ([2], vs_new [6] 0 0 2)]" using example_filled by blast
  then obtain L where L: "skip_inv s' L" "[([1], vs_new [5] 0 0 1), ([2], vs_new [6] 0 0 2)] = entries (sl_arena s') (L 0)"
    by (auto simp: skip_abs_def)
  then obtain p q where pq: "L 0 = [p, q]" "key_of (sl_arena s') p = [1]" "key_of (sl_arena s') q = [2]"
    by (auto simp: entries_def Cons_eq_map_conv)
  with s(1,2) find_near_finds [OF L(1)] show ?thesis
    by (intro exI [of _ s] exI [of _ s'] exI [of _ p] exI [of _ q]) (simp add: find_last_def)
qed

end
