(* ===== verification/Xiterator.thy ===== *)
theory Xiterator
  imports Badger_Prelude
begin

section \<open>The iterator contract\<close>

text \<open>
  The trait \<open>Xiterator\<close> of \<open>src/src/y/iterator.rs\<close>: what a client of an iterator relies on.
  \<open>at_pos it all cur rest\<close> says that the iterator \<open>it\<close> runs over the items \<open>all\<close> (in iteration
  order), stands on \<open>cur\<close> and will still produce \<open>rest\<close>. \<open>skips k x\<close> says that a seek to \<open>k\<close>
  passes over an item with key \<open>x\<close>. A \<open>None\<close> of the outer option is a panic.
\<close>

text \<open>Calling \<open>next\<close> until it answers \<open>None\<close>, at most \<open>n\<close> times: what a \<open>while let\<close> loop collects.\<close>

fun collect :: "('it \<Rightarrow> ('i option \<times> 'it) option) \<Rightarrow> nat \<Rightarrow> 'it \<Rightarrow> 'i list option" where
  "collect nxt 0 it = None"
| "collect nxt (Suc n) it = do {
     (r, it) \<leftarrow> nxt it;
     (case r of None \<Rightarrow> Some [] | Some x \<Rightarrow> map_option (Cons x) (collect nxt n it)) }"

text \<open>Seeking in iteration order: forward past the smaller keys, backward past the greater ones.\<close>

definition dir_skips :: "bool \<Rightarrow> 'k::linorder \<Rightarrow> 'k \<Rightarrow> bool" where
  "dir_skips rv k x = (if rv then k < x else x < k)"

lemma dir_skips_dropWhile:
  assumes "sorted_wrt (\<lambda>x y. if rv then fst y < fst x else fst x < fst y) all"
  shows "dropWhile (\<lambda>i. dir_skips rv k (fst i)) all = filter (\<lambda>e. if rv then fst e \<le> k else k \<le> fst e) all"
proof -
  have "dropWhile (\<lambda>i. dir_skips rv k (fst i)) all = filter (\<lambda>e. \<not> dir_skips rv k (fst e)) all"
    using assms
  proof (induction all)
    case (Cons e es)
    then show ?case
      by (cases "dir_skips rv k (fst e)")
        (auto simp: dir_skips_def filter_id_conv split: if_splits intro!: filter_True [symmetric])
  qed simp
  also have "(\<lambda>e. \<not> dir_skips rv k (fst e)) = (\<lambda>e. if rv then fst e \<le> k else k \<le> fst e)"
    by (auto simp: dir_skips_def fun_eq_iff not_less)
  finally show ?thesis .
qed

text \<open>Stepping and starting over, which every iterator of the code offers.\<close>

locale xcursor =
  fixes at_pos :: "'it \<Rightarrow> ('k \<times> 'v) list \<Rightarrow> ('k \<times> 'v) option \<Rightarrow> ('k \<times> 'v) list \<Rightarrow> bool"
    and it_next :: "'it \<Rightarrow> (('k \<times> 'v) option \<times> 'it) option"
    and it_rewind :: "'it \<Rightarrow> (('k \<times> 'v) option \<times> 'it) option"
    and it_peek :: "'it \<Rightarrow> ('k \<times> 'v) option option"
  assumes peek_law: "at_pos it all cur rest \<Longrightarrow> it_peek it = Some cur"
    and next_end_law: "at_pos it all cur [] \<Longrightarrow> \<exists>it'. it_next it = Some (None, it') \<and> at_pos it' all None []"
    and next_item_law: "at_pos it all cur (x # xs) \<Longrightarrow>
      \<exists>it'. it_next it = Some (Some x, it') \<and> at_pos it' all (Some x) xs"
    and rewind_law: "at_pos it (x # xs) cur rest \<Longrightarrow>
      \<exists>it'. it_rewind it = Some (Some x, it') \<and> at_pos it' (x # xs) (Some x) xs"
begin

lemma collect_rest:
  "at_pos it all cur rest \<Longrightarrow> length rest < n \<Longrightarrow> collect it_next n it = Some rest"
proof (induction rest arbitrary: it cur n)
  case Nil
  obtain it' where "it_next it = Some (None, it')"
    using next_end_law [OF Nil(1)] by blast
  then show ?case using Nil(2) by (cases n) simp_all
next
  case (Cons x xs)
  obtain it' where it': "it_next it = Some (Some x, it')" "at_pos it' all (Some x) xs"
    using next_item_law [OF Cons.prems(1)] by blast
  obtain m where m: "n = Suc m" using Cons.prems(2) by (cases n) auto
  then have "collect it_next m it' = Some xs" using Cons.IH [OF it'(2)] Cons.prems(2) by simp
  with it'(1) m show ?case by simp
qed

lemma rewind_then_collect:
  assumes "at_pos it all cur rest" and "all \<noteq> []" and "length all < n"
  shows "\<exists>x it'. it_rewind it = Some (Some x, it') \<and> map_option (Cons x) (collect it_next n it') = Some all"
proof -
  obtain x xs where "all = x # xs" using assms(2) by (cases all) auto
  moreover then obtain it' where "it_rewind it = Some (Some x, it')" "at_pos it' all (Some x) xs"
    using rewind_law assms(1) by blast
  ultimately show ?thesis using collect_rest [of it' all "Some x" xs n] assms(3) by simp
qed

end

text \<open>Seeking as well.\<close>

locale xiterator = xcursor +
  fixes it_seek :: "'a \<Rightarrow> 'b \<Rightarrow> (('b \<times> 'c) option \<times> 'a) option"
    and skips :: "'b \<Rightarrow> 'b \<Rightarrow> bool"
  assumes seek_hit_law: "at_pos it all cur rest \<Longrightarrow> dropWhile (\<lambda>i. skips k (fst i)) all = x # xs \<Longrightarrow>
      \<exists>it'. it_seek it k = Some (Some x, it') \<and> at_pos it' all (Some x) xs"
    and seek_miss_law: "at_pos it all cur rest \<Longrightarrow> dropWhile (\<lambda>i. skips k (fst i)) all = [] \<Longrightarrow>
      \<exists>it' r. it_seek it k = Some (None, it') \<and> at_pos it' all None r"
begin

text \<open>A seek followed by a loop over \<open>next\<close> produces exactly the items from the target on.\<close>

lemma seek_then_collect:
  assumes "at_pos it all cur rest" and "length all < n"
  shows "\<exists>r it'. it_seek it k = Some (r, it') \<and>
    (case r of None \<Rightarrow> dropWhile (\<lambda>i. skips k (fst i)) all = []
     | Some x \<Rightarrow> map_option (Cons x) (collect it_next n it') = Some (dropWhile (\<lambda>i. skips k (fst i)) all))"
proof (cases "dropWhile (\<lambda>i. skips k (fst i)) all")
  case Nil
  with seek_miss_law [OF assms(1) Nil] show ?thesis by auto
next
  case (Cons x xs)
  then obtain it' where "it_seek it k = Some (Some x, it')" "at_pos it' all (Some x) xs"
    using seek_hit_law [OF assms(1)] by blast
  moreover have "length xs < n"
    using assms(2) length_dropWhile_le [of "\<lambda>i. skips k (fst i)" all] Cons by simp
  ultimately show ?thesis using collect_rest [of it' all "Some x" xs n] Cons by simp
qed

end

end
