(* ===== verification/Skip_Iterator.thy ===== *)
theory Skip_Iterator
  imports Skiplist_Correct Xiterator
begin

section \<open>Cursors and iterators over the skip list\<close>

text \<open>
  Models \<open>src/src/skl/cursor.rs\<close> (\<open>Cursor\<close>, \<open>CursorReverse\<close>) and the iterators of
  \<open>src/src/skl/skip.rs\<close> (\<open>SkipIterator\<close>, \<open>UniIterator\<close>), and states the contract of the
  \<open>Xiterator\<close> trait of \<open>src/src/y/iterator.rs\<close> as a locale, interpreted on \<open>UniIterator\<close> in
  both directions. The \<open>SkipList\<close> an iterator holds is a shared handle; the iterator's record
  keeps the list it iterates over.
\<close>

subsection \<open>Cursor\<close>

record cursor =
  cu_list :: skip_list
  cu_item :: "nat option"

definition cu_new :: "skip_list \<Rightarrow> cursor" where
  "cu_new l = \<lparr>cu_list = l, cu_item = Some (sl_head l)\<rparr>"

definition new_cursor :: "skip_list \<Rightarrow> cursor" where
  "new_cursor s = cu_new (incr_ref s)"

definition cu_valid :: "cursor \<Rightarrow> bool" where
  "cu_valid c = (case cu_item c of None \<Rightarrow> False | Some p \<Rightarrow> p \<noteq> sl_head (cu_list c))"

definition cu_key :: "cursor \<Rightarrow> bytes option" where
  "cu_key c = do {
     p \<leftarrow> cu_item c;
     nd \<leftarrow> node_at (sl_arena (cu_list c)) p;
     get_key (sl_arena (cu_list c)) (key_offset nd) (key_size nd) }"

definition cu_value :: "cursor \<Rightarrow> value_struct option" where
  "cu_value c = do {
     p \<leftarrow> cu_item c;
     nd \<leftarrow> node_at (sl_arena (cu_list c)) p;
     let (value_offset, val_size) = get_value_offset nd;
     get_val (sl_arena (cu_list c)) value_offset val_size }"

definition cu_next :: "cursor \<Rightarrow> (nat option \<times> cursor) option" where
  "cu_next c = do {
     p \<leftarrow> cu_item c;
     nx \<leftarrow> get_next (cu_list c) p 0;
     Some (nx, c\<lparr>cu_item := nx\<rparr>) }"

definition cu_prev :: "cursor \<Rightarrow> (nat option \<times> cursor) option" where
  "cu_prev c = do {
     key \<leftarrow> cu_key c;
     (node, _) \<leftarrow> find_near (cu_list c) key True False;
     Some (node, c\<lparr>cu_item := node\<rparr>) }"

definition cu_seek :: "cursor \<Rightarrow> bytes \<Rightarrow> (nat option \<times> cursor) option" where
  "cu_seek c target = do {
     (node, _) \<leftarrow> find_near (cu_list c) target False True;
     Some (node, c\<lparr>cu_item := node\<rparr>) }"

definition cu_seek_for_prev :: "cursor \<Rightarrow> bytes \<Rightarrow> (nat option \<times> cursor) option" where
  "cu_seek_for_prev c target = do {
     (node, _) \<leftarrow> find_near (cu_list c) target True True;
     Some (node, c\<lparr>cu_item := node\<rparr>) }"

definition cu_seek_for_first :: "cursor \<Rightarrow> (nat option \<times> cursor) option" where
  "cu_seek_for_first c = do {
     node \<leftarrow> get_next (cu_list c) (sl_head (cu_list c)) 0;
     Some (node, c\<lparr>cu_item := node\<rparr>) }"

definition cu_seek_for_last :: "cursor \<Rightarrow> (nat option \<times> cursor) option" where
  "cu_seek_for_last c = do {
     node \<leftarrow> sl_find_last (cu_list c);
     Some (node, c\<lparr>cu_item := node\<rparr>) }"

definition cu_close :: "cursor \<Rightarrow> cursor" where
  "cu_close c = c\<lparr>cu_list := decr_ref (cu_list c)\<rparr>"

definition cu_peek :: "cursor \<Rightarrow> nat option" where
  "cu_peek c = (case cu_item c of
     None \<Rightarrow> None
   | Some p \<Rightarrow> if p = sl_head (cu_list c) then None else Some p)"

text \<open>\<open>SkipList::node_count\<close>: the \<open>while let\<close> loop over a fresh cursor.\<close>

partial_function (option) node_count_loop :: "cursor \<Rightarrow> nat \<Rightarrow> nat option" where
  "node_count_loop c count = do {
     (nx, c) \<leftarrow> cu_next c;
     (case nx of None \<Rightarrow> Some count | Some p \<Rightarrow> node_count_loop c (count + 1)) }"

definition node_count :: "skip_list \<Rightarrow> u32 option" where
  "node_count s = map_option of_nat (node_count_loop (new_cursor s) 0)"

subsection \<open>CursorReverse\<close>

record cursor_reverse =
  cr_iter :: cursor
  cr_reversed :: bool

definition cr_lift :: "cursor_reverse \<Rightarrow> (nat option \<times> cursor) option \<Rightarrow> (nat option \<times> cursor_reverse) option" where
  "cr_lift c r = map_option (\<lambda>(n, cu). (n, c\<lparr>cr_iter := cu\<rparr>)) r"

definition cr_next :: "cursor_reverse \<Rightarrow> (nat option \<times> cursor_reverse) option" where
  "cr_next c = cr_lift c (if \<not> cr_reversed c then cu_next (cr_iter c) else cu_prev (cr_iter c))"

definition cr_rewind :: "cursor_reverse \<Rightarrow> (nat option \<times> cursor_reverse) option" where
  "cr_rewind c = cr_lift c
     (if \<not> cr_reversed c then cu_seek_for_first (cr_iter c) else cu_seek_for_last (cr_iter c))"

definition cr_seek :: "cursor_reverse \<Rightarrow> bytes \<Rightarrow> (nat option \<times> cursor_reverse) option" where
  "cr_seek c key = cr_lift c
     (if \<not> cr_reversed c then cu_seek (cr_iter c) key else cu_seek_for_prev (cr_iter c) key)"

definition cr_peek :: "cursor_reverse \<Rightarrow> nat option" where
  "cr_peek c = cu_peek (cr_iter c)"

subsection \<open>SkipIterator\<close>

text \<open>An \<open>IteratorItem\<close>: key and value.\<close>

type_synonym iterator_item = "bytes \<times> value_struct"

record skip_iterator =
  si_st :: skip_list
  si_node :: "nat option"

definition si_new :: "skip_list \<Rightarrow> skip_iterator" where
  "si_new st = \<lparr>si_st = incr_ref st, si_node = Some (sl_head st)\<rparr>"

definition get_item_by_node :: "skip_iterator \<Rightarrow> nat \<Rightarrow> iterator_item option option" where
  "get_item_by_node it p =
     (if p = sl_head (si_st it) then Some None
      else do {
        key \<leftarrow> node_key (sl_arena (si_st it)) p;
        nd \<leftarrow> node_at (sl_arena (si_st it)) p;
        let (value_offset, val_size) = get_value_offset nd;
        value \<leftarrow> get_val (sl_arena (si_st it)) value_offset val_size;
        Some (Some (key, value)) })"

definition si_peek :: "skip_iterator \<Rightarrow> iterator_item option option" where
  "si_peek it = (case si_node it of None \<Rightarrow> Some None | Some p \<Rightarrow> get_item_by_node it p)"

definition si_valid :: "skip_iterator \<Rightarrow> bool option" where
  "si_valid it = map_option (\<lambda>i. i \<noteq> None) (si_peek it)"

definition si_close :: "skip_iterator \<Rightarrow> skip_iterator" where
  "si_close it = it\<lparr>si_st := decr_ref (si_st it)\<rparr>"

definition set_node :: "skip_iterator \<Rightarrow> nat \<Rightarrow> skip_iterator" where
  "set_node it p = it\<lparr>si_node := Some p\<rparr>"

text \<open>Store a found node and return its item; without one, park the iterator on the head.\<close>

definition si_land :: "skip_iterator \<Rightarrow> nat option \<Rightarrow> (iterator_item option \<times> skip_iterator) option" where
  "si_land it node =
     (case node of
        None \<Rightarrow> Some (None, set_node it (sl_head (si_st it)))
      | Some p \<Rightarrow> do { item \<leftarrow> get_item_by_node it p; Some (item, set_node it p) })"

definition si_next :: "skip_iterator \<Rightarrow> (iterator_item option \<times> skip_iterator) option" where
  "si_next it =
     (case si_node it of
        None \<Rightarrow> Some (None, it)
      | Some p \<Rightarrow> do {
          nx \<leftarrow> get_next (si_st it) p 0;
          (case nx of
             None \<Rightarrow> Some (None, it\<lparr>si_node := None\<rparr>)
           | Some q \<Rightarrow> do { item \<leftarrow> get_item_by_node it q; Some (item, it\<lparr>si_node := Some q\<rparr>) }) })"

definition seek_to_last :: "skip_iterator \<Rightarrow> (iterator_item option \<times> skip_iterator) option" where
  "seek_to_last it = do { node \<leftarrow> sl_find_last (si_st it); si_land it node }"

definition si_prev :: "skip_iterator \<Rightarrow> (iterator_item option \<times> skip_iterator) option" where
  "si_prev it =
     (case si_node it of
        None \<Rightarrow> seek_to_last it
      | Some cur \<Rightarrow>
          if cur = sl_head (si_st it) then Some (None, it)
          else do {
            item \<leftarrow> si_peek it;
            (key, _) \<leftarrow> item;
            (node, _) \<leftarrow> find_near (si_st it) key True False;
            si_land it node })"

definition si_seek :: "skip_iterator \<Rightarrow> bytes \<Rightarrow> (iterator_item option \<times> skip_iterator) option" where
  "si_seek it key = do { (node, _) \<leftarrow> find_near (si_st it) key False True; si_land it node }"

definition seek_to_prev :: "skip_iterator \<Rightarrow> bytes \<Rightarrow> (iterator_item option \<times> skip_iterator) option" where
  "seek_to_prev it key = do { (node, _) \<leftarrow> find_near (si_st it) key True True; si_land it node }"

text \<open>The two \<open>unwrap\<close>s on the last and the first node come before the emptiness test.\<close>

definition seek_to_first :: "skip_iterator \<Rightarrow> (iterator_item option \<times> skip_iterator) option" where
  "seek_to_first it = do {
     l \<leftarrow> sl_find_last (si_st it);
     lp \<leftarrow> l;
     _ \<leftarrow> node_key (sl_arena (si_st it)) lp;
     f \<leftarrow> get_next (si_st it) (sl_head (si_st it)) 0;
     fp \<leftarrow> f;
     _ \<leftarrow> node_key (sl_arena (si_st it)) fp;
     node \<leftarrow> get_next (si_st it) (sl_head (si_st it)) 0;
     si_land it node }"

subsection \<open>UniIterator\<close>

record uni_iterator =
  ui_iter :: skip_iterator
  ui_reversed :: bool

definition ui_lift ::
    "uni_iterator \<Rightarrow> (iterator_item option \<times> skip_iterator) option \<Rightarrow> (iterator_item option \<times> uni_iterator) option" where
  "ui_lift u r = map_option (\<lambda>(x, it). (x, u\<lparr>ui_iter := it\<rparr>)) r"

definition ui_new :: "skip_list \<Rightarrow> bool \<Rightarrow> uni_iterator" where
  "ui_new st reversed =
     (let itr = si_new st;
          itr = (if reversed then itr\<lparr>si_node := None\<rparr> else itr)
      in \<lparr>ui_iter = itr, ui_reversed = reversed\<rparr>)"

definition ui_next :: "uni_iterator \<Rightarrow> (iterator_item option \<times> uni_iterator) option" where
  "ui_next u = ui_lift u (if \<not> ui_reversed u then si_next (ui_iter u) else si_prev (ui_iter u))"

definition ui_rewind :: "uni_iterator \<Rightarrow> (iterator_item option \<times> uni_iterator) option" where
  "ui_rewind u = ui_lift u (if \<not> ui_reversed u then seek_to_first (ui_iter u) else seek_to_last (ui_iter u))"

definition ui_seek :: "uni_iterator \<Rightarrow> bytes \<Rightarrow> (iterator_item option \<times> uni_iterator) option" where
  "ui_seek u key =
     ui_lift u (if \<not> ui_reversed u then si_seek (ui_iter u) key else seek_to_prev (ui_iter u) key)"

definition ui_peek :: "uni_iterator \<Rightarrow> iterator_item option option" where
  "ui_peek u = si_peek (ui_iter u)"

definition ui_close :: "uni_iterator \<Rightarrow> uni_iterator" where
  "ui_close u = u\<lparr>ui_iter := si_close (ui_iter u)\<rparr>"

subsection \<open>UniIterator implements the contract\<close>

lemma entries_rev: "entries a (rev ps) = rev (entries a ps)"
  by (simp add: entries_def rev_map)

lemma entries_dropWhile:
  "dropWhile (\<lambda>i. Q (fst i)) (entries a ps) = entries a (dropWhile (\<lambda>p. Q (key_of a p)) ps)"
  by (simp add: entries_def dropWhile_map comp_def)

definition si_pos :: "bool \<Rightarrow> skip_iterator \<Rightarrow> (nat \<Rightarrow> nat list) \<Rightarrow> iterator_item option \<Rightarrow> iterator_item list \<Rightarrow> bool" where
  "si_pos rv it L cur rest \<longleftrightarrow>
     (let a = sl_arena (si_st it); nodes = (if rv then rev (L 0) else L 0); hd = Some (sl_head (si_st it)) in
      (\<exists>ps p qs. nodes = ps @ p # qs \<and> si_node it = Some p \<and> cur = Some (key_of a p, val_of a p)
         \<and> rest = entries a qs)
      \<or> cur = None \<and> si_node it = (if rv then None else hd) \<and> rest = entries a nodes
      \<or> cur = None \<and> si_node it = (if rv then hd else None) \<and> rest = [])"

definition si_at :: "bool \<Rightarrow> skip_iterator \<Rightarrow> iterator_item list \<Rightarrow> iterator_item option \<Rightarrow> iterator_item list \<Rightarrow> bool" where
  "si_at rv it all cur rest \<longleftrightarrow>
     (\<exists>L. skip_inv (si_st it) L \<and> all = entries (sl_arena (si_st it)) (if rv then rev (L 0) else L 0)
        \<and> si_pos rv it L cur rest)"

definition ui_at :: "bool \<Rightarrow> uni_iterator \<Rightarrow> iterator_item list \<Rightarrow> iterator_item option \<Rightarrow> iterator_item list \<Rightarrow> bool" where
  "ui_at rv u all cur rest \<longleftrightarrow> ui_reversed u = rv \<and> si_at rv (ui_iter u) all cur rest"

lemma si_atI:
  "skip_inv (si_st it) L \<Longrightarrow> all = entries (sl_arena (si_st it)) (if rv then rev (L 0) else L 0) \<Longrightarrow>
   si_pos rv it L cur rest \<Longrightarrow> si_at rv it all cur rest"
  by (auto simp: si_at_def)

lemma si_pos_mid:
  "(if rv then rev (L 0) else L 0) = ps @ p # qs \<Longrightarrow> si_node it = Some p \<Longrightarrow>
   si_pos rv it L (Some (key_of (sl_arena (si_st it)) p, val_of (sl_arena (si_st it)) p))
     (entries (sl_arena (si_st it)) qs)"
  unfolding si_pos_def Let_def by blast

lemma item_by_node:
  assumes "skip_inv (si_st it) L" and "p \<in> set (L 0)"
  shows "get_item_by_node it p = Some (Some (key_of (sl_arena (si_st it)) p, val_of (sl_arena (si_st it)) p))"
proof -
  let ?a = "sl_arena (si_st it)"
  obtain nd off sz where "node_at ?a p = Some nd" "get_value_offset nd = (off, sz)"
    "get_val ?a off sz = Some (val_of ?a p)"
    using node_val_read [OF level_facts(4) [OF assms]] .
  with level_facts(3) [OF assms] skip_invD(9) [OF assms(1)] assms(2) show ?thesis
    by (auto simp: get_item_by_node_def)
qed

lemma si_land_hit:
  assumes "skip_inv (si_st it) L" and "(if rv then rev (L 0) else L 0) = ps @ p # qs"
  shows "\<exists>it'. si_land it (Some p) = Some (Some (key_of (sl_arena (si_st it)) p, val_of (sl_arena (si_st it)) p), it')
    \<and> si_st it' = si_st it
    \<and> si_pos rv it' L (Some (key_of (sl_arena (si_st it)) p, val_of (sl_arena (si_st it)) p))
        (entries (sl_arena (si_st it)) qs)"
proof -
  have "p \<in> set (L 0)" using assms(2) by (metis in_set_conv_decomp set_rev)
  with assms show ?thesis
    by (auto simp: si_land_def item_by_node set_node_def si_pos_def Let_def)
qed

text \<open>Landing on the first node of the iteration order that satisfies a predicate.\<close>

lemma si_land_find:
  assumes inv: "skip_inv (si_st it) L" and node: "node = find P (if rv then rev (L 0) else L 0)"
    and drop: "dropWhile (\<lambda>p. \<not> P p) (if rv then rev (L 0) else L 0) = qs"
  shows "\<exists>r it'. si_land it node = Some (r, it') \<and> si_st it' = si_st it
    \<and> r = hd_opt (entries (sl_arena (si_st it)) qs)
    \<and> (\<exists>rest. si_pos rv it' L r rest \<and> (qs \<noteq> [] \<longrightarrow> rest = tl (entries (sl_arena (si_st it)) qs)))"
proof (cases qs)
  case Nil
  then have "node = None" using node drop by (simp add: find_dropWhile)
  with Nil show ?thesis by (auto simp: si_land_def set_node_def si_pos_def Let_def)
next
  case (Cons p ps)
  then have "node = Some p" using node drop by (simp add: find_dropWhile)
  moreover have "(if rv then rev (L 0) else L 0) = takeWhile (\<lambda>p. \<not> P p) (if rv then rev (L 0) else L 0) @ p # ps"
    using drop Cons by (metis takeWhile_dropWhile_id)
  ultimately show ?thesis using si_land_hit [OF inv] Cons by fastforce
qed

lemma hd_next:
  assumes "skip_inv s L" and "L 0 = ps @ qs"
  shows "get_next s (last (sl_head s # ps)) 0 = Some (hd_opt qs)"
  using get_next_chain [OF skip_invD(1) [OF assms(1)], of 0] chain_append skip_invD(4) [OF assms(1), of 0] assms(2)
  by simp

lemma si_peek_at: "si_at rv it all cur rest \<Longrightarrow> si_peek it = Some cur"
proof -
  assume "si_at rv it all cur rest"
  then obtain L where inv: "skip_inv (si_st it) L" and pos: "si_pos rv it L cur rest"
    by (auto simp: si_at_def)
  have "p \<in> set (L 0)" if "(if rv then rev (L 0) else L 0) = ps @ p # qs" for ps p qs
    using that by (metis in_set_conv_decomp set_rev)
  then show "si_peek it = Some cur"
    using pos item_by_node [OF inv]
    by (auto simp: si_pos_def Let_def si_peek_def get_item_by_node_def split: if_splits)
qed

text \<open>Forward steps.\<close>

lemma si_next_at:
  assumes "si_at False it all cur rest"
  shows "\<exists>it'. si_next it = Some (hd_opt rest, it') \<and> si_at False it' all (hd_opt rest) (tl rest)"
proof -
  let ?a = "sl_arena (si_st it)"
  obtain L where inv: "skip_inv (si_st it) L" and all: "all = entries ?a (L 0)"
    and pos: "si_pos False it L cur rest"
    using assms by (auto simp: si_at_def)
  have step: "\<exists>it'. si_next it = Some (hd_opt (entries ?a qs), it')
      \<and> si_at False it' all (hd_opt (entries ?a qs)) (tl (entries ?a qs))"
    if node: "si_node it = Some (last (sl_head (si_st it) # ps))" and L0: "L 0 = ps @ qs" for ps qs
  proof (cases qs)
    case Nil
    then have "si_next it = Some (None, it\<lparr>si_node := None\<rparr>)"
      using node hd_next [OF inv L0] by (simp add: si_next_def)
    with Nil inv all show ?thesis by (auto simp: si_at_def si_pos_def)
  next
    case (Cons q qs')
    then have q: "q \<in> set (L 0)" using L0 by simp
    have "si_next it = Some (Some (key_of ?a q, val_of ?a q), it\<lparr>si_node := Some q\<rparr>)"
      using node hd_next [OF inv L0] Cons item_by_node [OF inv q] by (simp add: si_next_def)
    moreover have "si_at False (it\<lparr>si_node := Some q\<rparr>) all (Some (key_of ?a q, val_of ?a q)) (entries ?a qs')"
      using si_pos_mid [of False L ps q qs' "it\<lparr>si_node := Some q\<rparr>"] inv all L0 Cons
      by (intro si_atI [where L = L]) auto
    ultimately show ?thesis using Cons by simp
  qed
  consider (mid) ps p qs where "L 0 = ps @ p # qs" "si_node it = Some p" "rest = entries ?a qs"
    | (start) "si_node it = Some (sl_head (si_st it))" "rest = entries ?a (L 0)"
    | (stop) "si_node it = None" "rest = []" "cur = None"
    using pos by (auto simp: si_pos_def Let_def)
  then show ?thesis
  proof cases
    case mid
    then show ?thesis using step [of "ps @ [p]" qs] by simp
  next
    case start
    then show ?thesis using step [of "[]" "L 0"] by simp
  next
    case stop
    then have "si_next it = Some (None, it)" by (simp add: si_next_def)
    with stop assms show ?thesis by auto
  qed
qed

text \<open>Backward steps.\<close>

lemma si_prev_at:
  assumes "si_at True it all cur rest"
  shows "\<exists>it'. si_prev it = Some (hd_opt rest, it') \<and> si_at True it' all (hd_opt rest) (tl rest)"
proof -
  let ?a = "sl_arena (si_st it)" and ?head = "sl_head (si_st it)"
  obtain L where inv: "skip_inv (si_st it) L" and all: "all = entries ?a (rev (L 0))"
    and pos: "si_pos True it L cur rest"
    using assms by (auto simp: si_at_def)
  have land: "\<exists>it'. si_land it (hd_opt qs) = Some (hd_opt (entries ?a qs), it')
      \<and> si_at True it' all (hd_opt (entries ?a qs)) (tl (entries ?a qs))"
    if L0: "rev (L 0) = ps @ qs" for ps qs
  proof (cases qs)
    case Nil
    with inv all show ?thesis by (auto simp: si_land_def set_node_def si_at_def si_pos_def Let_def)
  next
    case (Cons q qs')
    then obtain it' where it': "si_land it (Some q) = Some (Some (key_of ?a q, val_of ?a q), it')"
      "si_st it' = si_st it" "si_pos True it' L (Some (key_of ?a q, val_of ?a q)) (entries ?a qs')"
      using si_land_hit [OF inv, of True ps q qs'] L0 by auto
    then have "si_at True it' all (Some (key_of ?a q, val_of ?a q)) (entries ?a qs')"
      using inv all by (intro si_atI [where L = L]) auto
    with it'(1) Cons show ?thesis by simp
  qed
  consider (mid) ps p qs where "rev (L 0) = ps @ p # qs" "si_node it = Some p" "rest = entries ?a qs"
    | (start) "si_node it = None" "rest = entries ?a (rev (L 0))"
    | (stop) "si_node it = Some ?head" "rest = []" "cur = None"
    using pos by (auto simp: si_pos_def Let_def)
  then show ?thesis
  proof cases
    case mid
    have L0: "L 0 = rev qs @ p # rev ps"
      using mid(1) by (metis rev_append rev_rev_ident rev.simps(2) append_Cons append_Nil append.assoc)
    then have p: "p \<in> set (L 0)" by simp
    have "strictly_sorted (map (key_of ?a) (rev qs @ p # rev ps))"
      using skip_invD(6) [OF inv, of 0] L0 by simp
    then have "\<forall>q\<in>set (rev qs). key_of ?a q < key_of ?a p" "\<forall>q\<in>set (rev ps). key_of ?a p < key_of ?a q"
      by (auto simp: sorted_wrt_append)
    from find_near_spec_hit [OF L0 this refl, of True False] find_near_correct [OF inv]
    have "find_near (si_st it) (key_of ?a p) True False = Some (hd_opt qs, False)"
      by (cases qs) auto
    then have "si_prev it = si_land it (hd_opt qs)"
      using mid(2) p item_by_node [OF inv p] skip_invD(9) [OF inv] by (auto simp: si_prev_def si_peek_def)
    then show ?thesis using land [of "ps @ [p]" qs] mid by simp
  next
    case start
    have "(if L 0 = [] then None else Some (last (L 0))) = hd_opt (rev (L 0))"
      by (cases "L 0" rule: rev_cases) auto
    then have "si_prev it = si_land it (hd_opt (rev (L 0)))"
      using start sl_find_last_correct [OF inv] by (simp add: si_prev_def seek_to_last_def)
    then show ?thesis using land [of "[]" "rev (L 0)"] start by simp
  next
    case stop
    then have "si_prev it = Some (None, it)" by (simp add: si_prev_def)
    with stop assms show ?thesis by auto
  qed
qed

lemma ui_next_at:
  assumes "ui_at rv u all cur rest"
  shows "\<exists>u'. ui_next u = Some (hd_opt rest, u') \<and> ui_at rv u' all (hd_opt rest) (tl rest)"
  using assms si_next_at [of "ui_iter u" all cur rest] si_prev_at [of "ui_iter u" all cur rest]
  by (cases rv) (auto simp: ui_at_def ui_next_def ui_lift_def)

lemma ui_seek_at:
  assumes "ui_at rv u all cur rest"
  shows "\<exists>u' rest'. ui_seek u k = Some (hd_opt (dropWhile (\<lambda>i. dir_skips rv k (fst i)) all), u')
    \<and> ui_at rv u' all (hd_opt (dropWhile (\<lambda>i. dir_skips rv k (fst i)) all)) rest'
    \<and> (dropWhile (\<lambda>i. dir_skips rv k (fst i)) all \<noteq> [] \<longrightarrow>
         rest' = tl (dropWhile (\<lambda>i. dir_skips rv k (fst i)) all))"
proof -
  let ?it = "ui_iter u"
  let ?a = "sl_arena (si_st ?it)"
  obtain L where inv: "skip_inv (si_st ?it) L"
    and all: "all = entries ?a (if rv then rev (L 0) else L 0)" and rv: "ui_reversed u = rv"
    using assms by (auto simp: ui_at_def si_at_def)
  let ?P = "\<lambda>p. \<not> dir_skips rv k (key_of ?a p)"
  let ?node = "find ?P (if rv then rev (L 0) else L 0)"
  have P: "(\<lambda>p. if rv then key_of ?a p < k \<or> key_of ?a p = k else k < key_of ?a p \<or> key_of ?a p = k) = ?P"
    by (auto simp: dir_skips_def fun_eq_iff)
  have fn: "fst (find_near_spec ?a (L 0) k rv True) = ?node"
    using P by (cases rv) (auto simp: find_near_spec_def find_last_def)
  have "ui_seek u k = ui_lift u (si_land ?it ?node)"
    using fn find_near_correct [OF inv, of k rv True] rv
    by (cases rv; cases "find_near_spec ?a (L 0) k rv True")
      (auto simp: ui_seek_def si_seek_def seek_to_prev_def)
  moreover have "dropWhile (\<lambda>i. dir_skips rv k (fst i)) all
      = entries ?a (dropWhile (\<lambda>p. \<not> ?P p) (if rv then rev (L 0) else L 0))"
    by (simp add: all entries_dropWhile)
  ultimately show ?thesis
    using si_land_find [OF inv refl refl, of ?P rv] inv all rv
    by (fastforce simp: ui_lift_def ui_at_def si_at_def)
qed

lemma ui_rewind_at:
  assumes "ui_at rv u (x # xs) cur rest"
  shows "\<exists>u'. ui_rewind u = Some (Some x, u') \<and> ui_at rv u' (x # xs) (Some x) xs"
proof -
  let ?it = "ui_iter u"
  let ?a = "sl_arena (si_st ?it)"
  obtain L where inv: "skip_inv (si_st ?it) L"
    and all: "x # xs = entries ?a (if rv then rev (L 0) else L 0)" and rv: "ui_reversed u = rv"
    using assms by (auto simp: ui_at_def si_at_def)
  let ?nodes = "if rv then rev (L 0) else L 0"
  obtain p ps where p: "?nodes = p # ps" "x = (key_of ?a p, val_of ?a p)" "xs = entries ?a ps"
    using all by (cases ?nodes) auto
  have ne: "L 0 \<noteq> []" using p(1) by (cases rv) auto
  have keys: "node_key ?a q = Some (key_of ?a q)" if "q \<in> set (L 0)" for q
    using level_facts(3) [OF inv that] .
  have "ui_rewind u = ui_lift u (si_land ?it (Some p))"
  proof (cases rv)
    case True
    then have "last (L 0) = p" using p(1) by (metis hd_rev list.sel(1))
    with True rv ne sl_find_last_correct [OF inv] show ?thesis
      by (simp add: ui_rewind_def seek_to_last_def)
  next
    case False
    then have "get_next (si_st ?it) (sl_head (si_st ?it)) 0 = Some (Some p)"
      using hd_next [OF inv, of "[]" "L 0"] p(1) by simp
    with False rv ne p(1) sl_find_last_correct [OF inv] keys [of "last (L 0)"] keys [of p] show ?thesis
      by (simp add: ui_rewind_def seek_to_first_def)
  qed
  moreover obtain it' where it': "si_land ?it (Some p) = Some (Some x, it')" "si_st it' = si_st ?it"
    "si_pos rv it' L (Some x) xs"
    using si_land_hit [OF inv, of rv "[]" p ps] p by auto
  moreover have "si_at rv it' (x # xs) (Some x) xs"
    using it' inv all by (intro si_atI [where L = L]) auto
  ultimately show ?thesis using rv by (simp add: ui_lift_def ui_at_def)
qed

lemma ui_new_at:
  assumes "skip_abs s kvs"
  shows "ui_at rv (ui_new s rv) (if rv then rev kvs else kvs) None (if rv then rev kvs else kvs)"
proof -
  obtain L where L: "skip_inv s L" "kvs = entries (sl_arena s) (L 0)"
    using assms by (auto simp: skip_abs_def)
  have "skip_inv (incr_ref s) L" using L(1) by (simp add: incr_ref_def skip_inv_def)
  with L(2) show ?thesis
    by (auto simp: ui_at_def si_at_def ui_new_def si_new_def si_pos_def Let_def incr_ref_def entries_rev)
qed

interpretation uni: xiterator "ui_at rv" ui_next ui_rewind ui_peek ui_seek "dir_skips rv" for rv
proof
  fix it :: uni_iterator and all cur rest x xs k
  show "ui_at rv it all cur rest \<Longrightarrow> ui_peek it = Some cur"
    using si_peek_at by (auto simp: ui_peek_def ui_at_def)
  show "ui_at rv it all cur [] \<Longrightarrow> \<exists>it'. ui_next it = Some (None, it') \<and> ui_at rv it' all None []"
    using ui_next_at by fastforce
  show "ui_at rv it all cur (x # xs) \<Longrightarrow>
      \<exists>it'. ui_next it = Some (Some x, it') \<and> ui_at rv it' all (Some x) xs"
    using ui_next_at by fastforce
  show "ui_at rv it (x # xs) cur rest \<Longrightarrow>
      \<exists>it'. ui_rewind it = Some (Some x, it') \<and> ui_at rv it' (x # xs) (Some x) xs"
    by (rule ui_rewind_at)
  show "ui_at rv it all cur rest \<Longrightarrow> dropWhile (\<lambda>i. dir_skips rv k (fst i)) all = x # xs \<Longrightarrow>
      \<exists>it'. ui_seek it k = Some (Some x, it') \<and> ui_at rv it' all (Some x) xs"
    using ui_seek_at [of rv it all cur rest k] by auto
  show "ui_at rv it all cur rest \<Longrightarrow> dropWhile (\<lambda>i. dir_skips rv k (fst i)) all = [] \<Longrightarrow>
      \<exists>it' r. ui_seek it k = Some (None, it') \<and> ui_at rv it' all None r"
    using ui_seek_at [of rv it all cur rest k] by (metis hd_opt_simps(1))
qed

subsection \<open>node_count\<close>

lemma node_count_loop_chain:
  assumes "skip_inv (cu_list c) L" and "L 0 = ps @ qs" and "cu_item c = Some (last (sl_head (cu_list c) # ps))"
  shows "node_count_loop c n = Some (n + length qs)"
  using assms
proof (induction qs arbitrary: c ps n)
  case Nil
  then have "cu_next c = Some (None, c\<lparr>cu_item := None\<rparr>)"
    using hd_next [OF Nil(1,2)] by (simp add: cu_next_def)
  then show ?case by (subst node_count_loop.simps) simp
next
  case (Cons q qs)
  then have "cu_next c = Some (Some q, c\<lparr>cu_item := Some q\<rparr>)"
    using hd_next [OF Cons.prems(1,2)] by (simp add: cu_next_def)
  moreover have "node_count_loop (c\<lparr>cu_item := Some q\<rparr>) (n + 1) = Some (n + 1 + length qs)"
    using Cons.prems by (intro Cons.IH [of _ "ps @ [q]"]) auto
  ultimately show ?case by (subst node_count_loop.simps) simp
qed

lemma node_count_abs:
  assumes "skip_abs s kvs"
  shows "node_count s = Some (of_nat (length kvs))"
proof -
  obtain L where L: "skip_inv s L" "kvs = entries (sl_arena s) (L 0)"
    using assms by (auto simp: skip_abs_def)
  have "skip_inv (incr_ref s) L" using L(1) by (simp add: incr_ref_def skip_inv_def)
  from node_count_loop_chain [of "new_cursor s" L "[]" "L 0" 0] this L(2) show ?thesis
    by (simp add: node_count_def new_cursor_def cu_new_def entries_def)
qed

text \<open>
  C33. The memtable iterator. Over a list holding \<open>kvs\<close>, a fresh \<open>UniIterator\<close> driven by
  \<open>next\<close> until it answers \<open>None\<close> produces every pair exactly once, in increasing key order
  forward and in decreasing order reversed; a \<open>seek\<close> to a key, again followed by \<open>next\<close>, produces
  exactly the pairs with keys at or after the target in that order; and \<open>node_count\<close> is the
  number of pairs. All these loops terminate.
\<close>

theorem uni_iterator_traverses:
  assumes "skip_abs s kvs" and "all = (if rv then rev kvs else kvs)"
  shows "collect ui_next (length kvs + 1) (ui_new s rv) = Some all
    \<and> (\<exists>r u. ui_seek (ui_new s rv) k = Some (r, u) \<and>
         (case r of
            None \<Rightarrow> filter (\<lambda>e. if rv then fst e \<le> k else k \<le> fst e) all = []
          | Some x \<Rightarrow> map_option (Cons x) (collect ui_next (length kvs + 1) u)
              = Some (filter (\<lambda>e. if rv then fst e \<le> k else k \<le> fst e) all)))
    \<and> node_count s = Some (of_nat (length kvs))"
proof -
  have at: "ui_at rv (ui_new s rv) all None all" using ui_new_at [OF assms(1)] assms(2) by simp
  have len: "length all < length kvs + 1" using assms(2) by simp
  have sorted: "sorted_wrt (\<lambda>x y. if rv then fst y < fst x else fst x < fst y) all"
    using skip_abs_sorted [OF assms(1)] assms(2) by (auto simp: sorted_wrt_map sorted_wrt_rev)
  note drop = dir_skips_dropWhile [OF sorted, of k]
  show ?thesis
    using uni.collect_rest [OF at len] uni.seek_then_collect [OF at len, of k, unfolded drop]
      node_count_abs [OF assms(1)]
    by blast
qed

text \<open>Non-vacuity of C33: a list with two keys, reversed.\<close>

theorem uni_iterator_traverses_witness:
  "\<exists>s s'. sl_new 600 7 = Some s \<and> put_all sl_put s example_writes = Some s'
    \<and> collect ui_next 3 (ui_new s' True) = Some [([2], vs_new [6] 0 0 2), ([1], vs_new [5] 0 0 1)] \<and> node_count s' = Some 2"
proof -
  let ?kvs = "[([1], vs_new [5] 0 0 1), ([2], vs_new [6] 0 0 2)]"
  obtain s s' where s: "sl_new 600 7 = Some s" "put_all sl_put s example_writes = Some s'" "skip_abs s' ?kvs" using example_filled by blast
  have len: "length ?kvs + 1 = 3" "(of_nat (length ?kvs) :: u32) = 2" by simp_all
  from s uni_iterator_traverses [OF s(3), of "rev ?kvs" True "[]", unfolded len] show ?thesis by auto
qed

text \<open>
  \<open>SkipIterator::seek_to_first\<close> on an empty list. Its comment promises a final state that
  is valid iff the list is not empty, but the code unwraps the last node before it tests for
  emptiness, so on an empty list the call (and \<open>UniIterator::rewind\<close> with it) panics.
\<close>

lemma seek_to_first_empty_panics:
  assumes "skip_abs s []"
  shows "seek_to_first (si_new s) = None \<and> ui_rewind (ui_new s False) = None"
proof -
  obtain L where L: "skip_inv s L" "L 0 = []"
    using assms unfolding skip_abs_def by (metis entries_simps(5))
  then have "skip_inv (incr_ref s) L" by (simp add: incr_ref_def skip_inv_def)
  from sl_find_last_correct [OF this] L(2) have "seek_to_first (si_new s) = None"
    by (simp add: seek_to_first_def si_new_def)
  then show ?thesis by (simp add: ui_rewind_def ui_new_def ui_lift_def)
qed

end
