(* ===== verification/Table_Builder.thy ===== *)
theory Table_Builder
  imports Y_Module
begin

section \<open>The table builder\<close>

text \<open>
  Models \<open>src/src/table/builder.rs\<close>: the entry header and its codec, and \<open>Builder\<close>, which
  writes sorted key-value pairs into prefix-compressed blocks of at most
  \<open>RESTART_INTERVAL\<close> entries, followed by the block index and the bloom filter. The bloom
  filter crate, its JSON serialisation and the hash are third-party code: the record
  \<open>bloom\<close> has one parameter for each call the sources make.
\<close>

subsection \<open>Header\<close>

record header =
  p_len :: u16
  k_len :: u16
  v_len :: u16
  prev_off :: u32

definition header_size :: nat where "header_size = 10"

definition is_dummy :: "header \<Rightarrow> bool" where
  "is_dummy h \<longleftrightarrow> k_len h = 0 \<and> p_len h = 0"

definition header_enc :: "header \<Rightarrow> bytes" where
  "header_enc h = enc_u16 (p_len h) @ enc_u16 (k_len h) @ enc_u16 (v_len h) @ enc_u32 (prev_off h)"

definition header_dec :: "bytes \<Rightarrow> (header \<times> bytes) option" where
  "header_dec rd = do {
     (p, rd) \<leftarrow> read_u16 rd;
     (k, rd) \<leftarrow> read_u16 rd;
     (v, rd) \<leftarrow> read_u16 rd;
     (pr, rd) \<leftarrow> read_u32 rd;
     Some (\<lparr>p_len = p, k_len = k, v_len = v, prev_off = pr\<rparr>, rd) }"

definition header_from :: "bytes \<Rightarrow> header option" where
  "header_from buffer = map_option fst (header_dec buffer)"

definition header_into :: "header \<Rightarrow> bytes option" where
  "header_into h = write_at (replicate header_size 0) 0 (header_enc h)"

subsection \<open>Builder\<close>

text \<open>The calls into the \<open>growable_bloom_filter\<close>, \<open>serde_json\<close> and hash crates.\<close>

record 'bf bloom =
  bl_new :: "nat \<Rightarrow> 'bf"
  bl_insert :: "'bf \<Rightarrow> u64 \<Rightarrow> 'bf"
  bl_contains :: "'bf \<Rightarrow> u64 \<Rightarrow> bool"
  bl_to_vec :: "'bf \<Rightarrow> bytes"
  bl_from_slice :: "bytes \<Rightarrow> 'bf option"
  bl_hash :: "bytes \<Rightarrow> u64"

text \<open>
  \<open>buf\<close> is only ever written, so its cursor stands at its end. \<open>key_buf\<close> is written and
  then read through the same cursor, whose position is kept.
\<close>

record builder =
  bd_counter :: nat
  bd_buf :: bytes
  bd_base_key :: bytes
  bd_base_offset :: u32
  bd_restarts :: "u32 list"
  bd_prev_offset :: u32
  bd_key_buf :: bytes
  bd_key_pos :: nat
  bd_key_count :: u32

definition RESTART_INTERVAL :: nat where "RESTART_INTERVAL = 100"

definition builder_default :: builder where
  "builder_default = \<lparr>bd_counter = 0, bd_buf = [], bd_base_key = [], bd_base_offset = 0,
     bd_restarts = [], bd_prev_offset = -1, bd_key_buf = [], bd_key_pos = 0, bd_key_count = 0\<rparr>"

definition is_zero_bytes :: "builder \<Rightarrow> bool" where
  "is_zero_bytes b \<longleftrightarrow> length (bd_buf b) = 0"

text \<open>\<open>Cursor<Vec<u8>>::write_all\<close>: overwrite at the position, extend at the end.\<close>

definition cursor_write :: "bytes \<Rightarrow> nat \<Rightarrow> bytes \<Rightarrow> bytes \<times> nat" where
  "cursor_write v pos bs =
     (take pos v @ replicate (pos - length v) 0 @ bs @ drop (pos + length bs) v, pos + length bs)"

function key_diff_loop :: "bytes \<Rightarrow> bytes \<Rightarrow> nat \<Rightarrow> nat" where
  "key_diff_loop new_key key i =
     (if i < length new_key \<and> i < length key
      then if new_key ! i \<noteq> key ! i then i else key_diff_loop new_key key (i + 1)
      else i)"
  by pat_completeness auto
termination
  by (relation "measure (\<lambda>(n, k, i). length n - i)") auto

declare key_diff_loop.simps [simp del]

definition key_diff :: "bytes \<Rightarrow> bytes \<Rightarrow> bytes" where
  "key_diff new_key key = drop (key_diff_loop new_key key 0) new_key"

definition add_helper :: "builder \<Rightarrow> bytes \<Rightarrow> value_struct \<Rightarrow> builder option" where
  "add_helper b key v = do {
     let (kb, kp) = cursor_write (bd_key_buf b) (bd_key_pos b) (enc_u16 (of_nat (length key)));
     let (kb, kp) = cursor_write kb kp key;
     let b = b\<lparr>bd_key_buf := kb, bd_key_pos := kp, bd_key_count := bd_key_count b + 1\<rparr>;
     let (b, diff_key) =
       (if bd_base_key b = [] then (b\<lparr>bd_base_key := key\<rparr>, key)
        else (b, key_diff key (bd_base_key b)));
     let h = \<lparr>p_len = of_nat (length key - length diff_key), k_len = of_nat (length diff_key),
              v_len = of_nat (length (vs_value v) + vs_header_size), prev_off = bd_prev_offset b\<rparr>;
     let b = b\<lparr>bd_prev_offset := of_nat (length (bd_buf b)) - bd_base_offset b\<rparr>;
     hbytes \<leftarrow> header_into h;
     vbytes \<leftarrow> vs_into v;
     Some (b\<lparr>bd_buf := bd_buf b @ hbytes @ diff_key @ vbytes, bd_counter := bd_counter b + 1\<rparr>) }"

definition finish_block :: "builder \<Rightarrow> builder option" where
  "finish_block b = add_helper b [] vs_default"

definition builder_add :: "builder \<Rightarrow> bytes \<Rightarrow> value_struct \<Rightarrow> builder option" where
  "builder_add b key v = do {
     b \<leftarrow>
       (if bd_counter b \<ge> RESTART_INTERVAL then do {
          b \<leftarrow> finish_block b;
          Some (b\<lparr>bd_restarts := bd_restarts b @ [of_nat (length (bd_buf b))], bd_counter := 0,
                 bd_base_key := [], bd_base_offset := of_nat (length (bd_buf b)),
                 bd_prev_offset := -1\<rparr>) }
        else Some b);
     add_helper b key v }"

definition reached_capacity :: "builder \<Rightarrow> u64 \<Rightarrow> bool" where
  "reached_capacity b cap \<longleftrightarrow>
     (of_nat (length (bd_buf b) + 8 + 4 * length (bd_restarts b) + 8) :: u64) > cap"

definition builder_block_index :: "builder \<Rightarrow> bytes \<times> builder" where
  "builder_block_index b =
     (let b = b\<lparr>bd_restarts := bd_restarts b @ [of_nat (length (bd_buf b))]\<rparr>
      in (concat (map enc_u32 (bd_restarts b)) @ enc_u32 (of_nat (length (bd_restarts b))), b))"

text \<open>
  The loop of \<open>finish\<close> that feeds the bloom filter: it reads from \<open>key_buf\<close> at the cursor.
  A short read of the length is \<open>UnexpectedEof\<close> and ends the loop; a short read of the key
  leaves the rest of the buffer zero.
\<close>

function bloom_loop :: "'bf bloom \<Rightarrow> bytes \<Rightarrow> 'bf \<Rightarrow> 'bf" where
  "bloom_loop bl rest bf =
     (case read_u16 rest of
        None \<Rightarrow> bf
      | Some (kl, rest') \<Rightarrow>
          (let got = take (unat kl) rest'; hash_buffer = got @ replicate (unat kl - length got) 0 in
           bloom_loop bl (drop (unat kl) rest') (bl_insert bl bf (bl_hash bl hash_buffer))))"
  by pat_completeness auto
termination
  by (relation "measure (\<lambda>(b, r, f). length r)")
    (auto simp: read_u16_def read_exact_def bind_eq_Some_conv split: if_splits)

declare bloom_loop.simps [simp del]

definition builder_finish :: "'bf bloom \<Rightarrow> builder \<Rightarrow> (bytes \<times> builder) option" where
  "builder_finish bl b = do {
     let bf = bloom_loop bl (drop (bd_key_pos b) (bd_key_buf b)) (bl_new bl (bd_counter b));
     b \<leftarrow> finish_block b;
     let (index, b) = builder_block_index b;
     let bdata = bl_to_vec bl bf;
     let b = b\<lparr>bd_buf := bd_buf b @ index @ bdata @ enc_u32 (of_nat (length bdata))\<rparr>;
     Some (bd_buf b, b) }"

fun builder_add_all :: "builder \<Rightarrow> (bytes \<times> value_struct) list \<Rightarrow> builder option" where
  "builder_add_all b [] = Some b"
| "builder_add_all b ((k, v) # es) = do { b \<leftarrow> builder_add b k v; builder_add_all b es }"

subsection \<open>Header codec\<close>

lemma header_enc_length [simp]: "length (header_enc h) = 10"
  by (simp add: header_enc_def)

lemma header_into_enc [simp]: "header_into h = Some (header_enc h)"
  by (simp add: header_into_def header_size_def write_at_def)

lemma header_dec_enc [simp]: "header_dec (header_enc h @ r) = Some (h, r)"
  by (simp add: header_dec_def header_enc_def)

lemma header_from_enc [simp]: "header_from (header_enc h) = Some h"
  using header_dec_enc [of h "[]"] by (simp add: header_from_def)

subsection \<open>Prefix compression\<close>

lemma key_diff_loop_spec:
  assumes "i \<le> length n" and "i \<le> length k" and "take i n = take i k"
  shows "i \<le> key_diff_loop n k i \<and> key_diff_loop n k i \<le> length n \<and> key_diff_loop n k i \<le> length k
    \<and> take (key_diff_loop n k i) n = take (key_diff_loop n k i) k"
  using assms
proof (induction n k i rule: key_diff_loop.induct)
  case (1 n k i)
  show ?case
  proof (cases "i < length n \<and> i < length k \<and> n ! i = k ! i")
    case True
    then have "take (i + 1) n = take (i + 1) k"
      using 1(4) by (simp add: take_Suc_conv_app_nth)
    with True 1(1) show ?thesis by (subst (1 2 3 4 5) key_diff_loop.simps) auto
  next
    case False
    then have "key_diff_loop n k i = i" by (subst key_diff_loop.simps) auto
    with 1 show ?thesis by simp
  qed
qed

text \<open>The base key's prefix and the stored suffix give the key back.\<close>

lemma key_diff_spec:
  "length (key_diff n k) \<le> length n" "length n - length (key_diff n k) \<le> length k"
  "take (length n - length (key_diff n k)) k @ key_diff n k = n"
  using key_diff_loop_spec [of 0 n k]
  by (auto simp: key_diff_def) (metis append_take_drop_id)

subsection \<open>The encoding of a block\<close>

text \<open>
  What a block looks like, as a function of its entries: \<open>blk_step\<close> appends one entry to the
  bytes of the block, given the offset of the previous entry and the base key.
\<close>

type_synonym item = "bytes \<times> value_struct"
type_synonym blk = "bytes \<times> u32 \<times> bytes"

definition entry_diff :: "bytes \<Rightarrow> bytes \<Rightarrow> bytes" where
  "entry_diff base k = (if base = [] then k else key_diff k base)"

definition entry_header :: "bytes \<Rightarrow> u32 \<Rightarrow> item \<Rightarrow> header" where
  "entry_header base prev e =
     \<lparr>p_len = of_nat (length (fst e) - length (entry_diff base (fst e))),
      k_len = of_nat (length (entry_diff base (fst e))),
      v_len = of_nat (vs_size (snd e)), prev_off = prev\<rparr>"

definition entry_bytes :: "bytes \<Rightarrow> u32 \<Rightarrow> item \<Rightarrow> bytes" where
  "entry_bytes base prev e =
     header_enc (entry_header base prev e) @ entry_diff base (fst e) @ vs_bytes (snd e)"

definition blk_step :: "blk \<Rightarrow> item \<Rightarrow> blk" where
  "blk_step s e = (case s of (bs, prev, base) \<Rightarrow>
     (bs @ entry_bytes base prev e, of_nat (length bs), if base = [] then fst e else base))"

definition blk :: "item list \<Rightarrow> blk" where
  "blk es = foldl blk_step ([], -1, []) es"

abbreviation blk_bytes :: "item list \<Rightarrow> bytes" where "blk_bytes es \<equiv> fst (blk es)"
abbreviation blk_prev :: "item list \<Rightarrow> u32" where "blk_prev es \<equiv> fst (snd (blk es))"
abbreviation blk_base :: "item list \<Rightarrow> bytes" where "blk_base es \<equiv> snd (snd (blk es))"

definition dummy_entry :: item where "dummy_entry = ([], vs_default)"

definition enc_block :: "item list \<Rightarrow> bytes" where
  "enc_block es = blk_bytes (es @ [dummy_entry])"

lemma blk_Nil [simp]: "blk [] = ([], -1, [])"
  by (simp add: blk_def)

lemma blk_snoc: "blk (es @ [e]) = blk_step (blk es) e"
  by (simp add: blk_def)

lemma blk_bytes_snoc [simp]: "blk_bytes (es @ [e]) = blk_bytes es @ entry_bytes (blk_base es) (blk_prev es) e"
  and blk_prev_snoc [simp]: "blk_prev (es @ [e]) = of_nat (length (blk_bytes es))"
  by (simp_all add: blk_snoc blk_step_def split: prod.splits)

lemma blk_base_snoc: "blk_base (es @ [e]) = (if blk_base es = [] then fst e else blk_base es)"
  by (simp add: blk_snoc blk_step_def split: prod.splits)

lemma blk_base_Cons: "k \<noteq> [] \<Longrightarrow> blk_base ((k, v) # es) = k"
proof (induction es rule: rev_induct)
  case Nil
  then show ?case using blk_base_snoc [of "[]" "(k, v)"] by simp
next
  case (snoc e es)
  then show ?case using blk_base_snoc [of "(k, v) # es" e] by simp
qed

lemma blk_bytes_append: "\<exists>r. blk_bytes (es @ fs) = blk_bytes es @ r"
proof (induction fs rule: rev_induct)
  case (snoc f fs)
  then obtain r where "blk_bytes (es @ fs) = blk_bytes es @ r" by auto
  then have "blk_bytes (es @ fs @ [f])
      = blk_bytes es @ r @ entry_bytes (blk_base (es @ fs)) (blk_prev (es @ fs)) f"
    using blk_bytes_snoc [of "es @ fs" f] by simp
  then show ?case by blast
qed simp

lemma entry_bytes_length:
  "length (entry_bytes base prev e) = 10 + length (entry_diff base (fst e)) + vs_size (snd e)"
  by (simp add: entry_bytes_def)

lemma enc_block_snoc:
  "enc_block es = blk_bytes es @ entry_bytes (blk_base es) (blk_prev es) dummy_entry"
  by (simp add: enc_block_def)

lemma entry_diff_Nil [simp]: "entry_diff base [] = []"
  using key_diff_spec(1) [of "[]" base] by (simp add: entry_diff_def)

lemma dummy_entry_length: "length (entry_bytes base prev dummy_entry) = 20"
  by (simp add: entry_bytes_length dummy_entry_def vs_size_def vs_header_size_def vs_default_def)

lemma enc_block_length: "length (enc_block es) = length (blk_bytes es) + 20"
  by (simp add: enc_block_snoc dummy_entry_length)

subsection \<open>The builder writes blocks\<close>

text \<open>
  \<open>builder_at b done cur\<close>: the builder has written the complete blocks \<open>done\<close> and is inside a
  block with the entries \<open>cur\<close>.
\<close>

definition block_ends :: "item list list \<Rightarrow> nat list" where
  "block_ends bs = map (\<lambda>i. length (concat (map enc_block (take (Suc i) bs)))) [0..<length bs]"

definition builder_at :: "builder \<Rightarrow> item list list \<Rightarrow> item list \<Rightarrow> bool" where
  "builder_at b done cur \<longleftrightarrow>
     bd_buf b = concat (map enc_block done) @ blk_bytes cur
     \<and> bd_base_key b = blk_base cur \<and> bd_prev_offset b = blk_prev cur
     \<and> bd_base_offset b = of_nat (length (concat (map enc_block done)))
     \<and> bd_restarts b = map of_nat (block_ends done) \<and> bd_counter b = length cur
     \<and> bd_key_pos b = length (bd_key_buf b)"

lemma block_ends_snoc: "block_ends (bs @ [c]) = block_ends bs @ [length (concat (map enc_block (bs @ [c])))]"
  by (simp add: block_ends_def)

lemma cursor_write_end: "cursor_write v (length v) bs = (v @ bs, length v + length bs)"
  by (simp add: cursor_write_def)

lemma add_helper_at:
  assumes "builder_at b done cur"
  shows "\<exists>b'. add_helper b k v = Some b' \<and> bd_buf b' = concat (map enc_block done) @ blk_bytes (cur @ [(k, v)])
    \<and> bd_restarts b' = bd_restarts b \<and> builder_at b' done (cur @ [(k, v)])"
  using assms
  by (auto simp: builder_at_def add_helper_def Let_def cursor_write_def entry_bytes_def entry_header_def
      entry_diff_def blk_base_snoc vs_size_def add.commute split: prod.splits)

lemma finish_block_at:
  assumes "builder_at b done cur"
  shows "\<exists>b'. finish_block b = Some b' \<and> bd_buf b' = concat (map enc_block (done @ [cur]))
    \<and> bd_restarts b' = bd_restarts b \<and> bd_key_pos b' = length (bd_key_buf b')"
  using add_helper_at [OF assms, of "[]" vs_default]
  by (auto simp: finish_block_def enc_block_def dummy_entry_def builder_at_def)

lemma builder_add_at:
  assumes at: "builder_at b done cur" and ne: "\<forall>d\<in>set done. d \<noteq> []"
  shows "\<exists>b' done' cur'. builder_add b k v = Some b' \<and> builder_at b' done' cur'
    \<and> concat done' @ cur' = concat done @ cur @ [(k, v)] \<and> (\<forall>d\<in>set done'. d \<noteq> []) \<and> cur' \<noteq> []"
proof (cases "bd_counter b \<ge> RESTART_INTERVAL")
  case True
  then have cur: "cur \<noteq> []" using at by (auto simp: builder_at_def RESTART_INTERVAL_def)
  obtain b1 where b1: "finish_block b = Some b1" "bd_buf b1 = concat (map enc_block (done @ [cur]))"
    "bd_restarts b1 = bd_restarts b" "bd_key_pos b1 = length (bd_key_buf b1)"
    using finish_block_at [OF at] by blast
  let ?b2 = "b1\<lparr>bd_restarts := bd_restarts b1 @ [of_nat (length (bd_buf b1))], bd_counter := 0,
    bd_base_key := [], bd_base_offset := of_nat (length (bd_buf b1)), bd_prev_offset := -1\<rparr>"
  have "builder_at ?b2 (done @ [cur]) []"
    using b1 at by (simp add: builder_at_def block_ends_snoc)
  then obtain b' where b': "add_helper ?b2 k v = Some b'" "builder_at b' (done @ [cur]) [(k, v)]"
    using add_helper_at [of ?b2 "done @ [cur]" "[]" k v] by auto
  have "builder_add b k v = Some b'"
    using True b1(1) b'(1) by (simp add: builder_add_def)
  with b'(2) cur ne show ?thesis
    by (intro exI [of _ b'] exI [of _ "done @ [cur]"] exI [of _ "[(k, v)]"]) auto
next
  case False
  then obtain b' where b': "add_helper b k v = Some b'" "builder_at b' done (cur @ [(k, v)])"
    using add_helper_at [OF at, of k v] by auto
  have "builder_add b k v = Some b'"
    using False b'(1) by (simp add: builder_add_def)
  with b'(2) ne show ?thesis
    by (intro exI [of _ b'] exI [of _ "done"] exI [of _ "cur @ [(k, v)]"]) auto
qed

lemma builder_add_all_at:
  assumes "builder_at b done cur" and "\<forall>d\<in>set done. d \<noteq> []"
  shows "\<exists>b' done' cur'. builder_add_all b es = Some b' \<and> builder_at b' done' cur'
    \<and> concat done' @ cur' = concat done @ cur @ es \<and> (\<forall>d\<in>set done'. d \<noteq> [])
    \<and> (es \<noteq> [] \<or> cur \<noteq> [] \<longrightarrow> cur' \<noteq> [])"
  using assms
proof (induction es arbitrary: b "done" cur)
  case Nil
  then show ?case by auto
next
  case (Cons e es)
  obtain k v where e: "e = (k, v)" by (cases e)
  obtain b1 done1 cur1 where s: "builder_add b k v = Some b1" "builder_at b1 done1 cur1"
    "concat done1 @ cur1 = concat done @ cur @ [(k, v)]" "\<forall>d\<in>set done1. d \<noteq> []" "cur1 \<noteq> []"
    using builder_add_at [OF Cons.prems] by blast
  obtain b' done' cur' where t: "builder_add_all b1 es = Some b'" "builder_at b' done' cur'"
    "concat done' @ cur' = concat done1 @ cur1 @ es" "\<forall>d\<in>set done'. d \<noteq> []" "cur' \<noteq> []"
    using Cons.IH [OF s(2,4)] s(5) by blast
  have "concat done' @ cur' = concat done @ cur @ e # es"
    using t(3) s(3) e by (metis append.assoc append_Cons append_Nil)
  with s(1) t e show ?case by auto
qed

lemma builder_default_at: "builder_at builder_default [] []"
  by (simp add: builder_at_def builder_default_def block_ends_def)

text \<open>The file that \<open>finish\<close> returns, as a function of the blocks.\<close>

definition table_file :: "item list list \<Rightarrow> bytes \<Rightarrow> bytes" where
  "table_file bs bdata = concat (map enc_block bs)
     @ concat (map (\<lambda>e. enc_u32 (of_nat e)) (block_ends bs)) @ enc_u32 (of_nat (length bs))
     @ bdata @ enc_u32 (of_nat (length bdata))"

lemma block_ends_length [simp]: "length (block_ends bs) = length bs"
  by (simp add: block_ends_def)

lemma builder_finish_at:
  assumes "builder_at b done cur"
  shows "\<exists>b'. builder_finish bl b = Some (table_file (done @ [cur]) (bl_to_vec bl (bl_new bl (length cur))), b')"
proof -
  obtain b1 where b1: "finish_block b = Some b1" "bd_buf b1 = concat (map enc_block (done @ [cur]))"
    "bd_restarts b1 = bd_restarts b"
    using finish_block_at [OF assms] by blast
  have "bloom_loop bl (drop (bd_key_pos b) (bd_key_buf b)) bf = bf" for bf
    using assms by (subst bloom_loop.simps) (simp add: builder_at_def read_u16_def)
  then show ?thesis
    using b1 assms
    by (simp add: builder_finish_def builder_block_index_def Let_def table_file_def block_ends_snoc
        builder_at_def comp_def)
qed

lemma build_table:
  assumes "kvs \<noteq> []"
  shows "\<exists>b b' bs n. builder_add_all builder_default kvs = Some b
    \<and> builder_finish bl b = Some (table_file bs (bl_to_vec bl (bl_new bl n)), b')
    \<and> concat bs = kvs \<and> bs \<noteq> [] \<and> (\<forall>c\<in>set bs. c \<noteq> [])"
proof -
  obtain b "done" cur where b: "builder_add_all builder_default kvs = Some b" "builder_at b done cur"
    "concat done @ cur = kvs" "\<forall>d\<in>set done. d \<noteq> []" "cur \<noteq> []"
    using builder_add_all_at [OF builder_default_at, of kvs] assms by auto
  obtain b' where "builder_finish bl b = Some (table_file (done @ [cur]) (bl_to_vec bl (bl_new bl (length cur))), b')"
    using builder_finish_at [OF b(2)] by blast
  moreover have "concat (done @ [cur]) = kvs" "\<forall>c\<in>set (done @ [cur]). c \<noteq> []"
    using b(3-5) by auto
  ultimately show ?thesis using b(1) by blast
qed

end
