(* ===== verification/Table_Model.thy ===== *)
theory Table_Model
  imports Table_Builder Xiterator
begin

section \<open>Tables and their iterators\<close>

text \<open>
  Models \<open>src/src/table/table.rs\<close> (\<open>TableCore\<close>: reading the index of a file and its blocks,
  file names) and \<open>src/src/table/iterator.rs\<close> (\<open>BlockIterator\<close>, \<open>IteratorImpl\<close>,
  \<open>ConcatIterator\<close>). A table file is its bytes; on every platform the code keeps the file in
  memory (a map of the file, or an anonymous map filled by \<open>load_to_ram\<close>), which is
  \<open>tb_mmap\<close>. Interior mutability is explicit state: an operation returns the iterator it
  leaves behind. Positions in a block are \<open>u32\<close> in the source and numbers reduced modulo
  \<open>2^32\<close> here.
\<close>

definition u32n :: "nat \<Rightarrow> nat" where "u32n n = n mod 2 ^ 32"

subsection \<open>BlockIterator\<close>

datatype iterator_seek = Origin | Current

record block_iterator =
  bk_data :: bytes
  bk_pos :: nat
  bk_base_key :: bytes
  bk_last_header :: "header option"
  bk_last_block :: "(bytes \<times> bytes) option"

type_synonym block_item = "bytes \<times> bytes"

definition bk_new :: "bytes \<Rightarrow> block_iterator" where
  "bk_new data = \<lparr>bk_data = data, bk_pos = 0, bk_base_key = [], bk_last_header = None, bk_last_block = None\<rparr>"

definition bk_reset :: "block_iterator \<Rightarrow> block_iterator" where
  "bk_reset b = b\<lparr>bk_pos := 0, bk_base_key := [], bk_last_header := None, bk_last_block := None\<rparr>"

text \<open>
  The sum of the two u16 lengths must not overflow: with overflow checks the addition panics,
  without them the copy of the prefix into a too short key does.
\<close>

definition parse_kv :: "block_iterator \<Rightarrow> header \<Rightarrow> (block_item \<times> block_iterator) option" where
  "parse_kv b h = do {
     _ \<leftarrow> (if unat (p_len h) + unat (k_len h) < 2 ^ 16 then Some () else None);
     prefix \<leftarrow> slice (bk_base_key b) 0 (unat (p_len h));
     suffix \<leftarrow> slice (bk_data b) (bk_pos b) (bk_pos b + unat (k_len h));
     let key = prefix @ suffix;
     let pos = u32n (bk_pos b + unat (k_len h));
     _ \<leftarrow> (if pos + unat (v_len h) \<le> length (bk_data b) then Some () else None);
     value \<leftarrow> slice (bk_data b) pos (pos + unat (v_len h));
     Some ((key, value), b\<lparr>bk_pos := u32n (pos + unat (v_len h)), bk_last_block := Some (key, value)\<rparr>) }"

definition bk_next :: "block_iterator \<Rightarrow> (block_item option \<times> block_iterator) option" where
  "bk_next b =
     (if bk_pos b \<ge> u32n (length (bk_data b)) then Some (None, b)
      else do {
        hb \<leftarrow> slice (bk_data b) (bk_pos b) (bk_pos b + header_size);
        h \<leftarrow> header_from hb;
        let b = b\<lparr>bk_last_header := Some h, bk_pos := u32n (bk_pos b + header_size)\<rparr>;
        if is_dummy h then Some (None, b)
        else do {
          b \<leftarrow>
            (if bk_base_key b = [] then
               if p_len h = 0 then do {
                 k \<leftarrow> slice (bk_data b) (bk_pos b) (u32n (bk_pos b + unat (k_len h)));
                 Some (b\<lparr>bk_base_key := k\<rparr>) }
               else None
             else Some b);
          (item, b) \<leftarrow> parse_kv b h;
          Some (Some item, b) } })"

definition bk_peek :: "block_iterator \<Rightarrow> block_item option option" where
  "bk_peek b =
     (case bk_last_header b of
        None \<Rightarrow> Some None
      | Some h \<Rightarrow> if is_dummy h then Some None else map_option Some (bk_last_block b))"

definition bk_prev :: "block_iterator \<Rightarrow> (block_item option \<times> block_iterator) option" where
  "bk_prev b =
     (case bk_last_header b of
        None \<Rightarrow> Some (None, b)
      | Some lh \<Rightarrow>
          if prev_off lh = -1
          then Some (None, b\<lparr>bk_pos := 0, bk_last_header := None, bk_last_block := None\<rparr>)
          else do {
            let b = b\<lparr>bk_pos := unat (prev_off lh)\<rparr>;
            hb \<leftarrow> slice (bk_data b) (bk_pos b) (bk_pos b + header_size);
            h \<leftarrow> header_from hb;
            let b = b\<lparr>bk_last_header := Some h, bk_pos := u32n (bk_pos b + header_size)\<rparr>;
            (item, b) \<leftarrow> parse_kv b h;
            Some (Some item, b) })"

partial_function (option) bk_seek_loop ::
    "(bytes \<Rightarrow> bool) \<Rightarrow> block_iterator \<Rightarrow> (block_item option \<times> block_iterator) option" where
  "bk_seek_loop found b = do {
     (item, b) \<leftarrow> bk_next b;
     (case item of
        None \<Rightarrow> Some (None, b)
      | Some i \<Rightarrow> if found (fst i) then Some (Some i, b) else bk_seek_loop found b) }"

definition bk_seek :: "block_iterator \<Rightarrow> bytes \<Rightarrow> iterator_seek \<Rightarrow> (block_item option \<times> block_iterator) option" where
  "bk_seek b key whence =
     bk_seek_loop (\<lambda>k. k \<ge> key) (case whence of Origin \<Rightarrow> bk_reset b | Current \<Rightarrow> b)"

definition bk_seek_rewind :: "block_iterator \<Rightarrow> bytes \<Rightarrow> iterator_seek \<Rightarrow> (block_item option \<times> block_iterator) option" where
  "bk_seek_rewind b key whence =
     bk_seek_loop (\<lambda>k. k \<le> key) (case whence of Origin \<Rightarrow> bk_reset b | Current \<Rightarrow> b)"

definition bk_seek_to_first :: "block_iterator \<Rightarrow> (block_item option \<times> block_iterator) option" where
  "bk_seek_to_first b = bk_next (bk_reset b)"

partial_function (option) bk_skip_all :: "block_iterator \<Rightarrow> block_iterator option" where
  "bk_skip_all b = do {
     (item, b) \<leftarrow> bk_next b;
     (case item of None \<Rightarrow> Some b | Some _ \<Rightarrow> bk_skip_all b) }"

definition bk_seek_to_last :: "block_iterator \<Rightarrow> (block_item option \<times> block_iterator) option" where
  "bk_seek_to_last b = do { b \<leftarrow> bk_skip_all b; bk_prev b }"

subsection \<open>TableCore\<close>

record key_offset_rec =
  ko_key :: bytes
  ko_offset :: nat
  ko_len :: nat

record 'bf table_core =
  tb_ref :: int
  tb_file_name :: string
  tb_size :: nat
  tb_block_index :: "key_offset_rec list"
  tb_mmap :: bytes
  tb_smallest :: bytes
  tb_biggest :: bytes
  tb_id :: u64
  tb_bf :: 'bf

definition tb_incr_ref :: "'bf table_core \<Rightarrow> 'bf table_core" where
  "tb_incr_ref t = t\<lparr>tb_ref := tb_ref t + 1\<rparr>"

definition tb_decr_ref :: "'bf table_core \<Rightarrow> 'bf table_core" where
  "tb_decr_ref t = t\<lparr>tb_ref := tb_ref t - 1\<rparr>"

text \<open>
  \<open>read\<close>. The fallback for an empty map reads the (empty) file at offset \<open>sz\<close>, which fills
  nothing of the zeroed buffer.
\<close>

definition tb_read :: "'bf table_core \<Rightarrow> nat \<Rightarrow> nat \<Rightarrow> bytes result option" where
  "tb_read t off sz =
     (let m = tb_mmap t in
      if m \<noteq> [] then
        if off \<le> length m then
          if length m - off < sz then Some (Inl (Io ''unexpected end of file''))
          else map_option Inr (slice m off (off + sz))
        else None
      else Some (Inr (replicate sz 0)))"

definition read_no_fail :: "'bf table_core \<Rightarrow> nat \<Rightarrow> nat \<Rightarrow> bytes option" where
  "read_no_fail t off sz = do {
     r \<leftarrow> tb_read t off sz;
     (case r of Inr d \<Rightarrow> Some d | Inl _ \<Rightarrow> None) }"

text \<open>\<open>read_pos -= n\<close> on \<open>usize\<close>.\<close>

definition checked_sub :: "nat \<Rightarrow> nat \<Rightarrow> nat option" where
  "checked_sub a b = (if b \<le> a then Some (a - b) else None)"

fun read_offsets :: "nat \<Rightarrow> bytes \<Rightarrow> u32 list option" where
  "read_offsets 0 buf = Some []"
| "read_offsets (Suc n) buf = do {
     (o1, buf) \<leftarrow> read_u32 buf;
     os \<leftarrow> read_offsets n buf;
     Some (o1 # os) }"

text \<open>\<open>offsets[i] - offset\<close> on \<open>u32\<close>, with the end of the previous block as \<open>offset\<close>.\<close>

fun index_entries :: "u32 \<Rightarrow> u32 list \<Rightarrow> key_offset_rec list option" where
  "index_entries offset [] = Some []"
| "index_entries offset (o1 # os) = do {
     len \<leftarrow> checked_sub (unat o1) (unat offset);
     rest \<leftarrow> index_entries o1 os;
     Some (\<lparr>ko_key = [], ko_offset = unat offset, ko_len = len\<rparr> # rest) }"

text \<open>The base key of one block; the two reads may return an error, the assertion may fail.\<close>

definition load_block_key :: "'bf table_core \<Rightarrow> key_offset_rec \<Rightarrow> key_offset_rec result option" where
  "load_block_key t block = do {
     r \<leftarrow> tb_read t (ko_offset block) header_size;
     (case r of
        Inl e \<Rightarrow> Some (Inl e)
      | Inr buffer \<Rightarrow> do {
          head \<leftarrow> header_from buffer;
          if p_len head = 0 then do {
            r \<leftarrow> tb_read t (header_size + ko_offset block) (unat (k_len head));
            (case r of Inl e \<Rightarrow> Some (Inl e) | Inr out \<Rightarrow> Some (Inr (block\<lparr>ko_key := out\<rparr>))) }
          else None }) }"

fun load_block_keys :: "'bf table_core \<Rightarrow> key_offset_rec list \<Rightarrow> key_offset_rec list result option" where
  "load_block_keys t [] = Some (Inr [])"
| "load_block_keys t (b # bs) = do {
     r \<leftarrow> load_block_key t b;
     (case r of
        Inl e \<Rightarrow> Some (Inl e)
      | Inr b \<Rightarrow> do {
          r \<leftarrow> load_block_keys t bs;
          (case r of Inl e \<Rightarrow> Some (Inl e) | Inr bs \<Rightarrow> Some (Inr (b # bs))) }) }"

definition read_index :: "'bf bloom \<Rightarrow> 'bf table_core \<Rightarrow> 'bf table_core result option" where
  "read_index bl t = do {
     read_pos \<leftarrow> checked_sub (tb_size t) 4;
     buf \<leftarrow> read_no_fail t read_pos 4;
     (bloom_len, _) \<leftarrow> read_u32 buf;
     read_pos \<leftarrow> checked_sub read_pos (unat bloom_len);
     data \<leftarrow> read_no_fail t read_pos (unat bloom_len);
     bf \<leftarrow> bl_from_slice bl data;
     let t = t\<lparr>tb_bf := bf\<rparr>;
     read_pos \<leftarrow> checked_sub read_pos 4;
     buf \<leftarrow> read_no_fail t read_pos 4;
     (restarts_len, _) \<leftarrow> read_u32 buf;
     read_pos \<leftarrow> checked_sub read_pos (4 * unat restarts_len);
     buf \<leftarrow> read_no_fail t read_pos (4 * unat restarts_len);
     offsets \<leftarrow> read_offsets (unat restarts_len) buf;
     index \<leftarrow> index_entries 0 offsets;
     let t = t\<lparr>tb_block_index := tb_block_index t @ index\<rparr>;
     if length (tb_block_index t) = 1 then Some (Inr t)
     else do {
       r \<leftarrow> load_block_keys t (tb_block_index t);
       (case r of
          Inl e \<Rightarrow> Some (Inl e)
        | Inr blocks \<Rightarrow> Some (Inr (t\<lparr>tb_block_index := sort_key ko_key blocks\<rparr>))) } }"

record block =
  bl_offset :: nat
  bl_data :: bytes

definition tb_block :: "'bf table_core \<Rightarrow> nat \<Rightarrow> block result option" where
  "tb_block t index =
     (if index \<ge> length (tb_block_index t) then Some (Inl (Unexpected ''block out of index''))
      else do {
        let ko = tb_block_index t ! index;
        r \<leftarrow> tb_read t (ko_offset ko) (ko_len ko);
        (case r of
           Inl e \<Rightarrow> Some (Inl e)
         | Inr data \<Rightarrow> Some (Inr \<lparr>bl_offset = ko_offset ko, bl_data = data\<rparr>)) })"

definition does_not_have :: "'bf bloom \<Rightarrow> 'bf table_core \<Rightarrow> bytes \<Rightarrow> bool" where
  "does_not_have bl t key = bl_contains bl (tb_bf t) (bl_hash bl key)"

subsection \<open>IteratorImpl\<close>

record 'bf iterator_impl =
  ti_table :: "'bf table_core"
  ti_bpos :: int
  ti_bi :: "block_iterator option"
  ti_reversed :: bool
  ti_id :: u64

type_synonym 'bf ti_step = "(item option \<times> 'bf iterator_impl) option"

definition item_from :: "block_item \<Rightarrow> item option" where
  "item_from b = do { v \<leftarrow> vs_from (snd b); Some (fst b, v) }"

definition item_from_opt :: "block_item option \<Rightarrow> item option option" where
  "item_from_opt b = (case b of None \<Rightarrow> Some None | Some i \<Rightarrow> map_option Some (item_from i))"

text \<open>\<open>block_index.len() - 1\<close> on \<open>usize\<close>, then \<open>as isize\<close>: an empty index panics or gives \<open>-1\<close>.\<close>

definition ti_reset :: "'bf iterator_impl \<Rightarrow> 'bf iterator_impl" where
  "ti_reset it =
     (if \<not> ti_reversed it then it\<lparr>ti_bpos := 0, ti_bi := None\<rparr>
      else it\<lparr>ti_bpos := int (length (tb_block_index (ti_table it))) - 1, ti_bi := None\<rparr>)"

definition ti_new :: "'bf table_core \<Rightarrow> bool \<Rightarrow> 'bf iterator_impl" where
  "ti_new t reversed =
     ti_reset \<lparr>ti_table = tb_incr_ref t, ti_bpos = 0, ti_bi = None, ti_reversed = reversed, ti_id = tb_id t\<rparr>"

definition ti_close :: "'bf iterator_impl \<Rightarrow> 'bf iterator_impl" where
  "ti_close it = it\<lparr>ti_table := tb_decr_ref (ti_table it)\<rparr>"

definition get_bi_by_bpos :: "'bf iterator_impl \<Rightarrow> int \<Rightarrow> block_iterator option" where
  "get_bi_by_bpos it bpos =
     (if bpos \<ge> 0 then do {
        r \<leftarrow> tb_block (ti_table it) (nat bpos);
        (case r of Inl _ \<Rightarrow> None | Inr bl \<Rightarrow> Some (bk_new (bl_data bl))) }
      else None)"

definition get_or_set_bi :: "'bf iterator_impl \<Rightarrow> int \<Rightarrow> block_iterator option" where
  "get_or_set_bi it bpos =
     (if bpos \<ge> 0 then (case ti_bi it of Some bi \<Rightarrow> Some bi | None \<Rightarrow> get_bi_by_bpos it bpos)
      else None)"

text \<open>Store the block iterator a call leaves behind and convert its item.\<close>

definition ti_lift :: "'bf iterator_impl \<Rightarrow> block_item option \<times> block_iterator \<Rightarrow> 'bf ti_step" where
  "ti_lift it r = do { item \<leftarrow> item_from_opt (fst r); Some (item, it\<lparr>ti_bi := Some (snd r)\<rparr>) }"

definition ti_seek_to_first :: "'bf iterator_impl \<Rightarrow> 'bf ti_step" where
  "ti_seek_to_first it =
     (if tb_block_index (ti_table it) = [] then Some (None, it)
      else do {
        let it = it\<lparr>ti_bpos := 0\<rparr>;
        bi \<leftarrow> get_bi_by_bpos it (ti_bpos it);
        r \<leftarrow> bk_seek_to_first bi;
        ti_lift it r })"

definition ti_seek_to_last :: "'bf iterator_impl \<Rightarrow> 'bf ti_step" where
  "ti_seek_to_last it =
     (if tb_block_index (ti_table it) = [] then Some (None, it)
      else do {
        let it = it\<lparr>ti_bpos := int (length (tb_block_index (ti_table it)) - 1)\<rparr>;
        bi \<leftarrow> get_bi_by_bpos it (ti_bpos it);
        r \<leftarrow> bk_seek_to_last bi;
        ti_lift it r })"

definition seek_helper :: "'bf iterator_impl \<Rightarrow> int \<Rightarrow> bytes \<Rightarrow> 'bf ti_step" where
  "seek_helper it block_index key = do {
     let it = it\<lparr>ti_bpos := block_index\<rparr>;
     bi \<leftarrow> get_bi_by_bpos it (ti_bpos it);
     r \<leftarrow> bk_seek bi key Origin;
     ti_lift it r }"

definition seek_helper_rewind :: "'bf iterator_impl \<Rightarrow> int \<Rightarrow> bytes \<Rightarrow> 'bf ti_step" where
  "seek_helper_rewind it block_index key = do {
     let it = it\<lparr>ti_bpos := block_index\<rparr>;
     bi \<leftarrow> get_bi_by_bpos it (ti_bpos it);
     r \<leftarrow> bk_seek_rewind bi key Origin;
     ti_lift it r }"

definition seek_from :: "'bf iterator_impl \<Rightarrow> bytes \<Rightarrow> iterator_seek \<Rightarrow> 'bf ti_step" where
  "seek_from it key whence =
     (let it = (case whence of Origin \<Rightarrow> ti_reset it | Current \<Rightarrow> it) in
      case binary_search_by (tb_block_index (ti_table it)) (\<lambda>ko. rcmp (ko_key ko) key) of
        Inr idx \<Rightarrow> seek_helper it (int idx) key
      | Inl idx \<Rightarrow>
          if idx = 0 then seek_helper it (int idx) key
          else if idx \<ge> length (tb_block_index (ti_table it)) then seek_helper it (int (idx - 1)) key
          else do {
            (item, it) \<leftarrow> seek_helper it (int (idx - 1)) key;
            (case item of
               Some i \<Rightarrow> Some (Some i, it)
             | None \<Rightarrow> seek_helper it (int idx) key) })"

definition pre_from :: "'bf iterator_impl \<Rightarrow> bytes \<Rightarrow> iterator_seek \<Rightarrow> 'bf ti_step" where
  "pre_from it key whence =
     (let it = (case whence of Origin \<Rightarrow> ti_reset it | Current \<Rightarrow> it) in
      case binary_search_by (tb_block_index (ti_table it)) (\<lambda>ko. rcmp (ko_key ko) key) of
        Inr idx \<Rightarrow> seek_helper_rewind it (int idx) key
      | Inl idx \<Rightarrow>
          if idx = 0 then Some (None, it) else seek_helper_rewind it (int (idx - 1)) key)"

partial_function (option) ti_prev :: "'bf iterator_impl \<Rightarrow> 'bf ti_step" where
  "ti_prev it =
     (case ti_bi it of
        None \<Rightarrow> do {
          bi \<leftarrow> get_or_set_bi it (ti_bpos it);
          r \<leftarrow> bk_seek_to_last bi;
          ti_lift it r }
      | Some bi \<Rightarrow> do {
          r \<leftarrow> bk_prev bi;
          (item, it) \<leftarrow> ti_lift it r;
          (case item of
             Some i \<Rightarrow> Some (Some i, it)
           | None \<Rightarrow>
               if ti_bpos it = 0 then Some (None, it)
               else ti_prev (it\<lparr>ti_bpos := ti_bpos it - 1, ti_bi := None\<rparr>)) })"

partial_function (option) ti_fwd :: "'bf iterator_impl \<Rightarrow> 'bf ti_step" where
  "ti_fwd it =
     (if ti_bpos it \<ge> int (length (tb_block_index (ti_table it))) then Some (None, it)
      else do {
        bi \<leftarrow> get_or_set_bi it (ti_bpos it);
        r \<leftarrow> bk_next bi;
        (item, it) \<leftarrow> ti_lift it r;
        (case item of
           Some i \<Rightarrow> Some (Some i, it)
         | None \<Rightarrow> ti_fwd (it\<lparr>ti_bpos := ti_bpos it + 1, ti_bi := None\<rparr>)) })"

definition seek_for_prev :: "'bf iterator_impl \<Rightarrow> bytes \<Rightarrow> 'bf ti_step" where
  "seek_for_prev it key = do {
     (item, it) \<leftarrow> seek_from it key Origin;
     (case item of
        Some i \<Rightarrow> if fst i = key then Some (Some i, it) else ti_prev it
      | None \<Rightarrow> ti_prev it) }"

definition ti_next :: "'bf iterator_impl \<Rightarrow> 'bf ti_step" where
  "ti_next it = (if \<not> ti_reversed it then ti_fwd it else ti_prev it)"

definition ti_rewind :: "'bf iterator_impl \<Rightarrow> 'bf ti_step" where
  "ti_rewind it = (if \<not> ti_reversed it then ti_seek_to_first it else ti_seek_to_last it)"

definition ti_seek :: "'bf iterator_impl \<Rightarrow> bytes \<Rightarrow> 'bf ti_step" where
  "ti_seek it key = (if \<not> ti_reversed it then seek_from it key Origin else seek_for_prev it key)"

definition ti_peek :: "'bf iterator_impl \<Rightarrow> item option option" where
  "ti_peek it = (case ti_bi it of
     None \<Rightarrow> Some None
   | Some bi \<Rightarrow> do { i \<leftarrow> bk_peek bi; item_from_opt i })"

subsection \<open>File names\<close>

definition FILE_SUFFIX :: string where "FILE_SUFFIX = ''.sst''"

text \<open>Decimal printing and \<open>str::parse::<u64>\<close> (an optional plus sign, then digits, no overflow).\<close>

function decimal :: "nat \<Rightarrow> string" where
  "decimal n = (if n < 10 then [char_of (48 + n)] else decimal (n div 10) @ [char_of (48 + n mod 10)])"
  by pat_completeness auto
termination
  by (relation "measure id") auto

declare decimal.simps [simp del]

definition digit_val :: "char \<Rightarrow> nat option" where
  "digit_val c =
     (let n = (of_char c :: nat) in if 48 \<le> n \<and> n \<le> 57 then Some (n - 48) else None)"

definition invalid_digit :: error where "invalid_digit = Unexpected ''invalid digit found in string''"

fun parse_digits :: "nat \<Rightarrow> string \<Rightarrow> nat result" where
  "parse_digits acc [] = Inr acc"
| "parse_digits acc (c # cs) =
     (case digit_val c of
        None \<Rightarrow> Inl invalid_digit
      | Some d \<Rightarrow>
          if acc * 10 + d < 2 ^ 64 then parse_digits (acc * 10 + d) cs
          else Inl (Unexpected ''number too large to fit in target type''))"

definition parse_u64 :: "string \<Rightarrow> u64 result" where
  "parse_u64 s =
     (if s = [] then Inl (Unexpected ''cannot parse integer from empty string'')
      else if s = ''+'' then Inl invalid_digit
      else map_sum (\<lambda>e. e) of_nat (parse_digits 0 (if hd s = CHR ''+'' then tl s else s)))"

definition ends_with :: "string \<Rightarrow> string \<Rightarrow> bool" where
  "ends_with s suf \<longleftrightarrow> length suf \<le> length s \<and> drop (length s - length suf) s = suf"

function trim_end_matches :: "string \<Rightarrow> string \<Rightarrow> string" where
  "trim_end_matches s suf =
     (if suf \<noteq> [] \<and> ends_with s suf then trim_end_matches (take (length s - length suf) s) suf else s)"
  by pat_completeness auto
termination
  by (relation "measure (\<lambda>(s, t). length s)")
    (auto simp: ends_with_def, metis diff_less length_greater_0_conv order_less_le_trans)

declare trim_end_matches.simps [simp del]

text \<open>
  \<open>Path::file_name\<close>: the last component of the path, where empty and \<open>.\<close> components do not
  count and \<open>..\<close> is not a name. \<open>Path::join\<close> adds the separator that is missing.
\<close>

fun split_slash :: "string \<Rightarrow> string list" where
  "split_slash [] = [[]]"
| "split_slash (c # cs) =
     (if c = CHR ''/'' then [] # split_slash cs else (c # hd (split_slash cs)) # tl (split_slash cs))"

definition path_file_name :: "string \<Rightarrow> string option" where
  "path_file_name path =
     (let cs = filter (\<lambda>c. c \<noteq> [] \<and> c \<noteq> ''.'') (split_slash path) in
      if cs = [] \<or> last cs = ''..'' then None else Some (last cs))"

definition path_join :: "string \<Rightarrow> string \<Rightarrow> string" where
  "path_join dir name =
     (if name \<noteq> [] \<and> hd name = CHR ''/'' then name
      else if dir = [] \<or> last dir = CHR ''/'' then dir @ name
      else dir @ ''/'' @ name)"

definition parse_file_id :: "string \<Rightarrow> u64 result option" where
  "parse_file_id name = do {
     filename \<leftarrow> path_file_name name;
     Some (if \<not> ends_with filename FILE_SUFFIX then Inl (Unexpected (''invalid file '' @ name))
           else parse_u64 (trim_end_matches filename FILE_SUFFIX)) }"

definition id_to_filename :: "u64 \<Rightarrow> string" where
  "id_to_filename fid = decimal (unat fid) @ FILE_SUFFIX"

definition new_file_name :: "u64 \<Rightarrow> string \<Rightarrow> string" where
  "new_file_name fid dir = path_join dir (id_to_filename fid)"

subsection \<open>Opening a table\<close>

text \<open>
  The loading mode is the default one, which copies the file into an anonymous mapping; an empty file
  panics there, because such a mapping cannot have length zero, and it panics here. (The other mode maps the file itself and reports an
  error for an empty one; for every other file both modes read the same bytes.)
\<close>

definition rewind_key :: "'bf table_core \<Rightarrow> bool \<Rightarrow> bytes option" where
  "rewind_key t reversed = do {
     (item, _) \<leftarrow> ti_rewind (ti_new t reversed);
     Some (case item of None \<Rightarrow> [] | Some i \<Rightarrow> fst i) }"

definition open_table :: "'bf bloom \<Rightarrow> bytes \<Rightarrow> string \<Rightarrow> 'bf table_core result option" where
  "open_table bl fd filename = do {
     r \<leftarrow> parse_file_id filename;
     (case r of
        Inl e \<Rightarrow> Some (Inl e)
      | Inr fid \<Rightarrow> do {
          r \<leftarrow> read_index bl \<lparr>tb_ref = 1, tb_file_name = filename, tb_size = length fd, tb_block_index = [],
                 tb_mmap = fd, tb_smallest = [], tb_biggest = [], tb_id = fid, tb_bf = bl_new bl 1\<rparr>;
          (case r of
             Inl e \<Rightarrow> Some (Inl e)
           | Inr t \<Rightarrow> do {
               biggest \<leftarrow> rewind_key t True;
               smallest \<leftarrow> rewind_key t False;
               Some (Inr (t\<lparr>tb_biggest := biggest, tb_smallest := smallest\<rparr>)) }) }) }"

subsection \<open>ConcatIterator\<close>

record 'bf concat_iterator =
  ci_index :: int
  ci_iters :: "'bf iterator_impl list"
  ci_tables :: "'bf table_core list"
  ci_reversed :: bool
  ci_init :: bool

type_synonym 'bf ci_step = "(item option \<times> 'bf concat_iterator) option"

definition ci_new :: "'bf table_core list \<Rightarrow> bool \<Rightarrow> 'bf concat_iterator" where
  "ci_new tables reversed =
     \<lparr>ci_index = -1, ci_iters = map (\<lambda>tb. ti_new tb reversed) tables, ci_tables = tables,
      ci_reversed = reversed, ci_init = False\<rparr>"

definition ci_set_idx :: "'bf concat_iterator \<Rightarrow> int \<Rightarrow> 'bf concat_iterator" where
  "ci_set_idx c idx = c\<lparr>ci_index := idx\<rparr>"

definition ci_get_cur :: "'bf concat_iterator \<Rightarrow> 'bf iterator_impl option" where
  "ci_get_cur c =
     (if ci_index c < 0 \<or> ci_index c \<ge> int (length (ci_iters c)) then None
      else Some (ci_iters c ! nat (ci_index c)))"

text \<open>Run an operation on the current table iterator and store it back.\<close>

definition ci_on_cur :: "'bf concat_iterator \<Rightarrow> ('bf iterator_impl \<Rightarrow> 'bf ti_step) \<Rightarrow> 'bf ci_step" where
  "ci_on_cur c f = do {
     it \<leftarrow> ci_get_cur c;
     (item, it) \<leftarrow> f it;
     Some (item, c\<lparr>ci_iters := (ci_iters c)[nat (ci_index c) := it]\<rparr>) }"

partial_function (option) ci_next_loop :: "'bf concat_iterator \<Rightarrow> 'bf ci_step" where
  "ci_next_loop c =
     (if \<not> ci_reversed c \<and> ci_index c < int (length (ci_iters c)) \<or> ci_reversed c \<and> ci_index c \<ge> 0
      then do {
        (item, c) \<leftarrow> ci_on_cur c ti_next;
        (case item of
           Some i \<Rightarrow> Some (Some i, c)
         | None \<Rightarrow> ci_next_loop (ci_set_idx c (if \<not> ci_reversed c then ci_index c + 1 else ci_index c - 1))) }
      else Some (None, c))"

definition ci_next :: "'bf concat_iterator \<Rightarrow> 'bf ci_step" where
  "ci_next c =
     (if ci_iters c = [] then Some (None, c)
      else
        let c = (if \<not> ci_init c
                 then ci_set_idx c (if \<not> ci_reversed c then 0 else int (length (ci_iters c)) - 1)
                 else c)
        in ci_next_loop c)"

definition ci_rewind :: "'bf concat_iterator \<Rightarrow> 'bf ci_step" where
  "ci_rewind c =
     (if ci_iters c = [] then Some (None, c)
      else
        let c = ci_set_idx c (if \<not> ci_reversed c then 0 else int (length (ci_iters c)) - 1);
            c = c\<lparr>ci_iters := map ti_reset (ci_iters c)\<rparr>
        in ci_on_cur c ti_rewind)"

definition ci_seek :: "'bf concat_iterator \<Rightarrow> bytes \<Rightarrow> 'bf ci_step" where
  "ci_seek c key =
     (if ci_iters c = [] then Some (None, c)
      else if \<not> ci_reversed c then
        (case binary_search_by (ci_tables c) (\<lambda>tb. rcmp (tb_biggest tb) key) of
           Inr idx \<Rightarrow> ci_on_cur (ci_set_idx c (int idx)) (\<lambda>it. seek_from it key Origin)
         | Inl idx \<Rightarrow>
             if idx < length (ci_tables c)
             then ci_on_cur (ci_set_idx c (int idx)) (\<lambda>it. seek_from it key Origin)
             else Some (None, ci_set_idx c (-1)))
      else
        (case binary_search_by (ci_tables c) (\<lambda>tb. rcmp (tb_smallest tb) key) of
           Inr idx \<Rightarrow> ci_on_cur (ci_set_idx c (int idx)) (\<lambda>it. seek_from it key Origin)
         | Inl idx \<Rightarrow>
             if idx = 0 then Some (None, ci_set_idx c (-1))
             else ci_on_cur (ci_set_idx c (int (idx - 1))) (\<lambda>it. seek_for_prev it key)))"

definition ci_peek :: "'bf concat_iterator \<Rightarrow> item option option" where
  "ci_peek c = (case ci_get_cur c of None \<Rightarrow> Some None | Some it \<Rightarrow> ti_peek it)"

end
