(* ===== verification/Table_Correct.thy ===== *)
theory Table_Correct
  imports Table_Model
begin

section \<open>Correctness of blocks, tables and their iterators\<close>

text \<open>
  First the block iterator on the bytes of one block, then the table iterator on a file that
  the builder wrote: it runs over exactly the entries that were added, in both directions.
\<close>

subsection \<open>Reading one entry\<close>

definition entry_ok :: "item \<Rightarrow> bool" where
  "entry_ok e \<longleftrightarrow> fst e \<noteq> [] \<and> length (fst e) < 65536 \<and> vs_size (snd e) < 65536"

definition blk_ok :: "item list \<Rightarrow> bool" where
  "blk_ok es \<longleftrightarrow> es \<noteq> [] \<and> (\<forall>e\<in>set es. entry_ok e) \<and> length (enc_block es) < 2 ^ 32"

definition off :: "item list \<Rightarrow> nat \<Rightarrow> nat" where
  "off es i = length (blk_bytes (take i es))"

definition hdr :: "item list \<Rightarrow> nat \<Rightarrow> header" where
  "hdr es i = entry_header (blk_base (take i es)) (blk_prev (take i es)) (es ! i)"

definition end_hdr :: "item list \<Rightarrow> header" where
  "end_hdr es = entry_header (blk_base es) (blk_prev es) dummy_entry"

lemma off_0 [simp]: "off es 0 = 0"
  by (simp add: off_def)

lemma off_Suc: "i < length es \<Longrightarrow>
    off es (Suc i) = off es i + 10 + length (entry_diff (blk_base (take i es)) (fst (es ! i))) + vs_size (snd (es ! i))"
  by (simp add: off_def take_Suc_conv_app_nth entry_bytes_length)

lemma enc_block_split:
  assumes "i < length es"
  shows "\<exists>r. enc_block es = blk_bytes (take i es)
    @ entry_bytes (blk_base (take i es)) (blk_prev (take i es)) (es ! i) @ r"
proof -
  have "es @ [dummy_entry] = take (Suc i) es @ drop (Suc i) es @ [dummy_entry]" by simp
  then obtain r where "enc_block es = blk_bytes (take (Suc i) es) @ r"
    using blk_bytes_append [of "take (Suc i) es" "drop (Suc i) es @ [dummy_entry]"]
    unfolding enc_block_def by metis
  with assms show ?thesis by (simp add: take_Suc_conv_app_nth)
qed

lemma off_mono: "i \<le> j \<Longrightarrow> j \<le> length es \<Longrightarrow> off es i \<le> off es j"
proof (induction j)
  case (Suc j)
  then show ?case by (cases "i = Suc j") (auto simp: off_Suc)
qed simp

lemma off_bounds: "i \<le> length es \<Longrightarrow> off es i + 20 \<le> length (enc_block es)"
  using off_mono [of i "length es" es] by (simp add: enc_block_length off_def)

lemma blk_base_take: "es \<noteq> [] \<Longrightarrow> fst (es ! 0) \<noteq> [] \<Longrightarrow> blk_base (take (Suc i) es) = fst (es ! 0)"
  by (cases es) (auto simp: blk_base_Cons split: prod.splits)

lemma blk_prev_take: "i < length es \<Longrightarrow> blk_prev (take (Suc i) es) = of_nat (off es i)"
  by (simp add: take_Suc_conv_app_nth off_def)

text \<open>The lengths in a header, and that prefix and suffix make up the key.\<close>

lemma entry_diff_le: "length (entry_diff base k) \<le> length k"
  by (simp add: entry_diff_def key_diff_spec(1))

lemma hdr_lens:
  assumes "i < length es" and "entry_ok (es ! i)"
  shows "unat (k_len (hdr es i)) = length (entry_diff (blk_base (take i es)) (fst (es ! i)))"
    and "unat (p_len (hdr es i)) = length (fst (es ! i)) - length (entry_diff (blk_base (take i es)) (fst (es ! i)))"
    and "unat (v_len (hdr es i)) = vs_size (snd (es ! i))"
    and "\<not> is_dummy (hdr es i)"
proof -
  have small: "length (fst (es ! i)) < 65536" "vs_size (snd (es ! i)) < 65536" "fst (es ! i) \<noteq> []"
    using assms(2) by (auto simp: entry_ok_def)
  note le = entry_diff_le [of "blk_base (take i es)" "fst (es ! i)"]
  show k: "unat (k_len (hdr es i)) = length (entry_diff (blk_base (take i es)) (fst (es ! i)))"
    and p: "unat (p_len (hdr es i)) = length (fst (es ! i)) - length (entry_diff (blk_base (take i es)) (fst (es ! i)))"
    and "unat (v_len (hdr es i)) = vs_size (snd (es ! i))"
    using small le by (simp_all add: hdr_def entry_header_def del: of_nat_diff)
  have "0 < length (fst (es ! i))" using small(3) by simp
  then have "unat (k_len (hdr es i)) \<noteq> 0 \<or> unat (p_len (hdr es i)) \<noteq> 0" using k p le by linarith
  then show "\<not> is_dummy (hdr es i)" by (auto simp: is_dummy_def)
qed

lemma u32n_id [simp]: "n < 2 ^ 32 \<Longrightarrow> u32n n = n"
  by (simp add: u32n_def)

lemma slice_at: "d = x @ y @ z \<Longrightarrow> a = length x \<Longrightarrow> b = a + length y \<Longrightarrow> slice d a b = Some y"
  by (simp add: slice_append_midI)

lemma entry_slices:
  assumes "i < length es"
  defines "d \<equiv> entry_diff (blk_base (take i es)) (fst (es ! i))"
  shows "slice (enc_block es) (off es i) (off es i + 10) = Some (header_enc (hdr es i))"
    and "slice (enc_block es) (off es i + 10) (off es i + 10 + length d) = Some d"
    and "slice (enc_block es) (off es i + 10 + length d) (off es i + 10 + length d + vs_size (snd (es ! i)))
      = Some (vs_bytes (snd (es ! i)))"
proof -
  obtain r where r: "enc_block es = blk_bytes (take i es) @ header_enc (hdr es i) @ d @ vs_bytes (snd (es ! i)) @ r"
    using enc_block_split [OF assms(1)] by (auto simp: entry_bytes_def hdr_def d_def)
  show "slice (enc_block es) (off es i) (off es i + 10) = Some (header_enc (hdr es i))"
    by (rule slice_at [OF r]) (simp_all add: off_def)
  show "slice (enc_block es) (off es i + 10) (off es i + 10 + length d) = Some d"
    by (rule slice_at [of _ "blk_bytes (take i es) @ header_enc (hdr es i)"]) (simp_all add: r off_def)
  show "slice (enc_block es) (off es i + 10 + length d) (off es i + 10 + length d + vs_size (snd (es ! i)))
      = Some (vs_bytes (snd (es ! i)))"
    by (rule slice_at [of _ "blk_bytes (take i es) @ header_enc (hdr es i) @ d"]) (simp_all add: r off_def)
qed

lemma parse_kv_at:
  assumes ok: "blk_ok es" and i: "i < length es" and data: "bk_data b = enc_block es"
    and pos: "bk_pos b = off es i + 10" and base: "bk_base_key b = fst (es ! 0)"
  shows "parse_kv b (hdr es i) = Some ((fst (es ! i), vs_bytes (snd (es ! i))),
    b\<lparr>bk_pos := off es (Suc i), bk_last_block := Some (fst (es ! i), vs_bytes (snd (es ! i)))\<rparr>)"
proof -
  have e: "entry_ok (es ! i)" "entry_ok (es ! 0)" using ok i by (auto simp: blk_ok_def)
  note lens = hdr_lens [OF i e(1)]
  let ?k = "fst (es ! i)" and ?v = "snd (es ! i)"
  let ?d = "entry_diff (blk_base (take i es)) ?k"
  note sl = entry_slices [OF i]
  have key: "length ?k - length ?d \<le> length (fst (es ! 0)) \<and> take (length ?k - length ?d) (fst (es ! 0)) @ ?d = ?k"
  proof (cases i)
    case 0
    then show ?thesis by (simp add: entry_diff_def)
  next
    case (Suc j)
    moreover have "es \<noteq> []" using i by auto
    ultimately have "blk_base (take i es) = fst (es ! 0)"
      using blk_base_take [of es j] e(2) by (simp add: entry_ok_def)
    with e(2) show ?thesis using key_diff_spec by (simp add: entry_diff_def entry_ok_def)
  qed
  have big: "off es (Suc i) + 20 \<le> length (enc_block es)" "length (enc_block es) < 2 ^ 32"
    using off_bounds [of "Suc i" es] i ok by (auto simp: blk_ok_def)
  note os = off_Suc [OF i]
  have "length ?k < 65536" using e(1) by (simp add: entry_ok_def)
  with key entry_diff_le [of "blk_base (take i es)" ?k]
  have pk: "unat (p_len (hdr es i)) + unat (k_len (hdr es i)) < 65536"
    and prefix: "slice (fst (es ! 0)) 0 (unat (p_len (hdr es i))) = Some (take (length ?k - length ?d) (fst (es ! 0)))"
    by (auto simp: lens slice_def)
  have "u32n (off es i + 10 + length ?d) = off es i + 10 + length ?d"
    "u32n (off es i + 10 + length ?d + vs_size ?v) = off es (Suc i)"
    using big os by (auto simp: u32n_def)
  with pk prefix sl key big os show ?thesis
    by (simp add: parse_kv_def data pos base lens(1,3) Let_def)
qed

subsection \<open>The states of a block iterator\<close>

text \<open>
  \<open>BOn i\<close> is on entry \<open>i\<close>, \<open>BEnd\<close> just behind the dummy header, \<open>BDone\<close> at the end of the
  data, which a further \<open>next\<close> reaches by reading the zero bytes of the dummy value as a header.
\<close>

datatype bstate = BStart | BOn nat | BEnd | BDone

fun bk_at :: "block_iterator \<Rightarrow> item list \<Rightarrow> bstate \<Rightarrow> bool" where
  "bk_at b es BStart \<longleftrightarrow> bk_data b = enc_block es \<and> bk_pos b = 0 \<and> bk_last_header b = None
     \<and> (bk_base_key b = [] \<or> bk_base_key b = fst (es ! 0))"
| "bk_at b es (BOn i) \<longleftrightarrow> bk_data b = enc_block es \<and> i < length es \<and> bk_pos b = off es (Suc i)
     \<and> bk_base_key b = fst (es ! 0) \<and> bk_last_header b = Some (hdr es i)
     \<and> bk_last_block b = Some (fst (es ! i), vs_bytes (snd (es ! i)))"
| "bk_at b es BEnd \<longleftrightarrow> bk_data b = enc_block es \<and> bk_pos b = off es (length es) + 10
     \<and> bk_base_key b = fst (es ! 0) \<and> bk_last_header b = Some (end_hdr es)"
| "bk_at b es BDone \<longleftrightarrow> bk_data b = enc_block es \<and> bk_pos b = length (enc_block es)
     \<and> (\<exists>h. bk_last_header b = Some h \<and> is_dummy h)"

definition bitem :: "item \<Rightarrow> block_item" where "bitem e = (fst e, vs_bytes (snd e))"

lemma item_from_bitem [simp]: "item_from (bitem e) = Some e"
  by (simp add: item_from_def bitem_def)

lemma end_hdr_dummy: "is_dummy (end_hdr es)"
  by (simp add: end_hdr_def entry_header_def is_dummy_def dummy_entry_def)

lemma be_enc_zero: "be_enc n 0 = replicate n 0"
  by (induction n) (simp_all add: replicate_append_same)

lemma vs_bytes_default: "vs_bytes vs_default = replicate 10 0"
  using replicate_add [of 2 8 "0 :: byte"]
  by (simp add: vs_bytes_def vs_default_def enc_u64_def be_enc_zero numeral_2_eq_2)

lemma header_enc_zero: "header_enc \<lparr>p_len = 0, k_len = 0, v_len = 0, prev_off = 0\<rparr> = replicate 10 0"
  by (simp add: header_enc_def enc_u16_def enc_u32_def be_enc_zero flip: replicate_add)

lemma end_slices:
  shows "slice (enc_block es) (off es (length es)) (off es (length es) + 10) = Some (header_enc (end_hdr es))"
    and "slice (enc_block es) (off es (length es) + 10) (off es (length es) + 20) = Some (replicate 10 0)"
proof -
  have d: "enc_block es = blk_bytes es @ header_enc (end_hdr es) @ replicate 10 0"
    by (simp add: enc_block_snoc entry_bytes_def end_hdr_def dummy_entry_def vs_bytes_default)
  show "slice (enc_block es) (off es (length es)) (off es (length es) + 10) = Some (header_enc (end_hdr es))"
    by (rule slice_at [OF d]) (simp_all add: off_def)
  show "slice (enc_block es) (off es (length es) + 10) (off es (length es) + 20) = Some (replicate 10 0)"
    by (rule slice_at [of _ "blk_bytes es @ header_enc (end_hdr es)" _ "[]"]) (simp_all add: d off_def)
qed

lemma zero_header: "header_from (replicate 10 0) = Some \<lparr>p_len = 0, k_len = 0, v_len = 0, prev_off = 0\<rparr>"
  using header_from_enc header_enc_zero by metis

lemma bk_next_entry:
  assumes ok: "blk_ok es" and i: "i < length es" and data: "bk_data b = enc_block es"
    and pos: "bk_pos b = off es i"
    and base: "bk_base_key b = fst (es ! 0) \<or> bk_base_key b = [] \<and> i = 0"
  shows "\<exists>b'. bk_next b = Some (Some (bitem (es ! i)), b') \<and> bk_at b' es (BOn i)"
proof -
  have e: "entry_ok (es ! i)" "entry_ok (es ! 0)" using ok i by (auto simp: blk_ok_def)
  have big: "off es i + 20 \<le> length (enc_block es)" "length (enc_block es) < 2 ^ 32"
    "off es (Suc i) + 20 \<le> length (enc_block es)"
    using off_bounds [of i es] off_bounds [of "Suc i" es] i ok by (auto simp: blk_ok_def)
  note sl = entry_slices [OF i] and lens = hdr_lens [OF i e(1)]
  let ?b1 = "b\<lparr>bk_last_header := Some (hdr es i), bk_pos := off es i + 10\<rparr>"
  let ?b2 = "?b1\<lparr>bk_base_key := fst (es ! 0)\<rparr>"
  have base2: "(if bk_base_key ?b1 = [] then
        if p_len (hdr es i) = 0 then do {
          k \<leftarrow> slice (bk_data ?b1) (bk_pos ?b1) (u32n (bk_pos ?b1 + unat (k_len (hdr es i))));
          Some (?b1\<lparr>bk_base_key := k\<rparr>) } else None
      else Some ?b1) = Some ?b2"
  proof (cases "bk_base_key b = []")
    case True
    then have i0: "i = 0" using base e(2) by (auto simp: entry_ok_def)
    then have d: "entry_diff (blk_base (take i es)) (fst (es ! i)) = fst (es ! 0)" by (simp add: entry_diff_def)
    then have "p_len (hdr es i) = 0" using i0 by (simp add: hdr_def entry_header_def entry_diff_def)
    moreover have "u32n (off es i + 10 + length (fst (es ! 0))) = off es i + 10 + length (fst (es ! 0))"
      using big off_Suc [OF i] d by (simp add: u32n_def)
    ultimately show ?thesis using True sl(2) lens(1) d data by simp
  next
    case False
    with base show ?thesis by (cases b) simp
  qed
  have "parse_kv ?b2 (hdr es i) = Some (bitem (es ! i),
      ?b2\<lparr>bk_pos := off es (Suc i), bk_last_block := Some (fst (es ! i), vs_bytes (snd (es ! i)))\<rparr>)"
    using parse_kv_at [OF ok i, of ?b2] data by (simp add: bitem_def)
  moreover have "u32n (length (enc_block es)) = length (enc_block es)" "u32n (off es i + 10) = off es i + 10"
    using big by (auto simp: u32n_def)
  ultimately show ?thesis
    using big sl(1) lens(4) base2 data pos i
    by (simp add: bk_next_def header_size_def)
qed

lemma bk_next_at:
  assumes ok: "blk_ok es"
  shows "bk_at b es BStart \<Longrightarrow> \<exists>b'. bk_next b = Some (Some (bitem (es ! 0)), b') \<and> bk_at b' es (BOn 0)"
    and "bk_at b es (BOn i) \<Longrightarrow> Suc i < length es \<Longrightarrow>
      \<exists>b'. bk_next b = Some (Some (bitem (es ! Suc i)), b') \<and> bk_at b' es (BOn (Suc i))"
    and "bk_at b es (BOn i) \<Longrightarrow> Suc i = length es \<Longrightarrow> \<exists>b'. bk_next b = Some (None, b') \<and> bk_at b' es BEnd"
    and "bk_at b es BEnd \<Longrightarrow> \<exists>b'. bk_next b = Some (None, b') \<and> bk_at b' es BDone"
    and "bk_at b es BDone \<Longrightarrow> bk_next b = Some (None, b)"
proof -
  have len: "u32n (length (enc_block es)) = length (enc_block es)" "length (enc_block es) < 2 ^ 32"
    "length (enc_block es) = off es (length es) + 20"
    using ok by (auto simp: blk_ok_def u32n_def off_def enc_block_length)
  show "bk_at b es BStart \<Longrightarrow> \<exists>b'. bk_next b = Some (Some (bitem (es ! 0)), b') \<and> bk_at b' es (BOn 0)"
    using bk_next_entry [OF ok, of 0 b] ok by (auto simp: blk_ok_def)
  show "bk_at b es (BOn i) \<Longrightarrow> Suc i < length es \<Longrightarrow>
      \<exists>b'. bk_next b = Some (Some (bitem (es ! Suc i)), b') \<and> bk_at b' es (BOn (Suc i))"
    using bk_next_entry [OF ok, of "Suc i" b] by simp
  show "bk_at b es (BOn i) \<Longrightarrow> Suc i = length es \<Longrightarrow> \<exists>b'. bk_next b = Some (None, b') \<and> bk_at b' es BEnd"
    using len end_slices(1) [of es] end_hdr_dummy [of es] by (simp add: bk_next_def header_size_def u32n_def)
  show "bk_at b es BEnd \<Longrightarrow> \<exists>b'. bk_next b = Some (None, b') \<and> bk_at b' es BDone"
    using len end_slices(2) [of es] by (simp add: bk_next_def header_size_def zero_header is_dummy_def add.assoc)
  show "bk_at b es BDone \<Longrightarrow> bk_next b = Some (None, b)"
    using len by (simp add: bk_next_def)
qed

lemma bk_prev_at:
  assumes ok: "blk_ok es"
  shows "bk_at b es BStart \<Longrightarrow> bk_prev b = Some (None, b)"
    and "bk_at b es (BOn 0) \<Longrightarrow> \<exists>b'. bk_prev b = Some (None, b') \<and> bk_at b' es BStart"
    and "bk_at b es (BOn (Suc i)) \<Longrightarrow> \<exists>b'. bk_prev b = Some (Some (bitem (es ! i)), b') \<and> bk_at b' es (BOn i)"
    and "bk_at b es BEnd \<Longrightarrow> \<exists>b'. bk_prev b = Some (Some (bitem (last es)), b') \<and> bk_at b' es (BOn (length es - 1))"
proof -
  show "bk_at b es BStart \<Longrightarrow> bk_prev b = Some (None, b)" by (simp add: bk_prev_def)
  show "bk_at b es (BOn 0) \<Longrightarrow> \<exists>b'. bk_prev b = Some (None, b') \<and> bk_at b' es BStart"
    by (simp add: bk_prev_def hdr_def entry_header_def)
  have to_entry: "\<exists>b'. bk_prev b = Some (Some (bitem (es ! i)), b') \<and> bk_at b' es (BOn i)"
    if i: "i < length es" and b: "bk_data b = enc_block es" "bk_base_key b = fst (es ! 0)"
      "bk_last_header b = Some h" "prev_off h = of_nat (off es i)"
    for i h
  proof -
    have big: "off es i + 20 \<le> length (enc_block es)" "length (enc_block es) < 2 ^ 32"
      using off_bounds [of i es] i ok by (auto simp: blk_ok_def)
    then have un: "unat (of_nat (off es i) :: u32) = off es i" by (intro unat_of_nat_u32) simp
    have "(of_nat (off es i) :: u32) \<noteq> -1"
    proof
      assume "(of_nat (off es i) :: u32) = -1"
      then have "off es i = unat (-1 :: u32)" using un by simp
      with big show False by (simp add: unsigned_minus_1_eq_mask mask_eq_exp_minus_1)
    qed
    moreover have "u32n (off es i + 10) = off es i + 10" using big by (simp add: u32n_def)
    moreover have "parse_kv (b\<lparr>bk_last_header := Some (hdr es i), bk_pos := off es i + 10\<rparr>) (hdr es i)
        = Some (bitem (es ! i), b\<lparr>bk_last_header := Some (hdr es i), bk_pos := off es (Suc i),
            bk_last_block := Some (fst (es ! i), vs_bytes (snd (es ! i)))\<rparr>)"
      using parse_kv_at [OF ok i, of "b\<lparr>bk_last_header := Some (hdr es i), bk_pos := off es i + 10\<rparr>"] b
      by (simp add: bitem_def)
    ultimately show ?thesis
      using b un entry_slices(1) [OF i] i by (simp add: bk_prev_def header_size_def)
  qed
  show "bk_at b es (BOn (Suc i)) \<Longrightarrow> \<exists>b'. bk_prev b = Some (Some (bitem (es ! i)), b') \<and> bk_at b' es (BOn i)"
    using to_entry [of i "hdr es (Suc i)"] by (simp add: hdr_def entry_header_def blk_prev_take del: take_Suc)
  obtain n where n: "length es = Suc n" using ok by (cases "length es") (auto simp: blk_ok_def)
  then have "prev_off (end_hdr es) = of_nat (off es n)"
    using blk_prev_take [of n es] by (simp add: end_hdr_def entry_header_def)
  then show "bk_at b es BEnd \<Longrightarrow> \<exists>b'. bk_prev b = Some (Some (bitem (last es)), b') \<and> bk_at b' es (BOn (length es - 1))"
    using to_entry [of n "end_hdr es"] n ok by (simp add: last_conv_nth blk_ok_def)
qed

lemma bk_peek_at:
  assumes "blk_ok es"
  shows "bk_at b es BStart \<Longrightarrow> bk_peek b = Some None" and "bk_at b es BEnd \<Longrightarrow> bk_peek b = Some None"
    and "bk_at b es BDone \<Longrightarrow> bk_peek b = Some None"
    and "bk_at b es (BOn i) \<Longrightarrow> bk_peek b = Some (Some (bitem (es ! i)))"
  using assms hdr_lens(4) [of i es] end_hdr_dummy [of es]
  by (auto simp: bk_peek_def bitem_def blk_ok_def)

declare bk_at.simps [simp del]

subsection \<open>Seeking in a block\<close>

definition bk_before :: "block_iterator \<Rightarrow> item list \<Rightarrow> nat \<Rightarrow> bool" where
  "bk_before b es i \<longleftrightarrow> bk_at b es (if i = 0 then BStart else BOn (i - 1))"

lemma bk_next_before:
  assumes "blk_ok es" and "bk_before b es i"
  shows "i < length es \<Longrightarrow> \<exists>b'. bk_next b = Some (Some (bitem (es ! i)), b') \<and> bk_before b' es (Suc i) \<and> bk_at b' es (BOn i)"
    and "i = length es \<Longrightarrow> \<exists>b'. bk_next b = Some (None, b') \<and> bk_at b' es BEnd"
  using assms bk_next_at(1) [OF assms(1), of b] bk_next_at(2,3) [OF assms(1), of b "i - 1"]
  by (cases i; auto simp: bk_before_def blk_ok_def)+

lemma bk_seek_loop_at:
  assumes "blk_ok es" and "bk_before b es i" and "i \<le> length es"
  shows "\<exists>r b'. bk_seek_loop found b = Some (r, b')
    \<and> ((\<exists>j. i \<le> j \<and> j < length es \<and> found (fst (es ! j)) \<and> (\<forall>m. i \<le> m \<and> m < j \<longrightarrow> \<not> found (fst (es ! m)))
          \<and> r = Some (bitem (es ! j)) \<and> bk_at b' es (BOn j))
       \<or> (\<forall>m. i \<le> m \<and> m < length es \<longrightarrow> \<not> found (fst (es ! m))) \<and> r = None \<and> bk_at b' es BEnd)"
  using assms(2,3)
proof (induction "length es - i" arbitrary: b i)
  case 0
  then have i: "i = length es" by simp
  with bk_next_before(2) [OF assms(1) 0(2)] obtain b' where "bk_next b = Some (None, b')" "bk_at b' es BEnd"
    by blast
  with i show ?case by (subst bk_seek_loop.simps) auto
next
  case (Suc n)
  then have i: "i < length es" by simp
  obtain b' where b': "bk_next b = Some (Some (bitem (es ! i)), b')" "bk_before b' es (Suc i)" "bk_at b' es (BOn i)"
    using bk_next_before(1) [OF assms(1) Suc.prems(1) i] by blast
  show ?case
  proof (cases "found (fst (es ! i))")
    case True
    then have "bk_seek_loop found b = Some (Some (bitem (es ! i)), b')"
      using b'(1) by (subst bk_seek_loop.simps) (simp add: bitem_def)
    with True i b'(3) show ?thesis by fastforce
  next
    case False
    then have eq: "bk_seek_loop found b = bk_seek_loop found b'"
      using b'(1) by (subst bk_seek_loop.simps) (simp add: bitem_def)
    have skip: "(\<forall>m. i \<le> m \<and> m < j \<longrightarrow> \<not> found (fst (es ! m))) \<longleftrightarrow> (\<forall>m. Suc i \<le> m \<and> m < j \<longrightarrow> \<not> found (fst (es ! m)))" for j
      using False by (metis Suc_leD Suc_leI le_neq_implies_less)
    have "n = length es - Suc i" using Suc.hyps(2) by simp
    from Suc.hyps(1) [OF this b'(2)] i obtain r b2 where ih: "bk_seek_loop found b' = Some (r, b2)"
      "(\<exists>j. Suc i \<le> j \<and> j < length es \<and> found (fst (es ! j)) \<and> (\<forall>m. Suc i \<le> m \<and> m < j \<longrightarrow> \<not> found (fst (es ! m)))
          \<and> r = Some (bitem (es ! j)) \<and> bk_at b2 es (BOn j))
       \<or> (\<forall>m. Suc i \<le> m \<and> m < length es \<longrightarrow> \<not> found (fst (es ! m))) \<and> r = None \<and> bk_at b2 es BEnd"
      by auto
    from ih(2) show ?thesis
      unfolding eq ih(1) skip by (metis Suc_leD)
  qed
qed

lemma bk_skip_all_at:
  assumes "blk_ok es" and "bk_before b es i" and "i \<le> length es"
  shows "\<exists>b'. bk_skip_all b = Some b' \<and> bk_at b' es BEnd"
  using assms(2,3)
proof (induction "length es - i" arbitrary: b i)
  case 0
  then have "i = length es" by simp
  with bk_next_before(2) [OF assms(1) 0(2)] show ?case by (subst bk_skip_all.simps) auto
next
  case (Suc n)
  then have i: "i < length es" by simp
  obtain b' where b': "bk_next b = Some (Some (bitem (es ! i)), b')" "bk_before b' es (Suc i)"
    using bk_next_before(1) [OF assms(1) Suc.prems(1) i] by blast
  have "n = length es - Suc i" using Suc.hyps(2) by simp
  from Suc.hyps(1) [OF this b'(2)] i b'(1) show ?case by (subst bk_skip_all.simps) auto
qed

lemma bk_new_at: "bk_at (bk_new (enc_block es)) es BStart"
  by (simp add: bk_new_def bk_at.simps)

lemma bk_reset_new: "bk_reset (bk_new d) = bk_new d"
  by (simp add: bk_reset_def bk_new_def)

lemma bk_before_new: "bk_before (bk_new (enc_block es)) es 0"
  by (simp add: bk_before_def bk_new_at)

lemma bk_seek_to_last_new:
  assumes "blk_ok es"
  shows "\<exists>b. bk_seek_to_last (bk_new (enc_block es)) = Some (Some (bitem (last es)), b) \<and> bk_at b es (BOn (length es - 1))"
  using bk_skip_all_at [OF assms bk_before_new] bk_prev_at(4) [OF assms]
  by (fastforce simp: bk_seek_to_last_def)

subsection \<open>Tables\<close>

text \<open>
  \<open>tbl_ok t bs\<close>: the table's blocks are \<open>bs\<close>, sorted by key, and its index has the first key
  of every block (or an empty key when there is only one block).
\<close>

definition tbl_ok :: "'bf table_core \<Rightarrow> item list list \<Rightarrow> bool" where
  "tbl_ok t bs \<longleftrightarrow> bs \<noteq> [] \<and> (\<forall>c\<in>set bs. blk_ok c) \<and> strictly_sorted (map fst (concat bs))
     \<and> map ko_key (tb_block_index t) = (if length bs = 1 then [[]] else map (\<lambda>c. fst (hd c)) bs)
     \<and> (\<forall>j<length bs. \<exists>o1. tb_block t j = Some (Inr \<lparr>bl_offset = o1, bl_data = enc_block (bs ! j)\<rparr>))"

lemma tbl_okD:
  assumes "tbl_ok t bs"
  shows "bs \<noteq> []" and "\<And>j. j < length bs \<Longrightarrow> blk_ok (bs ! j)" and "strictly_sorted (map fst (concat bs))"
    and "length (tb_block_index t) = length bs"
    and "\<And>it j. j < length bs \<Longrightarrow> ti_table it = t \<Longrightarrow> get_bi_by_bpos it (int j) = Some (bk_new (enc_block (bs ! j)))"
proof -
  show "bs \<noteq> []" "strictly_sorted (map fst (concat bs))" "\<And>j. j < length bs \<Longrightarrow> blk_ok (bs ! j)"
    using assms by (auto simp: tbl_ok_def)
  have "length (map ko_key (tb_block_index t)) = length bs"
    using assms unfolding tbl_ok_def by (metis length_Cons length_map list.size(3) One_nat_def)
  then show "length (tb_block_index t) = length bs" by simp
  show "\<And>it j. j < length bs \<Longrightarrow> ti_table it = t \<Longrightarrow> get_bi_by_bpos it (int j) = Some (bk_new (enc_block (bs ! j)))"
    using assms by (fastforce simp: get_bi_by_bpos_def tbl_ok_def)
qed

lemma concat_split:
  "j < length bs \<Longrightarrow> concat bs = concat (take j bs) @ bs ! j @ concat (drop (Suc j) bs)"
  by (metis append_take_drop_id concat.simps(2) concat_append Cons_nth_drop_Suc)

text \<open>Keys of earlier blocks are below the keys of a block.\<close>

lemma tbl_earlier_less:
  assumes "tbl_ok t bs" and "j < length bs" and "e \<in> set (concat (take j bs))" and "f \<in> set (bs ! j)"
  shows "fst e < fst f"
  using tbl_okD(3) [OF assms(1)] assms(3,4) concat_split [OF assms(2)]
  by (auto simp: sorted_wrt_append)

lemma tbl_block_sorted: "tbl_ok t bs \<Longrightarrow> j < length bs \<Longrightarrow> strictly_sorted (map fst (bs ! j))"
  using tbl_okD(3) [of t bs] concat_split [of j bs] by (auto simp: sorted_wrt_append)

lemma tbl_first_least:
  assumes "tbl_ok t bs" and "j < length bs" and "e \<in> set (bs ! j)"
  shows "fst (hd (bs ! j)) \<le> fst e"
  using tbl_block_sorted [OF assms(1,2)] assms(3) by (cases "bs ! j") auto

lemma item_from_opt_bitem [simp]:
  "item_from_opt (Some (bitem e)) = Some (Some e)" "item_from_opt None = Some None"
  by (simp_all add: item_from_opt_def)

lemma seek_helper_at:
  assumes ok: "tbl_ok t bs" and t: "ti_table it = t" and j: "j < length bs"
  shows "\<exists>r b. seek_helper it (int j) k = Some (r, it\<lparr>ti_bpos := int j, ti_bi := Some b\<rparr>)
    \<and> ((\<exists>i<length (bs ! j). k \<le> fst (bs ! j ! i) \<and> (\<forall>m<i. fst (bs ! j ! m) < k)
          \<and> r = Some (bs ! j ! i) \<and> bk_at b (bs ! j) (BOn i))
       \<or> (\<forall>e\<in>set (bs ! j). fst e < k) \<and> r = None \<and> bk_at b (bs ! j) BEnd)"
proof -
  note bok = tbl_okD(2) [OF ok j]
  obtain r b where rb: "bk_seek (bk_new (enc_block (bs ! j))) k Origin = Some (r, b)"
    "(\<exists>i<length (bs ! j). k \<le> fst (bs ! j ! i) \<and> (\<forall>m<i. \<not> k \<le> fst (bs ! j ! m))
          \<and> r = Some (bitem (bs ! j ! i)) \<and> bk_at b (bs ! j) (BOn i))
       \<or> (\<forall>m<length (bs ! j). \<not> k \<le> fst (bs ! j ! m)) \<and> r = None \<and> bk_at b (bs ! j) BEnd"
    using bk_seek_loop_at [OF bok bk_before_new, of "\<lambda>x. k \<le> x"]
    by (auto simp: bk_seek_def bk_reset_new)
  have bi: "get_bi_by_bpos (it\<lparr>ti_bpos := int j\<rparr>) (int j) = Some (bk_new (enc_block (bs ! j)))"
    using tbl_okD(5) [OF ok j] t by simp
  from rb(2) show ?thesis
  proof
    assume "\<exists>i<length (bs ! j). k \<le> fst (bs ! j ! i) \<and> (\<forall>m<i. \<not> k \<le> fst (bs ! j ! m))
          \<and> r = Some (bitem (bs ! j ! i)) \<and> bk_at b (bs ! j) (BOn i)"
    then obtain i where i: "i < length (bs ! j)" "k \<le> fst (bs ! j ! i)" "\<forall>m<i. fst (bs ! j ! m) < k"
      "r = Some (bitem (bs ! j ! i))" "bk_at b (bs ! j) (BOn i)" by (auto simp: not_le)
    with bi rb(1) have "seek_helper it (int j) k = Some (Some (bs ! j ! i), it\<lparr>ti_bpos := int j, ti_bi := Some b\<rparr>)"
      by (simp add: seek_helper_def ti_lift_def)
    with i show ?thesis by blast
  next
    assume miss: "(\<forall>m<length (bs ! j). \<not> k \<le> fst (bs ! j ! m)) \<and> r = None \<and> bk_at b (bs ! j) BEnd"
    then have "\<forall>e\<in>set (bs ! j). fst e < k" by (metis in_set_conv_nth not_le)
    moreover have "seek_helper it (int j) k = Some (None, it\<lparr>ti_bpos := int j, ti_bi := Some b\<rparr>)"
      using bi rb(1) miss by (simp add: seek_helper_def ti_lift_def)
    ultimately show ?thesis using miss by blast
  qed
qed

subsection \<open>seek_from\<close>

text \<open>What a forward seek in a table finds: the first entry at or after the key, or nothing.\<close>

definition seek_found :: "item list list \<Rightarrow> bytes \<Rightarrow> nat \<Rightarrow> nat \<Rightarrow> bool" where
  "seek_found bs k j i \<longleftrightarrow> j < length bs \<and> i < length (bs ! j) \<and> k \<le> fst (bs ! j ! i)
     \<and> (\<forall>e\<in>set (concat (take j bs) @ take i (bs ! j)). fst e < k)"

definition seek_result :: "'bf iterator_impl \<Rightarrow> item list list \<Rightarrow> bytes \<Rightarrow> item option \<Rightarrow> 'bf iterator_impl \<Rightarrow> bool" where
  "seek_result it bs k r it' \<longleftrightarrow> ti_table it' = ti_table it \<and> ti_reversed it' = ti_reversed it \<and>
     (\<exists>j b. ti_bpos it' = int j \<and> ti_bi it' = Some b \<and>
       ((\<exists>i. seek_found bs k j i \<and> r = Some (bs ! j ! i) \<and> bk_at b (bs ! j) (BOn i))
        \<or> (\<forall>e\<in>set (concat bs). fst e < k) \<and> Suc j = length bs \<and> r = None \<and> bk_at b (bs ! j) BEnd))"

lemma take_all_less: "\<forall>m<i. fst (xs ! m) < k \<Longrightarrow> i \<le> length xs \<Longrightarrow> \<forall>e\<in>set (take i xs). fst e < k"
  by (metis in_set_conv_nth length_take min.absorb2 nth_take)

text \<open>A seek in block \<open>j\<close> is right when everything before it is below the key and a miss means the end.\<close>

lemma seek_helper_result:
  assumes ok: "tbl_ok (ti_table it) bs" and j: "j < length bs"
    and before: "\<forall>e\<in>set (concat (take j bs)). fst e < k"
    and last: "Suc j = length bs \<or> (\<exists>e\<in>set (bs ! j). k \<le> fst e)"
  shows "\<exists>r it'. seek_helper it (int j) k = Some (r, it') \<and> seek_result it bs k r it'"
proof -
  obtain r b where s: "seek_helper it (int j) k = Some (r, it\<lparr>ti_bpos := int j, ti_bi := Some b\<rparr>)"
    "(\<exists>i<length (bs ! j). k \<le> fst (bs ! j ! i) \<and> (\<forall>m<i. fst (bs ! j ! m) < k)
          \<and> r = Some (bs ! j ! i) \<and> bk_at b (bs ! j) (BOn i))
       \<or> (\<forall>e\<in>set (bs ! j). fst e < k) \<and> r = None \<and> bk_at b (bs ! j) BEnd"
    using seek_helper_at [OF ok refl j] by blast
  from s(2) show ?thesis
  proof
    assume "\<exists>i<length (bs ! j). k \<le> fst (bs ! j ! i) \<and> (\<forall>m<i. fst (bs ! j ! m) < k)
          \<and> r = Some (bs ! j ! i) \<and> bk_at b (bs ! j) (BOn i)"
    then obtain i where i: "i < length (bs ! j)" "k \<le> fst (bs ! j ! i)" "\<forall>m<i. fst (bs ! j ! m) < k"
      "r = Some (bs ! j ! i)" "bk_at b (bs ! j) (BOn i)" by blast
    then have "seek_found bs k j i"
      using j before take_all_less [of i "bs ! j" k] by (auto simp: seek_found_def)
    with i s(1) show ?thesis by (auto simp: seek_result_def)
  next
    assume none: "(\<forall>e\<in>set (bs ! j). fst e < k) \<and> r = None \<and> bk_at b (bs ! j) BEnd"
    with last have "Suc j = length bs" by (meson leD)
    moreover from this have "\<forall>e\<in>set (concat bs). fst e < k"
      using none before concat_split [OF j] by auto
    ultimately show ?thesis using none s(1) by (auto simp: seek_result_def)
  qed
qed

lemma index_key:
  assumes "tbl_ok t bs" and "j < length bs" and "length bs \<noteq> 1"
  shows "ko_key (tb_block_index t ! j) = fst (hd (bs ! j))"
  using assms tbl_okD(4) [OF assms(1)] unfolding tbl_ok_def by (metis length_map nth_map)

lemma index_sorted:
  assumes "tbl_ok t bs"
  shows "sorted (map ko_key (tb_block_index t))"
proof (cases "length bs = 1")
  case True
  then show ?thesis using assms by (simp add: tbl_ok_def)
next
  case False
  have "fst (hd (bs ! i)) \<le> fst (hd (bs ! j))" if "i \<le> j" "j < length bs" for i j
  proof (cases "i = j")
    case neq: False
    have "hd (bs ! i) \<in> set (bs ! i)" "hd (bs ! j) \<in> set (bs ! j)"
      using tbl_okD(2) [OF assms, of i] tbl_okD(2) [OF assms, of j] that by (auto simp: blk_ok_def)
    moreover have "bs ! i \<in> set (take j bs)"
      using that neq by (auto simp: in_set_conv_nth intro!: exI [of _ i])
    ultimately show ?thesis
      using tbl_earlier_less [OF assms that(2), of "hd (bs ! i)" "hd (bs ! j)"] by fastforce
  qed simp
  then show ?thesis using assms False by (auto simp: tbl_ok_def sorted_iff_nth_mono)
qed

lemma hd_block:
  assumes "tbl_ok t bs" and "j < length bs"
  shows "hd (bs ! j) \<in> set (bs ! j)" and "bs ! j \<noteq> []"
  using tbl_okD(2) [OF assms] by (auto simp: blk_ok_def)

lemma earlier_le_first:
  assumes "tbl_ok t bs" and "j < length bs" and "fst (hd (bs ! j)) \<le> k"
  shows "\<forall>e\<in>set (concat (take j bs)). fst e < k"
  using tbl_earlier_less [OF assms(1,2)] hd_block [OF assms(1,2)] assms(3) by (meson less_le_trans)

text \<open>The search points between two blocks: the key is in the block before, or it is passed by the first key of the block.\<close>

lemma seek_from_between:
  assumes ok: "tbl_ok (ti_table it) bs" and idx: "0 < idx" "idx < length bs"
    and Inl: "binary_search_by (tb_block_index (ti_table it)) (\<lambda>ko. rcmp (ko_key ko) k) = Inl idx"
    and bef: "\<forall>e\<in>set (concat (take (idx - 1) bs)). fst e < k" and first_in: "\<exists>e\<in>set (bs ! idx). k \<le> fst e"
  shows "\<exists>r it'. seek_from it k Origin = Some (r, it') \<and> seek_result it bs k r it'"
proof -
  let ?it = "ti_reset it"
  have t: "ti_table ?it = ti_table it" "ti_reversed ?it = ti_reversed it" by (simp_all add: ti_reset_def)
  then have res: "seek_result ?it bs k = seek_result it bs k" by (simp add: seek_result_def fun_eq_iff)
  note ok' = ok [folded t(1)] and len = tbl_okD(4) [OF ok]
  have last: "idx - 1 < length bs" using idx by auto
  obtain r b where s: "seek_helper ?it (int (idx - 1)) k = Some (r, ?it\<lparr>ti_bpos := int (idx - 1), ti_bi := Some b\<rparr>)"
    "(\<exists>i<length (bs ! (idx - 1)). k \<le> fst (bs ! (idx - 1) ! i) \<and> (\<forall>m<i. fst (bs ! (idx - 1) ! m) < k)
      \<and> r = Some (bs ! (idx - 1) ! i) \<and> bk_at b (bs ! (idx - 1)) (BOn i))
     \<or> (\<forall>e\<in>set (bs ! (idx - 1)). fst e < k) \<and> r = None \<and> bk_at b (bs ! (idx - 1)) BEnd"
    using seek_helper_at [OF ok' refl last] by blast
  let ?it2 = "?it\<lparr>ti_bpos := int (idx - 1), ti_bi := Some b\<rparr>"
  from s(2) show ?thesis
  proof
    assume hit: "\<exists>i<length (bs ! (idx - 1)). k \<le> fst (bs ! (idx - 1) ! i) \<and> (\<forall>m<i. fst (bs ! (idx - 1) ! m) < k)
      \<and> r = Some (bs ! (idx - 1) ! i) \<and> bk_at b (bs ! (idx - 1)) (BOn i)"
    then have "\<exists>e\<in>set (bs ! (idx - 1)). k \<le> fst e" by (meson nth_mem)
    then have "seek_result it bs k r ?it2"
      using seek_helper_result [OF ok' last bef] s(1) unfolding res by auto
    with s(1) idx Inl t len hit show ?thesis by (auto simp: seek_from_def)
  next
    assume miss: "(\<forall>e\<in>set (bs ! (idx - 1)). fst e < k) \<and> r = None \<and> bk_at b (bs ! (idx - 1)) BEnd"
    have "take idx bs = take (idx - 1) bs @ [bs ! (idx - 1)]"
      using idx by (metis take_Suc_conv_app_nth last Suc_diff_1)
    then have "\<forall>e\<in>set (concat (take idx bs)). fst e < k" using miss bef by (simp add: ball_Un)
    then have "\<exists>r it'. seek_helper ?it2 (int idx) k = Some (r, it') \<and> seek_result ?it2 bs k r it'"
      using first_in idx ok' by (intro seek_helper_result) auto
    moreover have "seek_result ?it2 bs k = seek_result it bs k"
      using t by (simp add: seek_result_def fun_eq_iff)
    ultimately show ?thesis using s(1) idx Inl t len miss by (simp add: seek_from_def)
  qed
qed

lemma seek_from_result:
  assumes ok: "tbl_ok (ti_table it) bs"
  shows "\<exists>r it'. seek_from it k Origin = Some (r, it') \<and> seek_result it bs k r it'"
proof -
  let ?it = "ti_reset it" and ?ix = "tb_block_index (ti_table it)"
  have t: "ti_table ?it = ti_table it" "ti_reversed ?it = ti_reversed it" by (simp_all add: ti_reset_def)
  then have res: "seek_result ?it bs k = seek_result it bs k" by (simp add: seek_result_def fun_eq_iff)
  note ok' = ok [folded t(1)] and len = tbl_okD(4) [OF ok]
  have ne: "0 < length bs" using tbl_okD(1) [OF ok] by simp
  have single: "concat (take 0 bs) = []" by simp
  note mono = mono_probe_sorted [OF index_sorted [OF ok], of k]
  have helper: "\<exists>r it'. seek_helper ?it (int j) k = Some (r, it') \<and> seek_result it bs k r it'"
    if "j < length bs" "\<forall>e\<in>set (concat (take j bs)). fst e < k"
      "Suc j = length bs \<or> (\<exists>e\<in>set (bs ! j). k \<le> fst e)" for j
    using seek_helper_result [OF ok' that] unfolding res .
  show ?thesis
  proof (cases "binary_search_by ?ix (\<lambda>ko. rcmp (ko_key ko) k)")
    case (Inr idx)
    have idx: "idx < length bs" "ko_key (?ix ! idx) = k"
      using binary_search_Ok [OF mono Inr] len by auto
    have "\<exists>r it'. seek_helper ?it (int idx) k = Some (r, it') \<and> seek_result it bs k r it'"
    proof (cases "length bs = 1")
      case True
      then show ?thesis using helper [of idx] idx(1) by simp
    next
      case False
      then have "fst (hd (bs ! idx)) = k" using index_key [OF ok idx(1)] idx(2) by simp
      then show ?thesis
        using helper [OF idx(1)] earlier_le_first [OF ok idx(1), of k] hd_block(1) [OF ok idx(1)] by blast
    qed
    then show ?thesis using Inr t by (simp add: seek_from_def)
  next
    case (Inl idx)
    have le: "idx \<le> length bs" and less: "\<And>j. j < idx \<Longrightarrow> ko_key (?ix ! j) < k"
      and greater: "\<And>j. idx \<le> j \<Longrightarrow> j < length bs \<Longrightarrow> k < ko_key (?ix ! j)"
      using binary_search_Err [OF mono Inl] len by auto
    have first_in: "\<exists>e\<in>set (bs ! j). k \<le> fst e" if "idx \<le> j" "j < length bs" "length bs \<noteq> 1" for j
      using greater [OF that(1,2)] index_key [OF ok that(2,3)] hd_block(1) [OF ok that(2)]
      by (metis less_imp_le)
    have before: "\<forall>e\<in>set (concat (take j bs)). fst e < k" if "j < idx" "j < length bs" for j
    proof (cases "length bs = 1")
      case True
      then show ?thesis using that by simp
    next
      case False
      then have "fst (hd (bs ! j)) \<le> k" using less [OF that(1)] index_key [OF ok that(2)] by simp
      then show ?thesis by (rule earlier_le_first [OF ok that(2)])
    qed
    consider "idx = 0" | "0 < idx" "idx = length bs" | "0 < idx" "idx < length bs" using le by linarith
    then show ?thesis
    proof cases
      case 1
      have "Suc 0 = length bs \<or> (\<exists>e\<in>set (bs ! 0). k \<le> fst e)"
        using first_in [of 0] 1 ne by (cases "length bs = 1") auto
      with helper [OF ne] 1 Inl t show ?thesis by (simp add: seek_from_def)
    next
      case 2
      then have "\<exists>r it'. seek_helper ?it (int (idx - 1)) k = Some (r, it') \<and> seek_result it bs k r it'"
        using before [of "idx - 1"] by (intro helper) auto
      with 2 Inl t len show ?thesis by (simp add: seek_from_def)
    next
      case 3
      then have multi: "length bs \<noteq> 1" "idx - 1 < length bs" by auto
      show ?thesis using before [of "idx - 1"] first_in [of idx] 3 multi by (intro seek_from_between [OF ok 3 Inl]) auto
    qed
  qed
qed

subsection \<open>The table iterator, forward\<close>

text \<open>Where a forward iterator can stand, with what it is on and what is still to come.\<close>

definition fwd_pos :: "'bf iterator_impl \<Rightarrow> item list list \<Rightarrow> item option \<Rightarrow> item list \<Rightarrow> bool" where
  "fwd_pos it bs cur rest \<longleftrightarrow>
     (\<exists>j b i. ti_bpos it = int j \<and> j < length bs \<and> ti_bi it = Some b \<and> bk_at b (bs ! j) (BOn i)
        \<and> i < length (bs ! j) \<and> cur = Some (bs ! j ! i) \<and> rest = drop (Suc i) (bs ! j) @ concat (drop (Suc j) bs))
     \<or> (\<exists>j. ti_bpos it = int j \<and> j \<le> length bs \<and> ti_bi it = None \<and> cur = None \<and> rest = concat (drop j bs))
     \<or> (\<exists>j b. ti_bpos it = int j \<and> j < length bs \<and> ti_bi it = Some b \<and> bk_at b (bs ! j) BEnd
        \<and> cur = None \<and> rest = concat (drop (Suc j) bs))"

lemma fwd_from_block:
  assumes ok: "tbl_ok (ti_table it) bs" and "ti_bi it = None" and "ti_bpos it = int j" and "j \<le> length bs"
  shows "\<exists>it'. ti_fwd it = Some (hd_opt (concat (drop j bs)), it') \<and> ti_table it' = ti_table it
    \<and> ti_reversed it' = ti_reversed it \<and> fwd_pos it' bs (hd_opt (concat (drop j bs))) (tl (concat (drop j bs)))"
proof (cases "j = length bs")
  case True
  then have "ti_fwd it = Some (None, it)"
    using assms(3) tbl_okD(4) [OF ok] by (subst ti_fwd.simps) simp
  with True assms(2,3) show ?thesis by (auto simp: fwd_pos_def)
next
  case False
  then have j: "j < length bs" using assms(4) by simp
  note bok = tbl_okD(2) [OF ok j]
  obtain b where b: "bk_next (bk_new (enc_block (bs ! j))) = Some (Some (bitem (bs ! j ! 0)), b)"
    "bk_at b (bs ! j) (BOn 0)"
    using bk_next_at(1) [OF bok bk_new_at] by blast
  obtain e es where e: "bs ! j = e # es" using hd_block(2) [OF ok j] by (cases "bs ! j") auto
  have rest: "concat (drop j bs) = e # es @ concat (drop (Suc j) bs)"
    using j e by (metis Cons_nth_drop_Suc append_Cons concat.simps(2))
  let ?it = "it\<lparr>ti_bi := Some b\<rparr>"
  have "ti_fwd it = Some (Some e, ?it)"
    using assms(2,3) j tbl_okD(4) [OF ok] tbl_okD(5) [OF ok j refl] b(1) e
    by (subst ti_fwd.simps) (simp add: get_or_set_bi_def ti_lift_def)
  moreover have "fwd_pos ?it bs (Some e) (es @ concat (drop (Suc j) bs))"
    unfolding fwd_pos_def
    by (rule disjI1, rule exI [of _ j], rule exI [of _ b], rule exI [of _ 0]) (use assms(3) j b(2) e in auto)
  ultimately show ?thesis unfolding rest by (intro exI [of _ ?it]) simp
qed

lemma fwd_posI:
  "ti_bpos it = int j \<Longrightarrow> j < length bs \<Longrightarrow> ti_bi it = Some b \<Longrightarrow> bk_at b (bs ! j) (BOn i) \<Longrightarrow>
   i < length (bs ! j) \<Longrightarrow> fwd_pos it bs (Some (bs ! j ! i)) (drop (Suc i) (bs ! j) @ concat (drop (Suc j) bs))"
  unfolding fwd_pos_def by blast

lemma ti_fwd_next_block:
  assumes ok: "tbl_ok (ti_table it) bs" and j: "ti_bpos it = int j" "j < length bs" and bi: "ti_bi it = Some b"
    and none: "bk_next b = Some (None, b')"
  shows "\<exists>it'. ti_fwd it = Some (hd_opt (concat (drop (Suc j) bs)), it') \<and> ti_table it' = ti_table it
    \<and> ti_reversed it' = ti_reversed it
    \<and> fwd_pos it' bs (hd_opt (concat (drop (Suc j) bs))) (tl (concat (drop (Suc j) bs)))"
proof -
  let ?it = "it\<lparr>ti_bpos := ti_bpos it + 1, ti_bi := None\<rparr>"
  have "ti_fwd it = ti_fwd ?it"
    using j bi none tbl_okD(4) [OF ok] by (subst ti_fwd.simps) (simp add: get_or_set_bi_def ti_lift_def)
  with fwd_from_block [of ?it bs "Suc j"] ok j show ?thesis by simp
qed

lemma ti_fwd_at:
  assumes ok: "tbl_ok (ti_table it) bs" and pos: "fwd_pos it bs cur rest"
  shows "\<exists>it'. ti_fwd it = Some (hd_opt rest, it') \<and> ti_table it' = ti_table it
    \<and> ti_reversed it' = ti_reversed it \<and> fwd_pos it' bs (hd_opt rest) (tl rest)"
proof -
  consider (on) j b i where "ti_bpos it = int j" "j < length bs" "ti_bi it = Some b" "bk_at b (bs ! j) (BOn i)"
      "i < length (bs ! j)" "rest = drop (Suc i) (bs ! j) @ concat (drop (Suc j) bs)"
    | (blk) j where "ti_bpos it = int j" "j \<le> length bs" "ti_bi it = None" "rest = concat (drop j bs)"
    | (dummy) j b where "ti_bpos it = int j" "j < length bs" "ti_bi it = Some b" "bk_at b (bs ! j) BEnd"
      "rest = concat (drop (Suc j) bs)"
    using pos unfolding fwd_pos_def by blast
  then show ?thesis
  proof cases
    case on
    note bok = tbl_okD(2) [OF ok on(2)]
    show ?thesis
    proof (cases "Suc i < length (bs ! j)")
      case True
      obtain b' where b': "bk_next b = Some (Some (bitem (bs ! j ! Suc i)), b')" "bk_at b' (bs ! j) (BOn (Suc i))"
        using bk_next_at(2) [OF bok on(4) True] by blast
      let ?it = "it\<lparr>ti_bi := Some b'\<rparr>"
      have "ti_fwd it = Some (Some (bs ! j ! Suc i), ?it)"
        using on(1-3) b'(1) tbl_okD(4) [OF ok] by (subst ti_fwd.simps) (simp add: get_or_set_bi_def ti_lift_def)
      moreover have "rest = bs ! j ! Suc i # drop (Suc (Suc i)) (bs ! j) @ concat (drop (Suc j) bs)"
        using on(6) Cons_nth_drop_Suc [OF True] by simp
      moreover have "fwd_pos ?it bs (Some (bs ! j ! Suc i)) (drop (Suc (Suc i)) (bs ! j) @ concat (drop (Suc j) bs))"
        using on(1,2) b'(2) True by (intro fwd_posI) auto
      ultimately show ?thesis by (intro exI [of _ ?it]) simp
    next
      case False
      then have "Suc i = length (bs ! j)" using on(5) by simp
      then obtain b' where "bk_next b = Some (None, b')" and "rest = concat (drop (Suc j) bs)"
        using bk_next_at(3) [OF bok on(4)] on(6) by auto
      then show ?thesis using ti_fwd_next_block [OF ok on(1-3)] by simp
    qed
  next
    case blk
    then show ?thesis using fwd_from_block [OF ok blk(3,1,2)] by simp
  next
    case dummy
    then obtain b' where "bk_next b = Some (None, b')"
      using bk_next_at(4) [OF tbl_okD(2) [OF ok dummy(2)]] by blast
    then show ?thesis using ti_fwd_next_block [OF ok dummy(1-3)] dummy(5) by simp
  qed
qed

subsection \<open>The table iterator, backward\<close>

definition bwd_pos :: "'bf iterator_impl \<Rightarrow> item list list \<Rightarrow> item option \<Rightarrow> item list \<Rightarrow> bool" where
  "bwd_pos it bs cur rest \<longleftrightarrow>
     (\<exists>j b i. ti_bpos it = int j \<and> j < length bs \<and> ti_bi it = Some b \<and> bk_at b (bs ! j) (BOn i)
        \<and> i < length (bs ! j) \<and> cur = Some (bs ! j ! i) \<and> rest = rev (concat (take j bs) @ take i (bs ! j)))
     \<or> (\<exists>j. ti_bpos it = int j \<and> j < length bs \<and> ti_bi it = None \<and> cur = None \<and> rest = rev (concat (take (Suc j) bs)))
     \<or> (\<exists>b. ti_bpos it = 0 \<and> ti_bi it = Some b \<and> bk_at b (bs ! 0) BStart \<and> cur = None \<and> rest = [])"

lemma bwd_posI:
  "ti_bpos it = int j \<Longrightarrow> j < length bs \<Longrightarrow> ti_bi it = Some b \<Longrightarrow> bk_at b (bs ! j) (BOn i) \<Longrightarrow>
   i < length (bs ! j) \<Longrightarrow> bwd_pos it bs (Some (bs ! j ! i)) (rev (concat (take j bs) @ take i (bs ! j)))"
  unfolding bwd_pos_def by blast

lemma bwd_last_of_block:
  assumes ok: "tbl_ok (ti_table it) bs" and "ti_bpos it = int j" and "j < length bs"
    and "bk_at b (bs ! j) (BOn (length (bs ! j) - 1))"
  shows "rev (concat (take (Suc j) bs)) = last (bs ! j) # rev (concat (take j bs) @ take (length (bs ! j) - 1) (bs ! j))"
    and "bwd_pos (it\<lparr>ti_bi := Some b\<rparr>) bs (Some (last (bs ! j))) (rev (concat (take j bs) @ take (length (bs ! j) - 1) (bs ! j)))"
proof -
  note ne = hd_block(2) [OF ok assms(3)]
  have "bs ! j = take (length (bs ! j) - 1) (bs ! j) @ [last (bs ! j)]"
    using ne by (metis append_butlast_last_id butlast_conv_take)
  then show "rev (concat (take (Suc j) bs)) = last (bs ! j) # rev (concat (take j bs) @ take (length (bs ! j) - 1) (bs ! j))"
    using assms(3) by (simp add: take_Suc_conv_app_nth)
  have "last (bs ! j) = bs ! j ! (length (bs ! j) - 1)" using ne by (simp add: last_conv_nth)
  then show "bwd_pos (it\<lparr>ti_bi := Some b\<rparr>) bs (Some (last (bs ! j))) (rev (concat (take j bs) @ take (length (bs ! j) - 1) (bs ! j)))"
    using bwd_posI [of "it\<lparr>ti_bi := Some b\<rparr>" j bs b "length (bs ! j) - 1"] assms ne by simp
qed

lemma bwd_from_block:
  assumes ok: "tbl_ok (ti_table it) bs" and "ti_bi it = None" and "ti_bpos it = int j" and j: "j < length bs"
  shows "\<exists>it'. ti_prev it = Some (hd_opt (rev (concat (take (Suc j) bs))), it') \<and> ti_table it' = ti_table it
    \<and> ti_reversed it' = ti_reversed it
    \<and> bwd_pos it' bs (hd_opt (rev (concat (take (Suc j) bs)))) (tl (rev (concat (take (Suc j) bs))))"
proof -
  obtain b where b: "bk_seek_to_last (bk_new (enc_block (bs ! j))) = Some (Some (bitem (last (bs ! j))), b)"
    "bk_at b (bs ! j) (BOn (length (bs ! j) - 1))"
    using bk_seek_to_last_new [OF tbl_okD(2) [OF ok j]] by blast
  have "ti_prev it = Some (Some (last (bs ! j)), it\<lparr>ti_bi := Some b\<rparr>)"
    using assms(2,3) tbl_okD(5) [OF ok j refl] b(1)
    by (subst ti_prev.simps) (simp add: get_or_set_bi_def ti_lift_def)
  then show ?thesis
    using bwd_last_of_block [OF ok assms(3) j b(2)] by (intro exI [of _ "it\<lparr>ti_bi := Some b\<rparr>"]) simp
qed

lemma ti_prev_at:
  assumes ok: "tbl_ok (ti_table it) bs" and pos: "bwd_pos it bs cur rest"
  shows "\<exists>it'. ti_prev it = Some (hd_opt rest, it') \<and> ti_table it' = ti_table it
    \<and> ti_reversed it' = ti_reversed it \<and> bwd_pos it' bs (hd_opt rest) (tl rest)"
proof -
  consider (on) j b i where "ti_bpos it = int j" "j < length bs" "ti_bi it = Some b" "bk_at b (bs ! j) (BOn i)"
      "i < length (bs ! j)" "rest = rev (concat (take j bs) @ take i (bs ! j))"
    | (blk) j where "ti_bpos it = int j" "j < length bs" "ti_bi it = None" "rest = rev (concat (take (Suc j) bs))"
    | (start) b where "ti_bpos it = 0" "ti_bi it = Some b" "bk_at b (bs ! 0) BStart" "rest = []"
    using pos unfolding bwd_pos_def by blast
  then show ?thesis
  proof cases
    case on
    note bok = tbl_okD(2) [OF ok on(2)]
    show ?thesis
    proof (cases i)
      case (Suc m)
      then obtain b' where b': "bk_prev b = Some (Some (bitem (bs ! j ! m)), b')" "bk_at b' (bs ! j) (BOn m)"
        using bk_prev_at(3) [OF bok] on(4) by blast
      let ?it = "it\<lparr>ti_bi := Some b'\<rparr>"
      have "ti_prev it = Some (Some (bs ! j ! m), ?it)"
        using on(3) b'(1) by (subst ti_prev.simps) (simp add: ti_lift_def)
      moreover have "rest = bs ! j ! m # rev (concat (take j bs) @ take m (bs ! j))"
        using on(5,6) Suc by (simp add: take_Suc_conv_app_nth)
      moreover have "bwd_pos ?it bs (Some (bs ! j ! m)) (rev (concat (take j bs) @ take m (bs ! j)))"
        using on(1,2,5) b'(2) Suc by (intro bwd_posI) auto
      ultimately show ?thesis by (intro exI [of _ ?it]) simp
    next
      case 0
      then obtain b' where b': "bk_prev b = Some (None, b')" "bk_at b' (bs ! j) BStart"
        using bk_prev_at(2) [OF bok] on(4) by blast
      let ?it = "it\<lparr>ti_bi := Some b'\<rparr>"
      show ?thesis
      proof (cases j)
        case j0: 0
        then have "ti_prev it = Some (None, ?it)"
          using on(1,3) b'(1) by (subst ti_prev.simps) (simp add: ti_lift_def)
        moreover have "bwd_pos ?it bs None []"
          using on(1) j0 b'(2) unfolding bwd_pos_def by simp
        ultimately show ?thesis using on(6) 0 j0 by (intro exI [of _ ?it]) simp
      next
        case j: (Suc n)
        let ?it2 = "it\<lparr>ti_bpos := int n, ti_bi := None\<rparr>"
        have "ti_prev it = ti_prev ?it2"
          using on(1,3) b'(1) j by (subst ti_prev.simps) (simp add: ti_lift_def)
        then show ?thesis using bwd_from_block [of ?it2 bs n] ok on(2,6) 0 j by simp
      qed
    qed
  next
    case blk
    then show ?thesis using bwd_from_block [OF ok blk(3,1,2)] by simp
  next
    case start
    have "bk_prev b = Some (None, b)"
      using bk_prev_at(1) [OF tbl_okD(2) [OF ok, of 0] start(3)] tbl_okD(1) [OF ok] by simp
    then have "ti_prev it = Some (None, it)"
      using start(1,2) by (subst ti_prev.simps) (cases it, simp add: ti_lift_def)
    moreover have "bwd_pos it bs None []" using start unfolding bwd_pos_def by blast
    ultimately show ?thesis using start(4) by auto
  qed
qed

subsection \<open>The table iterator implements the contract\<close>

definition ti_at :: "bool \<Rightarrow> 'bf iterator_impl \<Rightarrow> item list \<Rightarrow> item option \<Rightarrow> item list \<Rightarrow> bool" where
  "ti_at rv it all cur rest \<longleftrightarrow>
     (\<exists>bs. tbl_ok (ti_table it) bs \<and> ti_reversed it = rv
        \<and> all = (if rv then rev (concat bs) else concat bs)
        \<and> (if rv then bwd_pos it bs cur rest else fwd_pos it bs cur rest))"

lemma ti_atI:
  "tbl_ok (ti_table it) bs \<Longrightarrow> ti_reversed it = rv \<Longrightarrow> all = (if rv then rev (concat bs) else concat bs) \<Longrightarrow>
   (if rv then bwd_pos it bs cur rest else fwd_pos it bs cur rest) \<Longrightarrow> ti_at rv it all cur rest"
  unfolding ti_at_def by blast

lemma ti_peek_at:
  assumes "ti_at rv it all cur rest"
  shows "ti_peek it = Some cur"
proof -
  obtain bs where ok: "tbl_ok (ti_table it) bs"
    and pos: "if rv then bwd_pos it bs cur rest else fwd_pos it bs cur rest"
    using assms by (auto simp: ti_at_def)
  note bok = tbl_okD(2) [OF ok]
  have "0 < length bs" using tbl_okD(1) [OF ok] by simp
  then have start: "\<And>b. bk_at b (bs ! 0) BStart \<Longrightarrow> bk_peek b = Some None"
    using bk_peek_at(1) [OF bok [of 0]] by blast
  from pos bk_peek_at [OF bok] show ?thesis
    by (auto simp: start ti_peek_def fwd_pos_def bwd_pos_def split: if_splits)
qed

lemma ti_next_at:
  assumes "ti_at rv it all cur rest"
  shows "\<exists>it'. ti_next it = Some (hd_opt rest, it') \<and> ti_at rv it' all (hd_opt rest) (tl rest)"
proof -
  obtain bs where bs: "tbl_ok (ti_table it) bs" "ti_reversed it = rv"
    "all = (if rv then rev (concat bs) else concat bs)"
    "if rv then bwd_pos it bs cur rest else fwd_pos it bs cur rest"
    using assms by (auto simp: ti_at_def)
  show ?thesis
  proof (cases rv)
    case True
    then obtain it' where "ti_prev it = Some (hd_opt rest, it')" "ti_table it' = ti_table it"
      "ti_reversed it' = ti_reversed it" "bwd_pos it' bs (hd_opt rest) (tl rest)"
      using ti_prev_at [OF bs(1)] bs(4) by auto
    with True bs show ?thesis by (intro exI [of _ it'] conjI ti_atI [where bs = bs]) (auto simp: ti_next_def)
  next
    case False
    then obtain it' where "ti_fwd it = Some (hd_opt rest, it')" "ti_table it' = ti_table it"
      "ti_reversed it' = ti_reversed it" "fwd_pos it' bs (hd_opt rest) (tl rest)"
      using ti_fwd_at [OF bs(1)] bs(4) by auto
    with False bs show ?thesis by (intro exI [of _ it'] conjI ti_atI [where bs = bs]) (auto simp: ti_next_def)
  qed
qed

lemma seek_found_split:
  assumes "seek_found bs k j i"
  shows "concat bs = (concat (take j bs) @ take i (bs ! j)) @ bs ! j ! i # drop (Suc i) (bs ! j) @ concat (drop (Suc j) bs)"
proof -
  have "bs ! j = take i (bs ! j) @ bs ! j ! i # drop (Suc i) (bs ! j)"
    using assms by (auto simp: seek_found_def id_take_nth_drop)
  with concat_split [of j bs] assms show ?thesis
    by (metis append.assoc append_Cons seek_found_def)
qed

lemma dropWhile_split:
  "\<forall>e\<in>set xs. P e \<Longrightarrow> \<not> P x \<Longrightarrow> dropWhile P (xs @ x # ys) = x # ys"
  by (simp add: dropWhile_append)

lemma dropWhile_none: "\<forall>e\<in>set xs. \<not> P e \<Longrightarrow> dropWhile P xs = xs"
  by (cases xs) auto

lemma ti_seek_fwd:
  assumes ok: "tbl_ok (ti_table it) bs" and rv: "\<not> ti_reversed it"
  shows "\<exists>it' rest. ti_seek it k = Some (hd_opt (dropWhile (\<lambda>e. fst e < k) (concat bs)), it')
    \<and> ti_table it' = ti_table it \<and> \<not> ti_reversed it'
    \<and> fwd_pos it' bs (hd_opt (dropWhile (\<lambda>e. fst e < k) (concat bs))) rest
    \<and> (dropWhile (\<lambda>e. fst e < k) (concat bs) \<noteq> [] \<longrightarrow> rest = tl (dropWhile (\<lambda>e. fst e < k) (concat bs)))"
proof -
  obtain r it' where s: "seek_from it k Origin = Some (r, it')" "seek_result it bs k r it'"
    using seek_from_result [OF ok] by blast
  then obtain j b where st: "ti_table it' = ti_table it" "ti_reversed it' = ti_reversed it"
    "ti_bpos it' = int j" "ti_bi it' = Some b"
    and c: "(\<exists>i. seek_found bs k j i \<and> r = Some (bs ! j ! i) \<and> bk_at b (bs ! j) (BOn i))
        \<or> (\<forall>e\<in>set (concat bs). fst e < k) \<and> Suc j = length bs \<and> r = None \<and> bk_at b (bs ! j) BEnd"
    unfolding seek_result_def by blast
  have seek: "ti_seek it k = Some (r, it')" using s(1) rv by (simp add: ti_seek_def)
  from c show ?thesis
  proof
    assume "\<exists>i. seek_found bs k j i \<and> r = Some (bs ! j ! i) \<and> bk_at b (bs ! j) (BOn i)"
    then obtain i where i: "seek_found bs k j i" "r = Some (bs ! j ! i)" "bk_at b (bs ! j) (BOn i)" by blast
    have "dropWhile (\<lambda>e. fst e < k) (concat bs) = bs ! j ! i # drop (Suc i) (bs ! j) @ concat (drop (Suc j) bs)"
      unfolding seek_found_split [OF i(1)] using i(1)
      by (intro dropWhile_split) (auto simp: seek_found_def not_less)
    moreover have "fwd_pos it' bs (Some (bs ! j ! i)) (drop (Suc i) (bs ! j) @ concat (drop (Suc j) bs))"
      using st i by (intro fwd_posI) (auto simp: seek_found_def)
    ultimately show ?thesis using seek i(2) st rv by auto
  next
    assume e: "(\<forall>e\<in>set (concat bs). fst e < k) \<and> Suc j = length bs \<and> r = None \<and> bk_at b (bs ! j) BEnd"
    then have nil: "dropWhile (\<lambda>e. fst e < k) (concat bs) = []" by (auto simp: dropWhile_eq_Nil_conv)
    have "fwd_pos it' bs None (concat (drop (Suc j) bs))"
      using st e unfolding fwd_pos_def by auto
    then show ?thesis unfolding nil using seek e st rv by auto
  qed
qed

lemma ti_seek_bwd:
  assumes ok: "tbl_ok (ti_table it) bs" and rv: "ti_reversed it"
  shows "\<exists>it'. ti_seek it k = Some (hd_opt (dropWhile (\<lambda>e. k < fst e) (rev (concat bs))), it')
    \<and> ti_table it' = ti_table it \<and> ti_reversed it'
    \<and> bwd_pos it' bs (hd_opt (dropWhile (\<lambda>e. k < fst e) (rev (concat bs))))
        (tl (dropWhile (\<lambda>e. k < fst e) (rev (concat bs))))"
proof -
  obtain r it' where s: "seek_from it k Origin = Some (r, it')" "seek_result it bs k r it'"
    using seek_from_result [OF ok] by blast
  then obtain j b where st: "ti_table it' = ti_table it" "ti_reversed it' = ti_reversed it"
    "ti_bpos it' = int j" "ti_bi it' = Some b"
    and c: "(\<exists>i. seek_found bs k j i \<and> r = Some (bs ! j ! i) \<and> bk_at b (bs ! j) (BOn i))
        \<or> (\<forall>e\<in>set (concat bs). fst e < k) \<and> Suc j = length bs \<and> r = None \<and> bk_at b (bs ! j) BEnd"
    unfolding seek_result_def by blast
  note ok' = ok [folded st(1)]
  from c show ?thesis
  proof
    assume "\<exists>i. seek_found bs k j i \<and> r = Some (bs ! j ! i) \<and> bk_at b (bs ! j) (BOn i)"
    then obtain i where i: "seek_found bs k j i" "r = Some (bs ! j ! i)" "bk_at b (bs ! j) (BOn i)" by blast
    let ?x = "bs ! j ! i" and ?pre = "concat (take j bs) @ take i (bs ! j)"
    let ?post = "drop (Suc i) (bs ! j) @ concat (drop (Suc j) bs)"
    note sp = seek_found_split [OF i(1)]
    have post: "\<forall>e\<in>set ?post. k < fst e" and pre: "\<forall>e\<in>set ?pre. fst e < k" and x: "k \<le> fst ?x"
      using tbl_okD(3) [OF ok] i(1) unfolding sp
      by (auto simp: sorted_wrt_append seek_found_def dest: le_less_trans)
    have on: "bwd_pos it' bs (Some ?x) (rev ?pre)"
      using st i by (intro bwd_posI) (auto simp: seek_found_def)
    have rv_sp: "rev (concat bs) = rev ?post @ ?x # rev ?pre" by (simp add: sp)
    show ?thesis
    proof (cases "fst ?x = k")
      case True
      then have "dropWhile (\<lambda>e. k < fst e) (rev (concat bs)) = ?x # rev ?pre"
        unfolding rv_sp using post by (intro dropWhile_split) auto
      moreover have "ti_seek it k = Some (Some ?x, it')"
        using s(1) i(2) True rv by (simp add: ti_seek_def seek_for_prev_def)
      ultimately show ?thesis using on st rv by auto
    next
      case False
      then have "dropWhile (\<lambda>e. k < fst e) (rev ?post @ ?x # rev ?pre) = dropWhile (\<lambda>e. k < fst e) (rev ?pre)"
        using post x by (subst dropWhile_append2) auto
      also have "\<dots> = rev ?pre"
        using pre by (intro dropWhile_none) (auto dest: less_not_sym)
      finally have "dropWhile (\<lambda>e. k < fst e) (rev (concat bs)) = rev ?pre" unfolding rv_sp .
      moreover have "ti_seek it k = ti_prev it'"
        using s(1) i(2) False rv by (simp add: ti_seek_def seek_for_prev_def)
      ultimately show ?thesis using ti_prev_at [OF ok' on] st rv by auto
    qed
  next
    assume e: "(\<forall>e\<in>set (concat bs). fst e < k) \<and> Suc j = length bs \<and> r = None \<and> bk_at b (bs ! j) BEnd"
    then have j: "j < length bs" "take (Suc j) bs = bs" by auto
    obtain b' where b': "bk_prev b = Some (Some (bitem (last (bs ! j))), b')" "bk_at b' (bs ! j) (BOn (length (bs ! j) - 1))"
      using bk_prev_at(4) [OF tbl_okD(2) [OF ok j(1)]] e by blast
    have "ti_prev it' = Some (Some (last (bs ! j)), it'\<lparr>ti_bi := Some b'\<rparr>)"
      using st(4) b'(1) by (subst ti_prev.simps) (simp add: ti_lift_def)
    moreover have "dropWhile (\<lambda>e. k < fst e) (rev (concat bs)) = rev (concat bs)"
      using e by (intro dropWhile_none) (auto dest: less_not_sym)
    moreover have "ti_seek it k = ti_prev it'"
      using s(1) e rv by (simp add: ti_seek_def seek_for_prev_def)
    ultimately show ?thesis
      using bwd_last_of_block [OF ok' st(3) j(1) b'(2)] j(2) st rv by auto
  qed
qed

lemma ti_seek_at:
  assumes "ti_at rv it all cur rest"
  shows "\<exists>it' rest'. ti_seek it k = Some (hd_opt (dropWhile (\<lambda>i. dir_skips rv k (fst i)) all), it')
    \<and> ti_at rv it' all (hd_opt (dropWhile (\<lambda>i. dir_skips rv k (fst i)) all)) rest'
    \<and> (dropWhile (\<lambda>i. dir_skips rv k (fst i)) all \<noteq> [] \<longrightarrow>
         rest' = tl (dropWhile (\<lambda>i. dir_skips rv k (fst i)) all))"
proof -
  obtain bs where bs: "tbl_ok (ti_table it) bs" "ti_reversed it = rv"
    "all = (if rv then rev (concat bs) else concat bs)"
    using assms by (auto simp: ti_at_def)
  show ?thesis
  proof (cases rv)
    case True
    then have "(\<lambda>i. dir_skips rv k (fst i)) = (\<lambda>e :: item. k < fst e)" by (simp add: dir_skips_def fun_eq_iff)
    moreover obtain it' where "ti_seek it k = Some (hd_opt (dropWhile (\<lambda>e. k < fst e) (rev (concat bs))), it')"
      "ti_table it' = ti_table it" "ti_reversed it'"
      "bwd_pos it' bs (hd_opt (dropWhile (\<lambda>e. k < fst e) (rev (concat bs))))
        (tl (dropWhile (\<lambda>e. k < fst e) (rev (concat bs))))"
      using ti_seek_bwd [OF bs(1)] bs(2) True by blast
    ultimately show ?thesis
      using bs True by (intro exI [of _ it'] exI conjI impI ti_atI [where bs = bs]) auto
  next
    case False
    then have eq: "(\<lambda>i. dir_skips rv k (fst i)) = (\<lambda>e :: item. fst e < k)" by (simp add: dir_skips_def fun_eq_iff)
    obtain it' rest' where s: "ti_seek it k = Some (hd_opt (dropWhile (\<lambda>e. fst e < k) (concat bs)), it')"
      "ti_table it' = ti_table it" "\<not> ti_reversed it'"
      "fwd_pos it' bs (hd_opt (dropWhile (\<lambda>e. fst e < k) (concat bs))) rest'"
      "dropWhile (\<lambda>e. fst e < k) (concat bs) \<noteq> [] \<longrightarrow> rest' = tl (dropWhile (\<lambda>e. fst e < k) (concat bs))"
      using ti_seek_fwd [OF bs(1)] bs(2) False by blast
    then have "ti_at rv it' all (hd_opt (dropWhile (\<lambda>e. fst e < k) all)) rest'"
      using bs False by (intro ti_atI [where bs = bs]) auto
    with s bs False show ?thesis unfolding eq by auto
  qed
qed

lemma ti_rewind_at:
  assumes "ti_at rv it (x # xs) cur rest"
  shows "\<exists>it'. ti_rewind it = Some (Some x, it') \<and> ti_at rv it' (x # xs) (Some x) xs"
proof -
  obtain bs where bs: "tbl_ok (ti_table it) bs" "ti_reversed it = rv"
    "x # xs = (if rv then rev (concat bs) else concat bs)"
    using assms by (auto simp: ti_at_def)
  note ne = tbl_okD(1) [OF bs(1)] and len = tbl_okD(4) [OF bs(1)]
  have ix: "tb_block_index (ti_table it) \<noteq> []" using ne len by auto
  show ?thesis
  proof (cases rv)
    case True
    let ?j = "length bs - 1"
    have j: "?j < length bs" "take (Suc ?j) bs = bs" using ne by auto
    obtain b where b: "bk_seek_to_last (bk_new (enc_block (bs ! ?j))) = Some (Some (bitem (last (bs ! ?j))), b)"
      "bk_at b (bs ! ?j) (BOn (length (bs ! ?j) - 1))"
      using bk_seek_to_last_new [OF tbl_okD(2) [OF bs(1) j(1)]] by blast
    let ?it0 = "it\<lparr>ti_bpos := int ?j\<rparr>"
    have "ti_rewind it = Some (Some (last (bs ! ?j)), ?it0\<lparr>ti_bi := Some b\<rparr>)"
      using True bs(2) ix len b(1) tbl_okD(5) [OF bs(1) j(1), of ?it0]
      by (simp add: ti_rewind_def ti_seek_to_last_def ti_lift_def)
    moreover note bwd_last_of_block [of ?it0 bs ?j b] bs True j b(2)
    ultimately show ?thesis
      by (intro exI [of _ "?it0\<lparr>ti_bi := Some b\<rparr>"] conjI ti_atI [where bs = bs]) auto
  next
    case False
    have j: "0 < length bs" using ne by simp
    obtain b where b: "bk_next (bk_new (enc_block (bs ! 0))) = Some (Some (bitem (bs ! 0 ! 0)), b)"
      "bk_at b (bs ! 0) (BOn 0)"
      using bk_next_at(1) [OF tbl_okD(2) [OF bs(1) j] bk_new_at] by blast
    let ?it = "it\<lparr>ti_bpos := 0, ti_bi := Some b\<rparr>"
    have "ti_rewind it = Some (Some (bs ! 0 ! 0), ?it)"
      using False bs(2) ix b(1) tbl_okD(5) [OF bs(1) j, of "it\<lparr>ti_bpos := 0\<rparr>"]
      by (simp add: ti_rewind_def ti_seek_to_first_def ti_lift_def bk_seek_to_first_def bk_reset_new)
    moreover have pos: "fwd_pos ?it bs (Some (bs ! 0 ! 0)) (drop (Suc 0) (bs ! 0) @ concat (drop (Suc 0) bs))"
      using j b(2) hd_block(2) [OF bs(1) j] by (intro fwd_posI) auto
    moreover have "x = bs ! 0 ! 0 \<and> xs = drop (Suc 0) (bs ! 0) @ concat (drop (Suc 0) bs)"
      using bs(3) False j hd_block(2) [OF bs(1) j] concat_split [OF j] by (cases "bs ! 0") auto
    ultimately show ?thesis
      using bs False by (intro exI [of _ ?it] conjI ti_atI [where bs = bs]) auto
  qed
qed

interpretation tbl: xiterator "ti_at rv" ti_next ti_rewind ti_peek ti_seek "dir_skips rv" for rv
proof
  fix it :: "'a iterator_impl" and all cur rest x xs k
  show "ti_at rv it all cur rest \<Longrightarrow> ti_peek it = Some cur" by (rule ti_peek_at)
  show "ti_at rv it all cur [] \<Longrightarrow> \<exists>it'. ti_next it = Some (None, it') \<and> ti_at rv it' all None []"
    using ti_next_at [of rv it all cur "[]"] by simp
  show "ti_at rv it all cur (x # xs) \<Longrightarrow>
      \<exists>it'. ti_next it = Some (Some x, it') \<and> ti_at rv it' all (Some x) xs"
    using ti_next_at [of rv it all cur "x # xs"] by simp
  show "ti_at rv it (x # xs) cur rest \<Longrightarrow>
      \<exists>it'. ti_rewind it = Some (Some x, it') \<and> ti_at rv it' (x # xs) (Some x) xs"
    by (rule ti_rewind_at)
  show "ti_at rv it all cur rest \<Longrightarrow> dropWhile (\<lambda>i. dir_skips rv k (fst i)) all = x # xs \<Longrightarrow>
      \<exists>it'. ti_seek it k = Some (Some x, it') \<and> ti_at rv it' all (Some x) xs"
    using ti_seek_at [of rv it all cur rest k] by auto
  show "ti_at rv it all cur rest \<Longrightarrow> dropWhile (\<lambda>i. dir_skips rv k (fst i)) all = [] \<Longrightarrow>
      \<exists>it' r. ti_seek it k = Some (None, it') \<and> ti_at rv it' all None r"
    using ti_seek_at [of rv it all cur rest k] by (metis hd_opt_simps(1))
qed

end
