(* ===== verification/Table_Roundtrip.thy ===== *)
theory Table_Roundtrip
  imports Table_Correct
begin

section \<open>Building, opening and reading back a table\<close>

text \<open>
  \<open>open_table\<close> on the file that the builder wrote: the index is read back, the table is well
  formed, and its iterators run over exactly the entries that were added.
\<close>

subsection \<open>Reading the file\<close>

definition mk_table :: "'bf bloom \<Rightarrow> bytes \<Rightarrow> string \<Rightarrow> u64 \<Rightarrow> 'bf table_core" where
  "mk_table bl file name fid = \<lparr>tb_ref = 1, tb_file_name = name, tb_size = length file, tb_block_index = [],
     tb_mmap = file, tb_smallest = [], tb_biggest = [], tb_id = fid, tb_bf = bl_new bl 1\<rparr>"

lemma tb_read_at:
  assumes "tb_mmap t = x @ y @ z" and "o1 = length x" and "sz = length y" and "x @ y @ z \<noteq> []"
  shows "tb_read t o1 sz = Some (Inr y)"
  using assms slice_at [OF assms(1), of o1 "o1 + sz"] by (auto simp: tb_read_def Let_def)

lemma read_no_fail_at:
  "tb_mmap t = x @ y @ z \<Longrightarrow> o1 = length x \<Longrightarrow> sz = length y \<Longrightarrow> x @ y @ z \<noteq> [] \<Longrightarrow> read_no_fail t o1 sz = Some y"
  using tb_read_at [of t x y z o1 sz] by (simp add: read_no_fail_def)

lemma read_offsets_enc: "read_offsets (length os) (concat (map enc_u32 os)) = Some os"
  by (induction os) auto

subsection \<open>The index\<close>

fun ends_from :: "nat \<Rightarrow> item list list \<Rightarrow> nat list" where
  "ends_from a [] = []"
| "ends_from a (c # cs) = (a + length (enc_block c)) # ends_from (a + length (enc_block c)) cs"

fun kos_from :: "nat \<Rightarrow> item list list \<Rightarrow> key_offset_rec list" where
  "kos_from a [] = []"
| "kos_from a (c # cs) =
     \<lparr>ko_key = [], ko_offset = a, ko_len = length (enc_block c)\<rparr> # kos_from (a + length (enc_block c)) cs"

lemma block_ends_from: "map (\<lambda>i. a + length (concat (map enc_block (take (Suc i) bs)))) [0..<length bs] = ends_from a bs"
proof (induction bs arbitrary: a)
  case (Cons c cs)
  have "map (\<lambda>i. a + length (concat (map enc_block (take (Suc i) (c # cs))))) [0..<length (c # cs)]
      = (a + length (enc_block c))
        # map (\<lambda>i. (a + length (enc_block c)) + length (concat (map enc_block (take (Suc i) cs)))) [0..<length cs]"
    by (simp add: map_upt_Suc add.assoc del: upt_Suc)
  with Cons show ?case by simp
qed simp

lemma block_ends_eq: "block_ends bs = ends_from 0 bs"
  using block_ends_from [of 0 bs] by (simp add: block_ends_def)

lemma index_entries_ends:
  assumes "a + length (concat (map enc_block bs)) < 2 ^ 32"
  shows "index_entries (of_nat a) (map of_nat (ends_from a bs)) = Some (kos_from a bs)"
  using assms
proof (induction bs arbitrary: a)
  case (Cons c cs)
  then have "unat (of_nat a :: u32) = a"
    "unat (of_nat (a + length (enc_block c)) :: u32) = a + length (enc_block c)"
    by (auto intro!: unat_of_nat_u32 simp del: of_nat_add)
  with Cons show ?case by (simp add: checked_sub_def del: of_nat_add)
qed simp

lemma kos_from_length [simp]: "length (kos_from a bs) = length bs"
  by (induction bs arbitrary: a) auto

lemma kos_from_nth:
  "j < length bs \<Longrightarrow> kos_from a bs ! j =
    \<lparr>ko_key = [], ko_offset = a + length (concat (map enc_block (take j bs))), ko_len = length (enc_block (bs ! j))\<rparr>"
proof (induction bs arbitrary: a j)
  case (Cons c cs)
  then show ?case by (cases j) auto
qed simp

lemma slice_shift:
  assumes "b \<le> length d"
  shows "slice (x @ d @ z) (length x + a) (length x + b) = slice d a b"
  using assms by (simp add: slice_def)

lemma load_block_key_at:
  assumes "tb_mmap t = pre @ enc_block c @ post" and "blk_ok c"
  shows "load_block_key t \<lparr>ko_key = [], ko_offset = length pre, ko_len = n\<rparr>
    = Some (Inr \<lparr>ko_key = fst (hd c), ko_offset = length pre, ko_len = n\<rparr>)"
proof -
  have c: "0 < length c" "entry_ok (c ! 0)" "hd c = c ! 0" using assms(2) by (auto simp: blk_ok_def hd_conv_nth)
  note sl = entry_slices [OF c(1)] and lens = hdr_lens [OF c(1,2)]
  have d: "entry_diff (blk_base (take 0 c)) (fst (c ! 0)) = fst (c ! 0)" by (simp add: entry_diff_def)
  have p0: "p_len (hdr c 0) = 0" using d by (simp add: hdr_def entry_header_def)
  have bound: "10 + length (fst (c ! 0)) + 20 \<le> length (enc_block c)"
    using off_bounds [of 1 c] off_Suc [OF c(1)] c(1) d by simp
  have len: "length (tb_mmap t) = length pre + length (enc_block c) + length post" using assms(1) by simp
  have "slice (tb_mmap t) (length pre + 0) (length pre + 10) = Some (header_enc (hdr c 0))"
    unfolding assms(1) using sl(1) bound by (subst slice_shift) auto
  moreover have "slice (tb_mmap t) (length pre + 10) (length pre + (10 + length (fst (c ! 0)))) = Some (fst (c ! 0))"
    unfolding assms(1) using sl(2) d bound by (subst slice_shift) auto
  moreover have "tb_mmap t \<noteq> []" using len bound by auto
  ultimately show ?thesis
    using len bound lens(1) d p0 c(3)
    by (simp add: load_block_key_def tb_read_def header_size_def add.commute add.left_commute)
qed

lemma load_block_keys_at:
  assumes "tb_mmap t = pre @ concat (map enc_block bs) @ post" and "\<forall>c\<in>set bs. blk_ok c"
  shows "load_block_keys t (kos_from (length pre) bs)
    = Some (Inr (map2 (\<lambda>ko c. ko\<lparr>ko_key := fst (hd c)\<rparr>) (kos_from (length pre) bs) bs))"
  using assms
proof (induction bs arbitrary: pre)
  case (Cons c cs)
  have "tb_mmap t = (pre @ enc_block c) @ concat (map enc_block cs) @ post" using Cons.prems(1) by simp
  from Cons.IH [OF this] Cons.prems(2)
  have "load_block_keys t (kos_from (length pre + length (enc_block c)) cs)
      = Some (Inr (map2 (\<lambda>ko c. ko\<lparr>ko_key := fst (hd c)\<rparr>) (kos_from (length pre + length (enc_block c)) cs) cs))"
    by simp
  moreover have "load_block_key t \<lparr>ko_key = [], ko_offset = length pre, ko_len = length (enc_block c)\<rparr>
      = Some (Inr \<lparr>ko_key = fst (hd c), ko_offset = length pre, ko_len = length (enc_block c)\<rparr>)"
    using Cons.prems by (intro load_block_key_at [where post = "concat (map enc_block cs) @ post"]) auto
  ultimately show ?case by simp
qed simp

subsection \<open>File names\<close>

lemma parse_digits_snoc:
  "parse_digits acc xs = Inr m \<Longrightarrow> digit_val c = Some d \<Longrightarrow> m * 10 + d < 2 ^ 64 \<Longrightarrow>
     parse_digits acc (xs @ [c]) = Inr (m * 10 + d)"
  by (induction xs arbitrary: acc) (auto split: option.splits if_splits)

lemma digit_char:
  assumes "d < 10"
  shows "digit_val (char_of (48 + d)) = Some d" and "char_of (48 + d) \<noteq> CHR ''t''" and "char_of (48 + d) \<noteq> CHR ''+''"
proof -
  have of: "of_char (char_of (48 + d :: nat)) = (48 + d :: nat)" using assms by (simp add: of_char_of)
  then show "digit_val (char_of (48 + d)) = Some d" using assms by (simp add: digit_val_def Let_def)
  show "char_of (48 + d) \<noteq> CHR ''t''"
  proof
    assume "char_of (48 + d) = CHR ''t''"
    then have "of_char (CHR ''t'') = 48 + d" using of by simp
    with assms show False by simp
  qed
  show "char_of (48 + d) \<noteq> CHR ''+''"
  proof
    assume "char_of (48 + d) = CHR ''+''"
    then have "of_char (CHR ''+'') = 48 + d" using of by simp
    then show False by simp
  qed
qed

lemma parse_decimal: "n < 2 ^ 64 \<Longrightarrow> parse_digits 0 (decimal n) = Inr n"
proof (induction n rule: decimal.induct)
  case (1 n)
  show ?case
  proof (cases "n < 10")
    case True
    then show ?thesis by (subst decimal.simps) (simp add: digit_char(1))
  next
    case False
    then have "parse_digits 0 (decimal (n div 10)) = Inr (n div 10)" using 1 by simp
    with False 1(2) show ?thesis
      by (subst decimal.simps) (simp add: parse_digits_snoc digit_char(1))
  qed
qed

lemma decimal_ends: "decimal n \<noteq> []" "last (decimal n) \<noteq> CHR ''t''" "hd (decimal n) \<noteq> CHR ''+''"
proof (induction n rule: decimal.induct)
  case (1 n)
  {
    case 1
    then show ?case by (subst decimal.simps) simp
  next
    case 2
    then show ?case by (subst decimal.simps) (simp add: digit_char(2))
  next
    case 3
    then show ?case using "1.IH" by (subst decimal.simps) (simp add: digit_char(3))
  }
qed

lemma decimal_digits: "c \<in> set (decimal n) \<Longrightarrow> digit_val c \<noteq> None"
proof (induction n rule: decimal.induct)
  case (1 n)
  from 1(2) show ?case
    using 1(1) digit_char(1) [of "n mod 10"] digit_char(1) [of n]
    by (subst (asm) decimal.simps) (auto split: if_splits)
qed

lemma id_to_filename_chars: "CHR ''/'' \<notin> set (id_to_filename fid)"
  using decimal_digits [of "CHR ''/''" "unat fid"]
  by (auto simp: id_to_filename_def FILE_SUFFIX_def digit_val_def Let_def)

lemma split_slash_last:
  "CHR ''/'' \<notin> set n \<Longrightarrow> split_slash n = [n]" "CHR ''/'' \<notin> set n \<Longrightarrow> split_slash (d @ CHR ''/'' # n) = split_slash d @ [n]"
proof -
  assume n: "CHR ''/'' \<notin> set n"
  then show n1: "split_slash n = [n]" by (induction n) auto
  have ne: "split_slash d \<noteq> []" for d by (cases d) auto
  show "split_slash (d @ CHR ''/'' # n) = split_slash d @ [n]" by (induction d) (simp_all add: n1 ne)
qed

lemma path_file_name_new: "path_file_name (new_file_name fid dir) = Some (id_to_filename fid)"
proof -
  let ?n = "id_to_filename fid"
  have n: "CHR ''/'' \<notin> set ?n" "?n \<noteq> []" "?n \<noteq> ''.''" "?n \<noteq> ''..''"
    using id_to_filename_chars [of fid] by (auto simp: id_to_filename_def FILE_SUFFIX_def append_eq_Cons_conv)
  then have hd: "hd ?n \<noteq> CHR ''/''" by (metis hd_in_set)
  have "\<exists>ws. split_slash (new_file_name fid dir) = ws @ [?n]"
  proof (cases "dir = [] \<or> last dir \<noteq> CHR ''/''")
    case True
    then show ?thesis using n hd split_slash_last [OF n(1)] by (auto simp: new_file_name_def path_join_def)
  next
    case False
    then have "new_file_name fid dir = butlast dir @ CHR ''/'' # ?n"
      using n hd append_butlast_last_id [of dir] by (simp add: new_file_name_def path_join_def)
    then show ?thesis using split_slash_last(2) [OF n(1)] by simp
  qed
  with n show ?thesis by (auto simp: path_file_name_def)
qed

lemma ends_with_last: "ends_with s suf \<Longrightarrow> suf \<noteq> [] \<Longrightarrow> last s = last suf"
  unfolding ends_with_def by (metis append_take_drop_id last_appendR)

lemma parse_id_to_filename:
  "ends_with (id_to_filename fid) FILE_SUFFIX" "parse_u64 (trim_end_matches (id_to_filename fid) FILE_SUFFIX) = Inr fid"
proof -
  let ?d = "decimal (unat fid)"
  show ends: "ends_with (id_to_filename fid) FILE_SUFFIX" by (simp add: ends_with_def id_to_filename_def)
  have "\<not> ends_with ?d FILE_SUFFIX"
    using decimal_ends(2) [of "unat fid"] ends_with_last [of ?d FILE_SUFFIX] by (auto simp: FILE_SUFFIX_def)
  then have trim: "trim_end_matches (?d @ FILE_SUFFIX) FILE_SUFFIX = ?d"
    using ends by (simp add: id_to_filename_def trim_end_matches.simps [of "?d @ FILE_SUFFIX"] trim_end_matches.simps [of ?d])
  have "unat fid < 2 ^ 64" using unat_lt_64 [of fid] by simp
  then have "parse_u64 ?d = Inr fid"
    using parse_decimal [of "unat fid"] decimal_ends [of "unat fid"]
    by (cases "?d = ''+''") (simp_all add: parse_u64_def)
  with trim show "parse_u64 (trim_end_matches (id_to_filename fid) FILE_SUFFIX) = Inr fid"
    by (simp add: id_to_filename_def)
qed

lemma parse_new_file_name [simp]: "parse_file_id (new_file_name fid dir) = Some (Inr fid)"
  by (simp add: parse_file_id_def path_file_name_new parse_id_to_filename)

text \<open>
  Table file names round-trip: the file id parsed from the path that \<open>new_file_name\<close> gives to
  a table is that table's id, for every 64-bit id and every directory (empty, relative, or with a
  trailing separator), and so distinct ids never share a file.
\<close>

lemma table_filename_roundtrip:
  "parse_file_id (new_file_name fid dir) = Some (Inr fid) \<and> inj (\<lambda>i. new_file_name i dir)"
proof -
  have "i = j" if "new_file_name i dir = new_file_name j dir" for i j
    by (metis that parse_new_file_name option.inject sum.inject(2))
  then show ?thesis by (auto simp: inj_def)
qed

subsection \<open>read_index and open_table\<close>

lemma length_concat_enc: "length (concat (map (\<lambda>e. enc_u32 (f e)) es)) = 4 * length es"
  by (induction es) auto

lemma first_keys_sorted:
  assumes "strictly_sorted (map fst (concat bs))" and "\<forall>c\<in>set bs. c \<noteq> []"
  shows "sorted (map (\<lambda>c. fst (hd c)) bs)"
  using assms
proof (induction bs)
  case (Cons c cs)
  have "fst (hd c) \<le> fst (hd d)" if "d \<in> set cs" for d
  proof -
    have "hd c \<in> set c" "hd d \<in> set d" using Cons.prems(2) that by auto
    with that have "hd c \<in> set c" "hd d \<in> set (concat cs)" by auto
    with Cons.prems(1) have "fst (hd c) < fst (hd d)" by (auto simp: sorted_wrt_append)
    then show ?thesis by simp
  qed
  with Cons show ?case by (auto simp: sorted_wrt_append)
qed simp

definition index_of :: "item list list \<Rightarrow> key_offset_rec list" where
  "index_of bs = (if length bs = 1 then kos_from 0 bs
     else map2 (\<lambda>ko c. ko\<lparr>ko_key := fst (hd c)\<rparr>) (kos_from 0 bs) bs)"

lemma index_of_nth:
  assumes "j < length bs"
  shows "ko_offset (index_of bs ! j) = length (concat (map enc_block (take j bs)))"
    and "ko_len (index_of bs ! j) = length (enc_block (bs ! j))"
    and "length (index_of bs) = length bs"
  using assms by (auto simp: index_of_def kos_from_nth)

lemma index_of_keys: "map ko_key (index_of bs) = (if length bs = 1 then [[]] else map (\<lambda>c. fst (hd c)) bs)"
proof (cases "length bs = 1")
  case True
  then obtain c where "bs = [c]" by (cases bs) auto
  then show ?thesis by (simp add: index_of_def)
next
  case False
  have "map ko_key (map2 (\<lambda>ko c. ko\<lparr>ko_key := fst (hd c)\<rparr>) (kos_from 0 bs) bs) = map (\<lambda>c. fst (hd c)) bs"
    by (rule nth_equalityI) auto
  with False show ?thesis by (simp add: index_of_def)
qed

lemma read_parts:
  assumes "tb_mmap t = A @ I @ N @ B @ L" and "length N = 4" and "length L = 4"
  shows "read_no_fail t (length A + length I + 4 + length B) 4 = Some L"
    and "read_no_fail t (length A + length I + 4) (length B) = Some B"
    and "read_no_fail t (length A + length I) 4 = Some N"
    and "read_no_fail t (length A) (length I) = Some I"
proof -
  have ne: "N \<noteq> []" using assms(2) by auto
  show "read_no_fail t (length A + length I + 4 + length B) 4 = Some L"
    by (rule read_no_fail_at [of t "A @ I @ N @ B" L "[]"]) (use assms ne in simp_all)
  show "read_no_fail t (length A + length I + 4) (length B) = Some B"
    by (rule read_no_fail_at [of t "A @ I @ N" B L]) (use assms ne in simp_all)
  show "read_no_fail t (length A + length I) 4 = Some N"
    by (rule read_no_fail_at [of t "A @ I" N "B @ L"]) (use assms ne in simp_all)
  show "read_no_fail t (length A) (length I) = Some I"
    by (rule read_no_fail_at [of t A I "N @ B @ L"]) (use assms ne in simp_all)
qed

lemma read_index_file:
  fixes bl :: "'bf bloom"
  assumes bs: "bs \<noteq> []" "\<forall>c\<in>set bs. blk_ok c" "strictly_sorted (map fst (concat bs))"
    and size: "length (table_file bs bdata) < 2 ^ 32" and bf: "bl_from_slice bl bdata = Some bf"
  shows "read_index bl (mk_table bl (table_file bs bdata) (new_file_name fid dir) fid)
    = Some (Inr ((mk_table bl (table_file bs bdata) (new_file_name fid dir) fid)\<lparr>tb_bf := bf, tb_block_index := index_of bs\<rparr>))"
proof -
  let ?t = "mk_table bl (table_file bs bdata) (new_file_name fid dir) fid"
  let ?A = "concat (map enc_block bs)" and ?I = "concat (map (\<lambda>e. enc_u32 (of_nat e)) (block_ends bs))"
  let ?N = "enc_u32 (of_nat (length bs))" and ?L = "enc_u32 (of_nat (length bdata))"
  have mm: "tb_mmap ?t = ?A @ ?I @ ?N @ bdata @ ?L" "tb_size ?t = length (?A @ ?I @ ?N @ bdata @ ?L)"
    by (simp_all add: mk_table_def table_file_def)
  have I: "length ?I = 4 * length bs" by (simp add: length_concat_enc)
  have small: "length ?A + 4 * length bs + 8 + length bdata < 2 ^ 32"
    using size I by (simp add: table_file_def)
  then have un: "unat (of_nat (length bdata) :: u32) = length bdata" "unat (of_nat (length bs) :: u32) = length bs"
    by (auto intro!: unat_of_nat_u32)
  have sz: "tb_size ?t = length ?A + 4 * length bs + 8 + length bdata" using mm(2) I by simp
  have r: "read_no_fail t (length ?A + 4 * length bs + 4 + length bdata) 4 = Some ?L"
    "read_no_fail t (length ?A + 4 * length bs + 4) (length bdata) = Some bdata"
    "read_no_fail t (length ?A + 4 * length bs) 4 = Some ?N"
    "read_no_fail t (length ?A) (4 * length bs) = Some ?I" if "tb_mmap t = tb_mmap ?t" for t :: "'bf table_core"
    using read_parts [of t ?A ?I ?N bdata ?L, unfolded I] that mm(1) by simp_all
  have os: "read_offsets (length bs) ?I = Some (map of_nat (block_ends bs))"
    using read_offsets_enc [of "map of_nat (block_ends bs)"] by (simp add: comp_def)
  have ix: "index_entries 0 (map of_nat (block_ends bs)) = Some (kos_from 0 bs)"
    using index_entries_ends [of 0 bs] small by (simp add: block_ends_eq)
  have load: "load_block_keys t (kos_from 0 bs) = Some (Inr (map2 (\<lambda>ko c. ko\<lparr>ko_key := fst (hd c)\<rparr>) (kos_from 0 bs) bs))"
    if "tb_mmap t = tb_mmap ?t" for t :: "'bf table_core"
    using load_block_keys_at [of t "[]" bs "?I @ ?N @ bdata @ ?L"] that mm(1) bs(2) by simp
  have sort: "sort_key ko_key (index_of bs) = index_of bs"
    using first_keys_sorted [OF bs(3)] bs(2)
    by (intro sort_key_id_if_sorted) (auto simp: index_of_keys blk_ok_def)
  have sub: "checked_sub (tb_size ?t) 4 = Some (length ?A + 4 * length bs + 4 + length bdata)"
    "checked_sub (length ?A + 4 * length bs + 4 + length bdata) (length bdata) = Some (length ?A + 4 * length bs + 4)"
    "checked_sub (length ?A + 4 * length bs + 4) 4 = Some (length ?A + 4 * length bs)"
    "checked_sub (length ?A + 4 * length bs) (4 * length bs) = Some (length ?A)"
    using sz by (simp_all add: checked_sub_def)
  let ?t1 = "?t\<lparr>tb_bf := bf\<rparr>" and ?t2 = "?t\<lparr>tb_bf := bf, tb_block_index := kos_from 0 bs\<rparr>"
  have same: "tb_mmap ?t1 = tb_mmap ?t" "tb_mmap ?t2 = tb_mmap ?t" "tb_block_index ?t = []"
    by (simp_all add: mk_table_def)
  have core: "read_index bl ?t = (if length bs = 1 then Some (Inr ?t2) else
      Some (Inr (?t2\<lparr>tb_block_index :=
        sort_key ko_key (map2 (\<lambda>ko c. ko\<lparr>ko_key := fst (hd c)\<rparr>) (kos_from 0 bs) bs)\<rparr>)))"
    by (simp add: read_index_def sub r(1,2) [OF refl] r(3,4) [OF same(1)] os ix un same(3) bf
        load [OF same(2)] del: length_concat)
  show ?thesis
    unfolding core using sort by (cases "length bs = 1") (simp_all add: index_of_def)
qed

lemma tbl_ok_file:
  assumes bs: "bs \<noteq> []" "\<forall>c\<in>set bs. blk_ok c" "strictly_sorted (map fst (concat bs))"
    and t: "tb_mmap t = table_file bs bdata" "tb_block_index t = index_of bs"
  shows "tbl_ok t bs"
proof -
  have "\<exists>o1. tb_block t j = Some (Inr \<lparr>bl_offset = o1, bl_data = enc_block (bs ! j)\<rparr>)" if j: "j < length bs" for j
  proof -
    note n = index_of_nth [OF j]
    have "concat (map enc_block bs) = concat (map enc_block (take j bs)) @ enc_block (bs ! j) @ concat (map enc_block (drop (Suc j) bs))"
      using concat_split [of j "map enc_block bs"] j by (simp add: take_map drop_map)
    then obtain z where "table_file bs bdata = concat (map enc_block (take j bs)) @ enc_block (bs ! j) @ z"
      by (auto simp: table_file_def)
    moreover have "0 < length (enc_block (bs ! j))" by (simp add: enc_block_length)
    ultimately have "tb_read t (length (concat (map enc_block (take j bs)))) (length (enc_block (bs ! j)))
        = Some (Inr (enc_block (bs ! j)))"
      using t(1) by (intro tb_read_at) auto
    with n t(2) j show ?thesis by (simp add: tb_block_def del: length_concat)
  qed
  with bs t(2) show ?thesis by (simp add: tbl_ok_def index_of_keys)
qed

lemma tbl_ok_cong:
  "tb_mmap t' = tb_mmap t \<Longrightarrow> tb_block_index t' = tb_block_index t \<Longrightarrow> tbl_ok t' bs \<longleftrightarrow> tbl_ok t bs"
  by (simp add: tbl_ok_def tb_block_def tb_read_def cong: if_cong)

lemma ti_new_at:
  assumes "tbl_ok t bs"
  shows "ti_at rv (ti_new t rv) (if rv then rev (concat bs) else concat bs) None (if rv then rev (concat bs) else concat bs)"
proof -
  have "tbl_ok (tb_incr_ref t) bs"
    using assms by (subst tbl_ok_cong [of "tb_incr_ref t" t]) (simp_all add: tb_incr_ref_def)
  moreover have "tb_block_index (tb_incr_ref t) = tb_block_index t" by (simp add: tb_incr_ref_def)
  moreover have "0 < length bs" "take (Suc (length bs - 1)) bs = bs" using tbl_okD(1) [OF assms] by auto
  ultimately show ?thesis
    using tbl_okD(4) [OF assms]
    by (intro ti_atI [where bs = bs])
      (auto simp: ti_new_def ti_reset_def fwd_pos_def bwd_pos_def of_nat_diff Suc_le_eq
        intro!: exI [of _ "length bs - 1"])
qed

lemma rewind_key_at:
  assumes "tbl_ok t bs"
  shows "rewind_key t True = Some (fst (last (concat bs)))" and "rewind_key t False = Some (fst (hd (concat bs)))"
proof -
  have ne: "concat bs \<noteq> []"
    using tbl_okD(1) [OF assms] tbl_okD(2) [OF assms, of 0] by (cases bs) (auto simp: blk_ok_def)
  have "rewind_key t rv = Some (fst (hd (if rv then rev (concat bs) else concat bs)))" for rv
  proof (cases "if rv then rev (concat bs) else concat bs")
    case Nil
    then show ?thesis using ne by (auto split: if_splits)
  next
    case (Cons x xs)
    then show ?thesis using ti_rewind_at ti_new_at [OF assms, of rv] by (fastforce simp: rewind_key_def)
  qed
  from this [of True] this [of False] show "rewind_key t True = Some (fst (last (concat bs)))"
    "rewind_key t False = Some (fst (hd (concat bs)))"
    by (simp_all add: hd_rev)
qed

lemma open_table_file:
  assumes bs: "bs \<noteq> []" "\<forall>c\<in>set bs. blk_ok c" "strictly_sorted (map fst (concat bs))"
    and size: "length (table_file bs bdata) < 2 ^ 32" and bf: "bl_from_slice bl bdata = Some bf"
  shows "\<exists>t. open_table bl (table_file bs bdata) (new_file_name fid dir) = Some (Inr t) \<and> tbl_ok t bs
    \<and> tb_smallest t = fst (hd (concat bs)) \<and> tb_biggest t = fst (last (concat bs))
    \<and> tb_id t = fid \<and> tb_bf t = bf \<and> tb_size t = length (table_file bs bdata)"
proof -
  let ?t0 = "mk_table bl (table_file bs bdata) (new_file_name fid dir) fid"
  let ?t1 = "?t0\<lparr>tb_bf := bf, tb_block_index := index_of bs\<rparr>"
  let ?t = "?t1\<lparr>tb_biggest := fst (last (concat bs)), tb_smallest := fst (hd (concat bs))\<rparr>"
  have ok: "tbl_ok ?t1 bs" by (rule tbl_ok_file [OF bs]) (simp_all add: mk_table_def)
  have "open_table bl (table_file bs bdata) (new_file_name fid dir) = Some (Inr ?t)"
    using read_index_file [OF bs size bf, of fid dir] rewind_key_at [OF ok]
    by (simp add: open_table_def mk_table_def del: One_nat_def)
  moreover have "tbl_ok ?t bs" by (subst tbl_ok_cong [of ?t ?t1]) (simp_all add: ok)
  ultimately show ?thesis by (intro exI [of _ ?t]) (simp add: mk_table_def)
qed

subsection \<open>The round trip\<close>

lemma enc_block_le_file:
  assumes "c \<in> set bs"
  shows "length (enc_block c) \<le> length (table_file bs bdata)"
proof -
  have "length (enc_block c) \<le> length (concat (map enc_block bs))"
    using assms by (induction bs) auto
  then show ?thesis unfolding table_file_def by simp
qed

lemma built_blocks_ok:
  assumes "concat bs = kvs" and "\<forall>c\<in>set bs. c \<noteq> []" and "\<forall>e\<in>set kvs. entry_ok e"
    and "length (table_file bs bdata) < 2 ^ 32"
  shows "\<forall>c\<in>set bs. blk_ok c"
  using assms enc_block_le_file [of _ bs bdata] by (fastforce simp: blk_ok_def)

lemma ti_seek_new:
  assumes "tbl_ok t bs"
  shows "\<exists>it. ti_seek (ti_new t rv) k = Some (if rv then find_last (\<lambda>e. fst e \<le> k) (concat bs)
    else find (\<lambda>e. k \<le> fst e) (concat bs), it)"
proof -
  let ?all = "if rv then rev (concat bs) else concat bs"
  have "(\<lambda>i. dir_skips rv k (fst i)) = (\<lambda>e :: item. \<not> (if rv then fst e \<le> k else k \<le> fst e))"
    by (auto simp: dir_skips_def fun_eq_iff not_le)
  then have "hd_opt (dropWhile (\<lambda>i. dir_skips rv k (fst i)) ?all) = find (\<lambda>e. if rv then fst e \<le> k else k \<le> fst e) ?all"
    by (simp add: find_dropWhile)
  with ti_seek_at [OF ti_new_at [OF assms, of rv], of k] show ?thesis
    by (cases rv) (auto simp: find_last_def)
qed

text \<open>
  C6. A table is a faithful copy of what was added. For strictly sorted, non-empty keys (keys
  and encoded values below 64 KiB each) the builder never fails; and when the file it returns
  is below 4 GiB, \<open>open_table\<close> succeeds on it, reports the first and the last key as its
  bounds, its forward iterator produces exactly the added pairs in order and its reversed one
  produces them backwards, and \<open>seek\<close> finds the first pair at or after a key (reversed: the
  last one at or before it). The only assumption on foreign code is that the JSON of a bloom
  filter reads back as that filter.
\<close>

theorem table_roundtrip:
  assumes "kvs \<noteq> []" and "strictly_sorted (map fst kvs)"
    and "\<forall>e\<in>set kvs. fst e \<noteq> [] \<and> length (fst e) < 65536 \<and> vs_size (snd e) < 65536"
    and "\<forall>f. bl_from_slice bl (bl_to_vec bl f) = Some f"
  shows "\<exists>b file b'. builder_add_all builder_default kvs = Some b \<and> builder_finish bl b = Some (file, b')
    \<and> (length file < 2 ^ 32 \<longrightarrow>
        (\<exists>t. open_table bl file (new_file_name fid dir) = Some (Inr t)
          \<and> tb_smallest t = fst (hd kvs) \<and> tb_biggest t = fst (last kvs)
          \<and> collect ti_next (length kvs + 1) (ti_new t False) = Some kvs
          \<and> collect ti_next (length kvs + 1) (ti_new t True) = Some (rev kvs)
          \<and> (\<forall>k rv. \<exists>it. ti_seek (ti_new t rv) k =
               Some (if rv then find_last (\<lambda>e. fst e \<le> k) kvs else find (\<lambda>e. k \<le> fst e) kvs, it))))"
proof -
  obtain b b' bs n where b: "builder_add_all builder_default kvs = Some b"
    "builder_finish bl b = Some (table_file bs (bl_to_vec bl (bl_new bl n)), b')"
    "concat bs = kvs" "bs \<noteq> []" "\<forall>c\<in>set bs. c \<noteq> []"
    using build_table [OF assms(1)] by blast
  let ?file = "table_file bs (bl_to_vec bl (bl_new bl n))"
  have "\<exists>t. open_table bl ?file (new_file_name fid dir) = Some (Inr t) \<and> tb_smallest t = fst (hd kvs) \<and> tb_biggest t = fst (last kvs)
      \<and> collect ti_next (length kvs + 1) (ti_new t False) = Some kvs
      \<and> collect ti_next (length kvs + 1) (ti_new t True) = Some (rev kvs)
      \<and> (\<forall>k rv. \<exists>it. ti_seek (ti_new t rv) k =
           Some (if rv then find_last (\<lambda>e. fst e \<le> k) kvs else find (\<lambda>e. k \<le> fst e) kvs, it))"
    if size: "length ?file < 2 ^ 32"
  proof -
    have "\<forall>c\<in>set bs. blk_ok c"
      using built_blocks_ok [OF b(3,5) _ size] assms(3) by (auto simp: entry_ok_def)
    then obtain t where t: "open_table bl ?file (new_file_name fid dir) = Some (Inr t)" "tbl_ok t bs"
      "tb_smallest t = fst (hd kvs)" "tb_biggest t = fst (last kvs)"
      using open_table_file [OF b(4) _ _ size] assms(2,4) b(3) by metis
    have "collect ti_next (length kvs + 1) (ti_new t rv) = Some (if rv then rev kvs else kvs)" for rv
      using tbl.collect_rest [OF ti_new_at [OF t(2), of rv], of "length kvs + 1"] b(3) by simp
    from this [of False] this [of True] t(1,3,4) ti_seek_new [OF t(2), unfolded b(3)]
    show ?thesis by (intro exI [of _ t] conjI allI) simp_all
  qed
  with b(1,2) show ?thesis by blast
qed

text \<open>Non-vacuity of C6: one pair, with a filter whose JSON is empty.\<close>

theorem table_roundtrip_witness:
  "\<exists>b file b'. builder_add_all builder_default [([1], vs_new [5] 0 0 1)] = Some b
    \<and> builder_finish \<lparr>bl_new = \<lambda>_. (), bl_insert = \<lambda>_ _. (), bl_contains = \<lambda>_ _. False,
        bl_to_vec = \<lambda>_. [], bl_from_slice = \<lambda>_. Some (), bl_hash = \<lambda>_. 0\<rparr> b = Some (file, b')"
proof -
  let ?bl = "\<lparr>bl_new = \<lambda>_. (), bl_insert = \<lambda>_ _. (), bl_contains = \<lambda>_ _. False, bl_to_vec = \<lambda>_. [],
      bl_from_slice = \<lambda>_. Some (), bl_hash = \<lambda>_. 0\<rparr>"
  let ?kvs = "[([1], vs_new [5] 0 0 1)]"
  have "?kvs \<noteq> []" "strictly_sorted (map fst ?kvs)"
    "\<forall>e\<in>set ?kvs. fst e \<noteq> [] \<and> length (fst e) < 65536 \<and> vs_size (snd e) < 65536"
    "\<forall>f. bl_from_slice ?bl (bl_to_vec ?bl f) = Some f"
    by (simp_all add: vs_size_def vs_header_size_def vs_new_def)
  from table_roundtrip [OF this] show ?thesis by blast
qed

text \<open>
  C38. The bloom filter of a table is never filled. \<open>finish\<close> reads the keys back through the
  cursor that wrote them, which stands at the end of the buffer, so the loop stops at once and
  the stored filter is a fresh one whatever was added. Together with the missing negation in
  \<open>does_not_have\<close> (documented to return true if the table does not have the key, but returning
  \<open>contains\<close>), a fresh filter that contains nothing makes \<open>does_not_have\<close> answer false for every
  key: no lookup is ever skipped.
\<close>

theorem bloom_filter_never_filled:
  assumes "builder_add_all builder_default kvs = Some b" and "builder_finish bl b = Some (file, b')"
    and "kvs \<noteq> []" and "strictly_sorted (map fst kvs)"
    and "\<forall>e\<in>set kvs. fst e \<noteq> [] \<and> length (fst e) < 65536 \<and> vs_size (snd e) < 65536"
    and "length file < 2 ^ 32"
    and "\<forall>f. bl_from_slice bl (bl_to_vec bl f) = Some f" and "\<forall>n h. \<not> bl_contains bl (bl_new bl n) h"
  shows "\<exists>t n. open_table bl file (new_file_name fid dir) = Some (Inr t) \<and> tb_bf t = bl_new bl n
    \<and> (\<forall>key. \<not> does_not_have bl t key)"
proof -
  obtain b1 b2 bs n where b: "builder_add_all builder_default kvs = Some b1"
    "builder_finish bl b1 = Some (table_file bs (bl_to_vec bl (bl_new bl n)), b2)"
    "concat bs = kvs" "bs \<noteq> []" "\<forall>c\<in>set bs. c \<noteq> []"
    using build_table [OF assms(3)] by blast
  then have f: "file = table_file bs (bl_to_vec bl (bl_new bl n))" using assms(1,2) by auto
  then have "\<forall>c\<in>set bs. blk_ok c"
    using built_blocks_ok [OF b(3,5)] assms(5,6) by (auto simp: entry_ok_def)
  then obtain t where "open_table bl file (new_file_name fid dir) = Some (Inr t)" "tb_bf t = bl_new bl n"
    using open_table_file [OF b(4)] assms(4,6,7) b(3) f by metis
  with assms(8) show ?thesis by (auto simp: does_not_have_def)
qed

text \<open>Non-vacuity of C38.\<close>

theorem bloom_filter_never_filled_witness:
  "\<exists>b file b' t. builder_add_all builder_default [([1], vs_new [5] 0 0 1)] = Some b
    \<and> builder_finish \<lparr>bl_new = \<lambda>_. (), bl_insert = \<lambda>_ _. (), bl_contains = \<lambda>_ _. False,
        bl_to_vec = \<lambda>_. [], bl_from_slice = \<lambda>_. Some (), bl_hash = \<lambda>_. 0\<rparr> b = Some (file, b')
    \<and> (length file < 2 ^ 32 \<longrightarrow> open_table \<lparr>bl_new = \<lambda>_. (), bl_insert = \<lambda>_ _. (),
        bl_contains = \<lambda>_ _. False, bl_to_vec = \<lambda>_. [], bl_from_slice = \<lambda>_. Some (),
        bl_hash = \<lambda>_. 0\<rparr> file (new_file_name 1 ''db'') = Some (Inr t))"
proof -
  let ?bl = "\<lparr>bl_new = \<lambda>_. (), bl_insert = \<lambda>_ _. (), bl_contains = \<lambda>_ _. False, bl_to_vec = \<lambda>_. [],
      bl_from_slice = \<lambda>_. Some (), bl_hash = \<lambda>_. 0\<rparr>"
  let ?kvs = "[([1], vs_new [5] 0 0 1)]"
  have h: "?kvs \<noteq> []" "strictly_sorted (map fst ?kvs)"
    "\<forall>e\<in>set ?kvs. fst e \<noteq> [] \<and> length (fst e) < 65536 \<and> vs_size (snd e) < 65536"
    "\<forall>f. bl_from_slice ?bl (bl_to_vec ?bl f) = Some f" "\<forall>n h. \<not> bl_contains ?bl (bl_new ?bl n) h"
    by (simp_all add: vs_size_def vs_header_size_def vs_new_def)
  obtain b fb b' where b: "builder_add_all builder_default ?kvs = Some b"
    "builder_finish ?bl b = Some (fb, b')"
    using build_table [OF h(1)] by blast
  moreover have "length fb < 2 ^ 32 \<longrightarrow> (\<exists>t. open_table ?bl fb (new_file_name 1 ''db'') = Some (Inr t))"
    using bloom_filter_never_filled [OF b h(1-3) _ h(4,5)] by blast
  ultimately show ?thesis by blast
qed

end
