(* ===== verification/Table_Concat.thy ===== *)
theory Table_Concat
  imports Table_Roundtrip
begin

section \<open>Concatenating the tables of a level\<close>

text \<open>
  \<open>ConcatIterator\<close> of \<open>src/src/table/iterator.rs\<close> over well-formed tables. \<open>ci_at\<close> is its
  state: every table iterator stands somewhere, and \<open>rests\<close> lists what each of them still has
  to produce. As \<open>init\<close> is never set, \<open>next\<close> always starts over at the first table of the
  iteration order and passes the exhausted ones; a full traversal is right nevertheless, a
  traversal from a \<open>seek\<close> is not.
\<close>

definition ci_at :: "bool \<Rightarrow> 'bf concat_iterator \<Rightarrow> item list list \<Rightarrow> item list list \<Rightarrow> bool" where
  "ci_at rv c alls rests \<longleftrightarrow> ci_reversed c = rv \<and> \<not> ci_init c
     \<and> length (ci_iters c) = length rests \<and> length alls = length rests
     \<and> (\<forall>j<length rests. \<exists>cur. ti_at rv (ci_iters c ! j) (alls ! j) cur (rests ! j))"

definition in_dir :: "bool \<Rightarrow> 'a list \<Rightarrow> 'a list" where
  "in_dir rv xs = (if rv then rev xs else xs)"

lemma in_dir_simps [simp]:
  "length (in_dir rv xs) = length xs" "set (in_dir rv xs) = set xs" "in_dir rv xs = [] \<longleftrightarrow> xs = []" "in_dir rv [] = []"
  "[] = in_dir rv xs \<longleftrightarrow> xs = []"
  by (auto simp: in_dir_def)

lemma length_concat_in_dir: "length (concat (in_dir rv xs)) = length (concat xs)"
  by (induction xs) (simp_all add: in_dir_def)

lemma ci_at_idx [simp]: "ci_at rv (ci_set_idx c i) alls rests = ci_at rv c alls rests"
  by (simp add: ci_at_def ci_set_idx_def)

lemma ci_at_update:
  assumes "ci_at rv c alls rests" and "i < length rests" and "ti_at rv it (alls ! i) cur r"
  shows "ci_at rv (c\<lparr>ci_iters := (ci_iters c)[i := it]\<rparr>) alls (rests[i := r])"
  using assms by (auto simp: ci_at_def nth_list_update)

text \<open>One table, at position \<open>i\<close>: it hands over its next item, or has none.\<close>

lemma ci_on_cur_next:
  assumes at: "ci_at rv c alls rests" and i: "ci_index c = int i" "i < length rests"
  shows "\<exists>it. ci_on_cur c ti_next = Some (hd_opt (rests ! i), c\<lparr>ci_iters := (ci_iters c)[i := it]\<rparr>)
    \<and> ci_at rv (c\<lparr>ci_iters := (ci_iters c)[i := it]\<rparr>) alls (rests[i := tl (rests ! i)])
    \<and> ci_peek (c\<lparr>ci_iters := (ci_iters c)[i := it]\<rparr>) = Some (hd_opt (rests ! i))"
proof -
  obtain cur where "ti_at rv (ci_iters c ! i) (alls ! i) cur (rests ! i)"
    using at i(2) by (auto simp: ci_at_def)
  then obtain it where it: "ti_next (ci_iters c ! i) = Some (hd_opt (rests ! i), it)"
    "ti_at rv it (alls ! i) (hd_opt (rests ! i)) (tl (rests ! i))"
    using ti_next_at by blast
  have "ci_get_cur c = Some (ci_iters c ! i)" using at i by (simp add: ci_get_cur_def ci_at_def)
  moreover have "ci_peek (c\<lparr>ci_iters := (ci_iters c)[i := it]\<rparr>) = Some (hd_opt (rests ! i))"
    using ti_peek_at [OF it(2)] at i by (simp add: ci_peek_def ci_get_cur_def ci_at_def)
  ultimately show ?thesis using it i ci_at_update [OF at i(2) it(2)] by (auto simp: ci_on_cur_def)
qed

lemma concat_empty_around:
  assumes "i < length xss" and "\<forall>j<length xss. j < i \<longrightarrow> xss ! j = []"
  shows "concat xss = xss ! i @ concat (drop (Suc i) xss)"
proof -
  have "concat (take i xss) = []" using assms by (auto simp: in_set_conv_nth)
  with concat_split [OF assms(1)] show ?thesis by simp
qed

text \<open>
  The loop of \<open>next\<close>, once the tables before the current one are known to be exhausted. The
  position is counted in iteration order.
\<close>

definition ci_pos :: "bool \<Rightarrow> nat \<Rightarrow> nat \<Rightarrow> int" where
  "ci_pos rv n i = (if rv then int n - 1 - int i else int i)"

lemma nat_ci_pos: "i < n \<Longrightarrow> nat (ci_pos rv n i) = (if rv then n - Suc i else i)"
  by (auto simp: ci_pos_def)

lemma in_dir_nth: "i < length xs \<Longrightarrow> in_dir rv xs ! i = xs ! nat (ci_pos rv (length xs) i)"
  by (simp add: nat_ci_pos in_dir_def rev_nth)

lemma in_dir_update:
  assumes "i < length xs"
  shows "in_dir rv (xs[nat (ci_pos rv (length xs) i) := y]) = (in_dir rv xs)[i := y]"
proof (cases rv)
  case True
  have "length xs - (length xs - Suc i) - 1 = i" using assms by simp
  with True assms show ?thesis by (simp add: nat_ci_pos in_dir_def rev_update)
qed (simp add: in_dir_def ci_pos_def)

lemma ci_next_loop_at:
  assumes "ci_at rv c alls rests" and "i \<le> length rests" and "ci_index c = ci_pos rv (length rests) i"
    and "\<forall>j<i. in_dir rv rests ! j = []"
  shows "\<exists>c' rests'. ci_next_loop c = Some (hd_opt (concat (in_dir rv rests)), c') \<and> ci_at rv c' alls rests'
    \<and> concat (in_dir rv rests') = tl (concat (in_dir rv rests)) \<and> ci_peek c' = Some (hd_opt (concat (in_dir rv rests)))"
  using assms
proof (induction "length rests - i" arbitrary: c i)
  case 0
  then have i: "i = length rests" by simp
  have "\<forall>xs\<in>set (in_dir rv rests). xs = []" unfolding all_set_conv_all_nth using 0(5) i by simp
  then have "concat (in_dir rv rests) = []" by simp
  moreover have "ci_next_loop c = Some (None, c)"
    using 0(2,4) i by (subst ci_next_loop.simps) (auto simp: ci_at_def ci_pos_def)
  moreover have "ci_peek c = Some None"
    using 0(2,4) i by (auto simp: ci_at_def ci_pos_def ci_peek_def ci_get_cur_def)
  ultimately show ?case using 0(2) by (intro exI [of _ c] exI [of _ rests]) (simp del: concat_eq_Nil_conv)
next
  case (Suc m)
  let ?n = "length rests" and ?p = "nat (ci_pos rv (length rests) i)"
  have i: "i < ?n" using Suc(2) by simp
  then have p: "ci_index c = int ?p" "?p < ?n" using Suc(5) by (auto simp: ci_pos_def)
  have r: "rests ! ?p = in_dir rv rests ! i" using in_dir_nth [OF i] by simp
  obtain it where it: "ci_on_cur c ti_next = Some (hd_opt (rests ! ?p), c\<lparr>ci_iters := (ci_iters c)[?p := it]\<rparr>)"
    "ci_at rv (c\<lparr>ci_iters := (ci_iters c)[?p := it]\<rparr>) alls (rests[?p := tl (rests ! ?p)])"
    "ci_peek (c\<lparr>ci_iters := (ci_iters c)[?p := it]\<rparr>) = Some (hd_opt (rests ! ?p))"
    using ci_on_cur_next [OF Suc(3) p] by blast
  have guard: "\<not> ci_reversed c \<and> ci_index c < int (length (ci_iters c)) \<or> ci_reversed c \<and> ci_index c \<ge> 0"
    using Suc(3,5) i by (auto simp: ci_at_def ci_pos_def)
  have split: "concat (in_dir rv xss) = in_dir rv xss ! i @ concat (drop (Suc i) (in_dir rv xss))"
    if "length xss = ?n" "\<forall>j<i. in_dir rv xss ! j = []" for xss :: "item list list"
    using concat_empty_around [of i "in_dir rv xss"] that i by simp
  show ?case
  proof (cases "rests ! ?p")
    case Nil
    let ?c = "ci_set_idx (c\<lparr>ci_iters := (ci_iters c)[?p := it]\<rparr>)
        (if \<not> ci_reversed c then ci_index c + 1 else ci_index c - 1)"
    have "ci_next_loop c = ci_next_loop ?c"
      using it(1) Nil guard by (subst ci_next_loop.simps) simp
    moreover have "ci_at rv ?c alls rests" using it(2) Nil list_update_id [of rests ?p] by simp
    moreover have "ci_index ?c = ci_pos rv ?n (Suc i)"
      using Suc(3,5) by (auto simp: ci_set_idx_def ci_pos_def ci_at_def)
    moreover have "\<forall>j<Suc i. in_dir rv rests ! j = []" using Suc(6) Nil r by (auto simp: less_Suc_eq)
    ultimately show ?thesis using Suc(1) [of "Suc i" ?c] Suc(2) i by simp
  next
    case (Cons x xs)
    let ?rests = "rests[?p := xs]"
    have "ci_next_loop c = Some (Some x, c\<lparr>ci_iters := (ci_iters c)[?p := it]\<rparr>)"
      using it(1) Cons guard by (subst ci_next_loop.simps) simp
    moreover have "concat (in_dir rv rests) = x # xs @ concat (drop (Suc i) (in_dir rv rests))"
      using split [of rests] Suc(6) Cons r by simp
    moreover have "concat (in_dir rv ?rests) = xs @ concat (drop (Suc i) (in_dir rv rests))"
      using split [of ?rests] Suc(6) i unfolding in_dir_update [OF i] by simp
    ultimately show ?thesis using it(2,3) Cons by (intro exI conjI) simp_all
  qed
qed

lemma ci_next_at:
  assumes "ci_at rv c alls rests"
  shows "\<exists>c' rests'. ci_next c = Some (hd_opt (concat (in_dir rv rests)), c') \<and> ci_at rv c' alls rests'
    \<and> concat (in_dir rv rests') = tl (concat (in_dir rv rests)) \<and> ci_peek c' = Some (hd_opt (concat (in_dir rv rests)))"
proof (cases "rests = []")
  case True
  with assms show ?thesis
    by (intro exI [of _ c] exI [of _ "[]"]) (auto simp: ci_next_def ci_at_def ci_peek_def ci_get_cur_def)
next
  case False
  let ?c = "ci_set_idx c (if \<not> ci_reversed c then 0 else int (length (ci_iters c)) - 1)"
  have "ci_next c = ci_next_loop ?c"
    using assms False by (auto simp: ci_next_def ci_at_def Let_def)
  moreover have "ci_index ?c = ci_pos rv (length rests) 0"
    using assms by (auto simp: ci_set_idx_def ci_pos_def ci_at_def)
  ultimately show ?thesis using ci_next_loop_at [of rv ?c alls rests 0] assms by simp
qed

lemma ci_collect:
  assumes "ci_at rv c alls rests" and "length (concat rests) < n"
  shows "collect ci_next n c = Some (concat (in_dir rv rests))"
proof -
  have "length (concat (in_dir rv rests)) < n" using assms(2) by (simp add: length_concat_in_dir)
  then show ?thesis using assms(1)
  proof (induction n arbitrary: c rests)
    case (Suc n)
    obtain c' rests' where c': "ci_next c = Some (hd_opt (concat (in_dir rv rests)), c')" "ci_at rv c' alls rests'"
      "concat (in_dir rv rests') = tl (concat (in_dir rv rests))"
      using ci_next_at [OF Suc(3)] by blast
    show ?case
    proof (cases "concat (in_dir rv rests)")
      case Nil
      with c'(1) show ?thesis by simp
    next
      case (Cons x xs)
      then have "collect ci_next n c' = Some xs" using Suc(1) [of rests' c'] Suc(2) c' by simp
      with Cons c'(1) show ?thesis by simp
    qed
  qed simp
qed

lemma ti_reset_at:
  assumes "ti_at rv it all cur rest"
  shows "ti_at rv (ti_reset it) all None all"
proof -
  obtain bs where bs: "tbl_ok (ti_table it) bs" "ti_reversed it = rv" "all = (if rv then rev (concat bs) else concat bs)"
    using assms by (auto simp: ti_at_def)
  have "0 < length bs" "take (Suc (length bs - 1)) bs = bs" using tbl_okD(1) [OF bs(1)] by auto
  then show ?thesis using bs tbl_okD(4) [OF bs(1)]
    by (intro ti_atI [where bs = bs])
      (auto simp: ti_reset_def fwd_pos_def bwd_pos_def of_nat_diff Suc_le_eq intro!: exI [of _ "length bs - 1"])
qed

lemma ci_rewind_at:
  assumes at: "ci_at rv c alls rests" and ne: "alls \<noteq> []" "[] \<notin> set alls"
  shows "\<exists>c' rests'. ci_rewind c = Some (hd_opt (concat (in_dir rv alls)), c') \<and> ci_at rv c' alls rests'
    \<and> concat (in_dir rv rests') = tl (concat (in_dir rv alls)) \<and> ci_peek c' = Some (hd_opt (concat (in_dir rv alls)))"
proof -
  let ?n = "length alls" and ?p = "nat (ci_pos rv (length alls) 0)"
  let ?c = "(ci_set_idx c (ci_pos rv ?n 0))\<lparr>ci_iters := map ti_reset (ci_iters c)\<rparr>"
  have "0 < ?n" using ne(1) by simp
  then have "?p < ?n" by (simp add: nat_ci_pos)
  moreover have "ci_pos rv ?n 0 = int ?p" using ne(1) by (auto simp: ci_pos_def)
  ultimately have p: "?p < ?n" "ci_pos rv ?n 0 = int ?p" by auto
  obtain x xs where x: "alls ! ?p = x # xs" using ne(2) p(1) by (metis list.exhaust nth_mem)
  have at': "ci_at rv ?c alls alls"
    using at ti_reset_at by (fastforce simp: ci_at_def ci_set_idx_def)
  have "\<exists>cur r. ti_at rv (ci_iters c ! ?p) (alls ! ?p) cur r" using at p(1) unfolding ci_at_def by metis
  then have "ti_at rv (ti_reset (ci_iters c ! ?p)) (x # xs) None (x # xs)" using ti_reset_at x by metis
  then obtain it where it: "ti_rewind (ti_reset (ci_iters c ! ?p)) = Some (Some x, it)" "ti_at rv it (x # xs) (Some x) xs"
    using ti_rewind_at by blast
  have len: "length (ci_iters c) = ?n" "ci_reversed c = rv" using at by (auto simp: ci_at_def)
  then have "ci_rewind c = ci_on_cur ?c ti_rewind"
    using ne(1) by (auto simp: ci_rewind_def Let_def ci_set_idx_def ci_pos_def)
  also have "\<dots> = Some (Some x, ?c\<lparr>ci_iters := (ci_iters ?c)[?p := it]\<rparr>)"
    using it(1) p len by (auto simp: ci_on_cur_def ci_get_cur_def ci_set_idx_def split: if_splits)
  finally have rw: "ci_rewind c = Some (Some x, ?c\<lparr>ci_iters := (ci_iters ?c)[?p := it]\<rparr>)" .
  have split: "concat (in_dir rv xss) = in_dir rv xss ! 0 @ concat (drop (Suc 0) (in_dir rv xss))"
    if "length xss = ?n" for xss :: "item list list"
    using concat_empty_around [of 0 "in_dir rv xss"] that ne(1) by simp
  have "concat (in_dir rv alls) = x # xs @ concat (drop (Suc 0) (in_dir rv alls))"
    using split [of alls] in_dir_nth [of 0 alls rv] ne(1) x by simp
  moreover have "concat (in_dir rv (alls[?p := xs])) = xs @ concat (drop (Suc 0) (in_dir rv alls))"
    using split [of "alls[?p := xs]"] in_dir_update [of 0 alls rv xs] ne(1) by simp
  moreover have "ci_peek (?c\<lparr>ci_iters := (ci_iters ?c)[?p := it]\<rparr>) = Some (Some x)"
    using ti_peek_at [OF it(2)] p len
    by (auto simp: ci_peek_def ci_get_cur_def ci_set_idx_def split: if_splits)
  ultimately show ?thesis using rw ci_at_update [OF at' p(1), of it "Some x" xs] it(2) x by auto
qed

lemma ci_new_at:
  assumes "list_all2 tbl_ok ts bss"
  shows "ci_at rv (ci_new ts rv) (map (\<lambda>bs. in_dir rv (concat bs)) bss) (map (\<lambda>bs. in_dir rv (concat bs)) bss)"
proof -
  have "tbl_ok (ts ! j) (bss ! j)" if "j < length bss" for j
    using assms that by (simp add: list_all2_conv_all_nth)
  then have "\<exists>cur. ti_at rv (ti_new (ts ! j) rv) (in_dir rv (concat (bss ! j))) cur (in_dir rv (concat (bss ! j)))"
    if "j < length bss" for j
    using ti_new_at that unfolding in_dir_def by blast
  with list_all2_lengthD [OF assms] show ?thesis by (simp add: ci_at_def ci_new_def)
qed

text \<open>Stepping and starting over keep the contract; seeking does not (see below).\<close>

definition cat_at :: "bool \<Rightarrow> 'bf concat_iterator \<Rightarrow> item list \<Rightarrow> item option \<Rightarrow> item list \<Rightarrow> bool" where
  "cat_at rv c all cur rest \<longleftrightarrow> (\<exists>alls rests. ci_at rv c alls rests \<and> [] \<notin> set alls \<and> ci_peek c = Some cur
     \<and> all = concat (in_dir rv alls) \<and> rest = concat (in_dir rv rests))"

lemma cat_next_at:
  assumes "cat_at rv c all cur rest"
  shows "\<exists>c'. ci_next c = Some (hd_opt rest, c') \<and> cat_at rv c' all (hd_opt rest) (tl rest)"
  using assms ci_next_at unfolding cat_at_def by metis

interpretation cat: xcursor "cat_at rv" ci_next ci_rewind ci_peek for rv
proof
  fix it :: "'a concat_iterator" and all cur rest x xs
  show "cat_at rv it all cur rest \<Longrightarrow> ci_peek it = Some cur" by (auto simp: cat_at_def)
  show "cat_at rv it all cur [] \<Longrightarrow> \<exists>it'. ci_next it = Some (None, it') \<and> cat_at rv it' all None []"
    using cat_next_at [of rv it all cur "[]"] by simp
  show "cat_at rv it all cur (x # xs) \<Longrightarrow> \<exists>it'. ci_next it = Some (Some x, it') \<and> cat_at rv it' all (Some x) xs"
    using cat_next_at [of rv it all cur "x # xs"] by simp
  show "cat_at rv it (x # xs) cur rest \<Longrightarrow>
      \<exists>it'. ci_rewind it = Some (Some x, it') \<and> cat_at rv it' (x # xs) (Some x) xs"
  proof -
    assume "cat_at rv it (x # xs) cur rest"
    then obtain alls rests where a: "ci_at rv it alls rests" "[] \<notin> set alls" "x # xs = concat (in_dir rv alls)"
      by (auto simp: cat_at_def)
    moreover from a(3) have "alls \<noteq> []" by auto
    ultimately show ?thesis using ci_rewind_at [OF a(1)] unfolding cat_at_def
      by (metis hd_opt_simps(2) list.sel(3))
  qed
qed

text \<open>Over no tables at all \<open>rewind\<close> answers \<open>None\<close>.\<close>

lemma cat_rewind_empty:
  assumes "cat_at rv c [] cur rest"
  shows "ci_rewind c = Some (None, c) \<and> cat_at rv c [] None []"
proof -
  obtain alls rests where a: "ci_at rv c alls rests" "[] \<notin> set alls" "concat (in_dir rv alls) = []" "ci_peek c = Some cur"
    using assms unfolding cat_at_def by metis
  then have "alls = []" by (cases alls) auto
  moreover from this a(1) have r: "rests = []" "ci_iters c = []" by (auto simp: ci_at_def)
  moreover from r have "ci_peek c = Some None" by (auto simp: ci_peek_def ci_get_cur_def)
  ultimately show ?thesis using a(1) unfolding cat_at_def
    by (intro conjI exI [of _ "[]"]) (simp_all add: ci_rewind_def)
qed

lemma concat_in_dir: "concat (in_dir rv (map (\<lambda>bs. in_dir rv (concat bs)) bss)) = in_dir rv (concat (map concat bss))"
  by (simp add: in_dir_def rev_concat rev_map comp_def)

lemma tbl_ok_items: "tbl_ok t bs \<Longrightarrow> concat bs \<noteq> []"
  using tbl_okD(1,2) [of t bs] by (cases bs) (auto simp: blk_ok_def tbl_ok_def)

text \<open>\<open>m\<close> calls of \<open>next\<close>, results dropped.\<close>

fun ci_nexts :: "nat \<Rightarrow> 'bf concat_iterator \<Rightarrow> 'bf concat_iterator option" where
  "ci_nexts 0 c = Some c"
| "ci_nexts (Suc m) c = do { (_, c) \<leftarrow> ci_next c; ci_nexts m c }"

lemma ci_nexts_at: "ci_at rv c alls rests \<Longrightarrow> \<exists>c' rests'. ci_nexts m c = Some c' \<and> ci_at rv c' alls rests'"
proof (induction m arbitrary: c rests)
  case (Suc m)
  then show ?case using ci_next_at [OF Suc(2)] by fastforce
qed auto

subsection \<open>A small level\<close>

text \<open>Two tables of one pair each.\<close>

definition example_item :: "byte \<Rightarrow> item" where
  "example_item b = ([b], \<lparr>vs_meta = 0, vs_user_meta = 0, vs_cas_counter = 1, vs_value = [b]\<rparr>)"

definition example_bloom :: "unit bloom" where
  "example_bloom = \<lparr>bl_new = \<lambda>_. (), bl_insert = \<lambda>_ _. (), bl_contains = \<lambda>_ _. False, bl_to_vec = \<lambda>_. [],
     bl_from_slice = \<lambda>_. Some (), bl_hash = \<lambda>_. 0\<rparr>"

definition example_table :: "byte \<Rightarrow> unit table_core" where
  "example_table b = (mk_table example_bloom (table_file [[example_item b]] []) ''1.sst'' 1)
     \<lparr>tb_block_index := index_of [[example_item b]], tb_smallest := [b], tb_biggest := [b]\<rparr>"

lemma example_table_ok: "tbl_ok (example_table b) [[example_item b]]"
proof (rule tbl_ok_file)
  show "\<forall>c\<in>set [[example_item b]]. blk_ok c"
    by (simp add: blk_ok_def entry_ok_def example_item_def vs_size_def vs_header_size_def
        enc_block_length blk_def blk_step_def entry_bytes_length entry_diff_def)
qed (simp_all add: example_table_def mk_table_def)

text \<open>
  C28. Concatenation. Over well-formed tables, a loop over \<open>next\<close> of a fresh \<open>ConcatIterator\<close>
  terminates and produces the pairs of all tables, in table order or, reversed, from the last
  pair of the last table to the first pair of the first; \<open>rewind\<close> followed by such a loop
  produces them all again, whatever the iterator did before (\<open>m\<close> calls of \<open>next\<close>).
\<close>

theorem concat_iterator_traverses:
  fixes ts :: "'bf table_core list"
  assumes "list_all2 tbl_ok ts bss" and "ts \<noteq> []"
  shows "collect ci_next (length (concat (map concat bss)) + 1) (ci_new ts rv)
      = Some (in_dir rv (concat (map concat bss)))
    \<and> (\<exists>c x c'. ci_nexts m (ci_new ts rv) = Some c \<and> ci_rewind c = Some (Some x, c')
      \<and> map_option (Cons x) (collect ci_next (length (concat (map concat bss)) + 1) c')
         = Some (in_dir rv (concat (map concat bss))))"
proof
  let ?all = "map (\<lambda>bs. in_dir rv (concat bs)) bss" and ?n = "length (concat (map concat bss)) + 1"
  note at = ci_new_at [OF assms(1), of rv]
  have len: "length (concat ?all) = length (concat (map concat bss))"
    by (simp add: length_concat comp_def)
  show "collect ci_next ?n (ci_new ts rv) = Some (in_dir rv (concat (map concat bss)))"
    using ci_collect [OF at, of ?n] len concat_in_dir [of rv bss] by simp
  obtain c rests where c: "ci_nexts m (ci_new ts rv) = Some c" "ci_at rv c ?all rests"
    using ci_nexts_at [OF at] by blast
  have "\<exists>t :: 'bf table_core. tbl_ok t bs" if "bs \<in> set bss" for bs
    using assms(1) that by (auto simp: list_all2_conv_all_nth in_set_conv_nth)
  then have "in_dir rv (concat bs) \<noteq> []" if "bs \<in> set bss" for bs
    using tbl_ok_items that by (metis in_dir_simps(3))
  then have ne: "?all \<noteq> []" "[] \<notin> set ?all"
    using assms(2) list_all2_lengthD [OF assms(1)] by (auto simp del: in_dir_simps) (metis in_dir_simps(3))
  show "\<exists>c x c'. ci_nexts m (ci_new ts rv) = Some c \<and> ci_rewind c = Some (Some x, c')
      \<and> map_option (Cons x) (collect ci_next ?n c') = Some (in_dir rv (concat (map concat bss)))"
  proof -
    have "hd ?all \<in> set (in_dir rv ?all)" "hd ?all \<noteq> []" using ne by (metis hd_in_set in_dir_simps(2))+
    then have "concat (in_dir rv ?all) \<noteq> []" unfolding concat_eq_Nil_conv by blast
    then obtain y ys where y: "concat (in_dir rv ?all) = y # ys" by (cases "concat (in_dir rv ?all)") simp_all
    obtain c' rests' where c': "ci_rewind c = Some (Some y, c')" "ci_at rv c' ?all rests'"
      "concat (in_dir rv rests') = ys" using ci_rewind_at [OF c(2) ne] y by auto
    have "length (concat rests') < ?n"
      using c'(3) y len length_concat_in_dir [of rv rests'] length_concat_in_dir [of rv ?all] by simp
    from ci_collect [OF c'(2) this] show ?thesis
      using c(1) c' y concat_in_dir [of rv bss] by (intro exI [of _ c] exI [of _ y] exI [of _ c'] conjI) simp_all
  qed
qed

text \<open>Non-vacuity of C28.\<close>

theorem concat_iterator_traverses_witness:
  "collect ci_next 3 (ci_new [example_table 1, example_table 2] True) = Some [example_item 2, example_item 1]"
  using concat_iterator_traverses [of "[example_table 1, example_table 2]" "[[[example_item 1]], [[example_item 2]]]" True 0]
    example_table_ok by (simp add: in_dir_def numeral_3_eq_3)

subsection \<open>Seeking\<close>

text \<open>The tables of a level: sorted, disjoint, with their bounds.\<close>

definition level_ok :: "'bf table_core list \<Rightarrow> item list list list \<Rightarrow> bool" where
  "level_ok ts bss \<longleftrightarrow> list_all2 (\<lambda>t bs. tbl_ok t bs \<and> tb_smallest t = fst (hd (concat bs))
       \<and> tb_biggest t = fst (last (concat bs))) ts bss
     \<and> strictly_sorted (map fst (concat (map concat bss)))"

lemma level_okD:
  assumes "level_ok ts bss"
  shows "list_all2 tbl_ok ts bss" and "length ts = length bss" and "strictly_sorted (map fst (concat (map concat bss)))"
    and "\<And>i. i < length bss \<Longrightarrow> tbl_ok (ts ! i) (bss ! i)"
    and "\<And>i. i < length bss \<Longrightarrow> tb_smallest (ts ! i) = fst (hd (concat (bss ! i)))"
    and "\<And>i. i < length bss \<Longrightarrow> tb_biggest (ts ! i) = fst (last (concat (bss ! i)))"
  using assms by (auto simp: level_ok_def list_all2_conv_all_nth)

lemma level_concat_split:
  "i < length bss \<Longrightarrow> concat (map concat bss)
     = concat (map concat (take i bss)) @ concat (bss ! i) @ concat (map concat (drop (Suc i) bss))"
  using concat_split [of i "map concat bss"] by (simp add: take_map drop_map)

text \<open>Every key of a table lies between its bounds, and the bounds of different tables are ordered.\<close>

lemma level_bounds:
  assumes "level_ok ts bss" and "i < length bss" and "e \<in> set (concat (bss ! i))"
  shows "tb_smallest (ts ! i) \<le> fst e" and "fst e \<le> tb_biggest (ts ! i)"
proof -
  have s: "strictly_sorted (map fst (concat (bss ! i)))"
    using level_okD(3) [OF assms(1)] level_concat_split [OF assms(2)] by (simp add: sorted_wrt_append)
  obtain x xs where c: "concat (bss ! i) = x # xs" using assms(3) by (cases "concat (bss ! i)") auto
  have "fst x \<le> fst e" using s assms(3) unfolding c by auto
  then show "tb_smallest (ts ! i) \<le> fst e" using level_okD(5) [OF assms(1,2)] c by simp
  obtain ys y where c': "concat (bss ! i) = ys @ [y]" using assms(3) by (cases "concat (bss ! i)" rule: rev_cases) auto
  have "fst e \<le> fst y" using s assms(3) unfolding c' by (auto simp: sorted_wrt_append)
  then show "fst e \<le> tb_biggest (ts ! i)" using level_okD(6) [OF assms(1,2)] c' by simp
qed

lemma level_ends:
  assumes "level_ok ts bss" and "i < length bss"
  shows "hd (concat (bss ! i)) \<in> set (concat (bss ! i))" and "last (concat (bss ! i)) \<in> set (concat (bss ! i))"
  using tbl_ok_items [OF level_okD(4) [OF assms]] by (rule hd_in_set, rule last_in_set)

lemma level_tables_ordered:
  assumes "level_ok ts bss" and "i < j" and "j < length bss"
  shows "tb_biggest (ts ! i) < tb_smallest (ts ! j)"
proof -
  have i: "i < length bss" using assms(2,3) by simp
  have "bss ! j \<in> set (drop (Suc i) bss)"
    using assms(2,3) by (auto simp: in_set_conv_nth intro!: exI [of _ "j - Suc i"])
  then have "hd (concat (bss ! j)) \<in> set (concat (map concat (drop (Suc i) bss)))"
    using level_ends(1) [OF assms(1,3)] by auto
  then have "fst (last (concat (bss ! i))) < fst (hd (concat (bss ! j)))"
    using level_okD(3) [OF assms(1)] level_ends(2) [OF assms(1) i] unfolding level_concat_split [OF i]
    by (auto simp: sorted_wrt_append)
  then show ?thesis using level_okD(5,6) [OF assms(1)] i assms(3) by simp
qed

lemma level_mono:
  assumes "level_ok ts bss" and "i < j" and "j < length bss"
  shows "tb_biggest (ts ! i) < tb_biggest (ts ! j)" and "tb_smallest (ts ! i) < tb_smallest (ts ! j)"
proof -
  have i: "i < length bss" using assms(2,3) by simp
  have le: "tb_smallest (ts ! k) \<le> tb_biggest (ts ! k)" if "k < length bss" for k
    using level_bounds [OF assms(1) that level_ends(1) [OF assms(1) that]] by (rule order_trans)
  show "tb_biggest (ts ! i) < tb_biggest (ts ! j)" "tb_smallest (ts ! i) < tb_smallest (ts ! j)"
    using level_tables_ordered [OF assms] le [OF i] le [OF assms(3)] by auto
qed

lemma example_level: "level_ok [example_table 1, example_table 2] [[[example_item 1]], [[example_item 2]]]"
  using example_table_ok
  by (simp add: level_ok_def) (simp add: example_table_def example_item_def)

lemma probe_biggest: "level_ok ts bss \<Longrightarrow> mono_probe (\<lambda>i. rcmp (tb_biggest (ts ! i)) k) (length ts)"
  by (rule mono_probe_sorted)
    (use level_mono(1) level_okD(2) in \<open>fastforce simp: sorted_wrt_iff_nth_less less_imp_le\<close>)

lemma probe_smallest: "level_ok ts bss \<Longrightarrow> mono_probe (\<lambda>i. rcmp (tb_smallest (ts ! i)) k) (length ts)"
  by (rule mono_probe_sorted)
    (use level_mono(2) level_okD(2) in \<open>fastforce simp: sorted_wrt_iff_nth_less less_imp_le\<close>)

lemma in_earlier_table:
  assumes "e \<in> set (concat (map concat (take i bss)))"
  shows "\<exists>j<i. j < length bss \<and> e \<in> set (concat (bss ! j))"
proof -
  obtain bs where bs: "bs \<in> set (take i bss)" "e \<in> set (concat bs)" using assms by auto
  then obtain j where "j < length (take i bss)" "take i bss ! j = bs" unfolding in_set_conv_nth by blast
  with bs(2) show ?thesis by (intro exI [of _ j]) simp
qed

lemma in_later_table:
  assumes "e \<in> set (concat (map concat (drop (Suc i) bss)))"
  shows "\<exists>j<length bss. i < j \<and> e \<in> set (concat (bss ! j))"
proof -
  obtain bs where bs: "bs \<in> set (drop (Suc i) bss)" "e \<in> set (concat bs)" using assms by auto
  then obtain j where "j < length (drop (Suc i) bss)" "drop (Suc i) bss ! j = bs" unfolding in_set_conv_nth by blast
  with bs(2) show ?thesis by (intro exI [of _ "Suc i + j"]) simp
qed

text \<open>The table that answers a search, seen from the list of all pairs.\<close>

lemma find_in_table:
  assumes ok: "level_ok ts bss" and i: "i < length bss" and k: "k \<le> tb_biggest (ts ! i)"
    and before: "\<forall>j<i. tb_biggest (ts ! j) < k"
  shows "find (\<lambda>e. k \<le> fst e) (concat (map concat bss)) = find (\<lambda>e. k \<le> fst e) (concat (bss ! i))"
proof -
  have "\<not> k \<le> fst e" if "e \<in> set (concat (map concat (take i bss)))" for e
    using in_earlier_table [OF that] level_bounds(2) [OF ok] before by (meson leD le_less_trans)
  then have "find (\<lambda>e. k \<le> fst e) (concat (map concat (take i bss))) = None" unfolding find_None_iff by blast
  moreover have "find (\<lambda>e. k \<le> fst e) (concat (bss ! i)) \<noteq> None"
    using level_ends(2) [OF ok i] level_okD(6) [OF ok i] k unfolding find_None_iff by metis
  ultimately show ?thesis unfolding level_concat_split [OF i] by (auto simp: find_append split: option.split)
qed

lemma find_last_in_table:
  assumes ok: "level_ok ts bss" and i: "i < length bss" and k: "tb_smallest (ts ! i) \<le> k"
    and after: "\<forall>j<length bss. i < j \<longrightarrow> k < tb_smallest (ts ! j)"
  shows "find_last (\<lambda>e. fst e \<le> k) (concat (map concat bss)) = find_last (\<lambda>e. fst e \<le> k) (concat (bss ! i))"
proof -
  have "\<not> fst e \<le> k" if "e \<in> set (concat (map concat (drop (Suc i) bss)))" for e
    using in_later_table [OF that] level_bounds(1) [OF ok] after by (meson leD less_le_trans)
  then have "find_last (\<lambda>e. fst e \<le> k) (concat (map concat (drop (Suc i) bss))) = None"
    unfolding find_last_def find_None_iff set_rev by blast
  moreover have "find_last (\<lambda>e. fst e \<le> k) (concat (bss ! i)) \<noteq> None"
    using level_ends(1) [OF ok i] level_okD(5) [OF ok i] k
    unfolding find_last_def find_None_iff set_rev by metis
  ultimately show ?thesis unfolding level_concat_split [OF i] by (auto simp: find_last_append split: option.split)
qed

lemma find_no_table:
  assumes ok: "level_ok ts bss"
  shows "\<forall>j<length bss. tb_biggest (ts ! j) < k \<Longrightarrow> find (\<lambda>e. k \<le> fst e) (concat (map concat bss)) = None"
    and "\<forall>j<length bss. k < tb_smallest (ts ! j) \<Longrightarrow> find_last (\<lambda>e. fst e \<le> k) (concat (map concat bss)) = None"
proof -
  have mem: "\<exists>j<length bss. e \<in> set (concat (bss ! j))" if "e \<in> set (concat (map concat bss))" for e
    using in_earlier_table [of e "length bss" bss] that by auto
  show "find (\<lambda>e. k \<le> fst e) (concat (map concat bss)) = None" if "\<forall>j<length bss. tb_biggest (ts ! j) < k"
    unfolding find_None_iff using mem level_bounds(2) [OF ok] that by (meson leD le_less_trans)
  show "find_last (\<lambda>e. fst e \<le> k) (concat (map concat bss)) = None" if "\<forall>j<length bss. k < tb_smallest (ts ! j)"
    unfolding find_last_def find_None_iff set_rev using mem level_bounds(1) [OF ok] that by (meson leD less_le_trans)
qed

lemma seek_from_find:
  assumes ok: "tbl_ok (ti_table it) bs"
  shows "\<exists>it'. seek_from it k Origin = Some (find (\<lambda>e. k \<le> fst e) (concat bs), it')"
proof -
  obtain r it' where s: "seek_from it k Origin = Some (r, it')" "seek_result it bs k r it'"
    using seek_from_result [OF ok] by blast
  have none: "find (\<lambda>e. k \<le> fst e) xs = None" if "\<forall>e\<in>set xs. fst e < k" for xs :: "item list"
    using that by (auto simp: find_None_iff not_le)
  from s(2) consider j i where "seek_found bs k j i" "r = Some (bs ! j ! i)"
    | "\<forall>e\<in>set (concat bs). fst e < k" "r = None"
    unfolding seek_result_def by blast
  then have "r = find (\<lambda>e. k \<le> fst e) (concat bs)"
  proof cases
    case 1
    then show ?thesis unfolding seek_found_split [OF 1(1)] using none
      by (auto simp: find_append seek_found_def)
  next
    case 2
    then show ?thesis using none by simp
  qed
  with s(1) show ?thesis by blast
qed

lemma ci_new_cur:
  assumes "i < length ts"
  shows "ci_get_cur (ci_set_idx (ci_new ts rv) (int i)) = Some (ti_new (ts ! i) rv)"
  using assms by (simp add: ci_get_cur_def ci_set_idx_def ci_new_def)

lemma ti_new_table: "tbl_ok t bs \<Longrightarrow> tbl_ok (ti_table (ti_new t rv)) bs"
  using tbl_ok_cong [of "tb_incr_ref t" t bs] by (simp add: ti_new_def ti_reset_def tb_incr_ref_def)

lemma ci_seek_cases:
  assumes "ts \<noteq> []"
  shows "ci_seek (ci_new ts False) k =
      (case binary_search_by ts (\<lambda>tb. rcmp (tb_biggest tb) k) of
         Inr i \<Rightarrow> ci_on_cur (ci_set_idx (ci_new ts False) (int i)) (\<lambda>it. seek_from it k Origin)
       | Inl i \<Rightarrow> if i < length ts then ci_on_cur (ci_set_idx (ci_new ts False) (int i)) (\<lambda>it. seek_from it k Origin)
                else Some (None, ci_set_idx (ci_new ts False) (-1)))"
    and "ci_seek (ci_new ts True) k =
      (case binary_search_by ts (\<lambda>tb. rcmp (tb_smallest tb) k) of
         Inr i \<Rightarrow> ci_on_cur (ci_set_idx (ci_new ts True) (int i)) (\<lambda>it. seek_from it k Origin)
       | Inl i \<Rightarrow> if i = 0 then Some (None, ci_set_idx (ci_new ts True) (-1))
                else ci_on_cur (ci_set_idx (ci_new ts True) (int (i - 1))) (\<lambda>it. seek_for_prev it k))"
proof -
  have c: "ci_iters (ci_new ts rv) \<noteq> []" "ci_reversed (ci_new ts rv) = rv" "ci_tables (ci_new ts rv) = ts" for rv
    using assms by (simp_all add: ci_new_def)
  show "ci_seek (ci_new ts False) k =
      (case binary_search_by ts (\<lambda>tb. rcmp (tb_biggest tb) k) of
         Inr i \<Rightarrow> ci_on_cur (ci_set_idx (ci_new ts False) (int i)) (\<lambda>it. seek_from it k Origin)
       | Inl i \<Rightarrow> if i < length ts then ci_on_cur (ci_set_idx (ci_new ts False) (int i)) (\<lambda>it. seek_from it k Origin)
                else Some (None, ci_set_idx (ci_new ts False) (-1)))"
    and "ci_seek (ci_new ts True) k =
      (case binary_search_by ts (\<lambda>tb. rcmp (tb_smallest tb) k) of
         Inr i \<Rightarrow> ci_on_cur (ci_set_idx (ci_new ts True) (int i)) (\<lambda>it. seek_from it k Origin)
       | Inl i \<Rightarrow> if i = 0 then Some (None, ci_set_idx (ci_new ts True) (-1))
                else ci_on_cur (ci_set_idx (ci_new ts True) (int (i - 1))) (\<lambda>it. seek_for_prev it k))"
    by (simp_all add: ci_seek_def c cong: sum.case_cong)
qed

lemma on_new_cur:
  assumes "i < length ts" and "f (ti_new (ts ! i) rv) = Some (r, it)"
  shows "\<exists>c. ci_on_cur (ci_set_idx (ci_new ts rv) (int i)) f = Some (r, c)"
  using assms ci_new_cur [OF assms(1), of rv] by (simp add: ci_on_cur_def)

lemma seek_forward:
  assumes ok: "level_ok ts bss" and ts: "ts \<noteq> []"
  shows "\<exists>c. ci_seek (ci_new ts False) k = Some (find (\<lambda>e. k \<le> fst e) (concat (map concat bss)), c)"
proof -
  note len = level_okD(2) [OF ok]
  have hit: "\<exists>c. ci_on_cur (ci_set_idx (ci_new ts False) (int i)) (\<lambda>it. seek_from it k Origin)
      = Some (find (\<lambda>e. k \<le> fst e) (concat (map concat bss)), c)"
    if "i < length bss" "k \<le> tb_biggest (ts ! i)" "\<forall>j<i. tb_biggest (ts ! j) < k" for i
    using on_new_cur [of i ts "\<lambda>it. seek_from it k Origin" False] that(1) len find_in_table [OF ok that]
      seek_from_find [OF ti_new_table [OF level_okD(4) [OF ok that(1)], of False]] by metis
  show ?thesis
  proof (cases "binary_search_by ts (\<lambda>tb. rcmp (tb_biggest tb) k)")
    case (Inr i)
    note i = binary_search_Ok [OF probe_biggest [OF ok] Inr]
    then show ?thesis
      using hit [of i] Inr ci_seek_cases(1) [OF ts, of k] level_mono(1) [OF ok, of _ i] len by auto
  next
    case (Inl i)
    note i = binary_search_Err [OF probe_biggest [OF ok] Inl]
    then show ?thesis
      using hit [of i] Inl ci_seek_cases(1) [OF ts, of k] len find_no_table(1) [OF ok, of k]
      by (cases "i < length ts") (auto simp: less_imp_le)
  qed
qed

lemma seek_backward:
  assumes ok: "level_ok ts bss" and ts: "ts \<noteq> []"
  shows "\<exists>c. ci_seek (ci_new ts True) k = Some (find_last (\<lambda>e. fst e \<le> k) (concat (map concat bss)), c)"
proof (cases "binary_search_by ts (\<lambda>tb. rcmp (tb_smallest tb) k)")
  case (Inr i)
  note len = level_okD(2) [OF ok]
  note i = binary_search_Ok [OF probe_smallest [OF ok] Inr]
  then have i': "i < length bss" "tb_smallest (ts ! i) = k" using len by auto
  obtain x xs where x: "concat (bss ! i) = x # xs" using level_ends(1) [OF ok i'(1)] by (cases "concat (bss ! i)") auto
  have s: "strictly_sorted (map fst (x # xs))"
    using level_okD(3) [OF ok] level_concat_split [OF i'(1)] x by (simp add: sorted_wrt_append)
  have k: "fst x = k" using level_okD(5) [OF ok i'(1)] i'(2) x by simp
  have "find (\<lambda>e. fst e \<le> k) (rev xs) = None" unfolding find_None_iff using s k by auto
  then have "find_last (\<lambda>e. fst e \<le> k) (x # xs) = Some x" using k by (simp add: find_last_def find_append)
  then have "find_last (\<lambda>e. fst e \<le> k) (concat (map concat bss)) = find (\<lambda>e. k \<le> fst e) (concat (bss ! i))"
    using find_last_in_table [OF ok i'(1)] level_mono(2) [OF ok, of i] i'(2) x k by simp
  then show ?thesis
    using on_new_cur [of i ts "\<lambda>it. seek_from it k Origin" True] i(1) Inr ci_seek_cases(2) [OF ts, of k]
      seek_from_find [OF ti_new_table [OF level_okD(4) [OF ok i'(1)], of True], of k] by auto
next
  case (Inl i)
  note len = level_okD(2) [OF ok]
  note i = binary_search_Err [OF probe_smallest [OF ok] Inl]
  show ?thesis
  proof (cases i)
    case 0
    then show ?thesis using Inl ci_seek_cases(2) [OF ts, of k] i(3) find_no_table(2) [OF ok, of k] len by auto
  next
    case (Suc p)
    then have p: "p < length bss" "tb_smallest (ts ! p) \<le> k" "\<forall>j<length bss. p < j \<longrightarrow> k < tb_smallest (ts ! j)"
      using i len by (auto simp: less_imp_le)
    obtain it where "ti_seek (ti_new (ts ! p) True) k = Some (find_last (\<lambda>e. fst e \<le> k) (concat (bss ! p)), it)"
      using ti_seek_new [OF level_okD(4) [OF ok p(1)], of True k] by auto
    moreover have "ti_reversed (ti_new (ts ! p) True)" by (simp add: ti_new_def ti_reset_def)
    ultimately show ?thesis
      using on_new_cur [of p ts "\<lambda>it. seek_for_prev it k" True] p(1) len Inl Suc ci_seek_cases(2) [OF ts, of k]
        find_last_in_table [OF ok p] by (auto simp: ti_seek_def)
  qed
qed

text \<open>
  C27. Seeking in a level. Over sorted, disjoint, well-formed tables that know their bounds,
  \<open>ConcatIterator::seek\<close> picks the right table by binary search: it answers the first pair at or
  after the key among all tables, reversed the last pair at or before it, and \<open>None\<close> exactly when
  there is none.
\<close>

theorem concat_seek_finds:
  assumes "level_ok ts bss"
  shows "\<exists>c. ci_seek (ci_new ts rv) k =
    Some (if rv then find_last (\<lambda>e. fst e \<le> k) (concat (map concat bss))
          else find (\<lambda>e. k \<le> fst e) (concat (map concat bss)), c)"
proof (cases "ts = []")
  case True
  then show ?thesis using level_okD(2) [OF assms] by (simp add: ci_seek_def ci_new_def)
next
  case False
  show ?thesis using seek_forward [OF assms False] seek_backward [OF assms False] by (cases rv) auto
qed

text \<open>Non-vacuity of C27.\<close>

theorem concat_seek_finds_witness:
  "\<exists>c. ci_seek (ci_new [example_table 1, example_table 2] False) [2] = Some (Some (example_item 2), c)"
  using concat_seek_finds [OF example_level, of False "[2]"] by (simp add: example_item_def)

lemma hd_opt_dropWhile: "hd_opt (dropWhile P xs) = Some x \<Longrightarrow> x \<in> set xs"
  using set_dropWhileD [of x P xs] by (cases "dropWhile P xs") auto

text \<open>A successful forward seek: the iterator of one table moves, all others stay fresh.\<close>

lemma seek_state:
  assumes ok: "list_all2 tbl_ok ts bss" and seek: "ci_seek (ci_new ts False) k = Some (Some x, c)"
  shows "\<exists>i r. i < length bss \<and> x \<in> set (concat (bss ! i)) \<and> ci_at False c (map concat bss) ((map concat bss)[i := r])"
proof -
  let ?c = "ci_new ts False"
  have "ts \<noteq> []" using seek by (auto simp: ci_seek_def ci_new_def)
  then obtain i where i: "ci_on_cur (ci_set_idx ?c (int i)) (\<lambda>it. seek_from it k Origin) = Some (Some x, c)"
    using seek by (auto simp: ci_seek_cases(1) split: sum.splits if_splits)
  have at: "ci_at False (ci_set_idx ?c (int i)) (map concat bss) (map concat bss)"
    using ci_new_at [OF ok, of False] by (simp add: in_dir_def)
  have len: "length ts = length bss" using ok by (rule list_all2_lengthD)
  from i have il: "i < length bss"
    using len by (auto simp: ci_on_cur_def ci_get_cur_def ci_new_def ci_set_idx_def split: if_splits)
  then obtain cur where cur: "ti_at False (ti_new (ts ! i) False) (concat (bss ! i)) cur (concat (bss ! i))"
    using at len by (auto simp: ci_at_def ci_set_idx_def ci_new_def)
  obtain it r where it: "ti_seek (ti_new (ts ! i) False) k = Some (hd_opt (dropWhile (\<lambda>i. dir_skips False k (fst i)) (concat (bss ! i))), it)"
    "ti_at False it (concat (bss ! i)) (hd_opt (dropWhile (\<lambda>i. dir_skips False k (fst i)) (concat (bss ! i)))) r"
    using ti_seek_at [OF cur, of k] by blast
  have "ti_seek (ti_new (ts ! i) False) k = seek_from (ti_new (ts ! i) False) k Origin"
    by (simp add: ti_seek_def ti_new_def ti_reset_def)
  with i it(1) ci_new_cur [of i ts False] il len
  have x: "Some x = hd_opt (dropWhile (\<lambda>i. dir_skips False k (fst i)) (concat (bss ! i)))"
    and c: "c = (ci_set_idx ?c (int i))\<lparr>ci_iters := (ci_iters ?c)[i := it]\<rparr>"
    by (auto simp: ci_on_cur_def ci_set_idx_def)
  have "x \<in> set (concat (bss ! i))"
    using hd_opt_dropWhile [OF x [symmetric]] .
  moreover have "ci_at False c (map concat bss) ((map concat bss)[i := r])"
    unfolding c using ci_at_update [OF at, of i it] it(2) il by (simp add: ci_set_idx_def)
  ultimately show ?thesis using il by blast
qed

text \<open>
  C39. A loop that starts with \<open>seek\<close> is wrong: when a forward \<open>seek\<close> over well-formed tables finds
  its pair outside the first table, the following \<open>next\<close> does not go on from there but answers the
  very first pair of the first table, because \<open>init\<close> is never set.
\<close>

theorem concat_next_after_seek_restarts:
  assumes "list_all2 tbl_ok ts bss" and "ci_seek (ci_new ts False) k = Some (Some x, c)"
    and "x \<notin> set (concat (hd bss))"
  shows "\<exists>c'. ci_next c = Some (Some (hd (concat (hd bss))), c')"
proof -
  obtain i r where i: "i < length bss" "x \<in> set (concat (bss ! i))" "ci_at False c (map concat bss) ((map concat bss)[i := r])"
    using seek_state [OF assms(1,2)] by blast
  then obtain b bs j where b: "bss = b # bs" "i = Suc j"
    using assms(3) by (cases bss; cases i) auto
  have "concat b \<noteq> []" using assms(1) tbl_ok_items b(1) by (auto simp: list_all2_Cons2 simp del: concat_eq_Nil_conv)
  then have "hd_opt (concat (in_dir False ((map concat bss)[i := r]))) = Some (hd (concat (hd bss)))"
    using b by (cases "concat b") (simp_all add: in_dir_def)
  then show ?thesis using ci_next_at [OF i(3)] by auto
qed

text \<open>Non-vacuity of C39.\<close>

theorem concat_next_after_seek_restarts_witness:
  "\<exists>c c'. ci_seek (ci_new [example_table 1, example_table 2] False) [2] = Some (Some (example_item 2), c)
    \<and> ci_next c = Some (Some (example_item 1), c')"
proof -
  obtain c where c: "ci_seek (ci_new [example_table 1, example_table 2] False) [2] = Some (Some (example_item 2), c)"
    using seek_forward [OF example_level, of "[2]"] by (auto simp: example_item_def)
  moreover have "example_item 2 \<notin> set (concat (hd [[[example_item 1]], [[example_item 2]]]))"
    by (simp add: example_item_def)
  ultimately show ?thesis
    using concat_next_after_seek_restarts [OF level_okD(1) [OF example_level] c] by auto
qed

end
