(* ===== verification/Merge_Iterator.thy ===== *)
theory Merge_Iterator
  imports Xiterator Table_Builder
begin

section \<open>Merging iterators\<close>

text \<open>
  Models \<open>src/src/y/merge_iterator.rs\<close>. The boxed trait objects \<open>Box<dyn Xiterator>\<close> are values of
  a type \<open>'it\<close> with a table of operations \<open>xops\<close>; the iterators the code boxes are the three
  cases of \<open>any_iter\<close> in theory \<open>Any_Iterator\<close>. \<open>BinaryHeap\<close> of the standard library is a list from which
  \<open>pop\<close> takes a greatest element in the order \<open>iter_ref_cmp\<close>. A failed assertion or index is
  \<open>None\<close>.
\<close>

definition BADGER_PREFIX :: bytes where
  "BADGER_PREFIX = [33, 98, 97, 100, 103, 101, 114, 33]"

definition starts_with :: "bytes \<Rightarrow> bytes \<Rightarrow> bool" where
  "starts_with k p = (take (length p) k = p)"

definition USIZE_MAX :: nat where "USIZE_MAX = 2 ^ 64 - 1"

record 'it xops =
  xo_next :: "'it \<Rightarrow> (item option \<times> 'it) option"
  xo_rewind :: "'it \<Rightarrow> (item option \<times> 'it) option"
  xo_seek :: "'it \<Rightarrow> bytes \<Rightarrow> (item option \<times> 'it) option"
  xo_peek :: "'it \<Rightarrow> item option option"

subsection \<open>MergeCursor and IterRef\<close>

record merge_cursor =
  mc_index :: nat
  mc_cur_item :: "item option"

definition mc_replace :: "nat \<Rightarrow> item option \<Rightarrow> merge_cursor option" where
  "mc_replace index cur_item =
     (case cur_item of
        Some i \<Rightarrow> if starts_with (fst i) BADGER_PREFIX then None
                  else Some \<lparr>mc_index = index, mc_cur_item = cur_item\<rparr>
      | None \<Rightarrow> Some \<lparr>mc_index = index, mc_cur_item = cur_item\<rparr>)"

record iter_ref =
  ir_index :: nat
  ir_key :: item
  ir_rev :: bool

definition iter_ref_cmp :: "iter_ref \<Rightarrow> iter_ref \<Rightarrow> ordering" where
  "iter_ref_cmp a b =
     (if \<not> ir_rev a then
        if fst (ir_key a) = fst (ir_key b) then rcmp (ir_index b) (ir_index a)
        else rcmp (fst (ir_key b)) (fst (ir_key a))
      else
        if fst (ir_key a) = fst (ir_key b) then rcmp (ir_index b) (ir_index a)
        else rcmp (fst (ir_key a)) (fst (ir_key b)))"

text \<open>\<open>BinaryHeap::peek\<close>: a greatest element.\<close>

fun heap_peek :: "iter_ref list \<Rightarrow> iter_ref option" where
  "heap_peek [] = None"
| "heap_peek (x # xs) =
     (case heap_peek xs of
        None \<Rightarrow> Some x
      | Some y \<Rightarrow> Some (if iter_ref_cmp x y = Less then y else x))"

subsection \<open>MergeIterator\<close>

record 'it merge_iterator =
  mi_reverse :: bool
  mi_itrs :: "'it list"
  mi_cursor :: merge_cursor
  mi_heap :: "iter_ref list"
  mi_heap_flag :: "bool list"

definition set_iter_empty :: "'it merge_iterator \<Rightarrow> 'it merge_iterator" where
  "set_iter_empty mi = mi\<lparr>mi_cursor := \<lparr>mc_index = 0, mc_cur_item = None\<rparr>\<rparr>"

definition merge_reset :: "'it merge_iterator \<Rightarrow> 'it merge_iterator option" where
  "merge_reset mi = do {
     cursor \<leftarrow> mc_replace USIZE_MAX None;
     Some (mi\<lparr>mi_cursor := cursor, mi_heap := [], mi_heap_flag := map (\<lambda>_. False) (mi_heap_flag mi)\<rparr>) }"

definition push_item_into_heap :: "nat \<Rightarrow> item \<Rightarrow> 'it merge_iterator \<Rightarrow> 'it merge_iterator option" where
  "push_item_into_heap index item mi =
     (if index < length (mi_heap_flag mi) then
        if mi_heap_flag mi ! index then Some mi
        else Some (mi\<lparr>mi_heap_flag := (mi_heap_flag mi)[index := True],
                      mi_heap := \<lparr>ir_index = index, ir_key = item, ir_rev = mi_reverse mi\<rparr> # mi_heap mi\<rparr>)
      else None)"

definition pop_item_from_heap :: "'it merge_iterator \<Rightarrow> (iter_ref option \<times> 'it merge_iterator) option" where
  "pop_item_from_heap mi =
     (case heap_peek (mi_heap mi) of
        None \<Rightarrow> Some (None, mi)
      | Some e \<Rightarrow>
          if ir_index e < length (mi_heap_flag mi)
          then Some (Some e, mi\<lparr>mi_heap := remove1 e (mi_heap mi),
                                mi_heap_flag := (mi_heap_flag mi)[ir_index e := False]\<rparr>)
          else None)"

text \<open>A call on one of the boxed iterators.\<close>

definition mi_call ::
  "('it \<Rightarrow> (item option \<times> 'it) option) \<Rightarrow> nat \<Rightarrow> 'it merge_iterator \<Rightarrow> (item option \<times> 'it merge_iterator) option" where
  "mi_call f index mi =
     (if index < length (mi_itrs mi) then do {
        (r, it) \<leftarrow> f (mi_itrs mi ! index);
        Some (r, mi\<lparr>mi_itrs := (mi_itrs mi)[index := it]\<rparr>) }
      else None)"

fun init_heap_by_indexes :: "'it xops \<Rightarrow> nat list \<Rightarrow> 'it merge_iterator \<Rightarrow> 'it merge_iterator option" where
  "init_heap_by_indexes ops [] mi = Some mi"
| "init_heap_by_indexes ops (index # stack) mi =
     (if index < length (mi_itrs mi) then do {
        item \<leftarrow> xo_peek ops (mi_itrs mi ! index);
        mi \<leftarrow> (case item of Some item \<Rightarrow> push_item_into_heap index item mi | None \<Rightarrow> Some mi);
        init_heap_by_indexes ops stack mi }
      else None)"

definition init_heap :: "'it xops \<Rightarrow> 'it merge_iterator \<Rightarrow> 'it merge_iterator option" where
  "init_heap ops mi = init_heap_by_indexes ops [0..<length (mi_itrs mi)] mi"

text \<open>The loop of \<open>_next\<close> that moves the other iterators past the same key.\<close>

partial_function (option) move_dump_keys ::
  "'it xops \<Rightarrow> iter_ref \<Rightarrow> 'it merge_iterator \<Rightarrow> nat list \<Rightarrow> ('it merge_iterator \<times> nat list) option" where
  "move_dump_keys ops first_el mi stack =
     (case heap_peek (mi_heap mi) of
        None \<Rightarrow> Some (mi, stack)
      | Some pop \<Rightarrow>
          if fst (ir_key pop) \<noteq> fst (ir_key first_el) then Some (mi, stack)
          else do {
            (_, mi) \<leftarrow> pop_item_from_heap mi;
            (_, mi) \<leftarrow> mi_call (xo_next ops) (ir_index pop) mi;
            move_dump_keys ops first_el mi (stack @ [ir_index pop]) })"

definition mi_peek :: "'it merge_iterator \<Rightarrow> item option" where
  "mi_peek mi = mc_cur_item (mi_cursor mi)"

type_synonym 'it mi_step = "(item option \<times> 'it merge_iterator) option"

definition merge_step :: "'it xops \<Rightarrow> 'it merge_iterator \<Rightarrow> 'it mi_step" where
  "merge_step ops mi =
     (if mi_heap mi = [] then Some (None, set_iter_empty mi)
      else do {
        (first_el, mi) \<leftarrow> pop_item_from_heap mi;
        (case first_el of
           None \<Rightarrow> Some (None, set_iter_empty mi)
         | Some first_el \<Rightarrow> do {
             cursor \<leftarrow> mc_replace (ir_index first_el) (Some (ir_key first_el));
             let mi = mi\<lparr>mi_cursor := cursor\<rparr>;
             (_, mi) \<leftarrow> mi_call (xo_next ops) (ir_index first_el) mi;
             (mi, stack) \<leftarrow> move_dump_keys ops first_el mi [ir_index first_el];
             mi \<leftarrow> init_heap_by_indexes ops stack mi;
             Some (mi_peek mi, mi) }) })"

definition merge_next :: "'it xops \<Rightarrow> 'it merge_iterator \<Rightarrow> 'it mi_step" where
  "merge_next ops mi =
     (if mi_itrs mi = [] then Some (None, set_iter_empty mi)
      else if mc_index (mi_cursor mi) = USIZE_MAX then None
      else merge_step ops mi)"

text \<open>\<open>rewind\<close>: the keys of the database itself at the front of an iterator are passed over.\<close>

partial_function (option) rewind_push ::
  "'it xops \<Rightarrow> nat \<Rightarrow> 'it merge_iterator \<Rightarrow> 'it merge_iterator option" where
  "rewind_push ops index mi = do {
     item \<leftarrow> xo_peek ops (mi_itrs mi ! index);
     (case item of
        None \<Rightarrow> Some mi
      | Some item \<Rightarrow>
          if starts_with (fst item) BADGER_PREFIX then do {
            (_, mi) \<leftarrow> mi_call (xo_next ops) index mi;
            rewind_push ops index mi }
          else push_item_into_heap index item mi) }"

fun rewind_itrs :: "'it xops \<Rightarrow> nat list \<Rightarrow> 'it merge_iterator \<Rightarrow> 'it merge_iterator option" where
  "rewind_itrs ops [] mi = Some mi"
| "rewind_itrs ops (index # is) mi = do {
     (r, mi) \<leftarrow> mi_call (xo_rewind ops) index mi;
     mi \<leftarrow> (case r of Some _ \<Rightarrow> rewind_push ops index mi | None \<Rightarrow> Some mi);
     rewind_itrs ops is mi }"

definition merge_rewind :: "'it xops \<Rightarrow> 'it merge_iterator \<Rightarrow> 'it mi_step" where
  "merge_rewind ops mi =
     (if mi_itrs mi = [] then Some (None, set_iter_empty mi)
      else do {
        mi \<leftarrow> merge_reset mi;
        mi \<leftarrow> rewind_itrs ops [0..<length (mi_itrs mi)] mi;
        merge_next ops (set_iter_empty mi) })"

fun seek_itrs :: "'it xops \<Rightarrow> bytes \<Rightarrow> nat list \<Rightarrow> 'it merge_iterator \<Rightarrow> 'it merge_iterator option" where
  "seek_itrs ops key [] mi = Some mi"
| "seek_itrs ops key (index # is) mi = do {
     (r, mi) \<leftarrow> mi_call (\<lambda>it. xo_seek ops it key) index mi;
     mi \<leftarrow> (case r of Some item \<Rightarrow> push_item_into_heap index item mi | None \<Rightarrow> Some mi);
     seek_itrs ops key is mi }"

definition merge_seek :: "'it xops \<Rightarrow> 'it merge_iterator \<Rightarrow> bytes \<Rightarrow> 'it mi_step" where
  "merge_seek ops mi key = do {
     mi \<leftarrow> merge_reset mi;
     mi \<leftarrow> seek_itrs ops key [0..<length (mi_itrs mi)] mi;
     merge_next ops (set_iter_empty mi) }"

subsection \<open>MergeIterOverBuilder\<close>

record 'it merge_builder =
  mb_all :: "'it list"
  mb_reverse :: bool

definition mb_default :: "'it merge_builder" where
  "mb_default = \<lparr>mb_all = [], mb_reverse = False\<rparr>"

definition mb_set_reverse :: "'it merge_builder \<Rightarrow> bool \<Rightarrow> 'it merge_builder" where
  "mb_set_reverse b rv = b\<lparr>mb_reverse := rv\<rparr>"

definition mb_add :: "'it merge_builder \<Rightarrow> 'it \<Rightarrow> 'it merge_builder" where
  "mb_add b x = b\<lparr>mb_all := mb_all b @ [x]\<rparr>"

definition mb_add_batch :: "'it merge_builder \<Rightarrow> 'it list \<Rightarrow> 'it merge_builder" where
  "mb_add_batch b iters = b\<lparr>mb_all := mb_all b @ iters\<rparr>"

definition mb_build :: "'it merge_builder \<Rightarrow> 'it merge_iterator" where
  "mb_build b =
     \<lparr>mi_reverse = mb_reverse b, mi_itrs = mb_all b, mi_cursor = \<lparr>mc_index = USIZE_MAX, mc_cur_item = None\<rparr>,
      mi_heap = [], mi_heap_flag = replicate (length (mb_all b)) False\<rparr>"

end
