(* ===== verification/Merge_Correct.thy ===== *)
theory Merge_Correct
  imports Merge_Iterator
begin

section \<open>The merge iterator merges\<close>

text \<open>
  The contract of \<open>MergeIterator\<close>, proved once for every kind of iterator that keeps the laws of
  \<open>xcursor\<close>. \<open>ps\<close> lists what each iterator still has to hand over, the item it stands on
  first; \<open>H\<close> is the set of the iterators whose item is in the heap.
\<close>

subsection \<open>The heap\<close>

definition dlt :: "bool \<Rightarrow> bytes \<Rightarrow> bytes \<Rightarrow> bool" where
  "dlt rv a b = (if rv then b < a else a < b)"

lemma dlt_simps [simp]: "\<not> dlt rv a a"
  by (simp add: dlt_def)

lemma dlt_trans: "dlt rv a b \<Longrightarrow> dlt rv b c \<Longrightarrow> dlt rv a c"
  by (auto simp: dlt_def split: if_splits)

lemma dlt_asym: "dlt rv a b \<Longrightarrow> \<not> dlt rv b a"
  by (auto simp: dlt_def split: if_splits)

lemma dlt_linear: "dlt rv a b \<or> a = b \<or> dlt rv b a"
  by (auto simp: dlt_def)

text \<open>\<open>wins\<close>: the order of the heap, the winner first.\<close>

definition wins :: "bool \<Rightarrow> bytes \<times> nat \<Rightarrow> bytes \<times> nat \<Rightarrow> bool" where
  "wins rv a b \<longleftrightarrow> dlt rv (fst a) (fst b) \<or> fst a = fst b \<and> snd a \<le> snd b"

lemma wins_trans: "wins rv a b \<Longrightarrow> wins rv b c \<Longrightarrow> wins rv a c"
  unfolding wins_def using dlt_trans by fastforce

lemma wins_linear: "wins rv a b \<or> wins rv b a"
  unfolding wins_def using dlt_linear [of rv "fst a" "fst b"] by auto

abbreviation ir_rank :: "iter_ref \<Rightarrow> bytes \<times> nat" where
  "ir_rank e \<equiv> (fst (ir_key e), ir_index e)"

lemma iter_ref_cmp_wins: "ir_rev a = rv \<Longrightarrow> iter_ref_cmp a b \<noteq> Less \<longleftrightarrow> wins rv (ir_rank a) (ir_rank b)"
  by (auto simp: iter_ref_cmp_def wins_def dlt_def not_less)

lemma heap_peek_wins:
  assumes "\<forall>e\<in>set h. ir_rev e = rv" and "h \<noteq> []"
  shows "\<exists>m\<in>set h. heap_peek h = Some m \<and> (\<forall>e\<in>set h. wins rv (ir_rank m) (ir_rank e))"
  using assms
proof (induction h)
  case (Cons x xs)
  show ?case
  proof (cases "xs = []")
    case True
    then show ?thesis by (simp add: wins_def)
  next
    case False
    then obtain m where m: "m \<in> set xs" "heap_peek xs = Some m" "\<forall>e\<in>set xs. wins rv (ir_rank m) (ir_rank e)"
      using Cons by auto
    show ?thesis
    proof (cases "iter_ref_cmp x m = Less")
      case True
      then have "wins rv (ir_rank m) (ir_rank x)"
        using Cons(2) iter_ref_cmp_wins [of x rv m] wins_linear [of rv "ir_rank x" "ir_rank m"] by auto
      with m True show ?thesis by auto
    next
      case False
      then have x: "wins rv (ir_rank x) (ir_rank m)" using Cons(2) iter_ref_cmp_wins [of x rv m] by simp
      then have "\<forall>e\<in>set xs. wins rv (ir_rank x) (ir_rank e)" using m(3) wins_trans by blast
      moreover have "wins rv (ir_rank x) (ir_rank x)" by (simp add: wins_def)
      ultimately show ?thesis using m(2) False by auto
    qed
  qed
qed simp

subsection \<open>States\<close>

definition pend :: "item option \<Rightarrow> item list \<Rightarrow> item list" where
  "pend cur rest = (case cur of None \<Rightarrow> [] | Some x \<Rightarrow> x # rest)"

lemma pend_simps [simp]: "pend None r = []" "pend (Some x) r = x # r"
  by (simp_all add: pend_def)

definition entry :: "bool \<Rightarrow> item list list \<Rightarrow> nat \<Rightarrow> iter_ref" where
  "entry rv ps i = \<lparr>ir_index = i, ir_key = hd (ps ! i), ir_rev = rv\<rparr>"

lemma entry_sel [simp]: "ir_index (entry rv ps i) = i" "ir_key (entry rv ps i) = hd (ps ! i)" "ir_rev (entry rv ps i) = rv"
  by (simp_all add: entry_def)

lemma inj_entry: "entry rv ps i = entry rv ps j \<longleftrightarrow> i = j"
  by (metis entry_sel(1))

definition waiting :: "item list list \<Rightarrow> nat set" where
  "waiting ps = {i. i < length ps \<and> ps ! i \<noteq> []}"

text \<open>The next state of the lists when the key \<open>k\<close> is handed over.\<close>

definition drop_key :: "bytes \<Rightarrow> item list \<Rightarrow> item list" where
  "drop_key k p = (if p \<noteq> [] \<and> fst (hd p) = k then tl p else p)"

text \<open>
  What a merge hands over: the keys of all lists once, in direction, each with the value of the
  first list that has it (\<open>map_of\<close> of the concatenation).
\<close>

definition merges :: "bool \<Rightarrow> item list list \<Rightarrow> item list \<Rightarrow> bool" where
  "merges rv ps out \<longleftrightarrow> sorted_wrt (dlt rv) (map fst out) \<and> map_of out = map_of (concat ps)"

lemma waiting_empty: "waiting ps = {} \<Longrightarrow> concat ps = []"
  by (auto simp: waiting_def in_set_conv_nth)

lemma drop_key_sorted: "sorted_wrt (dlt rv) (map fst p) \<Longrightarrow> sorted_wrt (dlt rv) (map fst (drop_key k p))"
  by (cases p) (auto simp: drop_key_def)

lemma map_of_drop_key: "k' \<noteq> k \<Longrightarrow> map_of (concat (map (drop_key k) ps)) k' = map_of (concat ps) k'"
proof (induction ps)
  case (Cons p ps)
  then have "map_of (drop_key k p) k' = map_of p k'" by (cases p) (auto simp: drop_key_def)
  with Cons show ?case by (simp add: map_add_def split: option.split)
qed simp

text \<open>All that is left after the winner lies behind its key.\<close>

lemma behind_winner:
  assumes i: "i \<in> waiting ps" "\<forall>j\<in>waiting ps. wins rv (fst (hd (ps ! i)), i) (fst (hd (ps ! j)), j)"
    and sorted: "\<forall>p\<in>set ps. sorted_wrt (dlt rv) (map fst p)"
    and j: "j < length ps" and e: "e \<in> set (ps ! j)"
  shows "dlt rv (fst (hd (ps ! i))) (fst e) \<or> e = hd (ps ! j) \<and> fst e = fst (hd (ps ! i)) \<and> i \<le> j"
proof -
  obtain x xs where x: "ps ! j = x # xs" using e by (cases "ps ! j") auto
  then have "j \<in> waiting ps" using j by (simp add: waiting_def)
  then have w: "dlt rv (fst (hd (ps ! i))) (fst x) \<or> fst (hd (ps ! i)) = fst x \<and> i \<le> j"
    using i(2) x by (auto simp: wins_def)
  have "sorted_wrt (dlt rv) (map fst (x # xs))" using sorted j x by (metis nth_mem)
  then have "e = x \<or> dlt rv (fst x) (fst e)" using e x by auto
  with w x show ?thesis using dlt_trans by auto
qed

lemma merges_step:
  assumes i: "i \<in> waiting ps" "\<forall>j\<in>waiting ps. wins rv (fst (hd (ps ! i)), i) (fst (hd (ps ! j)), j)"
    and sorted: "\<forall>p\<in>set ps. sorted_wrt (dlt rv) (map fst p)"
    and out: "merges rv (map (drop_key (fst (hd (ps ! i)))) ps) out"
  shows "merges rv ps (hd (ps ! i) # out)"
proof -
  let ?k = "fst (hd (ps ! i))"
  note behind = behind_winner [OF i sorted]
  have il: "i < length ps" "ps ! i \<noteq> []" using i(1) by (auto simp: waiting_def)
  have "dlt rv ?k (fst e)" if "e \<in> set out" for e
  proof -
    have "fst e \<in> dom (map_of out)" using that by (simp add: dom_map_of_conv_image_fst)
    then have "fst e \<in> fst ` set (concat (map (drop_key ?k) ps))"
      using out unfolding merges_def by (metis dom_map_of_conv_image_fst)
    then obtain e' where "e' \<in> set (concat (map (drop_key ?k) ps))" "fst e' = fst e" by (elim imageE) simp
    then obtain p where "p \<in> set ps" "e' \<in> set (drop_key ?k p)" by auto
    then obtain j where j: "j < length ps" "e' \<in> set (drop_key ?k (ps ! j))" by (metis in_set_conv_nth)
    have "sorted_wrt (dlt rv) (map fst (ps ! j))" using sorted j(1) by simp
    then show ?thesis using behind [OF j(1), of e'] j(2) \<open>fst e' = fst e\<close>
      by (cases "ps ! j") (auto simp: drop_key_def split: if_splits)
  qed
  moreover have "map_of (concat ps) ?k = Some (snd (hd (ps ! i)))"
  proof -
    have "?k \<notin> fst ` set (concat (take i ps))"
    proof
      assume "?k \<in> fst ` set (concat (take i ps))"
      then obtain e p where e: "e \<in> set p" "p \<in> set (take i ps)" "fst e = ?k" by auto
      then obtain j where "j < i" "j < length ps" "ps ! j = p" by (auto simp: in_set_conv_nth)
      with behind [of j e] e show False by auto
    qed
    then have "map_of (concat (take i ps)) ?k = None" by (simp add: map_of_eq_None_iff)
    moreover have "concat ps = concat (take i ps) @ hd (ps ! i) # tl (ps ! i) @ concat (drop (Suc i) ps)"
      using id_take_nth_drop [OF il(1)] il(2) by (metis append.assoc append_Cons concat.simps(2) concat_append list.collapse)
    ultimately show ?thesis by (simp add: map_add_def)
  qed
  moreover have "map_of (hd (ps ! i) # out) k' = map_of (concat ps) k'" if "k' \<noteq> ?k" for k'
    using out map_of_drop_key [OF that] that by (simp add: merges_def)
  ultimately show ?thesis using out by (auto simp: merges_def fun_eq_iff)
qed

subsection \<open>Keys of the database itself\<close>

text \<open>
  \<open>rewind\<close> passes over the keys with the prefix \<open>!badger!\<close> that stand at the front of a source, and leaves them out of
  the merge. \<open>internal_first p\<close>: all such keys of the source \<open>p\<close> stand there.
\<close>

abbreviation internal :: "item \<Rightarrow> bool" where
  "internal e \<equiv> starts_with (fst e) BADGER_PREFIX"

definition user_items :: "item list \<Rightarrow> item list" where
  "user_items p = filter (\<lambda>e. \<not> internal e) p"

definition internal_first :: "item list \<Rightarrow> bool" where
  "internal_first p \<longleftrightarrow> dropWhile internal p = user_items p"

lemma internal_firstI: "\<forall>e\<in>set p. \<not> internal e \<Longrightarrow> internal_first p"
  by (simp add: internal_first_def user_items_def dropWhile_eq_self_iff filter_True)

lemma user_items_simps [simp]:
  "user_items [] = []" "user_items (p @ q) = user_items p @ user_items q" "set (user_items p) = {e \<in> set p. \<not> internal e}"
  by (simp_all add: user_items_def)

lemma user_items_id: "\<forall>e\<in>set p. \<not> internal e \<Longrightarrow> user_items p = p"
  by (simp add: user_items_def)

lemma user_items_concat: "user_items (concat ps) = concat (map user_items ps)"
  by (simp add: user_items_def [abs_def] filter_concat)

lemma user_items_sorted: "sorted_wrt R (map fst p) \<Longrightarrow> sorted_wrt R (map fst (user_items p))"
  by (simp add: user_items_def sorted_wrt_map sorted_wrt_filter)

lemma map_of_user_items: "map_of (user_items p) k = (if starts_with k BADGER_PREFIX then None else map_of p k)"
  by (induction p) (auto simp: user_items_def)

lemma length_user_items: "length (user_items p) \<le> length p"
  by (simp add: user_items_def)

locale merge_source = xcursor at_pos "xo_next ops" "xo_rewind ops" "xo_peek ops"
  for at_pos :: "'it \<Rightarrow> item list \<Rightarrow> item option \<Rightarrow> item list \<Rightarrow> bool" and ops :: "'it xops" +
  assumes rewind_empty_law: "at_pos it [] cur rest \<Longrightarrow> \<exists>it'. xo_rewind ops it = Some (None, it') \<and> at_pos it' [] None []"
begin

definition mi_at :: "bool \<Rightarrow> 'it merge_iterator \<Rightarrow> item list list \<Rightarrow> item list list \<Rightarrow> nat set \<Rightarrow> bool" where
  "mi_at rv mi alls ps H \<longleftrightarrow> mi_reverse mi = rv \<and> length (mi_itrs mi) = length ps \<and> length ps < USIZE_MAX
     \<and> length (mi_heap_flag mi) = length ps
     \<and> length alls = length ps
     \<and> (\<forall>i<length ps. \<exists>cur rest. at_pos (mi_itrs mi ! i) (alls ! i) cur rest \<and> ps ! i = pend cur rest)
     \<and> distinct (mi_heap mi) \<and> set (mi_heap mi) = entry rv ps ` H \<and> H \<subseteq> waiting ps
     \<and> (\<forall>i<length ps. mi_heap_flag mi ! i \<longleftrightarrow> i \<in> H)"

lemma mi_at_cursor [simp]: "mi_at rv (mi\<lparr>mi_cursor := c\<rparr>) alls ps H = mi_at rv mi alls ps H"
  by (simp add: mi_at_def)

lemma pop_at:
  assumes at: "mi_at rv mi alls ps H" and "H \<noteq> {}"
  shows "\<exists>i\<in>H. heap_peek (mi_heap mi) = Some (entry rv ps i)
    \<and> (\<forall>j\<in>H. wins rv (fst (hd (ps ! i)), i) (fst (hd (ps ! j)), j))
    \<and> pop_item_from_heap mi = Some (Some (entry rv ps i), mi\<lparr>mi_heap := remove1 (entry rv ps i) (mi_heap mi),
        mi_heap_flag := (mi_heap_flag mi)[i := False]\<rparr>)
    \<and> mi_at rv (mi\<lparr>mi_heap := remove1 (entry rv ps i) (mi_heap mi), mi_heap_flag := (mi_heap_flag mi)[i := False]\<rparr>) alls ps (H - {i})"
proof -
  have h: "set (mi_heap mi) = entry rv ps ` H" "distinct (mi_heap mi)" "H \<subseteq> waiting ps"
    "length (mi_heap_flag mi) = length ps"
    using at by (auto simp: mi_at_def)
  then have "\<forall>e\<in>set (mi_heap mi). ir_rev e = rv" "mi_heap mi \<noteq> []" using assms(2) by auto
  from heap_peek_wins [OF this] obtain i where i: "i \<in> H" "heap_peek (mi_heap mi) = Some (entry rv ps i)"
    "\<forall>j\<in>H. wins rv (fst (hd (ps ! i)), i) (fst (hd (ps ! j)), j)"
    unfolding h(1) by auto
  have il: "i < length ps" using i(1) h(3) by (auto simp: waiting_def)
  have "mi_at rv (mi\<lparr>mi_heap := remove1 (entry rv ps i) (mi_heap mi), mi_heap_flag := (mi_heap_flag mi)[i := False]\<rparr>) alls ps (H - {i})"
    using at il h(1) inj_entry by (auto simp: mi_at_def nth_list_update)
  with i il h(4) show ?thesis by (intro bexI [of _ i]) (auto simp: pop_item_from_heap_def)
qed

text \<open>An iterator outside the heap may move.\<close>

lemma itr_at:
  assumes at: "mi_at rv mi alls ps H" and i: "i < length ps" "i \<notin> H" and pos: "at_pos it' (alls ! i) cur rest"
  shows "mi_at rv (mi\<lparr>mi_itrs := (mi_itrs mi)[i := it']\<rparr>) alls (ps[i := pend cur rest]) H"
proof -
  let ?ps = "ps[i := pend cur rest]"
  have same: "?ps ! j = ps ! j" if "j \<in> H" for j using i(2) that by (metis nth_list_update_neq)
  have "H \<subseteq> waiting ps" using at by (simp add: mi_at_def)
  then have "H \<subseteq> waiting ?ps" using same by (auto simp: waiting_def)
  moreover have "entry rv ?ps ` H = entry rv ps ` H" using same by (simp add: entry_def)
  moreover have "\<exists>cur' rest'. at_pos ((mi_itrs mi)[i := it'] ! j) (alls ! j) cur' rest' \<and> ?ps ! j = pend cur' rest'"
    if "j < length ps" for j
    using at pos that by (cases "j = i") (auto simp: mi_at_def)
  ultimately show ?thesis using at by (simp add: mi_at_def)
qed

lemma itr_pos:
  assumes "mi_at rv mi alls ps H" and "i < length ps"
  obtains cur rest where "at_pos (mi_itrs mi ! i) (alls ! i) cur rest" "ps ! i = pend cur rest"
  using assms by (auto simp: mi_at_def)

lemma itr_next:
  assumes "at_pos it all cur rest"
  shows "\<exists>it'. xo_next ops it = Some (hd_opt rest, it') \<and> at_pos it' all (hd_opt rest) (tl rest)"
  using assms next_end_law [of it all cur] next_item_law [of it all cur "hd rest" "tl rest"] by (cases rest) auto

lemma call_next_at:
  assumes at: "mi_at rv mi alls ps H" and i: "i \<in> waiting ps" "i \<notin> H"
  shows "\<exists>r mi'. mi_call (xo_next ops) i mi = Some (r, mi') \<and> mi_at rv mi' alls (ps[i := tl (ps ! i)]) H
    \<and> mi_cursor mi' = mi_cursor mi"
proof -
  have il: "i < length ps" "ps ! i \<noteq> []" "length (mi_itrs mi) = length ps"
    using i(1) at by (auto simp: waiting_def mi_at_def)
  obtain cur rest where p: "at_pos (mi_itrs mi ! i) (alls ! i) cur rest" "ps ! i = pend cur rest"
    using itr_pos [OF at il(1)] .
  then have "tl (ps ! i) = pend (hd_opt rest) (tl rest)" using il(2) by (cases cur; cases rest) auto
  then show ?thesis using itr_next [OF p(1)] itr_at [OF at il(1) i(2)] il by (fastforce simp: mi_call_def)
qed

lemma push_at:
  assumes at: "mi_at rv mi alls ps H" and i: "i \<in> waiting ps"
  shows "\<exists>mi'. push_item_into_heap i (hd (ps ! i)) mi = Some mi' \<and> mi_at rv mi' alls ps (insert i H)
    \<and> mi_cursor mi' = mi_cursor mi"
proof (cases "i \<in> H")
  case True
  then show ?thesis using at i by (auto simp: push_item_into_heap_def mi_at_def waiting_def insert_absorb)
next
  case False
  have il: "i < length ps" using i by (simp add: waiting_def)
  have "entry rv ps i \<notin> set (mi_heap mi)" using at False inj_entry by (auto simp: mi_at_def)
  then show ?thesis using at i il False
    by (auto simp: push_item_into_heap_def mi_at_def nth_list_update entry_def)
qed

lemma peek_at: "mi_at rv mi alls ps H \<Longrightarrow> i < length ps \<Longrightarrow> xo_peek ops (mi_itrs mi ! i) = Some (hd_opt (ps ! i))"
  unfolding mi_at_def using peek_law by (metis (no_types) hd_opt_simps option.exhaust pend_simps)

lemma waiting_finite: "finite (waiting ps)"
  by (simp add: waiting_def)

text \<open>The loop over equal keys takes exactly the heap entries with the key \<open>k\<close>.\<close>

definition dropped :: "item list list \<Rightarrow> nat set \<Rightarrow> bytes \<Rightarrow> item list list \<Rightarrow> bool" where
  "dropped ps H k ps' \<longleftrightarrow> length ps' = length ps
     \<and> (\<forall>i<length ps. ps' ! i = (if i \<in> H \<and> fst (hd (ps ! i)) = k then tl (ps ! i) else ps ! i))"

lemma dump_stop:
  assumes "i \<in> H" and "\<forall>j\<in>H. wins rv (fst (hd (ps ! i)), i) (fst (hd (ps ! j)), j)"
    and "\<forall>j\<in>H. \<not> dlt rv (fst (hd (ps ! j))) k" and "fst (hd (ps ! i)) \<noteq> k"
  shows "{j \<in> H. fst (hd (ps ! j)) = k} = {}"
proof -
  have "dlt rv k (fst (hd (ps ! i)))" using assms(1,3,4) dlt_linear by metis
  then show ?thesis using assms(2,4) dlt_asym by (fastforce simp: wins_def)
qed

lemma move_dump_at:
  assumes "mi_at rv mi alls ps H" and "\<forall>i\<in>H. \<not> dlt rv (fst (hd (ps ! i))) (fst (ir_key f))"
  shows "\<exists>mi' js ps'. move_dump_keys ops f mi st = Some (mi', st @ js)
    \<and> set js = {i \<in> H. fst (hd (ps ! i)) = fst (ir_key f)}
    \<and> mi_at rv mi' alls ps' (H - {i. fst (hd (ps ! i)) = fst (ir_key f)}) \<and> mi_cursor mi' = mi_cursor mi
    \<and> dropped ps H (fst (ir_key f)) ps'"
  using assms
proof (induction "card H" arbitrary: H mi ps st rule: less_induct)
  case less
  let ?k = "fst (ir_key f)"
  have fin: "finite H" using less(2) waiting_finite finite_subset by (auto simp: mi_at_def)
  show ?case
  proof (cases "H = {}")
    case True
    then have "mi_heap mi = []" using less(2) by (simp add: mi_at_def)
    then have "move_dump_keys ops f mi st = Some (mi, st @ [])" by (subst move_dump_keys.simps) simp
    then show ?thesis using less(2) True by (intro exI [of _ mi] exI [of _ "[]"] exI [of _ ps]) (auto simp: dropped_def)
  next
    case False
    then obtain i where i: "i \<in> H" "heap_peek (mi_heap mi) = Some (entry rv ps i)"
      "\<forall>j\<in>H. wins rv (fst (hd (ps ! i)), i) (fst (hd (ps ! j)), j)"
      and pop: "\<exists>mi1. pop_item_from_heap mi = Some (Some (entry rv ps i), mi1) \<and> mi_at rv mi1 alls ps (H - {i})
        \<and> mi_cursor mi1 = mi_cursor mi"
      using pop_at [OF less(2) False] by fastforce
    show ?thesis
    proof (cases "fst (hd (ps ! i)) = ?k")
      case False
      then have "move_dump_keys ops f mi st = Some (mi, st @ [])" using i(2) by (subst move_dump_keys.simps) simp
      moreover have none: "{j \<in> H. fst (hd (ps ! j)) = ?k} = {}" using dump_stop [OF i(1,3) less(3) False] .
      moreover from none have "H - {i. fst (hd (ps ! i)) = ?k} = H" "dropped ps H ?k ps" by (auto simp: dropped_def)
      ultimately show ?thesis using less(2) by (intro exI [of _ mi] exI [of _ "[]"] exI [of _ ps]) simp
    next
      case True
      obtain mi1 where mi1: "pop_item_from_heap mi = Some (Some (entry rv ps i), mi1)" "mi_at rv mi1 alls ps (H - {i})"
        "mi_cursor mi1 = mi_cursor mi" using pop by blast
      have iw: "i \<in> waiting ps" using less(2) i(1) by (auto simp: mi_at_def)
      let ?ps = "ps[i := tl (ps ! i)]"
      obtain r mi2 where mi2: "mi_call (xo_next ops) i mi1 = Some (r, mi2)" "mi_at rv mi2 alls ?ps (H - {i})"
        "mi_cursor mi2 = mi_cursor mi1" using call_next_at [OF mi1(2) iw] by blast
      have same: "?ps ! j = ps ! j" if "j \<in> H - {i}" for j using that by auto
      have "card (H - {i}) < card H" using fin i(1) by (rule card_Diff1_less)
      moreover have "\<forall>j\<in>H - {i}. \<not> dlt rv (fst (hd (?ps ! j))) ?k" using less(3) same by auto
      ultimately obtain mi' js ps' where r: "move_dump_keys ops f mi2 (st @ [i]) = Some (mi', (st @ [i]) @ js)"
        "set js = {j \<in> H - {i}. fst (hd (?ps ! j)) = ?k}"
        "mi_at rv mi' alls ps' (H - {i} - {j. fst (hd (?ps ! j)) = ?k})" "mi_cursor mi' = mi_cursor mi2"
        "dropped ?ps (H - {i}) ?k ps'"
        using less(1) [OF _ mi2(2), of "st @ [i]"] by blast
      have "move_dump_keys ops f mi st = Some (mi', st @ (i # js))"
        using i(2) True mi1(1) mi2(1) r(1) by (subst move_dump_keys.simps) simp
      moreover have "set (i # js) = {j \<in> H. fst (hd (ps ! j)) = ?k}"
      proof -
        have "set js = {j \<in> H - {i}. fst (hd (ps ! j)) = ?k}"
          unfolding r(2) by (rule Collect_cong) (metis same)
        then show ?thesis using i(1) True by fastforce
      qed
      moreover have "H - {i} - {j. fst (hd (?ps ! j)) = ?k} = H - {j. fst (hd (ps ! j)) = ?k}"
      proof (rule set_eqI)
        fix j
        show "j \<in> H - {i} - {j. fst (hd (?ps ! j)) = ?k} \<longleftrightarrow> j \<in> H - {j. fst (hd (ps ! j)) = ?k}"
          using True by (cases "j = i") simp_all
      qed
      moreover have "dropped ps H ?k ps'"
      proof -
        have "ps' ! j = (if j \<in> H \<and> fst (hd (ps ! j)) = ?k then tl (ps ! j) else ps ! j)" if "j < length ps" for j
          using r(5) that i(1) True by (cases "j = i") (simp_all add: dropped_def)
        then show ?thesis using r(5) by (simp add: dropped_def)
      qed
      ultimately show ?thesis using r(3,4) mi1(3) mi2(3) by (intro exI [of _ mi'] exI [of _ "i # js"] exI [of _ ps']) simp
    qed
  qed
qed

lemma init_heap_at:
  assumes "mi_at rv mi alls ps H" and "set st \<subseteq> {..<length ps}"
  shows "\<exists>mi'. init_heap_by_indexes ops st mi = Some mi' \<and> mi_at rv mi' alls ps (H \<union> (set st \<inter> waiting ps))
    \<and> mi_cursor mi' = mi_cursor mi"
  using assms
proof (induction st arbitrary: mi H)
  case (Cons i st)
  have i: "i < length ps" "i < length (mi_itrs mi)" using Cons(2,3) by (auto simp: mi_at_def)
  note pk = peek_at [OF Cons(2) i(1)]
  show ?case
  proof (cases "ps ! i")
    case Nil
    then have "set (i # st) \<inter> waiting ps = set st \<inter> waiting ps" by (auto simp: waiting_def)
    then show ?thesis using Cons Nil pk i(2) by simp
  next
    case (Cons x xs)
    then have iw: "i \<in> waiting ps" using i(1) by (simp add: waiting_def)
    obtain mi1 where mi1: "push_item_into_heap i x mi = Some mi1" "mi_at rv mi1 alls ps (insert i H)" "mi_cursor mi1 = mi_cursor mi"
      using push_at [OF Cons.prems(1) iw] Cons by auto
    have "insert i H \<union> (set st \<inter> waiting ps) = H \<union> (set (i # st) \<inter> waiting ps)" using iw by auto
    then show ?thesis using Cons.IH [OF mi1(2)] Cons.prems(2) mi1 pk Cons i(2) by auto
  qed
qed auto

text \<open>One step: the winner is handed over and its key leaves every list.\<close>

lemma merge_step_at:
  assumes at: "mi_at rv mi alls ps (waiting ps)" and ne: "waiting ps \<noteq> {}"
    and sorted: "\<forall>p\<in>set ps. sorted_wrt (dlt rv) (map fst p)"
  shows "\<exists>i\<in>waiting ps. (\<forall>j\<in>waiting ps. wins rv (fst (hd (ps ! i)), i) (fst (hd (ps ! j)), j))
    \<and> (if starts_with (fst (hd (ps ! i))) BADGER_PREFIX then merge_step ops mi = None
       else \<exists>mi'. merge_step ops mi = Some (Some (hd (ps ! i)), mi')
         \<and> mi_at rv mi' alls (map (drop_key (fst (hd (ps ! i)))) ps) (waiting (map (drop_key (fst (hd (ps ! i)))) ps))
         \<and> mc_index (mi_cursor mi') \<noteq> USIZE_MAX)"
proof -
  obtain i mi1 where i: "i \<in> waiting ps" "\<forall>j\<in>waiting ps. wins rv (fst (hd (ps ! i)), i) (fst (hd (ps ! j)), j)"
    and pop: "pop_item_from_heap mi = Some (Some (entry rv ps i), mi1)" "mi_at rv mi1 alls ps (waiting ps - {i})"
    using pop_at [OF at ne] by blast
  have heap: "mi_heap mi \<noteq> []" using at ne by (auto simp: mi_at_def)
  let ?k = "fst (hd (ps ! i))" and ?W = "waiting ps"
  show ?thesis
  proof (cases "starts_with ?k BADGER_PREFIX")
    case True
    then have "merge_step ops mi = None" using heap pop(1) by (simp add: merge_step_def mc_replace_def)
    then show ?thesis using i True by auto
  next
    case False
    let ?c = "\<lparr>mc_index = i, mc_cur_item = Some (hd (ps ! i))\<rparr>"
    let ?ps1 = "ps[i := tl (ps ! i)]"
    have il: "i < length ps" "ps ! i \<noteq> []" using i(1) by (auto simp: waiting_def)
    obtain r mi2 where mi2: "mi_call (xo_next ops) i (mi1\<lparr>mi_cursor := ?c\<rparr>) = Some (r, mi2)" "mi_at rv mi2 alls ?ps1 (?W - {i})"
      "mi_cursor mi2 = ?c"
      using call_next_at [of rv "mi1\<lparr>mi_cursor := ?c\<rparr>" alls ps "?W - {i}" i] pop(2) i(1) by auto
    have same: "?ps1 ! j = ps ! j" if "j \<noteq> i" for j using that by simp
    have "\<not> dlt rv (fst (hd (?ps1 ! j))) ?k" if "j \<in> ?W - {i}" for j
      using i(2) that same [of j] dlt_asym by (auto simp: wins_def)
    then obtain mi3 js ps' where mi3: "move_dump_keys ops (entry rv ps i) mi2 [i] = Some (mi3, [i] @ js)"
      "set js = {j \<in> ?W - {i}. fst (hd (?ps1 ! j)) = ?k}"
      "mi_at rv mi3 alls ps' (?W - {i} - {j. fst (hd (?ps1 ! j)) = ?k})" "mi_cursor mi3 = mi_cursor mi2"
      "dropped ?ps1 (?W - {i}) ?k ps'"
      using move_dump_at [OF mi2(2), of "entry rv ps i" "[i]"] by auto
    have len: "length ps' = length ps" using mi3(5) by (simp add: dropped_def)
    have ps': "ps' = map (drop_key ?k) ps"
    proof (rule nth_equalityI)
      fix j assume "j < length ps'"
      then show "ps' ! j = map (drop_key ?k) ps ! j"
        using mi3(5) il by (cases "j = i") (auto simp: dropped_def drop_key_def waiting_def)
    qed (simp add: len)
    have "set ([i] @ js) \<subseteq> {..<length ps'}" using mi3(2) il len by (auto simp: waiting_def)
    then obtain mi4 where mi4: "init_heap_by_indexes ops ([i] @ js) mi3 = Some mi4"
      "mi_at rv mi4 alls ps' (?W - {i} - {j. fst (hd (?ps1 ! j)) = ?k} \<union> (set ([i] @ js) \<inter> waiting ps'))"
      "mi_cursor mi4 = mi_cursor mi3"
      using init_heap_at [OF mi3(3)] by blast
    have "?W - {i} - {j. fst (hd (?ps1 ! j)) = ?k} \<union> (set ([i] @ js) \<inter> waiting ps') = waiting ps'"
    proof (rule set_eqI)
      fix j
      show "j \<in> ?W - {i} - {j. fst (hd (?ps1 ! j)) = ?k} \<union> (set ([i] @ js) \<inter> waiting ps') \<longleftrightarrow> j \<in> waiting ps'"
      proof (cases "j = i")
        case True
        then show ?thesis by simp
      next
        case False
        then have "j \<in> set js \<longleftrightarrow> j \<in> ?W \<and> fst (hd (ps ! j)) = ?k" unfolding mi3(2) by simp
        moreover have "j \<in> waiting ps' \<longleftrightarrow> j < length ps \<and> drop_key ?k (ps ! j) \<noteq> []"
          unfolding ps' waiting_def by auto
        moreover have "j \<in> ?W \<longleftrightarrow> j < length ps \<and> ps ! j \<noteq> []" by (simp add: waiting_def)
        ultimately show ?thesis using False by (auto simp: drop_key_def)
      qed
    qed
    then have "mi_at rv mi4 alls ps' (waiting ps')" using mi4(2) by simp
    moreover have "merge_step ops mi = Some (Some (hd (ps ! i)), mi4)"
      using heap pop(1) False mi2(1) mi3(1) mi4(1,3) mi3(4) mi2(3)
      by (simp add: merge_step_def mc_replace_def mi_peek_def)
    moreover have "mc_index (mi_cursor mi4) \<noteq> USIZE_MAX"
      using mi4(3) mi3(4) mi2(3) il(1) at by (auto simp: mi_at_def)
    ultimately show ?thesis using i False ps' by auto
  qed
qed

subsubsection \<open>Whole traversals\<close>

definition mi_ready :: "bool \<Rightarrow> 'it merge_iterator \<Rightarrow> item list list \<Rightarrow> item list list \<Rightarrow> bool" where
  "mi_ready rv mi alls ps \<longleftrightarrow> mi_at rv mi alls ps (waiting ps) \<and> mc_index (mi_cursor mi) \<noteq> USIZE_MAX"

lemma merge_next_end:
  assumes "mi_ready rv mi alls ps" and "waiting ps = {}"
  shows "merge_next ops mi = Some (None, set_iter_empty mi)"
  using assms by (auto simp: mi_ready_def merge_next_def merge_step_def mi_at_def)

lemma merge_next_at:
  assumes ready: "mi_ready rv mi alls ps" and ne: "waiting ps \<noteq> {}"
    and sorted: "\<forall>p\<in>set ps. sorted_wrt (dlt rv) (map fst p)"
  shows "\<exists>i\<in>waiting ps. (\<forall>j\<in>waiting ps. wins rv (fst (hd (ps ! i)), i) (fst (hd (ps ! j)), j))
    \<and> (if starts_with (fst (hd (ps ! i))) BADGER_PREFIX then merge_next ops mi = None
       else \<exists>mi'. merge_next ops mi = Some (Some (hd (ps ! i)), mi')
         \<and> mi_ready rv mi' alls (map (drop_key (fst (hd (ps ! i)))) ps))"
proof -
  have at: "mi_at rv mi alls ps (waiting ps)" "mc_index (mi_cursor mi) \<noteq> USIZE_MAX"
    using ready by (auto simp: mi_ready_def)
  then have "mi_itrs mi \<noteq> []" using ne by (auto simp: mi_at_def waiting_def)
  then have "merge_next ops mi = merge_step ops mi" using at(2) by (simp add: merge_next_def)
  then show ?thesis using merge_step_at [OF at(1) ne sorted] unfolding mi_ready_def by (simp only: )
qed

lemma merge_next_item:
  assumes ready: "mi_ready rv mi alls ps" and ne: "waiting ps \<noteq> {}"
    and sorted: "\<forall>p\<in>set ps. sorted_wrt (dlt rv) (map fst p)"
    and user: "\<forall>e\<in>set (concat ps). \<not> starts_with (fst e) BADGER_PREFIX"
  shows "\<exists>i mi'. i \<in> waiting ps \<and> (\<forall>j\<in>waiting ps. wins rv (fst (hd (ps ! i)), i) (fst (hd (ps ! j)), j))
    \<and> merge_next ops mi = Some (Some (hd (ps ! i)), mi')
    \<and> mi_ready rv mi' alls (map (drop_key (fst (hd (ps ! i)))) ps)"
proof -
  have "\<not> starts_with (fst (hd (ps ! i))) BADGER_PREFIX" if "i \<in> waiting ps" for i
  proof -
    have "hd (ps ! i) \<in> set (concat ps)" using that by (auto simp: waiting_def intro!: bexI [of _ "ps ! i"])
    then show ?thesis using user by blast
  qed
  then show ?thesis using merge_next_at [OF ready ne sorted] by auto
qed

lemma merge_next_single:
  assumes ready: "mi_ready rv mi alls [p]" and ne: "p \<noteq> []" and sorted: "sorted_wrt (dlt rv) (map fst p)"
  shows "if starts_with (fst (hd p)) BADGER_PREFIX then merge_next ops mi = None
    else \<exists>mi'. merge_next ops mi = Some (Some (hd p), mi') \<and> mi_ready rv mi' alls [tl p]"
proof -
  have w: "waiting [p] = {0}" using ne by (auto simp: waiting_def nth_Cons')
  have "\<forall>p\<in>set [p]. sorted_wrt (dlt rv) (map fst p)" using sorted by simp
  from merge_next_at [OF ready _ this] show ?thesis unfolding w using ne
    by (cases "starts_with (fst (hd p)) BADGER_PREFIX") (simp_all add: drop_key_def)
qed

lemma length_drop_key:
  assumes "i \<in> waiting ps"
  shows "length (concat (map (drop_key (fst (hd (ps ! i)))) ps)) < length (concat ps)"
proof -
  let ?k = "fst (hd (ps ! i))"
  have i: "i < length ps" "ps ! i \<noteq> []" using assms by (auto simp: waiting_def)
  have le: "length (concat (map (drop_key ?k) qs)) \<le> length (concat qs)" for qs
    by (induction qs) (auto simp: drop_key_def)
  have "concat (map f ps) = concat (map f (take i ps)) @ f (ps ! i) @ concat (map f (drop (Suc i) ps))" for f :: "item list \<Rightarrow> item list"
    by (subst id_take_nth_drop [OF i(1)]) simp
  from this [of "\<lambda>x. x"] this [of "drop_key ?k"]
  have "concat ps = concat (take i ps) @ ps ! i @ concat (drop (Suc i) ps)"
    and "concat (map (drop_key ?k) ps) = concat (map (drop_key ?k) (take i ps)) @ tl (ps ! i) @ concat (map (drop_key ?k) (drop (Suc i) ps))"
    using i(2) by (simp_all add: drop_key_def)
  moreover have "length (tl (ps ! i)) < length (ps ! i)" using i(2) by simp
  ultimately show ?thesis using le [of "take i ps"] le [of "drop (Suc i) ps"] by (simp only: length_append)
qed

lemma drop_key_ok:
  assumes "\<forall>p\<in>set ps. sorted_wrt (dlt rv) (map fst p)" and "\<forall>e\<in>set (concat ps). P e"
  shows "\<forall>p\<in>set (map (drop_key k) ps). sorted_wrt (dlt rv) (map fst p)" and "\<forall>e\<in>set (concat (map (drop_key k) ps)). P e"
proof -
  have "set (drop_key k p) \<subseteq> set p" for p by (cases p) (auto simp: drop_key_def)
  then show "\<forall>e\<in>set (concat (map (drop_key k) ps)). P e" using assms(2) by fastforce
  show "\<forall>p\<in>set (map (drop_key k) ps). sorted_wrt (dlt rv) (map fst p)" using assms(1) drop_key_sorted by auto
qed

lemma merge_collect:
  assumes "mi_ready rv mi alls ps" and "\<forall>p\<in>set ps. sorted_wrt (dlt rv) (map fst p)"
    and "\<forall>e\<in>set (concat ps). \<not> starts_with (fst e) BADGER_PREFIX" and "length (concat ps) < n"
  shows "\<exists>out. collect (merge_next ops) n mi = Some out \<and> merges rv ps out"
  using assms
proof (induction n arbitrary: mi ps)
  case (Suc n)
  show ?case
  proof (cases "waiting ps = {}")
    case True
    then show ?thesis using merge_next_end [OF Suc(2)] waiting_empty [OF True] by (auto simp: merges_def)
  next
    case False
    then obtain i mi' where i: "i \<in> waiting ps" "\<forall>j\<in>waiting ps. wins rv (fst (hd (ps ! i)), i) (fst (hd (ps ! j)), j)"
      "merge_next ops mi = Some (Some (hd (ps ! i)), mi')" "mi_ready rv mi' alls (map (drop_key (fst (hd (ps ! i)))) ps)"
      using merge_next_item [OF Suc(2) False Suc(3,4)] by blast
    have "length (concat (map (drop_key (fst (hd (ps ! i)))) ps)) < n" using length_drop_key [OF i(1)] Suc(5) by linarith
    then obtain out where "collect (merge_next ops) n mi' = Some out" "merges rv (map (drop_key (fst (hd (ps ! i)))) ps) out"
      using Suc(1) [OF i(4) drop_key_ok [OF Suc(3,4)]] by blast
    then show ?thesis using merges_step [OF i(1,2) Suc(3)] i(3) by auto
  qed
qed simp

subsubsection \<open>Starting over\<close>

lemma reset_at:
  assumes "mi_at rv mi alls ps H"
  shows "\<exists>mi'. merge_reset mi = Some mi' \<and> mi_at rv mi' alls ps {} \<and> mi_itrs mi' = mi_itrs mi"
  using assms by (auto simp: merge_reset_def mc_replace_def mi_at_def)

lemma push_if_waiting:
  assumes "mi_at rv mi alls ps H" and "i < length ps"
  shows "\<exists>mi'. (case hd_opt (ps ! i) of None \<Rightarrow> Some mi | Some e \<Rightarrow> push_item_into_heap i e mi) = Some mi'
    \<and> mi_at rv mi' alls ps (H \<union> {i} \<inter> waiting ps)"
proof (cases "ps ! i")
  case Nil
  then have "{i} \<inter> waiting ps = {}" by (simp add: waiting_def)
  with Nil assms(1) show ?thesis by simp
next
  case (Cons x xs)
  then have "i \<in> waiting ps" using assms(2) by (simp add: waiting_def)
  then show ?thesis using push_at [OF assms(1), of i] Cons by auto
qed

lemma rewind_push_at:
  assumes "mi_at rv mi alls ps H" and "i < length ps" and "i \<notin> H"
  shows "\<exists>mi'. rewind_push ops i mi = Some mi' \<and> mi_at rv mi' alls (ps[i := dropWhile internal (ps ! i)])
      (H \<union> {i} \<inter> waiting (ps[i := dropWhile internal (ps ! i)]))"
  using assms
proof (induction "length (ps ! i)" arbitrary: mi ps)
  case 0
  then have "rewind_push ops i mi = Some mi" using peek_at [OF 0(2,3)] by (subst rewind_push.simps) simp
  moreover have "ps[i := []] = ps" using 0 by (metis length_0_conv list_update_id)
  ultimately show ?case using 0 by (auto simp: waiting_def)
next
  case (Suc n)
  then obtain x xs where x: "ps ! i = x # xs" by (cases "ps ! i") auto
  show ?case
  proof (cases "internal x")
    case True
    have "i \<in> waiting ps" using x Suc(4) by (simp add: waiting_def)
    from call_next_at [OF Suc(3) this Suc(5)] obtain r mi1 where
      mi1: "mi_call (xo_next ops) i mi = Some (r, mi1)" "mi_at rv mi1 alls (ps[i := xs]) H" using x by auto
    have "rewind_push ops i mi = rewind_push ops i mi1"
      using peek_at [OF Suc(3,4)] x True mi1(1) by (subst rewind_push.simps) simp
    then show ?thesis using Suc(1) [of "ps[i := xs]" mi1] mi1(2) Suc(2,4,5) x True by simp
  next
    case False
    have "rewind_push ops i mi = push_item_into_heap i x mi"
      using peek_at [OF Suc(3,4)] x False by (subst rewind_push.simps) simp
    moreover have "ps[i := dropWhile internal (ps ! i)] = ps" using x False by (simp add: list_update_same_conv [OF Suc(4)])
    ultimately show ?thesis using push_if_waiting [OF Suc(3,4)] x by simp
  qed
qed

text \<open>A loop over the iterators that leaves each of them standing on the first item of \<open>f all\<close>.\<close>

definition placed :: "(item list \<Rightarrow> item list) \<Rightarrow> item list list \<Rightarrow> nat list \<Rightarrow> item list list \<Rightarrow> item list list \<Rightarrow> bool" where
  "placed f alls is ps ps' \<longleftrightarrow> length ps' = length ps
     \<and> (\<forall>j<length ps. ps' ! j = (if j \<in> set is then f (alls ! j) else ps ! j))"

lemma placed_all: "placed f alls [0..<length ps] ps ps' \<Longrightarrow> length alls = length ps \<Longrightarrow> ps' = map f alls"
  by (auto simp: placed_def intro: nth_equalityI)

lemma placed_Cons:
  assumes "placed f alls is (ps[i := f (alls ! i)]) ps'" and "i \<notin> set is"
  shows "placed f alls (i # is) ps ps'"
proof -
  have "ps' ! j = (if j \<in> set (i # is) then f (alls ! j) else ps ! j)" if "j < length ps" for j
    using assms that by (cases "j = i") (auto simp: placed_def)
  then show ?thesis using assms by (simp add: placed_def)
qed

lemma waiting_placed:
  assumes "placed f alls is (ps[i := p]) ps'" and "i \<notin> set is"
  shows "H \<union> {i} \<inter> waiting (ps[i := p]) \<union> set is \<inter> waiting ps' = H \<union> set (i # is) \<inter> waiting ps'"
  using assms by (auto simp: placed_def waiting_def)

lemma rewind_one_at:
  assumes at: "mi_at rv mi alls ps H" and i: "i < length ps" "i \<notin> H"
    and pos: "at_pos (mi_itrs mi ! i) (alls ! i) cur rest"
  shows "\<exists>mi1. do { (r, mi) \<leftarrow> mi_call (xo_rewind ops) i mi;
      case r of Some _ \<Rightarrow> rewind_push ops i mi | None \<Rightarrow> Some mi } = Some mi1
    \<and> mi_at rv mi1 alls (ps[i := dropWhile internal (alls ! i)])
        (H \<union> {i} \<inter> waiting (ps[i := dropWhile internal (alls ! i)]))"
proof -
  have len: "i < length (mi_itrs mi)" using at i by (simp add: mi_at_def)
  show ?thesis
  proof (cases "alls ! i")
    case Nil
    then obtain it where it: "xo_rewind ops (mi_itrs mi ! i) = Some (None, it)" "at_pos it (alls ! i) None []"
      using rewind_empty_law pos by metis
    have "mi_at rv (mi\<lparr>mi_itrs := (mi_itrs mi)[i := it]\<rparr>) alls (ps[i := []]) H"
      using itr_at [OF at i it(2)] by simp
    then show ?thesis using it(1) len i Nil by (simp add: mi_call_def waiting_def)
  next
    case (Cons x xs)
    then obtain it where it: "xo_rewind ops (mi_itrs mi ! i) = Some (Some x, it)" "at_pos it (alls ! i) (Some x) xs"
      using rewind_law pos by metis
    have "mi_at rv (mi\<lparr>mi_itrs := (mi_itrs mi)[i := it]\<rparr>) alls (ps[i := alls ! i]) H"
      using itr_at [OF at i it(2)] Cons by simp
    from rewind_push_at [OF this _ i(2)] i(1) it(1) len show ?thesis by (simp add: mi_call_def)
  qed
qed

lemma rewind_itrs_at:
  assumes "mi_at rv mi alls ps H" and "H \<inter> set is = {}" and "distinct is" and "set is \<subseteq> {..<length ps}"
  shows "\<exists>mi' ps'. rewind_itrs ops is mi = Some mi' \<and> placed (dropWhile internal) alls is ps ps'
    \<and> mi_at rv mi' alls ps' (H \<union> set is \<inter> waiting ps')"
  using assms
proof (induction "is" arbitrary: mi ps H)
  case Nil
  then show ?case by (auto simp: placed_def)
next
  case (Cons i "is")
  have i: "i < length ps" "i \<notin> H" using Cons.prems by auto
  obtain cur rest where pos: "at_pos (mi_itrs mi ! i) (alls ! i) cur rest" using itr_pos [OF Cons.prems(1) i(1)] .
  let ?ps = "ps[i := dropWhile internal (alls ! i)]"
  obtain mi1 where mi1: "do { (r, mi) \<leftarrow> mi_call (xo_rewind ops) i mi;
      case r of Some _ \<Rightarrow> rewind_push ops i mi | None \<Rightarrow> Some mi } = Some mi1"
    "mi_at rv mi1 alls ?ps (H \<union> {i} \<inter> waiting ?ps)"
    using rewind_one_at [OF Cons.prems(1) i(1,2) pos] by blast
  have "(H \<union> {i} \<inter> waiting (ps[i := dropWhile internal (alls ! i)])) \<inter> set is = {}" using Cons.prems(2,3) by auto
  then obtain mi' ps' where mi': "rewind_itrs ops is mi1 = Some mi'"
    "placed (dropWhile internal) alls is (ps[i := dropWhile internal (alls ! i)]) ps'"
    "mi_at rv mi' alls ps' (H \<union> {i} \<inter> waiting (ps[i := dropWhile internal (alls ! i)]) \<union> set is \<inter> waiting ps')"
    using Cons.IH [OF mi1(2)] Cons.prems(3,4) by auto
  have "rewind_itrs ops (i # is) mi = Some mi'"
    using mi1(1) mi'(1) by (auto simp: bind_eq_Some_conv split: prod.splits)
  moreover have "i \<notin> set is" using Cons.prems(3) by simp
  ultimately show ?case using placed_Cons [OF mi'(2)] waiting_placed [OF mi'(2)] mi'(3) by auto
qed

lemma merge_rewind_ready:
  assumes at: "mi_at rv mi alls ps H" and ne: "alls \<noteq> []"
  shows "\<exists>mi'. merge_rewind ops mi = merge_next ops mi' \<and> mi_ready rv mi' alls (map (dropWhile internal) alls)"
proof -
  obtain mi1 where mi1: "merge_reset mi = Some mi1" "mi_at rv mi1 alls ps {}" "mi_itrs mi1 = mi_itrs mi"
    using reset_at [OF at] by blast
  have len: "length alls = length ps" "length (mi_itrs mi) = length ps" using at by (auto simp: mi_at_def)
  obtain mi2 ps' where mi2: "rewind_itrs ops [0..<length ps] mi1 = Some mi2"
    "placed (dropWhile internal) alls [0..<length ps] ps ps'" "mi_at rv mi2 alls ps' ({} \<union> set [0..<length ps] \<inter> waiting ps')"
    using rewind_itrs_at [OF mi1(2), of "[0..<length ps]"] by (auto simp: lessThan_atLeast0)
  have ps': "ps' = map (dropWhile internal) alls" using placed_all [OF mi2(2) len(1)] .
  have "set [0..<length ps] \<inter> waiting ps' = waiting ps'" using ps' len by (auto simp: waiting_def)
  then have "mi_ready rv (set_iter_empty mi2) alls ps'"
    using mi2(3) by (simp add: mi_ready_def set_iter_empty_def USIZE_MAX_def)
  moreover have "merge_rewind ops mi = merge_next ops (set_iter_empty mi2)"
    using mi1(1,3) mi2(1) len ne by (auto simp: merge_rewind_def)
  ultimately show ?thesis using ps' by auto
qed

text \<open>From a ready state: the first \<open>next\<close>, and all that follow.\<close>

lemma ready_then_merge:
  assumes ready: "mi_ready rv mi alls ps"
    and sorted: "\<forall>p\<in>set ps. sorted_wrt (dlt rv) (map fst p)"
    and user: "\<forall>e\<in>set (concat ps). \<not> internal e" and len: "length (concat ps) \<le> n"
  shows "\<exists>r mi' out. merge_next ops mi = Some (r, mi') \<and> collect (merge_next ops) (n + 1) mi' = Some out
    \<and> merges rv ps (case r of None \<Rightarrow> out | Some x \<Rightarrow> x # out)"
proof (cases "waiting ps = {}")
  case True
  have "mi_ready rv (set_iter_empty mi) alls ps" using ready by (simp add: mi_ready_def set_iter_empty_def USIZE_MAX_def)
  then have "collect (merge_next ops) (n + 1) (set_iter_empty mi) = Some []"
    using merge_next_end [OF _ True] by simp
  then show ?thesis using merge_next_end [OF ready True] waiting_empty [OF True] by (auto simp: merges_def)
next
  case False
  obtain i mi' where i: "i \<in> waiting ps" "\<forall>j\<in>waiting ps. wins rv (fst (hd (ps ! i)), i) (fst (hd (ps ! j)), j)"
    "merge_next ops mi = Some (Some (hd (ps ! i)), mi')" "mi_ready rv mi' alls (map (drop_key (fst (hd (ps ! i)))) ps)"
    using merge_next_item [OF ready False sorted user] by blast
  have "length (concat (map (drop_key (fst (hd (ps ! i)))) ps)) < n + 1"
    using length_drop_key [OF i(1)] len by linarith
  from merge_collect [OF i(4) drop_key_ok [OF sorted user] this] obtain out where
    "collect (merge_next ops) (n + 1) mi' = Some out" "merges rv (map (drop_key (fst (hd (ps ! i)))) ps) out" by blast
  with i(3) merges_step [OF i(1,2) sorted] show ?thesis by (intro exI [of _ "Some (hd (ps ! i))"]) auto
qed

lemma rewind_then_merge:
  assumes at: "mi_at rv mi alls ps H" and ne: "alls \<noteq> []"
    and sorted: "\<forall>p\<in>set alls. sorted_wrt (dlt rv) (map fst p)"
    and first: "\<forall>p\<in>set alls. internal_first p"
  shows "\<exists>r mi' out. merge_rewind ops mi = Some (r, mi')
    \<and> collect (merge_next ops) (length (concat alls) + 1) mi' = Some out
    \<and> merges rv (map user_items alls) (case r of None \<Rightarrow> out | Some x \<Rightarrow> x # out)"
proof -
  have drop: "map (dropWhile internal) alls = map user_items alls" using first by (simp add: internal_first_def)
  obtain mi1 where mi1: "merge_rewind ops mi = merge_next ops mi1" "mi_ready rv mi1 alls (map user_items alls)"
    using merge_rewind_ready [OF at ne] unfolding drop by blast
  have "\<forall>p\<in>set (map user_items alls). sorted_wrt (dlt rv) (map fst p)" using sorted user_items_sorted by auto
  moreover have "\<forall>e\<in>set (concat (map user_items alls)). \<not> internal e" by auto
  moreover have "length (concat (map user_items alls)) \<le> length (concat alls)"
    unfolding user_items_concat [symmetric] by (rule length_user_items)
  ultimately show ?thesis unfolding mi1(1) by (rule ready_then_merge [OF mi1(2)])
qed

text \<open>A freshly built merge iterator.\<close>

lemma build_at:
  assumes "\<forall>i<length its. \<exists>cur rest. at_pos (its ! i) (alls ! i) cur rest" and "length alls = length its"
    and "length its < USIZE_MAX"
  shows "\<exists>ps. mi_at rv (mb_build (mb_set_reverse (mb_add_batch mb_default its) rv)) alls ps {}"
proof -
  have "\<forall>i. \<exists>p. i < length its \<longrightarrow> (\<exists>cur rest. at_pos (its ! i) (alls ! i) cur rest \<and> p = pend cur rest)"
    using assms(1) by blast
  from choice [OF this] obtain f
    where "\<forall>i<length its. \<exists>cur rest. at_pos (its ! i) (alls ! i) cur rest \<and> f i = pend cur rest" by blast
  then show ?thesis
    using assms(2,3) by (intro exI [of _ "map f [0..<length its]"])
      (simp add: mi_at_def mb_build_def mb_set_reverse_def mb_add_batch_def mb_default_def)
qed

end

subsection \<open>Seeking\<close>

locale merge_seek_source = merge_source at_pos ops +
  xiterator at_pos "xo_next ops" "xo_rewind ops" "xo_peek ops" "xo_seek ops" "dir_skips rv"
  for at_pos :: "'it \<Rightarrow> item list \<Rightarrow> item option \<Rightarrow> item list \<Rightarrow> bool" and ops :: "'it xops" and rv :: bool
begin

lemma itr_seek:
  assumes "at_pos it all cur rest"
  shows "\<exists>it' r rest'. xo_seek ops it k = Some (r, it') \<and> at_pos it' all r rest'
    \<and> pend r rest' = dropWhile (\<lambda>e. dir_skips rv k (fst e)) all \<and> r = hd_opt (dropWhile (\<lambda>e. dir_skips rv k (fst e)) all)"
proof (cases "dropWhile (\<lambda>e. dir_skips rv k (fst e)) all")
  case Nil
  then obtain it' r where "xo_seek ops it k = Some (None, it')" "at_pos it' all None r"
    using seek_miss_law [OF assms] by blast
  with Nil show ?thesis by (intro exI [of _ it'] exI [of _ None] exI [of _ r]) (simp del: dropWhile_eq_Nil_conv)
next
  case (Cons x xs)
  then obtain it' where "xo_seek ops it k = Some (Some x, it')" "at_pos it' all (Some x) xs"
    using seek_hit_law [OF assms] by blast
  with Cons show ?thesis by (intro exI [of _ it'] exI [of _ "Some x"] exI [of _ xs]) simp
qed

lemma seek_itrs_at:
  assumes "mi_at rv mi alls ps H" and "H \<inter> set is = {}" and "distinct is" and "set is \<subseteq> {..<length ps}"
  shows "\<exists>mi' ps'. seek_itrs ops k is mi = Some mi' \<and> placed (dropWhile (\<lambda>e. dir_skips rv k (fst e))) alls is ps ps'
    \<and> mi_at rv mi' alls ps' (H \<union> set is \<inter> waiting ps')"
  using assms
proof (induction "is" arbitrary: mi ps H)
  case Nil
  then show ?case by (auto simp: placed_def)
next
  case (Cons i "is")
  let ?d = "dropWhile (\<lambda>e. dir_skips rv k (fst e)) (alls ! i)"
  have i: "i < length ps" "i \<notin> H" "length (mi_itrs mi) = length ps"
    using Cons.prems by (auto simp: mi_at_def)
  obtain cur rest where "at_pos (mi_itrs mi ! i) (alls ! i) cur rest" using itr_pos [OF Cons.prems(1) i(1)] .
  then obtain it r rest' where it: "xo_seek ops (mi_itrs mi ! i) k = Some (r, it)" "at_pos it (alls ! i) r rest'"
    "pend r rest' = ?d" "r = hd_opt ?d" using itr_seek by blast
  let ?mi = "mi\<lparr>mi_itrs := (mi_itrs mi)[i := it]\<rparr>" and ?ps = "ps[i := ?d]"
  have at1: "mi_at rv ?mi alls ?ps H" using itr_at [OF Cons.prems(1) i(1,2) it(2)] it(3) by simp
  obtain mi1 where mi1: "(case r of None \<Rightarrow> Some ?mi | Some e \<Rightarrow> push_item_into_heap i e ?mi) = Some mi1"
    "mi_at rv mi1 alls ?ps (H \<union> {i} \<inter> waiting ?ps)"
    using push_if_waiting [OF at1, of i] it(4) i(1) by auto
  have "(H \<union> {i} \<inter> waiting ?ps) \<inter> set is = {}" using Cons.prems(2,3) by auto
  then obtain mi' ps' where mi': "seek_itrs ops k is mi1 = Some mi'"
    "placed (dropWhile (\<lambda>e. dir_skips rv k (fst e))) alls is ?ps ps'"
    "mi_at rv mi' alls ps' (H \<union> {i} \<inter> waiting ?ps \<union> set is \<inter> waiting ps')"
    using Cons.IH [OF mi1(2)] Cons.prems(3,4) by auto
  have "mi_call (\<lambda>it. xo_seek ops it k) i mi = Some (r, ?mi)" using it(1) i by (simp add: mi_call_def)
  then have "seek_itrs ops k (i # is) mi = Some mi'" using mi1(1) mi'(1) by (cases r) auto
  moreover have "i \<notin> set is" using Cons.prems(3) by simp
  ultimately show ?case using placed_Cons [OF mi'(2)] waiting_placed [OF mi'(2)] mi'(3) by auto
qed

lemma seek_then_merge:
  assumes at: "mi_at rv mi alls ps H" and ne: "alls \<noteq> []"
    and sorted: "\<forall>p\<in>set alls. sorted_wrt (dlt rv) (map fst p)"
    and user: "\<forall>p\<in>set alls. \<forall>e\<in>set (dropWhile (\<lambda>e. dir_skips rv k (fst e)) p). \<not> internal e"
  shows "\<exists>r mi' out. merge_seek ops mi k = Some (r, mi')
    \<and> collect (merge_next ops) (length (concat alls) + 1) mi' = Some out
    \<and> merges rv (map (dropWhile (\<lambda>e. dir_skips rv k (fst e))) alls) (case r of None \<Rightarrow> out | Some x \<Rightarrow> x # out)"
proof -
  let ?D = "map (dropWhile (\<lambda>e. dir_skips rv k (fst e))) alls"
  obtain mi1 where mi1: "merge_reset mi = Some mi1" "mi_at rv mi1 alls ps {}" "mi_itrs mi1 = mi_itrs mi"
    using reset_at [OF at] by blast
  have len: "length alls = length ps" "length (mi_itrs mi) = length ps" using at by (auto simp: mi_at_def)
  obtain mi2 ps' where mi2: "seek_itrs ops k [0..<length ps] mi1 = Some mi2"
    "placed (dropWhile (\<lambda>e. dir_skips rv k (fst e))) alls [0..<length ps] ps ps'"
    "mi_at rv mi2 alls ps' ({} \<union> set [0..<length ps] \<inter> waiting ps')"
    using seek_itrs_at [OF mi1(2), of "[0..<length ps]" k] by (auto simp: lessThan_atLeast0)
  have ps': "ps' = ?D" using placed_all [OF mi2(2) len(1)] .
  have "set [0..<length ps] \<inter> waiting ps' = waiting ps'" using ps' len by (auto simp: waiting_def)
  then have ready: "mi_ready rv (set_iter_empty mi2) alls ?D"
    using mi2(3) ps' by (simp add: mi_ready_def set_iter_empty_def USIZE_MAX_def)
  have seek: "merge_seek ops mi k = merge_next ops (set_iter_empty mi2)"
    using mi1(1,3) mi2(1) len by (simp add: merge_seek_def)
  have s: "\<forall>p\<in>set ?D. sorted_wrt (dlt rv) (map fst p)"
    using sorted sorted_wrt_dropWhile by (auto simp: dropWhile_map [symmetric, unfolded comp_def])
  have u: "\<forall>e\<in>set (concat ?D). \<not> internal e" using user by auto
  have l: "length (concat ?D) \<le> length (concat alls)"
    by (induction alls) (auto intro: add_mono length_dropWhile_le)
  show ?thesis unfolding seek by (rule ready_then_merge [OF ready s u l])
qed

end

end
