(* ===== verification/Any_Iterator.thy ===== *)
theory Any_Iterator
  imports Skip_Iterator Table_Concat Merge_Correct
begin

section \<open>The iterators of the database, merged\<close>

text \<open>
  The trait objects that the code boxes into a merge iterator: memtable iterators
  (\<open>UniIterator\<close>), iterators of the tables of level 0 (\<open>IteratorImpl\<close>) and iterators over the
  tables of a deeper level (\<open>ConcatIterator\<close>). Their operations are dispatched on the constructor,
  and they satisfy the contract of \<open>MergeIterator\<close>: all of them for \<open>rewind\<close> and \<open>next\<close>, the
  first two for \<open>seek\<close> as well.
\<close>

datatype 'bf any_iter = AnyUni uni_iterator | AnyTable "'bf iterator_impl" | AnyConcat "'bf concat_iterator"

definition wrap :: "('it \<Rightarrow> 'bf any_iter) \<Rightarrow> (item option \<times> 'it) option \<Rightarrow> (item option \<times> 'bf any_iter) option" where
  "wrap C r = map_option (\<lambda>(i, it). (i, C it)) r"

definition any_ops :: "'bf any_iter xops" where
  "any_ops = \<lparr>
     xo_next = (\<lambda>it. case it of AnyUni u \<Rightarrow> wrap AnyUni (ui_next u) | AnyTable t \<Rightarrow> wrap AnyTable (ti_next t)
       | AnyConcat c \<Rightarrow> wrap AnyConcat (ci_next c)),
     xo_rewind = (\<lambda>it. case it of AnyUni u \<Rightarrow> wrap AnyUni (ui_rewind u) | AnyTable t \<Rightarrow> wrap AnyTable (ti_rewind t)
       | AnyConcat c \<Rightarrow> wrap AnyConcat (ci_rewind c)),
     xo_seek = (\<lambda>it k. case it of AnyUni u \<Rightarrow> wrap AnyUni (ui_seek u k) | AnyTable t \<Rightarrow> wrap AnyTable (ti_seek t k)
       | AnyConcat c \<Rightarrow> wrap AnyConcat (ci_seek c k)),
     xo_peek = (\<lambda>it. case it of AnyUni u \<Rightarrow> ui_peek u | AnyTable t \<Rightarrow> ti_peek t | AnyConcat c \<Rightarrow> ci_peek c)\<rparr>"

fun any_at :: "bool \<Rightarrow> 'bf any_iter \<Rightarrow> item list \<Rightarrow> item option \<Rightarrow> item list \<Rightarrow> bool" where
  "any_at rv (AnyUni u) = (\<lambda>all cur rest. ui_at rv u all cur rest \<and> all \<noteq> [])"
| "any_at rv (AnyTable t) = ti_at rv t"
| "any_at rv (AnyConcat c) = cat_at rv c"

lemma wrap_Some [simp]: "wrap C (Some (i, it)) = Some (i, C it)"
  by (simp add: wrap_def)

lemma any_next:
  "any_at rv it all cur rest \<Longrightarrow>
     \<exists>it'. xo_next any_ops it = Some (hd_opt rest, it') \<and> any_at rv it' all (hd_opt rest) (tl rest)"
proof (induction it)
  case (AnyUni u)
  then show ?case
    using uni.next_end_law [of rv u all cur] uni.next_item_law [of rv u all cur "hd rest" "tl rest"]
    by (cases rest) (fastforce simp: any_ops_def)+
next
  case (AnyTable t)
  then show ?case using ti_next_at [of rv t all cur rest] by (fastforce simp: any_ops_def)
next
  case (AnyConcat c)
  then show ?case using cat_next_at [of rv c all cur rest] by (fastforce simp: any_ops_def)
qed

lemma any_rewind:
  "any_at rv it (x # xs) cur rest \<Longrightarrow>
     \<exists>it'. xo_rewind any_ops it = Some (Some x, it') \<and> any_at rv it' (x # xs) (Some x) xs"
proof (induction it)
  case (AnyUni u)
  then show ?case using uni.rewind_law [of rv u x xs cur rest] by (fastforce simp: any_ops_def)
next
  case (AnyTable t)
  then show ?case using tbl.rewind_law [of rv t x xs cur rest] by (fastforce simp: any_ops_def)
next
  case (AnyConcat c)
  then show ?case using cat.rewind_law [of rv c x xs cur rest] by (fastforce simp: any_ops_def)
qed

lemma any_rewind_empty:
  "any_at rv it [] cur rest \<Longrightarrow> \<exists>it'. xo_rewind any_ops it = Some (None, it') \<and> any_at rv it' [] None []"
proof (induction it)
  case (AnyTable t)
  then show ?case using tbl_ok_items by (auto simp: ti_at_def split: if_splits)
next
  case (AnyConcat c)
  then show ?case by (auto simp: cat_rewind_empty any_ops_def)
qed simp

lemma any_peek: "any_at rv it all cur rest \<Longrightarrow> xo_peek any_ops it = Some cur"
  by (cases it) (auto simp: any_ops_def uni.peek_law tbl.peek_law cat.peek_law)

interpretation any: merge_source "any_at rv" "any_ops :: 'bf any_iter xops" for rv
proof
  fix it :: "'bf any_iter" and all cur rest x xs
  show "any_at rv it all cur rest \<Longrightarrow> xo_peek any_ops it = Some cur" by (rule any_peek)
  show "any_at rv it all cur [] \<Longrightarrow> \<exists>it'. xo_next any_ops it = Some (None, it') \<and> any_at rv it' all None []"
    using any_next [of rv it all cur "[]"] by simp
  show "any_at rv it all cur (x # xs) \<Longrightarrow> \<exists>it'. xo_next any_ops it = Some (Some x, it') \<and> any_at rv it' all (Some x) xs"
    using any_next [of rv it all cur "x # xs"] by simp
  show "any_at rv it (x # xs) cur rest \<Longrightarrow>
      \<exists>it'. xo_rewind any_ops it = Some (Some x, it') \<and> any_at rv it' (x # xs) (Some x) xs"
    by (rule any_rewind)
  show "any_at rv it [] cur rest \<Longrightarrow> \<exists>it'. xo_rewind any_ops it = Some (None, it') \<and> any_at rv it' [] None []"
    by (rule any_rewind_empty)
qed

text \<open>The iterators that also seek.\<close>

definition seek_at :: "bool \<Rightarrow> 'bf any_iter \<Rightarrow> item list \<Rightarrow> item option \<Rightarrow> item list \<Rightarrow> bool" where
  "seek_at rv it all cur rest \<longleftrightarrow> (\<forall>c. it \<noteq> AnyConcat c) \<and> any_at rv it all cur rest"

lemma wrap_not_concat: "(\<exists>u. it = AnyUni u) \<or> (\<exists>t. it = AnyTable t) \<longleftrightarrow> (\<forall>c. it \<noteq> AnyConcat c)"
  by (cases it) auto

lemma seek_at_cases:
  assumes "seek_at rv it all cur rest"
  obtains u where "it = AnyUni u" "ui_at rv u all cur rest" "all \<noteq> []" | t where "it = AnyTable t" "ti_at rv t all cur rest"
  using assms by (cases it) (auto simp: seek_at_def)

interpretation anys: merge_seek_source "seek_at rv" "any_ops :: 'bf any_iter xops" rv for rv
proof
  fix it :: "'bf any_iter" and all cur rest x xs k
  have same: "\<exists>it'. f it = Some (r, it') \<and> seek_at rv it' all r' l" if "\<exists>it'. f it = Some (r, it') \<and> any_at rv it' all r' l"
    "\<And>it'. f it = Some (r, it') \<Longrightarrow> \<forall>c. it' \<noteq> AnyConcat c" for f r r' l all
    using that by (auto simp: seek_at_def)
  show "seek_at rv it all cur rest \<Longrightarrow> xo_peek any_ops it = Some cur" using any_peek by (auto simp: seek_at_def)
  show "seek_at rv it all cur [] \<Longrightarrow> \<exists>it'. xo_next any_ops it = Some (None, it') \<and> seek_at rv it' all None []"
    using any_next [of rv it all cur "[]"] by (intro same) (auto simp: seek_at_def any_ops_def wrap_def split: any_iter.splits)
  show "seek_at rv it all cur (x # xs) \<Longrightarrow> \<exists>it'. xo_next any_ops it = Some (Some x, it') \<and> seek_at rv it' all (Some x) xs"
    using any_next [of rv it all cur "x # xs"] by (intro same) (auto simp: seek_at_def any_ops_def wrap_def split: any_iter.splits)
  show "seek_at rv it (x # xs) cur rest \<Longrightarrow>
      \<exists>it'. xo_rewind any_ops it = Some (Some x, it') \<and> seek_at rv it' (x # xs) (Some x) xs"
    using any_rewind [of rv it x xs cur rest] by (intro same) (auto simp: seek_at_def any_ops_def wrap_def split: any_iter.splits)
  show "seek_at rv it [] cur rest \<Longrightarrow> \<exists>it'. xo_rewind any_ops it = Some (None, it') \<and> seek_at rv it' [] None []"
    using any_rewind_empty [of rv it cur rest] by (intro same) (auto simp: seek_at_def any_ops_def wrap_def split: any_iter.splits)
  show "seek_at rv it all cur rest \<Longrightarrow> dropWhile (\<lambda>i. dir_skips rv k (fst i)) all = x # xs \<Longrightarrow>
      \<exists>it'. xo_seek any_ops it k = Some (Some x, it') \<and> seek_at rv it' all (Some x) xs"
    by (elim seek_at_cases; (drule (1) uni.seek_hit_law | drule (1) tbl.seek_hit_law))
      (auto simp: seek_at_def any_ops_def)
  show "seek_at rv it all cur rest \<Longrightarrow> dropWhile (\<lambda>i. dir_skips rv k (fst i)) all = [] \<Longrightarrow>
      \<exists>it' r. xo_seek any_ops it k = Some (None, it') \<and> seek_at rv it' all None r"
    by (elim seek_at_cases; (drule (1) uni.seek_miss_law | drule (1) tbl.seek_miss_law))
      (auto simp: seek_at_def any_ops_def)
qed

subsection \<open>Merging the sources of the database\<close>

text \<open>
  \<open>source_ok rv it all\<close>: \<open>it\<close> is a fresh iterator over a memtable, a table or the tables of a
  level, in direction \<open>rv\<close>, and \<open>all\<close> are its pairs in that direction. A memtable must not be
  empty, because \<open>rewind\<close> panics on an empty one; a level may have no tables.
\<close>

definition source_ok :: "bool \<Rightarrow> 'bf any_iter \<Rightarrow> item list \<Rightarrow> bool" where
  "source_ok rv it all \<longleftrightarrow>
     (case it of
        AnyUni u \<Rightarrow> \<exists>s kvs. skip_abs s kvs \<and> kvs \<noteq> [] \<and> u = ui_new s rv \<and> all = in_dir rv kvs
      | AnyTable t \<Rightarrow> \<exists>tb bs. tbl_ok tb bs \<and> t = ti_new tb rv \<and> all = in_dir rv (concat bs)
      | AnyConcat c \<Rightarrow> \<exists>ts bss. level_ok ts bss \<and> c = ci_new ts rv \<and> all = in_dir rv (concat (map concat bss)))"

lemma sorted_in_dir: "strictly_sorted (map fst kvs) \<Longrightarrow> sorted_wrt (dlt rv) (map fst (in_dir rv kvs))"
  by (auto simp: in_dir_def dlt_def [abs_def] sorted_wrt_map sorted_wrt_rev)

lemma ci_new_cat:
  assumes "level_ok ts bss"
  shows "cat_at rv (ci_new ts rv) (in_dir rv (concat (map concat bss))) None (in_dir rv (concat (map concat bss)))"
proof -
  let ?all = "map (\<lambda>bs. in_dir rv (concat bs)) bss"
  have "[] \<notin> set ?all"
  proof
    assume "[] \<in> set ?all"
    then obtain i where "i < length bss" "concat (bss ! i) = []" by (auto simp: in_set_conv_nth)
    with tbl_ok_items [OF level_okD(4) [OF assms]] show False by blast
  qed
  moreover have "ci_peek (ci_new ts rv) = Some None" by (simp add: ci_peek_def ci_get_cur_def ci_new_def)
  ultimately show ?thesis
    unfolding cat_at_def using ci_new_at [OF level_okD(1) [OF assms], of rv] concat_in_dir [of rv bss] by metis
qed

lemma source_okD:
  assumes "source_ok rv it all"
  shows "any_at rv it all None all" and "sorted_wrt (dlt rv) (map fst all)"
proof -
  from assms consider s kvs where "it = AnyUni (ui_new s rv)" "skip_abs s kvs" "all = in_dir rv kvs" "kvs \<noteq> []"
    | tb bs where "it = AnyTable (ti_new tb rv)" "tbl_ok tb bs" "all = in_dir rv (concat bs)"
    | ts bss where "it = AnyConcat (ci_new ts rv)" "level_ok ts bss" "all = in_dir rv (concat (map concat bss))"
    by (cases it) (auto simp: source_ok_def)
  then have "any_at rv it all None all \<and> sorted_wrt (dlt rv) (map fst all)"
  proof cases
    case 1
    then show ?thesis using ui_new_at [OF 1(2), of rv] sorted_in_dir [OF skip_abs_sorted [OF 1(2)]] by (simp add: in_dir_def)
  next
    case 2
    then show ?thesis using ti_new_at [OF 2(2), of rv] sorted_in_dir [OF tbl_okD(3) [OF 2(2)]] by (simp add: in_dir_def)
  next
    case 3
    then show ?thesis using ci_new_cat [OF 3(2), of rv] sorted_in_dir [OF level_okD(3) [OF 3(2)]] by simp
  qed
  then show "any_at rv it all None all" "sorted_wrt (dlt rv) (map fst all)" by auto
qed

lemma sorted_dir_unique:
  assumes "sorted_wrt (dlt rv) xs" and "sorted_wrt (dlt rv) ys" and "set xs = set ys"
  shows "xs = ys"
proof (cases rv)
  case True
  then have "strictly_sorted (rev xs)" "strictly_sorted (rev ys)"
    using assms(1,2) by (simp_all add: dlt_def [abs_def] sorted_wrt_rev)
  then show ?thesis using strict_sorted_equal [of "rev xs" "rev ys"] assms(3) by simp
next
  case False
  then show ?thesis using assms strict_sorted_equal by (simp add: dlt_def [abs_def])
qed

abbreviation build_merge :: "bool \<Rightarrow> 'bf any_iter list \<Rightarrow> 'bf any_iter merge_iterator" where
  "build_merge rv its \<equiv> mb_build (mb_set_reverse (mb_add_batch mb_default its) rv)"

lemma sources_at:
  fixes its :: "'bf any_iter list"
  assumes "list_all2 (source_ok rv) its alls" and "length its < USIZE_MAX"
  shows "\<exists>ps. any.mi_at rv rv (build_merge rv its) alls ps {}"
    and "\<forall>p\<in>set alls. sorted_wrt (dlt rv) (map fst p)"
proof -
  have at: "source_ok rv (its ! i) (alls ! i)" if "i < length its" for i
    using assms(1) that by (simp add: list_all2_conv_all_nth)
  then have "\<forall>i<length its. \<exists>cur rest. any_at rv (its ! i) (alls ! i) cur rest" using source_okD(1) by blast
  from any.build_at [OF this _ assms(2)] show "\<exists>ps. any.mi_at rv rv (build_merge rv its) alls ps {}"
    using list_all2_lengthD [OF assms(1)] by simp
  have "\<exists>it :: 'bf any_iter. source_ok rv it p" if p: "p \<in> set alls" for p :: "item list"
  proof -
    obtain i where "i < length alls" "alls ! i = p" using p unfolding in_set_conv_nth by blast
    then show ?thesis using at [of i] list_all2_lengthD [OF assms(1)] by auto
  qed
  then show "\<forall>p\<in>set alls. sorted_wrt (dlt rv) (map fst p)" using source_okD(2) by blast
qed

text \<open>
  C7. Merging. Over any mix of memtables, tables and levels (no empty memtable), in each of which
  the keys of the database itself, those with the prefix \<open>!badger!\<close>, come before the other keys in the direction
  of the traversal if there are any, \<open>rewind\<close> of a merge iterator followed by \<open>next\<close> until \<open>None\<close> terminates without
  panicking and hands over every other key of every source exactly once, in the order of the direction,
  each with the value of the first source that has it: earlier sources shadow later ones.
\<close>

theorem merge_iterator_merges:
  assumes "list_all2 (source_ok rv) its alls" and "its \<noteq> []" and "length its < USIZE_MAX"
    and "\<forall>p\<in>set alls. internal_first p"
  shows "\<exists>r mi out. merge_rewind any_ops (build_merge rv its) = Some (r, mi)
    \<and> collect (merge_next any_ops) (length (concat alls) + 1) mi = Some out
    \<and> sorted_wrt (dlt rv) (map fst (case r of None \<Rightarrow> out | Some x \<Rightarrow> x # out))
    \<and> map_of (case r of None \<Rightarrow> out | Some x \<Rightarrow> x # out) = map_of (user_items (concat alls))"
proof -
  obtain ps where "any.mi_at rv rv (build_merge rv its) alls ps {}" using sources_at(1) [OF assms(1,3)] by blast
  moreover have "alls \<noteq> []" using assms(1,2) by auto
  ultimately show ?thesis
    using any.rewind_then_merge [OF _ _ sources_at(2) [OF assms(1,3)] assms(4)] unfolding merges_def user_items_concat by blast
qed

text \<open>A table with two keys.\<close>

definition example_pair :: "item \<Rightarrow> item \<Rightarrow> unit table_core" where
  "example_pair a b = (mk_table example_bloom (table_file [[a, b]] []) ''1.sst'' 1)
     \<lparr>tb_block_index := index_of [[a, b]], tb_smallest := fst a, tb_biggest := fst b\<rparr>"

lemma example_pair_ok:
  assumes "blk_ok [a, b]" and "fst a < fst b"
  shows "tbl_ok (example_pair a b) [[a, b]]"
  using assms unfolding example_pair_def by (intro tbl_ok_file) (simp_all add: mk_table_def)

abbreviation example_head :: item where "example_head \<equiv> (BADGER_PREFIX, vs_default)"

lemma example_head_pairs:
  "tbl_ok (example_pair example_head (example_item 97)) [[example_head, example_item 97]]"
  "tbl_ok (example_pair (example_item 1) example_head) [[example_item 1, example_head]]"
  by (rule example_pair_ok; simp add: blk_ok_def entry_ok_def example_item_def vs_size_def vs_header_size_def vs_default_def
      BADGER_PREFIX_def enc_block_length blk_def blk_step_def entry_bytes_length entry_diff_def key_diff_def)+

lemma example_internal [simp]: "starts_with BADGER_PREFIX BADGER_PREFIX" "b \<noteq> 33 \<Longrightarrow> \<not> internal (example_item b)"
  by (simp_all add: example_item_def starts_with_def BADGER_PREFIX_def)

text \<open>Non-vacuity of C7: a table with a key of the database, and a level.\<close>

theorem merge_iterator_merges_witness:
  "\<exists>r mi out. merge_rewind any_ops (build_merge False
       [AnyTable (ti_new (example_pair example_head (example_item 97)) False), AnyConcat (ci_new [example_table 1, example_table 2] False)])
     = Some (r, mi) \<and> collect (merge_next any_ops) 5 mi = Some out
     \<and> map fst (case r of None \<Rightarrow> out | Some x \<Rightarrow> x # out) = [[1], [2], [97]]"
proof -
  let ?its = "[AnyTable (ti_new (example_pair example_head (example_item 97)) False), AnyConcat (ci_new [example_table 1, example_table 2] False)]"
  let ?alls = "[[example_head, example_item 97], [example_item 1, example_item 2]]"
  have "list_all2 (source_ok False) ?its ?alls"
    using example_head_pairs(1) example_level by (fastforce simp: source_ok_def in_dir_def)
  moreover have "\<forall>p\<in>set ?alls. internal_first p" by (simp add: internal_first_def user_items_def)
  moreover have len: "length ?its < USIZE_MAX" "length (concat ?alls) + 1 = 5" by (simp_all add: USIZE_MAX_def)
  moreover have user: "user_items (concat ?alls) = [example_item 97, example_item 1, example_item 2]" by (simp add: user_items_def)
  ultimately obtain r mi out where m: "merge_rewind any_ops (build_merge False ?its) = Some (r, mi)"
    "collect (merge_next any_ops) 5 mi = Some out"
    and o: "sorted_wrt (dlt False) (map fst (case r of None \<Rightarrow> out | Some x \<Rightarrow> x # out))"
    "map_of (case r of None \<Rightarrow> out | Some x \<Rightarrow> x # out) = map_of [example_item 97, example_item 1, example_item 2]"
    using merge_iterator_merges [of False ?its ?alls, unfolded len(2) user] by blast
  let ?o = "case r of None \<Rightarrow> out | Some x \<Rightarrow> x # out"
  have "set (map fst ?o) = dom (map_of ?o)" by (simp add: dom_map_of_conv_image_fst)
  also have "\<dots> = {[1], [2], [97]}" unfolding o(2) by (auto simp: example_item_def)
  finally have "set (map fst ?o) = {[1], [2], [97]}" .
  then have "map fst ?o = [[1], [2], [97]]" using o(1) sorted_dir_unique [of False "map fst ?o" "[[1], [2], [97]]"]
    by (simp add: dlt_def)
  with m show ?thesis by (intro exI [of _ r] exI [of _ mi] exI [of _ out] conjI)
qed

text \<open>
  C26. Seeking in a merge. When the sources are memtables, none of them empty, and tables, and no key at or after the target
  (reversed: at or before it) has the prefix \<open>!badger!\<close> of the database itself, a \<open>seek\<close> followed by \<open>next\<close>
  until \<open>None\<close> hands over, in order and once each, exactly the keys at or after the target
  (reversed: at or before it) with the value of the first source that has them. Unlike \<open>rewind\<close>, \<open>seek\<close> does not pass over
  the keys of the database itself, and the merge panics when it reaches one. Levels, whose iterators forget a
  seek at the next step, are excluded.
\<close>

theorem merge_seek_merges:
  assumes "list_all2 (source_ok rv) its alls" and "its \<noteq> []" and "length its < USIZE_MAX"
    and "\<forall>e\<in>set (concat alls). (if rv then fst e \<le> k else k \<le> fst e) \<longrightarrow> \<not> starts_with (fst e) BADGER_PREFIX" and "\<forall>c. AnyConcat c \<notin> set its"
  shows "\<exists>r mi out. merge_seek any_ops (build_merge rv its) k = Some (r, mi)
    \<and> collect (merge_next any_ops) (length (concat alls) + 1) mi = Some out
    \<and> sorted_wrt (dlt rv) (map fst (case r of None \<Rightarrow> out | Some x \<Rightarrow> x # out))
    \<and> map_of (case r of None \<Rightarrow> out | Some x \<Rightarrow> x # out)
      = map_of (filter (\<lambda>e. if rv then fst e \<le> k else k \<le> fst e) (concat alls))"
proof -
  let ?D = "map (dropWhile (\<lambda>e. dir_skips rv k (fst e))) alls"
  have len: "length its = length alls" using assms(1) by (rule list_all2_lengthD)
  have "seek_at rv (its ! i) (alls ! i) None (alls ! i)" if "i < length its" for i
  proof -
    have "source_ok rv (its ! i) (alls ! i)" using assms(1) that by (rule list_all2_nthD)
    moreover have "its ! i \<noteq> AnyConcat c" for c using assms(5) that by (metis nth_mem)
    ultimately show ?thesis using source_okD(1) by (simp add: seek_at_def)
  qed
  then have "\<forall>i<length its. \<exists>cur rest. seek_at rv (its ! i) (alls ! i) cur rest" by blast
  from anys.build_at [OF this len [symmetric] assms(3), of rv]
  obtain ps where at: "anys.mi_at rv rv (build_merge rv its) alls ps {}" by blast
  note srt = sources_at(2) [OF assms(1,3)]
  have drop: "dropWhile (\<lambda>e. dir_skips rv k (fst e)) p = filter (\<lambda>e. if rv then fst e \<le> k else k \<le> fst e) p" if "p \<in> set alls" for p
  proof -
    have "sorted_wrt (\<lambda>x y. if rv then fst y < fst x else fst x < fst y) p"
      using srt that by (auto simp: dlt_def [abs_def] sorted_wrt_map)
    then show ?thesis by (rule dir_skips_dropWhile)
  qed
  have user: "\<forall>p\<in>set alls. \<forall>e\<in>set (dropWhile (\<lambda>e. dir_skips rv k (fst e)) p). \<not> internal e"
    using assms(4) drop by auto
  from drop have "concat ?D = filter (\<lambda>e. if rv then fst e \<le> k else k \<le> fst e) (concat alls)"
    by (simp add: filter_concat cong: map_cong)
  moreover have "alls \<noteq> []" using assms(2) len by auto
  ultimately show ?thesis using anys.seek_then_merge [OF at _ srt user] unfolding merges_def by simp
qed

text \<open>Non-vacuity of C26: from the key 2 on, in a table with the key 1 and a table with the key 2.\<close>

theorem merge_seek_merges_witness:
  "\<exists>r mi out. merge_seek any_ops (build_merge False [AnyTable (ti_new (example_table 1) False), AnyTable (ti_new (example_table 2) False)]) [2]
      = Some (r, mi)
     \<and> collect (merge_next any_ops) 3 mi = Some out \<and> map fst (case r of None \<Rightarrow> out | Some x \<Rightarrow> x # out) = [[2]]"
proof -
  let ?its = "[AnyTable (ti_new (example_table 1) False), AnyTable (ti_new (example_table 2) False)]"
  let ?alls = "[[example_item 1], [example_item 2]]"
  have "list_all2 (source_ok False) ?its ?alls"
    using example_table_ok [of 1] example_table_ok [of 2] by (fastforce simp: source_ok_def in_dir_def)
  moreover have "\<forall>e\<in>set (concat ?alls). (if False then fst e \<le> [2] else [2] \<le> fst e) \<longrightarrow> \<not> starts_with (fst e) BADGER_PREFIX"
    by (simp add: example_item_def starts_with_def BADGER_PREFIX_def)
  moreover have len: "length ?its < USIZE_MAX" "length (concat ?alls) + 1 = 3" by (simp_all add: USIZE_MAX_def)
  ultimately obtain r mi out where m: "merge_seek any_ops (build_merge False ?its) [2] = Some (r, mi)"
    "collect (merge_next any_ops) 3 mi = Some out"
    and o: "sorted_wrt (dlt False) (map fst (case r of None \<Rightarrow> out | Some x \<Rightarrow> x # out))"
    "map_of (case r of None \<Rightarrow> out | Some x \<Rightarrow> x # out) = map_of (filter (\<lambda>e. if False then fst e \<le> [2] else [2] \<le> fst e) (concat ?alls))"
    using merge_seek_merges [of False ?its ?alls "[2]", unfolded len(2)] by fastforce
  let ?o = "case r of None \<Rightarrow> out | Some x \<Rightarrow> x # out"
  have "set (map fst ?o) = dom (map_of ?o)" by (simp add: dom_map_of_conv_image_fst)
  also have "\<dots> = {[2]}" unfolding o(2) by (auto simp: example_item_def)
  finally have "map fst ?o = [[2]]" using o(1) sorted_dir_unique [of False "map fst ?o" "[[2]]"] by (simp add: dlt_def)
  with m show ?thesis by (intro exI [of _ r] exI [of _ mi] exI [of _ out] conjI)
qed

text \<open>
  C40. Keys of the database itself break a traversal. \<open>rewind\<close> passes over the keys with the prefix
  \<open>!badger!\<close> only at the front of a source; when a source starts with a user key that is followed by such a key, a merge
  over it hands over the user key, and the next step fails the assertion in \<open>MergeCursor::replace\<close> and panics.
\<close>

theorem merge_internal_key_panics:
  assumes "source_ok rv it (x # y # rest)" and "\<not> starts_with (fst x) BADGER_PREFIX"
    and "starts_with (fst y) BADGER_PREFIX"
  shows "\<exists>mi. merge_rewind any_ops (build_merge rv [it]) = Some (Some x, mi) \<and> merge_next any_ops mi = None"
proof -
  let ?all = "x # y # rest"
  have l: "list_all2 (source_ok rv) [it] [?all]" using assms(1) by simp
  have n: "length [it] < USIZE_MAX" by (simp add: USIZE_MAX_def)
  obtain ps where "any.mi_at rv rv (build_merge rv [it]) [?all] ps {}" using sources_at(1) [OF l n] by blast
  then obtain mi1 where mi1: "merge_rewind any_ops (build_merge rv [it]) = merge_next any_ops mi1"
    "any.mi_ready rv rv mi1 [?all] [?all]"
    using any.merge_rewind_ready [of rv rv _ "[?all]"] assms(2) by fastforce
  have srt: "sorted_wrt (dlt rv) (map fst ?all)" using sources_at(2) [OF l n] by simp
  obtain mi2 where "merge_next any_ops mi1 = Some (Some x, mi2)" "any.mi_ready rv rv mi2 [?all] [y # rest]"
    using any.merge_next_single [OF mi1(2) _ srt] assms(2) by auto
  moreover from this(2) have "merge_next any_ops mi2 = None"
    using any.merge_next_single [of rv rv mi2 "[?all]" "y # rest"] srt assms(3) by simp
  ultimately show ?thesis using mi1(1) by auto
qed

text \<open>Non-vacuity of C40: a table with a user key before \<open>!badger!\<close>.\<close>

theorem merge_internal_key_panics_witness:
  "\<exists>it rest mi. source_ok False it (example_item 1 # example_head # rest)
     \<and> merge_rewind any_ops (build_merge False [it :: unit any_iter]) = Some (Some (example_item 1), mi)
     \<and> merge_next any_ops mi = None"
proof -
  let ?it = "AnyTable (ti_new (example_pair (example_item 1) example_head) False)"
  have ok: "source_ok False ?it (example_item 1 # example_head # [])"
    using example_head_pairs(2) by (fastforce simp: source_ok_def in_dir_def)
  have "\<not> starts_with (fst (example_item 1)) BADGER_PREFIX" "starts_with (fst example_head) BADGER_PREFIX" by simp_all
  from ok merge_internal_key_panics [OF ok this] show ?thesis by blast
qed

end
