(* ===== verification/Badger_Options.thy ===== *)
theory Badger_Options
  imports Y_Module Arena
begin

section \<open>Options\<close>

text \<open>
  Models \<open>src/src/options/mod.rs\<close>. \<open>usize\<close> fields are numbers, \<open>u64\<close> fields are words. The
  directory of the default options is drawn at random in the source and is an argument here; the
  loading mode is left out, because both ways of loading a table keep its bytes in memory.
\<close>

record options =
  opt_dir :: string
  opt_value_dir :: string
  opt_sync_writes :: bool
  opt_max_table_size :: u64
  opt_level_size_multiplier :: u64
  opt_max_levels :: nat
  opt_value_threshold :: nat
  opt_num_mem_tables :: nat
  opt_num_level_zero_tables :: nat
  opt_num_level_zero_tables_stall :: nat
  opt_level_one_size :: u64
  opt_value_log_file_size :: u64
  opt_num_compactors :: u64
  opt_do_not_compact :: bool
  opt_max_batch_count :: u64
  opt_max_batch_size :: u64

definition options_default :: "string \<Rightarrow> options" where
  "options_default dir = \<lparr>
     opt_dir = dir, opt_value_dir = dir, opt_sync_writes = False,
     opt_max_table_size = 64 * 2 ^ 20, opt_level_size_multiplier = 10, opt_max_levels = 7,
     opt_value_threshold = 20, opt_num_mem_tables = 5, opt_num_level_zero_tables = 5,
     opt_num_level_zero_tables_stall = 10, opt_level_one_size = 256 * 2 ^ 20,
     opt_value_log_file_size = 2 ^ 30, opt_num_compactors = 3, opt_do_not_compact = False,
     opt_max_batch_count = 200, opt_max_batch_size = 2 ^ 13\<rparr>"

text \<open>\<open>estimate_size\<close>, on the key and the value of an entry.\<close>

definition estimate_size :: "options \<Rightarrow> bytes \<Rightarrow> bytes \<Rightarrow> nat" where
  "estimate_size opt key val =
     (if length val < opt_value_threshold opt then length key + length val
      else length key + vs_header_size)"

text \<open>The arena holds a table, a batch and the nodes of a batch; \<open>None\<close> is an overflow of \<open>u64\<close>.\<close>

definition opt_arena_size :: "options \<Rightarrow> u64 option" where
  "opt_arena_size opt =
     (let n = unat (opt_max_table_size opt) + unat (opt_max_batch_size opt)
            + unat (opt_max_batch_count opt) * node_size
      in if n < 2 ^ 64 then Some (of_nat n) else None)"

end
