(* ===== verification/Level_Handler.thy ===== *)
theory Level_Handler
  imports Table_Concat Badger_Options
begin

section \<open>Levels\<close>

text \<open>
  Models \<open>KeyRange\<close> of \<open>src/src/compaction.rs\<close> and \<open>src/src/level_handler.rs\<close>: the tables of one
  level, lookups in them, and the updates a compaction makes. Tables are shared in the source and
  counted; their counts are a store \<open>refs\<close> by table id, threaded through the operations that
  change them. Error values keep the reason, the level and the position, not the printed keys. Locks
  are left out: an operation runs to its end.
\<close>

type_synonym refs = "u64 \<Rightarrow> int"

definition ref_incr :: "refs \<Rightarrow> u64 \<Rightarrow> refs" where "ref_incr r i = r(i := r i + 1)"
definition ref_decr :: "refs \<Rightarrow> u64 \<Rightarrow> refs" where "ref_decr r i = r(i := r i - 1)"

subsection \<open>KeyRange\<close>

record key_range =
  kr_left :: bytes
  kr_right :: bytes
  kr_inf :: bool

definition kr_default :: key_range where
  "kr_default = \<lparr>kr_left = [], kr_right = [], kr_inf = False\<rparr>"

definition INFO_RANGE :: key_range where
  "INFO_RANGE = \<lparr>kr_left = [], kr_right = [], kr_inf = True\<rparr>"

fun get_range_loop :: "bytes \<Rightarrow> bytes \<Rightarrow> 'bf table_core list \<Rightarrow> bytes \<times> bytes" where
  "get_range_loop smallest biggest [] = (smallest, biggest)"
| "get_range_loop smallest biggest (t # ts) =
     get_range_loop (if tb_smallest t < smallest then tb_smallest t else smallest)
       (if tb_biggest t > biggest then tb_biggest t else biggest) ts"

definition get_range :: "'bf table_core list \<Rightarrow> key_range option" where
  "get_range tables =
     (case tables of
        [] \<Rightarrow> None
      | t # ts \<Rightarrow>
          (case get_range_loop (tb_smallest t) (tb_biggest t) ts of
             (l, r) \<Rightarrow> Some \<lparr>kr_left = l, kr_right = r, kr_inf = False\<rparr>))"

text \<open>\<open>equals\<close> as written: the right bound and the flag are compared with themselves.\<close>

definition kr_equals :: "key_range \<Rightarrow> key_range \<Rightarrow> bool" where
  "kr_equals a b \<longleftrightarrow> kr_left a = kr_left b \<and> kr_right a = kr_right a \<and> kr_inf a = kr_inf a"

definition kr_overlaps_with :: "key_range \<Rightarrow> key_range \<Rightarrow> bool" where
  "kr_overlaps_with a b =
     (if kr_inf a \<or> kr_inf b then True
      else if kr_left a > kr_right b then False
      else if kr_right a < kr_left b then False
      else True)"

subsection \<open>LevelHandler\<close>

record 'bf level_handler =
  lh_tables :: "'bf table_core list"
  lh_total_size :: u64
  lh_level :: nat
  lh_max_total_size :: u64
  lh_opt :: options

definition lh_new :: "options \<Rightarrow> nat \<Rightarrow> 'bf level_handler" where
  "lh_new opt level =
     \<lparr>lh_tables = [], lh_total_size = 0, lh_level = level, lh_max_total_size = 0, lh_opt = opt\<rparr>"

definition level_error :: "string \<Rightarrow> nat \<Rightarrow> nat \<Rightarrow> error" where
  "level_error what level j = Unexpected (what @ '' level='' @ decimal level @ '' j='' @ decimal j)"

fun validate_from :: "nat \<Rightarrow> nat \<Rightarrow> 'bf table_core list \<Rightarrow> unit result" where
  "validate_from level j (a # b # ts) =
     (if tb_biggest a \<ge> tb_smallest b then Inl (level_error ''Inter'' level j)
      else if tb_smallest b > tb_biggest b then Inl (level_error ''Intra'' level j)
      else validate_from level (j + 1) (b # ts))"
| "validate_from level j ts = Inr ()"

definition lh_validate :: "'bf level_handler \<Rightarrow> unit result" where
  "lh_validate h = (if lh_level h = 0 then Inr () else validate_from (lh_level h) 1 (lh_tables h))"

text \<open>\<open>None\<close> where the subtraction on \<open>u64\<close> overflows.\<close>

definition is_compactable :: "'bf level_handler \<Rightarrow> u64 \<Rightarrow> bool option" where
  "is_compactable h del_size =
     map_option (\<lambda>d. d \<ge> unat (lh_max_total_size h)) (checked_sub (unat (lh_total_size h)) (unat del_size))"

definition incr_total_size :: "'bf level_handler \<Rightarrow> u64 \<Rightarrow> 'bf level_handler" where
  "incr_total_size h n = h\<lparr>lh_total_size := lh_total_size h + n\<rparr>"

definition decr_total_size :: "'bf level_handler \<Rightarrow> u64 \<Rightarrow> 'bf level_handler" where
  "decr_total_size h n = h\<lparr>lh_total_size := lh_total_size h - n\<rparr>"

text \<open>
  \<open>retain_mut\<close> with the closures of \<open>delete_tables\<close> and \<open>replace_tables\<close>: a table that goes loses
  its reference and its size.
\<close>

fun retain_tables ::
  "('bf table_core \<Rightarrow> bool) \<Rightarrow> 'bf table_core list \<Rightarrow> u64 \<Rightarrow> refs \<Rightarrow> 'bf table_core list \<times> u64 \<times> refs" where
  "retain_tables keep [] sz refs = ([], sz, refs)"
| "retain_tables keep (t # ts) sz refs =
     (if keep t then (case retain_tables keep ts sz refs of (ts, sz, refs) \<Rightarrow> (t # ts, sz, refs))
      else retain_tables keep ts (sz - of_nat (tb_size t)) (ref_decr refs (tb_id t)))"

definition delete_tables :: "'bf level_handler \<Rightarrow> u64 list \<Rightarrow> refs \<Rightarrow> 'bf level_handler \<times> refs" where
  "delete_tables h to_del refs =
     (case retain_tables (\<lambda>t. tb_id t \<notin> set to_del) (lh_tables h) (lh_total_size h) refs of
        (ts, sz, refs) \<Rightarrow> (h\<lparr>lh_tables := ts, lh_total_size := sz\<rparr>, refs))"

definition init_tables :: "'bf level_handler \<Rightarrow> 'bf table_core list \<Rightarrow> 'bf level_handler" where
  "init_tables h tables =
     h\<lparr>lh_total_size := of_nat (foldl (\<lambda>acc t. acc + tb_size t) 0 tables),
       lh_tables := (if lh_level h = 0 then sort_key tb_id tables else sort_key tb_smallest tables)\<rparr>"

definition overlapping_tables :: "'bf level_handler \<Rightarrow> key_range \<Rightarrow> nat \<times> nat" where
  "overlapping_tables h kr =
     (let left = (case binary_search_by (lh_tables h) (\<lambda>probe. rcmp (tb_biggest probe) (kr_left kr)) of
                    Inr n \<Rightarrow> n | Inl n \<Rightarrow> n);
          right = (case binary_search_by (lh_tables h) (\<lambda>probe. rcmp (tb_smallest probe) (kr_right kr)) of
                     Inr n \<Rightarrow> n + 1 | Inl n \<Rightarrow> n)
      in if left = right then (0, 0) else (left, right))"

definition replace_tables :: "'bf level_handler \<Rightarrow> 'bf table_core list \<Rightarrow> refs \<Rightarrow> 'bf level_handler \<times> refs" where
  "replace_tables h new_tables refs =
     (if new_tables = [] then (h, refs)
      else
        let h = foldl (\<lambda>h tb. incr_total_size h (of_nat (tb_size tb))) h new_tables;
            refs = foldl (\<lambda>r tb. ref_incr r (tb_id tb)) refs new_tables;
            left = tb_smallest (hd new_tables);
            right = tb_biggest (last new_tables)
        in case retain_tables (\<lambda>tb. tb_biggest tb \<le> left \<or> tb_smallest tb > right)
                  (lh_tables h) (lh_total_size h) refs of
             (ts, sz, refs) \<Rightarrow>
               (h\<lparr>lh_tables := sort_key tb_smallest (ts @ new_tables), lh_total_size := sz\<rparr>, refs))"

definition try_add_level0_table ::
  "'bf level_handler \<Rightarrow> 'bf table_core \<Rightarrow> refs \<Rightarrow> (bool \<times> 'bf level_handler \<times> refs) option" where
  "try_add_level0_table h t refs =
     (if lh_level h \<noteq> 0 then None
      else if length (lh_tables h) \<ge> opt_num_level_zero_tables_stall (lh_opt h) then Some (False, h, refs)
      else Some (True, (incr_total_size h (of_nat (tb_size t)))\<lparr>lh_tables := lh_tables h @ [t]\<rparr>,
                 ref_incr refs (tb_id t)))"

definition num_tables :: "'bf level_handler \<Rightarrow> nat" where
  "num_tables h = length (lh_tables h)"

definition lh_close :: "'bf level_handler \<Rightarrow> refs \<Rightarrow> refs" where
  "lh_close h refs = foldl (\<lambda>r tb. ref_decr r (tb_id tb)) refs (lh_tables h)"

text \<open>
  One table of \<open>get_table_for_key\<close>: the bloom filter, then a seek with a new iterator. The
  iterator takes a reference that is never given back.
\<close>

definition get_in_table ::
  "'bf bloom \<Rightarrow> 'bf table_core \<Rightarrow> bytes \<Rightarrow> refs \<Rightarrow> (item option \<times> refs) option" where
  "get_in_table bl tb key refs =
     (let refs = ref_incr refs (tb_id tb) in
      if does_not_have bl tb key then Some (None, ref_decr refs (tb_id tb))
      else do {
        let refs = ref_incr refs (tb_id tb);
        (item, _) \<leftarrow> ti_seek (ti_new tb False) key;
        let refs = ref_decr refs (tb_id tb);
        Some (case item of
                Some i \<Rightarrow> if fst i = key then Some i else None
              | None \<Rightarrow> None, refs) })"

fun get_level0 :: "'bf bloom \<Rightarrow> 'bf table_core list \<Rightarrow> bytes \<Rightarrow> refs \<Rightarrow> (item option \<times> refs) option" where
  "get_level0 bl [] key refs = Some (None, refs)"
| "get_level0 bl (tb # tbs) key refs = do {
     (item, refs) \<leftarrow> get_in_table bl tb key refs;
     (case item of Some i \<Rightarrow> Some (Some i, refs) | None \<Rightarrow> get_level0 bl tbs key refs) }"

definition get_table_for_key ::
  "'bf bloom \<Rightarrow> 'bf level_handler \<Rightarrow> bytes \<Rightarrow> refs \<Rightarrow> (item option \<times> refs) option" where
  "get_table_for_key bl h key refs =
     (if lh_level h = 0 then get_level0 bl (rev (lh_tables h)) key refs
      else
        let index = (case binary_search_by (lh_tables h) (\<lambda>tb. rcmp (tb_biggest tb) key) of
                       Inr n \<Rightarrow> n | Inl n \<Rightarrow> n)
        in if index \<ge> length (lh_tables h) then Some (None, refs)
           else get_in_table bl (lh_tables h ! index) key refs)"

definition lh_get :: "'bf bloom \<Rightarrow> 'bf level_handler \<Rightarrow> bytes \<Rightarrow> refs \<Rightarrow> (item option \<times> refs) option" where
  "lh_get bl h key refs = get_table_for_key bl h key refs"

end
