(* ===== verification/Level_Correct.thy ===== *)
theory Level_Correct
  imports Level_Handler
begin

section \<open>A level finds its keys and keeps its order\<close>

text \<open>
  Lookups in a level against the pairs of its tables, the tables a key range overlaps, and the
  invariants of the table list: its recorded size, and for deeper levels its order.
\<close>

subsection \<open>Lookups\<close>

lemma find_ge_map_of:
  assumes "strictly_sorted (map fst kvs)"
  shows "(case find (\<lambda>e. k \<le> fst e) kvs of Some i \<Rightarrow> if fst i = k then Some i else None | None \<Rightarrow> None)
    = map_option (Pair k) (map_of kvs k)"
  using assms
proof (induction kvs)
  case (Cons e kvs)
  consider "fst e < k" | "fst e = k" | "k < fst e" using less_linear by blast
  then show ?case
  proof cases
    case 3
    then have "k \<notin> fst ` set kvs" using Cons.prems by auto
    then have "map_of kvs k = None" by (simp add: map_of_eq_None_iff)
    with 3 show ?thesis by (auto simp: less_imp_le)
  qed (use Cons in \<open>auto simp: not_le\<close>)
qed simp

text \<open>What a bloom filter must not do: deny a key that the table has.\<close>

definition bloom_sound :: "'bf bloom \<Rightarrow> 'bf table_core \<Rightarrow> item list list \<Rightarrow> bool" where
  "bloom_sound bl t bs \<longleftrightarrow> (\<forall>k. does_not_have bl t k \<longrightarrow> k \<notin> fst ` set (concat bs))"

lemma get_in_table_correct:
  assumes "tbl_ok t bs" and "bloom_sound bl t bs"
  shows "\<exists>refs'. get_in_table bl t k refs = Some (map_option (Pair k) (map_of (concat bs) k), refs')"
proof (cases "does_not_have bl t k")
  case True
  then have "map_of (concat bs) k = None" using assms(2) unfolding bloom_sound_def map_of_eq_None_iff by blast
  with True show ?thesis by (simp add: get_in_table_def)
next
  case False
  obtain it where "ti_seek (ti_new t False) k = Some (find (\<lambda>e. k \<le> fst e) (concat bs), it)"
    using ti_seek_new [OF assms(1), of False k] by auto
  with False find_ge_map_of [OF tbl_okD(3) [OF assms(1)], of k] show ?thesis
    by (simp add: get_in_table_def Let_def)
qed

lemma get_level0_correct:
  assumes "list_all2 (\<lambda>t bs. tbl_ok t bs \<and> bloom_sound bl t bs) ts bss"
  shows "\<exists>refs'. get_level0 bl ts k refs = Some (map_option (Pair k) (map_of (concat (map concat bss)) k), refs')"
  using assms
proof (induction ts bss arbitrary: refs rule: list_all2_induct)
  case (Cons t ts bs bss)
  obtain refs1 where r: "get_in_table bl t k refs = Some (map_option (Pair k) (map_of (concat bs) k), refs1)"
    using get_in_table_correct Cons(1) by blast
  show ?case
  proof (cases "map_of (concat bs) k")
    case None
    then show ?thesis using r Cons(3) [of refs1] by (auto simp: map_add_def)
  next
    case (Some v)
    then show ?thesis using r by (simp add: map_add_def split: option.split)
  qed
qed simp

lemma map_of_seek:
  assumes "strictly_sorted (map fst kvs)"
  shows "map_of kvs k = (case find (\<lambda>e. k \<le> fst e) kvs of Some i \<Rightarrow> if fst i = k then Some (snd i) else None | None \<Rightarrow> None)"
  using find_ge_map_of [OF assms, of k]
  by (cases "map_of kvs k"; cases "find (\<lambda>e. k \<le> fst e) kvs") (auto split: if_splits)

text \<open>The table a deeper level looks into: the first whose biggest key is not below the key.\<close>

lemma probe_table:
  fixes ts :: "'bf table_core list" and k :: bytes
  assumes ok: "level_ok ts bss"
  defines "index \<equiv> (case binary_search_by ts (\<lambda>tb. rcmp (tb_biggest tb) k) of Inr n \<Rightarrow> n | Inl n \<Rightarrow> n)"
  shows "index \<le> length bss" and "\<forall>j<index. tb_biggest (ts ! j) < k"
    and "index < length bss \<Longrightarrow> k \<le> tb_biggest (ts ! index)"
proof -
  note len = level_okD(2) [OF ok]
  have "index \<le> length bss \<and> (\<forall>j<index. tb_biggest (ts ! j) < k) \<and> (index < length bss \<longrightarrow> k \<le> tb_biggest (ts ! index))"
  proof (cases "binary_search_by ts (\<lambda>tb. rcmp (tb_biggest tb) k)")
    case (Inr i)
    then show ?thesis
      using binary_search_Ok [OF probe_biggest [OF ok] Inr] level_mono(1) [OF ok, of _ i] len by (auto simp: index_def)
  next
    case (Inl i)
    then show ?thesis
      using binary_search_Err [OF probe_biggest [OF ok] Inl] len by (auto simp: index_def less_imp_le)
  qed
  then show "index \<le> length bss" "\<forall>j<index. tb_biggest (ts ! j) < k" "index < length bss \<Longrightarrow> k \<le> tb_biggest (ts ! index)"
    by auto
qed

lemma level_get:
  assumes "list_all2 (bloom_sound bl) (lh_tables h) bss"
    and "if lh_level h = 0 then list_all2 tbl_ok (lh_tables h) bss else level_ok (lh_tables h) bss"
  shows "\<exists>refs'. lh_get bl h k refs = Some (map_option (Pair k)
     (map_of (concat (if lh_level h = 0 then rev (map concat bss) else map concat bss)) k), refs')"
proof (cases "lh_level h = 0")
  case True
  then have "list_all2 (\<lambda>t bs. tbl_ok t bs \<and> bloom_sound bl t bs) (rev (lh_tables h)) (rev bss)"
    using assms by (simp add: list_all2_conv_all_nth rev_nth)
  from get_level0_correct [OF this, of k refs] True show ?thesis
    by (simp add: lh_get_def get_table_for_key_def rev_map)
next
  case False
  then have ok: "level_ok (lh_tables h) bss" using assms(2) by simp
  note len = level_okD(2) [OF ok] and srt = level_okD(3) [OF ok]
  define i where "i = (case binary_search_by (lh_tables h) (\<lambda>tb. rcmp (tb_biggest tb) k) of Inr n \<Rightarrow> n | Inl n \<Rightarrow> n)"
  note p = probe_table [OF ok, of k, folded i_def]
  show ?thesis
  proof (cases "i < length bss")
    case True
    have "map_of (concat (map concat bss)) k = map_of (concat (bss ! i)) k"
      unfolding map_of_seek [OF srt] map_of_seek [OF tbl_okD(3) [OF level_okD(4) [OF ok True]]]
      using find_in_table [OF ok True p(3) [OF True] p(2)] by simp
    moreover have "bloom_sound bl (lh_tables h ! i) (bss ! i)" using assms(1) True by (simp add: list_all2_conv_all_nth)
    ultimately show ?thesis
      using get_in_table_correct [OF level_okD(4) [OF ok True], of bl k refs] False True len
      by (simp add: lh_get_def get_table_for_key_def Let_def flip: i_def)
  next
    case False
    then have "\<forall>j<length bss. tb_biggest (lh_tables h ! j) < k" using p(1,2) by simp
    from find_no_table(1) [OF ok this] have "map_of (concat (map concat bss)) k = None"
      unfolding map_of_seek [OF srt] by simp
    with False \<open>lh_level h \<noteq> 0\<close> len show ?thesis
      by (simp add: lh_get_def get_table_for_key_def Let_def flip: i_def)
  qed
qed

text \<open>
  C14. Lookups in a level. At level 0, where tables overlap and the newest is last, \<open>get\<close> answers
  the value of the newest table that has the key; at a deeper level, where they are sorted and
  disjoint, it picks one table by binary search and answers exactly as if it had searched them
  all. It answers \<open>None\<close> only when no table has the key, provided the bloom filters deny no key
  they should have.
\<close>

theorem level_get_correct:
  assumes "list_all2 (bloom_sound bl) (lh_tables h) bss"
    and "if lh_level h = 0 then list_all2 tbl_ok (lh_tables h) bss else level_ok (lh_tables h) bss"
  shows "\<exists>refs'. lh_get bl h k refs = Some (map_option (Pair k)
     (map_of (concat (if lh_level h = 0 then rev (map concat bss) else map concat bss)) k), refs')"
  using assms by (rule level_get)

text \<open>Non-vacuity of C14: the second table of a level.\<close>

theorem level_get_correct_witness:
  "\<exists>refs'. lh_get example_bloom \<lparr>lh_tables = [example_table 1, example_table 2], lh_total_size = 0, lh_level = 1,
       lh_max_total_size = 0, lh_opt = options_default ''''\<rparr> [2] (\<lambda>_. 1) = Some (Some (example_item 2), refs')"
proof -
  let ?h = "\<lparr>lh_tables = [example_table 1, example_table 2], lh_total_size = 0, lh_level = 1,
       lh_max_total_size = 0, lh_opt = options_default ''''\<rparr>"
  let ?bss = "[[[example_item 1]], [[example_item 2]]]"
  have "list_all2 (bloom_sound example_bloom) (lh_tables ?h) ?bss"
    by (simp add: bloom_sound_def does_not_have_def example_bloom_def)
  moreover have "if lh_level ?h = 0 then list_all2 tbl_ok (lh_tables ?h) ?bss else level_ok (lh_tables ?h) ?bss"
    using example_level by simp
  ultimately show ?thesis
    using level_get_correct [of example_bloom ?h ?bss "[2]" "\<lambda>_. 1"] by (simp add: example_item_def)
qed

subsection \<open>Overlapping tables\<close>

lemma probe_smallest_table:
  fixes ts :: "'bf table_core list" and k :: bytes
  assumes ok: "level_ok ts bss"
  defines "index \<equiv> (case binary_search_by ts (\<lambda>tb. rcmp (tb_smallest tb) k) of Inr n \<Rightarrow> n + 1 | Inl n \<Rightarrow> n)"
  shows "index \<le> length bss" and "\<And>j. j < length bss \<Longrightarrow> j < index \<longleftrightarrow> tb_smallest (ts ! j) \<le> k"
proof -
  note len = level_okD(2) [OF ok]
  have mono: "tb_smallest (ts ! i) < tb_smallest (ts ! j)" if "i < j" "j < length bss" for i j
    using level_mono(2) [OF ok that] .
  have "index \<le> length bss \<and> (\<forall>j<length bss. j < index \<longleftrightarrow> tb_smallest (ts ! j) \<le> k)"
  proof (cases "binary_search_by ts (\<lambda>tb. rcmp (tb_smallest tb) k)")
    case (Inr i)
    have i: "i < length bss" "tb_smallest (ts ! i) = k" using binary_search_Ok [OF probe_smallest [OF ok] Inr] len by auto
    have "j \<le> i \<longleftrightarrow> tb_smallest (ts ! j) \<le> k" if "j < length bss" for j
      using mono [of j i] mono [of i j] i that by (cases j i rule: linorder_cases) auto
    then show ?thesis using i(1) Inr by (auto simp: index_def less_Suc_eq_le)
  next
    case (Inl i)
    note i = binary_search_Err [OF probe_smallest [OF ok] Inl]
    have "j < i \<longleftrightarrow> tb_smallest (ts ! j) \<le> k" if "j < length bss" for j
      using i(2) [of j] i(3) [of j] that len by (cases "j < i") auto
    then show ?thesis using i(1) Inl len by (auto simp: index_def)
  qed
  then show "index \<le> length bss" "\<And>j. j < length bss \<Longrightarrow> j < index \<longleftrightarrow> tb_smallest (ts ! j) \<le> k" by auto
qed

lemma overlapping_range:
  assumes ok: "level_ok (lh_tables h) bss" and lr: "kr_left kr \<le> kr_right kr"
    and "overlapping_tables h kr = (l, r)"
  shows "l \<le> r \<and> r \<le> length (lh_tables h) \<and> (\<forall>j<length (lh_tables h).
     (l \<le> j \<and> j < r) \<longleftrightarrow> tb_smallest (lh_tables h ! j) \<le> kr_right kr \<and> kr_left kr \<le> tb_biggest (lh_tables h ! j))"
proof -
  let ?ts = "lh_tables h"
  define a where "a = (case binary_search_by ?ts (\<lambda>tb. rcmp (tb_biggest tb) (kr_left kr)) of Inr n \<Rightarrow> n | Inl n \<Rightarrow> n)"
  define b where "b = (case binary_search_by ?ts (\<lambda>tb. rcmp (tb_smallest tb) (kr_right kr)) of Inr n \<Rightarrow> n + 1 | Inl n \<Rightarrow> n)"
  have lr': "(l, r) = (if a = b then (0, 0) else (a, b))"
    using assms(3) unfolding overlapping_tables_def Let_def a_def b_def by simp
  note len = level_okD(2) [OF ok]
  note A = probe_table [OF ok, of "kr_left kr", folded a_def] and B = probe_smallest_table [OF ok, where k = "kr_right kr", folded b_def]
  have A': "a \<le> j \<longleftrightarrow> kr_left kr \<le> tb_biggest (?ts ! j)" if "j < length bss" for j
  proof (cases "j < a")
    case True
    then show ?thesis using A(2) by auto
  next
    case False
    then have "kr_left kr \<le> tb_biggest (?ts ! a)" using A(3) that by simp
    also have "\<dots> \<le> tb_biggest (?ts ! j)" using level_mono(1) [OF ok, of a j] False that by (cases "a = j") auto
    finally show ?thesis using False by simp
  qed
  have "a \<le> b"
  proof (rule ccontr)
    assume "\<not> a \<le> b"
    then have b: "b < length bss" "b < a" using A(1) by auto
    have "tb_biggest (?ts ! b) < kr_left kr" using A(2) b(2) by blast
    moreover have "kr_right kr < tb_smallest (?ts ! b)" using B(2) [OF b(1)] by auto
    moreover have "tb_smallest (?ts ! b) \<le> tb_biggest (?ts ! b)"
      using level_bounds [OF ok b(1) level_ends(1) [OF ok b(1)]] by (rule order_trans)
    ultimately show False using lr by (meson leD order_less_le_trans order_less_trans)
  qed
  show ?thesis
  proof (cases "a = b")
    case True
    then show ?thesis using lr' A' B(2) len by (simp, metis not_le)
  next
    case False
    then show ?thesis using lr' A' B \<open>a \<le> b\<close> len by auto
  qed
qed

text \<open>
  C29. Overlapping tables. For a range with \<open>left \<le> right\<close> over a sorted, disjoint level,
  \<open>overlapping_tables\<close> returns a half-open interval within the table list that holds exactly the
  tables whose key interval meets the range (an empty one, \<open>(0, 0)\<close>, when none does).
\<close>

theorem overlapping_tables_exact:
  assumes "level_ok (lh_tables h) bss" and "kr_left kr \<le> kr_right kr"
    and "overlapping_tables h kr = (l, r)"
  shows "l \<le> r \<and> r \<le> length (lh_tables h) \<and> (\<forall>j<length (lh_tables h).
     (l \<le> j \<and> j < r) \<longleftrightarrow> tb_smallest (lh_tables h ! j) \<le> kr_right kr \<and> kr_left kr \<le> tb_biggest (lh_tables h ! j))"
  using assms by (rule overlapping_range)

text \<open>Non-vacuity of C29.\<close>

theorem overlapping_tables_exact_witness:
  "overlapping_tables \<lparr>lh_tables = [example_table 1, example_table 2], lh_total_size = 0, lh_level = 1,
       lh_max_total_size = 0, lh_opt = options_default ''''\<rparr> \<lparr>kr_left = [2], kr_right = [7], kr_inf = False\<rparr> = (1, 2)"
proof -
  let ?h = "\<lparr>lh_tables = [example_table 1, example_table 2], lh_total_size = 0, lh_level = 1,
       lh_max_total_size = 0, lh_opt = options_default ''''\<rparr>"
  let ?kr = "\<lparr>kr_left = [2], kr_right = [7], kr_inf = False\<rparr>"
  obtain l r where lr: "overlapping_tables ?h ?kr = (l, r)" by fastforce
  have "kr_left ?kr \<le> kr_right ?kr" by simp
  from overlapping_tables_exact [OF _ this lr, of "[[[example_item 1]], [[example_item 2]]]"] example_level
  have "r \<le> 2" and t: "\<forall>j<2. (l \<le> j \<and> j < r) \<longleftrightarrow> tb_smallest (lh_tables ?h ! j) \<le> [7] \<and> [2] \<le> tb_biggest (lh_tables ?h ! j)"
    by simp_all
  have "\<not> (l \<le> 0 \<and> 0 < r)" "l \<le> 1 \<and> 1 < r"
    using t [rule_format, of 0] t [rule_format, of 1] by (simp_all add: example_table_def)
  then have "l = 1" "r = 2" using \<open>r \<le> 2\<close> by auto
  with lr show ?thesis by simp
qed

subsection \<open>The order of the tables\<close>

definition tables_disjoint :: "'bf table_core list \<Rightarrow> bool" where
  "tables_disjoint ts \<longleftrightarrow> sorted_wrt (\<lambda>a b. tb_biggest a < tb_smallest b) ts \<and> (\<forall>t\<in>set ts. tb_smallest t \<le> tb_biggest t)"

lemma validate_from_sorted:
  assumes "validate_from level j ts = Inr ()"
  shows "sorted_wrt (\<lambda>a b. tb_biggest a < tb_smallest b) ts" and "\<forall>t\<in>set (tl ts). tb_smallest t \<le> tb_biggest t"
proof -
  have "sorted_wrt (\<lambda>a b. tb_biggest a < tb_smallest b) ts \<and> (\<forall>t\<in>set (tl ts). tb_smallest t \<le> tb_biggest t)"
    using assms
  proof (induction level j ts rule: validate_from.induct)
    case (1 level j a b ts)
    then have ab: "tb_biggest a < tb_smallest b" "tb_smallest b \<le> tb_biggest b" "validate_from level (j + 1) (b # ts) = Inr ()"
      by (auto split: if_splits)
    with 1 have "sorted_wrt (\<lambda>a b. tb_biggest a < tb_smallest b) (b # ts)" "\<forall>t\<in>set ts. tb_smallest t \<le> tb_biggest t" by auto
    with ab show ?case by (auto dest: order_less_trans order_le_less_trans)
  qed auto
  then show "sorted_wrt (\<lambda>a b. tb_biggest a < tb_smallest b) ts" "\<forall>t\<in>set (tl ts). tb_smallest t \<le> tb_biggest t" by auto
qed

lemma validate_from_disjoint: "tables_disjoint ts \<Longrightarrow> validate_from level j ts = Inr ()"
  by (induction level j ts rule: validate_from.induct) (auto simp: tables_disjoint_def not_le not_less)

text \<open>Sorting pairwise disjoint tables by their smallest key.\<close>

abbreviation apart :: "'bf table_core \<Rightarrow> 'bf table_core \<Rightarrow> bool" where
  "apart a b \<equiv> tb_biggest a < tb_smallest b \<or> tb_biggest b < tb_smallest a"

lemma sorted_wrt_insort_sym:
  assumes "\<And>a b. R a b \<longleftrightarrow> R b a"
  shows "sorted_wrt R (insort_key f x ys) \<longleftrightarrow> (\<forall>y\<in>set ys. R x y) \<and> sorted_wrt R ys"
  using assms by (induction ys) (auto simp: set_insort_key)

lemma sorted_wrt_sort_sym:
  assumes "\<And>a b. R a b \<longleftrightarrow> R b a"
  shows "sorted_wrt R (sort_key f xs) \<longleftrightarrow> sorted_wrt R xs"
  by (induction xs) (auto simp: sorted_wrt_insort_sym [OF assms])

lemma sort_apart:
  assumes "sorted_wrt apart ts" and wf: "\<forall>t\<in>set ts. tb_smallest t \<le> tb_biggest t"
  shows "tables_disjoint (sort_key tb_smallest ts)"
proof -
  let ?s = "sort_key tb_smallest ts"
  have ap: "sorted_wrt apart ?s" using assms(1) by (subst sorted_wrt_sort_sym) auto
  have le: "sorted_wrt (\<lambda>a b. tb_smallest a \<le> tb_smallest b) ?s"
    using sorted_sort_key [of tb_smallest ts] by (simp add: sorted_wrt_map)
  have "tb_biggest (?s ! i) < tb_smallest (?s ! j)" if ij: "i < j" "j < length ?s" for i j
  proof -
    have "apart (?s ! i) (?s ! j)" "tb_smallest (?s ! i) \<le> tb_smallest (?s ! j)"
      using ap le ij by (auto simp: sorted_wrt_iff_nth_less)
    moreover have "?s ! j \<in> set ts" using ij nth_mem [of j ?s] by simp
    then have "tb_smallest (?s ! j) \<le> tb_biggest (?s ! j)" using wf by blast
    ultimately show ?thesis by (meson leD order_less_le_trans order_trans)
  qed
  then have "sorted_wrt (\<lambda>a b. tb_biggest a < tb_smallest b) ?s" by (simp add: sorted_wrt_iff_nth_less)
  then show ?thesis using wf by (simp add: tables_disjoint_def)
qed

lemma retain_tables_filter:
  "retain_tables keep ts sz refs = (filter keep ts, sz - of_nat (sum_list (map tb_size (filter (\<lambda>t. \<not> keep t) ts))),
     foldl (\<lambda>r t. ref_decr r (tb_id t)) refs (filter (\<lambda>t. \<not> keep t) ts))"
  by (induction keep ts sz refs rule: retain_tables.induct) (auto simp: algebra_simps)

lemma lh_fold_incr [simp]:
  "lh_tables (foldl (\<lambda>h tb. incr_total_size h (f tb)) h ts) = lh_tables h"
  "lh_level (foldl (\<lambda>h tb. incr_total_size h (f tb)) h ts) = lh_level h"
  "lh_total_size (foldl (\<lambda>h tb. incr_total_size h (f tb)) h ts) = lh_total_size h + sum_list (map f ts)"
  by (induction ts arbitrary: h) (simp_all add: incr_total_size_def algebra_simps)

lemma replace_tables_tables:
  "new \<noteq> [] \<Longrightarrow> lh_tables (fst (replace_tables h new refs)) = sort_key tb_smallest
     (filter (\<lambda>t. tb_biggest t \<le> tb_smallest (hd new) \<or> tb_smallest t > tb_biggest (last new)) (lh_tables h) @ new)"
  "lh_level (fst (replace_tables h new refs)) = lh_level h"
  by (auto simp: replace_tables_def Let_def retain_tables_filter)

lemma disjoint_apart: "tables_disjoint ts \<Longrightarrow> sorted_wrt apart ts"
  unfolding tables_disjoint_def by (rule sorted_wrt_mono_rel [of ts "\<lambda>a b. tb_biggest a < tb_smallest b"]) auto

lemma disjoint_between:
  assumes "tables_disjoint ts" and "t \<in> set ts"
  shows "tb_smallest (hd ts) \<le> tb_smallest t" and "tb_biggest t \<le> tb_biggest (last ts)"
proof -
  obtain i where i: "i < length ts" "ts ! i = t" using assms(2) by (auto simp: in_set_conv_nth)
  have s: "tb_biggest (ts ! a) < tb_smallest (ts ! b)" if "a < b" "b < length ts" for a b
    using assms(1) that by (simp add: tables_disjoint_def sorted_wrt_iff_nth_less)
  have wf: "tb_smallest (ts ! a) \<le> tb_biggest (ts ! a)" if "a < length ts" for a
    using assms(1) that by (simp add: tables_disjoint_def)
  have ts: "ts \<noteq> []" using assms(2) by auto
  show "tb_smallest (hd ts) \<le> tb_smallest t"
    using s [of 0 i] wf [of 0] i ts by (cases "i = 0") (auto simp: hd_conv_nth)
  show "tb_biggest t \<le> tb_biggest (last ts)"
  proof (cases "i = length ts - 1")
    case True
    then show ?thesis using i ts by (simp add: last_conv_nth)
  next
    case False
    then have "i < length ts - 1" using i(1) by linarith
    then have "tb_biggest (ts ! i) < tb_smallest (ts ! (length ts - 1))" using s [of i "length ts - 1"] by simp
    also have "\<dots> \<le> tb_biggest (ts ! (length ts - 1))" using wf ts by simp
    finally show ?thesis using i ts by (simp add: last_conv_nth)
  qed
qed

lemma replace_order:
  assumes "tables_disjoint (lh_tables h)" and "tables_disjoint new" and "new \<noteq> []"
    and "\<forall>t\<in>set (lh_tables h). tb_biggest t \<noteq> tb_smallest (hd new)"
  shows "lh_validate (fst (replace_tables h new refs)) = Inr ()
    \<and> tables_disjoint (lh_tables (fst (replace_tables h new refs)))
    \<and> set (lh_tables (fst (replace_tables h new refs))) = set new \<union>
        {t \<in> set (lh_tables h). tb_biggest t < tb_smallest (hd new) \<or> tb_biggest (last new) < tb_smallest t}"
proof -
  let ?keep = "filter (\<lambda>t. tb_biggest t \<le> tb_smallest (hd new) \<or> tb_smallest t > tb_biggest (last new)) (lh_tables h)"
  have keep: "set ?keep = {t \<in> set (lh_tables h). tb_biggest t < tb_smallest (hd new) \<or> tb_biggest (last new) < tb_smallest t}"
    using assms(4) by (auto simp: order_le_less)
  have "apart a b" if "a \<in> set ?keep" "b \<in> set new" for a b
    using that(1) disjoint_between [OF assms(2) that(2)] unfolding keep by (auto intro: order_less_le_trans order_le_less_trans)
  then have "sorted_wrt apart (?keep @ new)"
    using disjoint_apart [OF assms(1)] disjoint_apart [OF assms(2)]
    by (auto simp: sorted_wrt_append sorted_wrt_filter)
  then have d: "tables_disjoint (sort_key tb_smallest (?keep @ new))"
    using assms(1,2) by (intro sort_apart) (auto simp: tables_disjoint_def)
  have "lh_tables (fst (replace_tables h new refs)) = sort_key tb_smallest (?keep @ new)"
    using replace_tables_tables(1) [OF assms(3)] .
  with d keep validate_from_disjoint [OF d] show ?thesis by (auto simp: lh_validate_def)
qed

text \<open>
  C15. Replacing tables keeps a level sorted and disjoint. When a deeper level validates, the new
  tables are sorted and disjoint themselves, and no old table ends exactly at the first new key,
  then after \<open>replace_tables\<close> the level validates again, holds all new tables, and every old table
  it still holds lies outside the range of the new ones.
\<close>

theorem replace_tables_keeps_order:
  assumes "tables_disjoint (lh_tables h)" and "tables_disjoint new" and "new \<noteq> []"
    and "\<forall>t\<in>set (lh_tables h). tb_biggest t \<noteq> tb_smallest (hd new)"
  shows "lh_validate (fst (replace_tables h new refs)) = Inr ()
    \<and> tables_disjoint (lh_tables (fst (replace_tables h new refs)))
    \<and> set (lh_tables (fst (replace_tables h new refs))) = set new \<union>
        {t \<in> set (lh_tables h). tb_biggest t < tb_smallest (hd new) \<or> tb_biggest (last new) < tb_smallest t}"
  using assms by (rule replace_order)

text \<open>Non-vacuity of C15: of three tables the middle one gives way to a new one that spans more keys.\<close>

theorem replace_tables_keeps_order_witness:
  "let h = \<lparr>lh_tables = [example_table 1, example_table 2, example_table 3], lh_total_size = 0, lh_level = 1,
       lh_max_total_size = 0, lh_opt = options_default ''''\<rparr>;
       new = (example_table 2)\<lparr>tb_id := 9, tb_smallest := [1, 1], tb_biggest := [2, 1]\<rparr>;
       h' = fst (replace_tables h [new] (\<lambda>_. 1))
   in lh_validate h' = Inr () \<and> set (lh_tables h') = {new, example_table 1, example_table 3}"
proof -
  let ?h = "\<lparr>lh_tables = [example_table 1, example_table 2, example_table 3], lh_total_size = 0, lh_level = 1,
    lh_max_total_size = 0, lh_opt = options_default ''''\<rparr>"
  let ?new = "(example_table 2)\<lparr>tb_id := 9, tb_smallest := [1, 1], tb_biggest := [2, 1]\<rparr>"
  have keys: "tb_smallest (example_table b) = [b]" "tb_biggest (example_table b) = [b]" for b by (simp_all add: example_table_def)
  have "tables_disjoint (lh_tables ?h)" "tables_disjoint [?new]" "[?new] \<noteq> []"
    "\<forall>t\<in>set (lh_tables ?h). tb_biggest t \<noteq> tb_smallest (hd [?new])"
    by (simp_all add: tables_disjoint_def keys)
  note new = replace_tables_keeps_order [OF this, of "\<lambda>_. 1"]
  have "{t \<in> set (lh_tables ?h). tb_biggest t < tb_smallest (hd [?new]) \<or> tb_biggest (last [?new]) < tb_smallest t}
      = {example_table 1, example_table 3}" by (auto simp: keys)
  with new show ?thesis by (simp add: Let_def)
qed

text \<open>
  C37. The bound of \<open>replace_tables\<close> is off by one. A table that ends exactly at the first key of the
  new tables overlaps them, but \<open>biggest <= left\<close> keeps it, and the level no longer validates.
\<close>

theorem replace_tables_keeps_touching:
  assumes "t \<in> set (lh_tables h)" and "tb_biggest t = tb_smallest (hd new)" and "new \<noteq> []" and "lh_level h \<noteq> 0"
    and "t \<noteq> hd new" and "tb_smallest t \<le> tb_biggest t" and "tb_smallest (hd new) \<le> tb_biggest (hd new)"
  shows "t \<in> set (lh_tables (fst (replace_tables h new refs)))
    \<and> lh_validate (fst (replace_tables h new refs)) \<noteq> Inr ()"
proof -
  let ?ts = "lh_tables (fst (replace_tables h new refs))"
  have in_ts: "t \<in> set ?ts" "hd new \<in> set ?ts" using assms(1,2,3) by (auto simp: replace_tables_tables(1))
  have "lh_validate (fst (replace_tables h new refs)) \<noteq> Inr ()"
  proof
    assume "lh_validate (fst (replace_tables h new refs)) = Inr ()"
    then have "sorted_wrt (\<lambda>a b. tb_biggest a < tb_smallest b) ?ts"
      using assms(4) validate_from_sorted(1) [of "lh_level h" 1 ?ts]
      by (simp add: lh_validate_def replace_tables_tables(2))
    moreover obtain i j where ij: "i < length ?ts" "?ts ! i = t" "j < length ?ts" "?ts ! j = hd new"
      using in_ts unfolding in_set_conv_nth by blast
    moreover have "i \<noteq> j" using ij assms(5) by auto
    ultimately have "apart t (hd new)" unfolding sorted_wrt_iff_nth_less by (metis linorder_neqE_nat)
    then consider "tb_biggest t < tb_smallest (hd new)" | "tb_biggest (hd new) < tb_smallest t" by blast
    then show False
    proof cases
      case 1
      with assms(2) show False by simp
    next
      case 2
      then have "tb_biggest (hd new) < tb_biggest t" using assms(6) by (rule order_less_le_trans)
      with assms(2,7) show False by simp
    qed
  qed
  with in_ts(1) show ?thesis by blast
qed

text \<open>Non-vacuity of C37.\<close>

theorem replace_tables_keeps_touching_witness:
  "lh_validate (fst (replace_tables \<lparr>lh_tables = [example_table 1], lh_total_size = 0, lh_level = 1,
       lh_max_total_size = 0, lh_opt = options_default ''''\<rparr> [(example_table 1)\<lparr>tb_id := 2\<rparr>] (\<lambda>_. 1))) \<noteq> Inr ()"
proof -
  let ?h = "\<lparr>lh_tables = [example_table 1], lh_total_size = 0, lh_level = 1, lh_max_total_size = 0, lh_opt = options_default ''''\<rparr>"
  let ?new = "[(example_table 1)\<lparr>tb_id := 2\<rparr>]"
  have "example_table 1 \<in> set (lh_tables ?h)" "tb_biggest (example_table 1) = tb_smallest (hd ?new)" "?new \<noteq> []"
    "lh_level ?h \<noteq> 0" by (simp_all add: example_table_def)
  moreover have "tb_id (example_table 1) \<noteq> tb_id (hd ?new)" by (simp add: example_table_def mk_table_def)
  then have "example_table 1 \<noteq> hd ?new" by metis
  moreover have "tb_smallest (example_table 1) \<le> tb_biggest (example_table 1)" "tb_smallest (hd ?new) \<le> tb_biggest (hd ?new)"
    by (simp_all add: example_table_def)
  ultimately show ?thesis using replace_tables_keeps_touching by blast
qed

subsection \<open>The recorded size\<close>

text \<open>Everything that changes the tables of a level.\<close>

inductive lh_step :: "'bf level_handler \<Rightarrow> 'bf level_handler \<Rightarrow> bool" where
  step_init: "lh_step h (init_tables h ts)"
| step_delete: "lh_step h (fst (delete_tables h ids refs))"
| step_replace: "lh_step h (fst (replace_tables h new refs))"
| step_add: "try_add_level0_table h t refs = Some (ok, h', refs') \<Longrightarrow> lh_step h h'"

inductive_cases lh_stepE: "lh_step h h'"

definition size_ok :: "'bf level_handler \<Rightarrow> bool" where
  "size_ok h \<longleftrightarrow> lh_total_size h = of_nat (sum_list (map tb_size (lh_tables h)))"

lemma sum_filter: "sum_list (map f (filter P xs)) + sum_list (map f (filter (\<lambda>x. \<not> P x) xs)) = (sum_list (map f xs) :: nat)"
  by (induction xs) auto

lemma retain_size:
  assumes "sz = of_nat (sum_list (map tb_size ts)) + c"
  shows "sz - of_nat (sum_list (map tb_size (filter (\<lambda>t. \<not> P t) ts))) = of_nat (sum_list (map tb_size (filter P ts))) + (c :: u64)"
proof -
  have "(of_nat (sum_list (map tb_size ts)) :: u64)
      = of_nat (sum_list (map tb_size (filter P ts))) + of_nat (sum_list (map tb_size (filter (\<lambda>t. \<not> P t) ts)))"
    unfolding sum_filter [of tb_size P ts, symmetric] by (rule of_nat_add)
  with assms show ?thesis by (simp add: algebra_simps)
qed

lemma sum_list_insort: "sum_list (map f (insort_key g x xs)) = f x + (sum_list (map f xs) :: nat)"
  by (induction xs) simp_all

lemma sum_list_sort [simp]: "sum_list (map f (sort_key g xs)) = (sum_list (map f xs) :: nat)"
  by (induction xs) (simp_all add: sum_list_insort)

lemma of_nat_sum: "sum_list (map (\<lambda>t. of_nat (f t)) xs) = (of_nat (sum_list (map f xs)) :: u64)"
  by (induction xs) simp_all

lemma foldl_sum: "foldl (\<lambda>acc t. acc + f t) a xs = a + (sum_list (map f xs) :: nat)"
  by (induction xs arbitrary: a) simp_all

lemma step_size_ok: "lh_step h h' \<Longrightarrow> size_ok h \<Longrightarrow> size_ok h'"
proof (induction rule: lh_step.induct)
  case (step_init h ts)
  then show ?case by (simp add: size_ok_def init_tables_def foldl_sum)
next
  case (step_delete h ids refs)
  then show ?case using retain_size [of "lh_total_size h" "lh_tables h" 0 "\<lambda>t. tb_id t \<notin> set ids"]
    by (simp add: size_ok_def delete_tables_def retain_tables_filter)
next
  case (step_replace h new refs)
  show ?case
  proof (cases "new = []")
    case True
    then show ?thesis using step_replace by (simp add: replace_tables_def)
  next
    case False
    then show ?thesis
      using step_replace retain_size [of "lh_total_size h + of_nat (sum_list (map tb_size new))" "lh_tables h" "of_nat (sum_list (map tb_size new))"
          "\<lambda>tb. tb_biggest tb \<le> tb_smallest (hd new) \<or> tb_smallest tb > tb_biggest (last new)"]
      by (simp add: size_ok_def replace_tables_def Let_def retain_tables_filter of_nat_sum)
  qed
next
  case (step_add h t refs ok h' refs')
  then show ?case by (auto simp: size_ok_def try_add_level0_table_def incr_total_size_def split: if_splits)
qed

text \<open>
  C30. The recorded size of a level. Whatever sequence of \<open>init_tables\<close>, \<open>delete_tables\<close>,
  \<open>replace_tables\<close> and \<open>try_add_level0_table\<close> a level goes through from its creation on, its
  \<open>total_size\<close> is the sum of the sizes of its tables (as a 64-bit number): no update loses or
  counts a table twice.
\<close>

theorem level_size_invariant:
  assumes "lh_step\<^sup>*\<^sup>* (lh_new opt level) h"
  shows "lh_total_size h = of_nat (sum_list (map tb_size (lh_tables h)))"
proof -
  have "size_ok h" using assms
    by (induction rule: rtranclp_induct) (simp add: size_ok_def lh_new_def, blast intro: step_size_ok)
  then show ?thesis by (simp add: size_ok_def)
qed

text \<open>Non-vacuity of C30: a table added at level 0.\<close>

theorem level_size_invariant_witness:
  "\<exists>h refs'. try_add_level0_table (lh_new (options_default '''') 0) (example_table 1) (\<lambda>_. 1) = Some (True, h, refs')
     \<and> lh_total_size h = of_nat (tb_size (example_table 1))"
proof -
  obtain h refs' where h: "try_add_level0_table (lh_new (options_default '''') 0) (example_table 1) (\<lambda>_. 1) = Some (True, h, refs')"
    "lh_tables h = [example_table 1]"
    by (auto simp: try_add_level0_table_def lh_new_def options_default_def incr_total_size_def)
  have "lh_step\<^sup>*\<^sup>* (lh_new (options_default '''') 0) h" using step_add [OF h(1)] by blast
  from level_size_invariant [OF this] h show ?thesis by auto
qed

end
