(* ===== verification/Compaction.thy ===== *)
theory Compaction
  imports Level_Handler "HOL-Library.Multiset"
begin

section \<open>Compaction bookkeeping\<close>

text \<open>
  Models \<open>CompactStatus\<close> and \<open>LevelCompactStatus\<close> of \<open>src/src/compaction.rs\<close> and \<open>CompactDef\<close>
  of \<open>src/src/levels.rs\<close>. A compaction reserves a key range on its level and one on the next before
  it runs and releases them afterwards. A \<open>CompactDef\<close> holds shared handlers of its two levels; here
  it holds their numbers, and an operation that reads a handler takes it as an argument. The step
  relation \<open>cs_step\<close> has any number of compactions start, be refused and finish in any order.
\<close>

record level_compact_status =
  lcs_ranges :: "key_range list"
  lcs_del_size :: u64

definition lcs_default :: level_compact_status where
  "lcs_default = \<lparr>lcs_ranges = [], lcs_del_size = 0\<rparr>"

definition lcs_overlaps_with :: "level_compact_status \<Rightarrow> key_range \<Rightarrow> bool" where
  "lcs_overlaps_with lc dst = list_ex (\<lambda>kr. kr_overlaps_with kr dst) (lcs_ranges lc)"

definition lcs_remove :: "level_compact_status \<Rightarrow> key_range \<Rightarrow> bool \<times> level_compact_status" where
  "lcs_remove lc dst =
     (let rs = filter (\<lambda>r. \<not> kr_equals r dst) (lcs_ranges lc)
      in (length (lcs_ranges lc) > length rs, lc\<lparr>lcs_ranges := rs\<rparr>))"

definition lcs_add :: "level_compact_status \<Rightarrow> key_range \<Rightarrow> level_compact_status" where
  "lcs_add lc dst = lc\<lparr>lcs_ranges := lcs_ranges lc @ [dst]\<rparr>"

definition incr_del_size :: "level_compact_status \<Rightarrow> u64 \<Rightarrow> level_compact_status" where
  "incr_del_size lc n = lc\<lparr>lcs_del_size := lcs_del_size lc + n\<rparr>"

definition decr_del_size :: "level_compact_status \<Rightarrow> u64 \<Rightarrow> level_compact_status" where
  "decr_del_size lc n = lc\<lparr>lcs_del_size := lcs_del_size lc - n\<rparr>"

record 'bf compact_def =
  cd_this_level :: nat
  cd_next_level :: nat
  cd_top :: "'bf table_core list"
  cd_bot :: "'bf table_core list"
  cd_this_range :: key_range
  cd_next_range :: key_range
  cd_this_size :: u64

definition cd_new :: "nat \<Rightarrow> nat \<Rightarrow> 'bf compact_def" where
  "cd_new this_level next_level =
     \<lparr>cd_this_level = this_level, cd_next_level = next_level, cd_top = [], cd_bot = [],
      cd_this_range = kr_default, cd_next_range = kr_default, cd_this_size = 0\<rparr>"

type_synonym compact_status = "level_compact_status list"

definition cs_default :: compact_status where "cs_default = []"

text \<open>
  \<open>compare_and_add\<close>; \<open>h\<close> is the handler of \<open>cd.this_level\<close>. \<open>None\<close> is a failed assertion or an
  underflow of \<open>u64\<close>.
\<close>

definition compare_and_add ::
  "compact_status \<Rightarrow> 'bf compact_def \<Rightarrow> 'bf level_handler \<Rightarrow> (bool \<times> compact_status) option" where
  "compare_and_add cs cd h =
     (let level = cd_this_level cd in
      if \<not> level + 1 < length cs then None
      else if lcs_overlaps_with (cs ! level) (cd_this_range cd) then Some (False, cs)
      else if lcs_overlaps_with (cs ! (level + 1)) (cd_next_range cd) then Some (False, cs)
      else do {
        live \<leftarrow> checked_sub (unat (lh_total_size h)) (unat (lcs_del_size (cs ! level)));
        if live < unat (lh_max_total_size h) then Some (False, cs)
        else
          let cs = cs[level := lcs_add (cs ! level) (cd_this_range cd)];
              cs = cs[level + 1 := lcs_add (cs ! (level + 1)) (cd_next_range cd)];
              cs = cs[level := incr_del_size (cs ! level) (cd_this_size cd)]
          in Some (True, cs) })"

text \<open>\<open>delete\<close>: a missing range on this level is a panic, on the next level only a warning.\<close>

definition cs_delete :: "compact_status \<Rightarrow> 'bf compact_def \<Rightarrow> compact_status option" where
  "cs_delete cs cd =
     (let level = cd_this_level cd in
      if \<not> (length cs \<ge> 1 \<and> level < length cs - 1) then None
      else
        let cs = cs[level := decr_del_size (cs ! level) (cd_this_size cd)];
            (found, lc) = lcs_remove (cs ! level) (cd_this_range cd);
            cs = cs[level := lc]
        in if \<not> found then None
           else let (found, lc) = lcs_remove (cs ! (level + 1)) (cd_next_range cd)
                in Some (cs[level + 1 := lc]))"

definition cs_overlaps_with :: "compact_status \<Rightarrow> nat \<Rightarrow> key_range \<Rightarrow> bool option" where
  "cs_overlaps_with cs level kr = (if level < length cs then Some (lcs_overlaps_with (cs ! level) kr) else None)"

definition cs_del_size :: "compact_status \<Rightarrow> nat \<Rightarrow> u64 option" where
  "cs_del_size cs level = (if level < length cs then Some (lcs_del_size (cs ! level)) else None)"

subsection \<open>Running compactions\<close>

definition kr_wf :: "key_range \<Rightarrow> bool" where
  "kr_wf kr \<longleftrightarrow> kr_inf kr \<or> kr_left kr \<le> kr_right kr"

definition cd_wf :: "'bf compact_def \<Rightarrow> bool" where
  "cd_wf cd \<longleftrightarrow> cd_next_level cd = cd_this_level cd + 1 \<and> kr_wf (cd_this_range cd) \<and> kr_wf (cd_next_range cd)"

inductive cs_step :: "compact_status \<times> 'bf compact_def list \<Rightarrow> compact_status \<times> 'bf compact_def list \<Rightarrow> bool" where
  cs_start: "cd_wf cd \<Longrightarrow> compare_and_add cs cd h = Some (True, cs') \<Longrightarrow> cs_step (cs, run) (cs', cd # run)"
| cs_refuse: "compare_and_add cs (cd :: 'bf compact_def) h = Some (False, cs') \<Longrightarrow> cs_step (cs, run) (cs', run)"
| cs_finish: "cd \<in> set run \<Longrightarrow> cs_delete cs cd = Some cs' \<Longrightarrow> cs_step (cs, run) (cs', remove1 cd run)"

inductive_cases cs_stepE: "cs_step s s'"

text \<open>The ranges that running compactions hold on a level, and the sizes they have taken from it.\<close>

definition reserved :: "'bf compact_def list \<Rightarrow> nat \<Rightarrow> key_range list" where
  "reserved run i =
     map cd_this_range (filter (\<lambda>cd. cd_this_level cd = i) run)
     @ map cd_next_range (filter (\<lambda>cd. cd_next_level cd = i) run)"

definition taken :: "'bf compact_def list \<Rightarrow> nat \<Rightarrow> u64" where
  "taken run i = sum_list (map cd_this_size (filter (\<lambda>cd. cd_this_level cd = i) run))"

definition apart_ranges :: "key_range list \<Rightarrow> bool" where
  "apart_ranges = sorted_wrt (\<lambda>a b. \<not> kr_overlaps_with a b)"

definition cs_inv :: "nat \<Rightarrow> compact_status \<times> 'bf compact_def list \<Rightarrow> bool" where
  "cs_inv n s \<longleftrightarrow>
     (case s of (cs, run) \<Rightarrow>
        length cs = n \<and> (\<forall>cd\<in>set run. cd_wf cd \<and> cd_next_level cd < n)
        \<and> (\<forall>i<n. mset (lcs_ranges (cs ! i)) = mset (reserved run i) \<and> lcs_del_size (cs ! i) = taken run i
             \<and> apart_ranges (lcs_ranges (cs ! i)) \<and> list_all kr_wf (lcs_ranges (cs ! i))))"

lemma kr_overlaps_sym: "kr_overlaps_with a b = kr_overlaps_with b a"
  by (auto simp: kr_overlaps_with_def)

lemma kr_equals_overlaps: "kr_wf a \<Longrightarrow> kr_wf b \<Longrightarrow> kr_equals a b \<Longrightarrow> kr_overlaps_with a b"
  by (auto simp: kr_wf_def kr_equals_def kr_overlaps_with_def)

lemma sorted_wrt_sym_mset:
  assumes sym: "\<And>a b. R a b \<Longrightarrow> R b a"
  shows "sorted_wrt R xs \<Longrightarrow> mset xs = mset ys \<Longrightarrow> sorted_wrt R ys"
proof (induction xs arbitrary: ys)
  case (Cons a xs)
  then have "a \<in> set ys" by (metis list.set_intros(1) set_mset_mset)
  then obtain us vs where ys: "ys = us @ a # vs" by (meson split_list)
  with Cons.prems have m: "mset xs = mset (us @ vs)" by simp
  with Cons have "sorted_wrt R (us @ vs)" by simp
  moreover have "\<forall>b\<in>set (us @ vs). R a b" using Cons.prems(1) mset_eq_setD [OF m] by simp
  ultimately show ?case using sym by (auto simp: ys sorted_wrt_append)
qed simp

lemma apart_ranges_mset: "apart_ranges xs \<Longrightarrow> mset xs = mset ys \<Longrightarrow> apart_ranges ys"
  unfolding apart_ranges_def by (erule sorted_wrt_sym_mset [rotated]) (simp_all add: kr_overlaps_sym)

lemma apart_ranges_snoc:
  "apart_ranges (rs @ [r]) \<longleftrightarrow> apart_ranges rs \<and> \<not> list_ex (\<lambda>kr. kr_overlaps_with kr r) rs"
  by (auto simp: apart_ranges_def sorted_wrt_append list_ex_iff)

text \<open>
  Among disjoint ranges, removing by \<open>equals\<close>, which only compares the left bounds, removes the
  wanted range and no other.
\<close>

lemma lcs_remove_exact:
  assumes "apart_ranges (lcs_ranges lc)" and wf: "list_all kr_wf (lcs_ranges lc)" and "r \<in> set (lcs_ranges lc)"
  obtains us vs where "lcs_ranges lc = us @ r # vs" and "lcs_remove lc r = (True, lc\<lparr>lcs_ranges := us @ vs\<rparr>)"
proof -
  from assms(3) obtain us vs where split: "lcs_ranges lc = us @ r # vs" by (meson split_list)
  have "\<not> kr_equals x r" if "x \<in> set us \<union> set vs" for x
  proof -
    have "\<not> kr_overlaps_with x r"
      using assms(1) that kr_overlaps_sym by (auto simp: apart_ranges_def split sorted_wrt_append)
    moreover have "kr_wf x" "kr_wf r" using wf that by (auto simp: split list_all_iff)
    ultimately show ?thesis using kr_equals_overlaps by blast
  qed
  moreover have "kr_equals r r" by (simp add: kr_equals_def)
  ultimately have "filter (\<lambda>x. \<not> kr_equals x r) (lcs_ranges lc) = us @ vs"
    by (auto simp: split intro!: filter_True)
  with split show thesis by (intro that [of us vs]) (simp_all add: lcs_remove_def)
qed

lemma reserved_Cons:
  "mset (reserved (cd # run) i) =
     (if cd_this_level cd = i then {#cd_this_range cd#} else {#})
     + (if cd_next_level cd = i then {#cd_next_range cd#} else {#}) + mset (reserved run i)"
  by (simp add: reserved_def)

lemma taken_Cons: "taken (cd # run) i = (if cd_this_level cd = i then cd_this_size cd else 0) + taken run i"
  by (simp add: taken_def)

lemma reserved_mset: "mset run = mset run' \<Longrightarrow> mset (reserved run i) = mset (reserved run' i)"
  by (simp add: reserved_def mset_filter)

lemma taken_sum_mset:
  "taken run i = sum_mset (image_mset cd_this_size (filter_mset (\<lambda>cd. cd_this_level cd = i) (mset run)))"
  unfolding taken_def sum_mset_sum_list [symmetric] by simp

lemma taken_mset: "mset run = mset run' \<Longrightarrow> taken run i = taken run' i"
  by (simp add: taken_sum_mset)

lemmas reserved_remove1 = reserved_mset [of run "cd # remove1 cd run" for cd run, unfolded reserved_Cons]
  and taken_remove1 = taken_mset [of run "cd # remove1 cd run" for cd run, unfolded taken_Cons]

lemma cs_inv_start:
  assumes inv: "cs_inv n (cs, run)" and wf: "cd_wf cd" and ok: "compare_and_add cs cd h = Some (True, cs')"
  shows "cs_inv n (cs', cd # run)"
proof -
  define l where "l = cd_this_level cd"
  have len: "length cs = n" and next_l: "cd_next_level cd = Suc l"
    using inv wf by (auto simp: cs_inv_def cd_wf_def l_def)
  have l: "Suc l < n" and o1: "\<not> lcs_overlaps_with (cs ! l) (cd_this_range cd)"
    and o2: "\<not> lcs_overlaps_with (cs ! Suc l) (cd_next_range cd)"
    and cs': "cs' = cs[l := incr_del_size (lcs_add (cs ! l) (cd_this_range cd)) (cd_this_size cd),
                      Suc l := lcs_add (cs ! Suc l) (cd_next_range cd)]"
    using ok len by (auto simp: compare_and_add_def l_def Let_def bind_eq_Some_conv list_update_swap split: if_splits)
  have at: "mset (lcs_ranges (cs ! i)) = mset (reserved run i)" "lcs_del_size (cs ! i) = taken run i"
    "apart_ranges (lcs_ranges (cs ! i))" "list_all kr_wf (lcs_ranges (cs ! i))" if "i < n" for i
    using inv that by (auto simp: cs_inv_def)
  have "mset (lcs_ranges (cs' ! i)) = mset (reserved (cd # run) i) \<and> lcs_del_size (cs' ! i) = taken (cd # run) i
      \<and> apart_ranges (lcs_ranges (cs' ! i)) \<and> list_all kr_wf (lcs_ranges (cs' ! i))" if "i < n" for i
    using at [OF that] l o1 o2 wf len
    by (auto simp: cs' nth_list_update reserved_Cons taken_Cons next_l l_def [symmetric] lcs_add_def incr_del_size_def
        apart_ranges_snoc lcs_overlaps_with_def cd_wf_def)
  with inv l wf next_l len cs' show ?thesis by (simp add: cs_inv_def)
qed

lemma cs_inv_finish:
  assumes inv: "cs_inv n (cs, run)" and cd: "cd \<in> set run"
  shows "\<exists>cs'. cs_delete cs cd = Some cs' \<and> cs_inv n (cs', remove1 cd run)"
proof -
  define l where "l = cd_this_level cd"
  have len: "length cs = n" and wf: "cd_next_level cd = Suc l" and l: "Suc l < n"
    using inv cd by (auto simp: cs_inv_def cd_wf_def l_def)
  have at: "mset (lcs_ranges (cs ! i)) = mset (reserved run i)" "lcs_del_size (cs ! i) = taken run i"
    "apart_ranges (lcs_ranges (cs ! i))" "list_all kr_wf (lcs_ranges (cs ! i))" if "i < n" for i
    using inv that by (auto simp: cs_inv_def)
  have m: "mset run = mset (cd # remove1 cd run)" using cd by simp
  note res = reserved_remove1 [OF m, folded l_def, unfolded wf] and tak = taken_remove1 [OF m, folded l_def]
  have "cd_this_range cd \<in># mset (lcs_ranges (cs ! l))" "cd_next_range cd \<in># mset (lcs_ranges (cs ! Suc l))"
    using l by (simp_all add: at(1) res)
  then have mem: "cd_this_range cd \<in> set (lcs_ranges (decr_del_size (cs ! l) (cd_this_size cd)))"
    "cd_next_range cd \<in> set (lcs_ranges (cs ! Suc l))"
    by (simp_all add: decr_del_size_def)
  have "apart_ranges (lcs_ranges (decr_del_size (cs ! l) (cd_this_size cd)))"
    "list_all kr_wf (lcs_ranges (decr_del_size (cs ! l) (cd_this_size cd)))"
    using at(3,4) [of l] l by (simp_all add: decr_del_size_def)
  from lcs_remove_exact [OF this mem(1)] obtain us vs where
    this_l: "lcs_ranges (decr_del_size (cs ! l) (cd_this_size cd)) = us @ cd_this_range cd # vs"
      "lcs_remove (decr_del_size (cs ! l) (cd_this_size cd)) (cd_this_range cd)
       = (True, (decr_del_size (cs ! l) (cd_this_size cd))\<lparr>lcs_ranges := us @ vs\<rparr>)" by blast
  from lcs_remove_exact [OF at(3,4) [OF l] mem(2)] obtain us' vs' where
    next_l: "lcs_ranges (cs ! Suc l) = us' @ cd_next_range cd # vs'"
      "lcs_remove (cs ! Suc l) (cd_next_range cd) = (True, (cs ! Suc l)\<lparr>lcs_ranges := us' @ vs'\<rparr>)" by blast
  define cs' where "cs' = cs[l := (decr_del_size (cs ! l) (cd_this_size cd))\<lparr>lcs_ranges := us @ vs\<rparr>,
                            Suc l := (cs ! Suc l)\<lparr>lcs_ranges := us' @ vs'\<rparr>]"
  have del: "cs_delete cs cd = Some cs'"
    using l len this_l(2) next_l(2) by (simp add: cs_delete_def cs'_def l_def [symmetric])
  have this_r: "lcs_ranges (cs ! l) = us @ cd_this_range cd # vs" using this_l(1) by (simp add: decr_del_size_def)
  have "mset (lcs_ranges (cs' ! i)) = mset (reserved (remove1 cd run) i) \<and> lcs_del_size (cs' ! i) = taken (remove1 cd run) i
      \<and> apart_ranges (lcs_ranges (cs' ! i)) \<and> list_all kr_wf (lcs_ranges (cs' ! i))" if "i < n" for i
  proof -
    consider "i = l" | "i = Suc l" | "i \<noteq> l" "i \<noteq> Suc l" by blast
    then show ?thesis
    proof cases
      case 1
      then show ?thesis using at [OF that] l len res [of l] tak [of l]
        by (simp add: cs'_def this_r decr_del_size_def apart_ranges_def sorted_wrt_append)
    next
      case 2
      then show ?thesis using at [OF that] l len res [of "Suc l"] tak [of "Suc l"]
        by (simp add: cs'_def next_l(1) apart_ranges_def sorted_wrt_append)
    next
      case 3
      then show ?thesis using at [OF that] len res [of i] tak [of i] by (simp add: cs'_def)
    qed
  qed
  moreover have "\<forall>c\<in>set (remove1 cd run). cd_wf c \<and> cd_next_level c < n"
    using inv by (auto simp: cs_inv_def dest: notin_set_remove1)
  ultimately show ?thesis using del len by (auto simp: cs_inv_def cs'_def)
qed

lemma cs_inv_step: "cs_step s s' \<Longrightarrow> cs_inv n s \<Longrightarrow> cs_inv n s'"
proof (erule cs_stepE)
  fix cd :: "'a compact_def" and cs h cs' run
  assume "s = (cs, run)" "s' = (cs', run)" "compare_and_add cs cd h = Some (False, cs')" "cs_inv n s"
  then show "cs_inv n s'" by (auto simp: compare_and_add_def Let_def bind_eq_Some_conv split: if_splits)
next
  fix cd :: "'a compact_def" and cs h cs' run
  assume "s = (cs, run)" "s' = (cs', cd # run)" "cd_wf cd" "compare_and_add cs cd h = Some (True, cs')" "cs_inv n s"
  then show "cs_inv n s'" using cs_inv_start by blast
next
  fix cd :: "'a compact_def" and cs cs' run
  assume *: "s = (cs, run)" "s' = (cs', remove1 cd run)" "cd \<in> set run" "cs_delete cs cd = Some cs'" "cs_inv n s"
  then show "cs_inv n s'" using cs_inv_finish [of n cs run cd] by auto
qed

lemma cs_inv_init: "cs_inv n (replicate n lcs_default, [])"
  by (simp add: cs_inv_def lcs_default_def reserved_def taken_def apart_ranges_def)

text \<open>
  C19. Compactions never conflict. Whatever compactions start, are refused or finish, in any order,
  the ranges that the running ones hold on a level never overlap, neither the ranges that are
  compacted away nor the ones that are compacted into; the status records exactly these ranges
  and the sum of their sizes; and a running compaction can always finish, which releases its two ranges
  and leaves those of the others, although ranges are compared by their left bounds only.
\<close>

theorem compactions_never_conflict:
  assumes "cs_step\<^sup>*\<^sup>* (replicate n lcs_default, []) (cs, run)"
  shows "length cs = n
    \<and> (\<forall>i<n. apart_ranges (reserved run i) \<and> mset (lcs_ranges (cs ! i)) = mset (reserved run i)
          \<and> lcs_del_size (cs ! i) = taken run i)
    \<and> (\<forall>cd\<in>set run. \<exists>cs'. cs_delete cs cd = Some cs' \<and>
          (\<forall>i<n. mset (lcs_ranges (cs' ! i)) = mset (reserved (remove1 cd run) i)))"
proof -
  have inv: "cs_inv n (cs, run)"
    using assms cs_inv_init
    by (induction "(cs, run)" arbitrary: cs run rule: rtranclp_induct) (auto dest: cs_inv_step)
  then have "apart_ranges (reserved run i) \<and> mset (lcs_ranges (cs ! i)) = mset (reserved run i)
      \<and> lcs_del_size (cs ! i) = taken run i" if "i < n" for i
    using that apart_ranges_mset [of "lcs_ranges (cs ! i)" "reserved run i"] by (auto simp: cs_inv_def)
  moreover have "\<exists>cs'. cs_delete cs cd = Some cs' \<and> (\<forall>i<n. mset (lcs_ranges (cs' ! i)) = mset (reserved (remove1 cd run) i))"
    if "cd \<in> set run" for cd
    using cs_inv_finish [OF inv that] by (auto simp: cs_inv_def)
  ultimately show ?thesis using inv by (simp add: cs_inv_def)
qed

definition example_cd :: "byte \<Rightarrow> byte \<Rightarrow> unit compact_def" where
  "example_cd a b = (cd_new 1 2)\<lparr>
     cd_this_range := \<lparr>kr_left = [a], kr_right = [b], kr_inf = False\<rparr>,
     cd_next_range := \<lparr>kr_left = [a], kr_right = [b], kr_inf = False\<rparr>, cd_this_size := 7\<rparr>"

definition example_handler :: "unit level_handler" where
  "example_handler = (lh_new (options_default []) 1)\<lparr>lh_total_size := 100, lh_max_total_size := 10\<rparr>"

text \<open>Non-vacuity of C19: two compactions of level 1 with disjoint ranges run at the same time.\<close>

theorem compactions_never_conflict_witness:
  "\<exists>cs. cs_step\<^sup>*\<^sup>* (replicate 3 lcs_default, []) (cs, [example_cd 7 9, example_cd 1 5])
     \<and> lcs_del_size (cs ! 1) = 14 \<and> (\<exists>cs'. cs_delete cs (example_cd 1 5) = Some cs')"
proof -
  define cs1 where "cs1 = snd (the (compare_and_add (replicate 3 lcs_default) (example_cd 1 5) example_handler))"
  define cs2 where "cs2 = snd (the (compare_and_add cs1 (example_cd 7 9) example_handler))"
  note defs = compare_and_add_def example_cd_def example_handler_def cd_new_def lh_new_def lcs_default_def
    lcs_overlaps_with_def lcs_add_def incr_del_size_def kr_overlaps_with_def checked_sub_def numeral_3_eq_3
  have a1: "compare_and_add (replicate 3 lcs_default) (example_cd 1 5) example_handler = Some (True, cs1)"
    by (simp add: cs1_def defs)
  have a2: "compare_and_add cs1 (example_cd 7 9) example_handler = Some (True, cs2)"
    by (simp add: cs2_def cs1_def defs)
  have wf: "cd_wf (example_cd 1 5)" "cd_wf (example_cd 7 9)"
    by (simp_all add: cd_wf_def kr_wf_def example_cd_def cd_new_def)
  have reach: "cs_step\<^sup>*\<^sup>* (replicate 3 lcs_default, []) (cs2, [example_cd 7 9, example_cd 1 5])"
    using r_into_rtranclp [of cs_step, OF cs_start [OF wf(1) a1]] cs_start [OF wf(2) a2]
    by (rule rtranclp.rtrancl_into_rtrancl)
  have "lcs_del_size (cs2 ! 1) = taken [example_cd 7 9, example_cd 1 5] 1"
    using compactions_never_conflict [OF reach] by simp
  moreover have "\<exists>cs'. cs_delete cs2 (example_cd 1 5) = Some cs'"
    using compactions_never_conflict [OF reach] by (auto simp del: remove1.simps)
  ultimately show ?thesis using reach by (auto simp: taken_def example_cd_def cd_new_def)
qed

end
