(* ===== verification/Manifest.thy ===== *)
theory Manifest
  imports Table_Model
begin

section \<open>The manifest\<close>

text \<open>
  Models \<open>src/src/manifest.rs\<close>: the in-memory manifest, the file that logs its change sets, its
  replay and its rewriting. Protobuf serialisation, the checksum, the limit on the bytes one
  \<open>read\<close> of an asynchronous file returns and the buffered writer of \<open>tokio\<close> are code outside the repository; they
  are the fields of the record \<open>pb\<close>. The order in which a \<open>HashMap\<close> is iterated is an argument. A disk maps paths to
  contents and an open file is a path with a position; system calls succeed, except that opening a
  missing file fails. Logging, \<open>Display\<close> and \<open>to_string\<close> are left out.
\<close>

subsection \<open>Changes\<close>

datatype operation = CREATE | DELETE

text \<open>\<open>ProtobufEnumOrUnknown\<close>: \<open>Inl\<close> is a number that is no operation.\<close>

record manifest_change =
  mch_id :: u64
  mch_op :: "int + operation"
  mch_level :: u32

record mchange_builder =
  mcb_id :: u64
  mcb_level :: u32
  mcb_op :: operation

definition mcb_new :: "u64 \<Rightarrow> mchange_builder" where
  "mcb_new i = \<lparr>mcb_id = i, mcb_level = 0, mcb_op = CREATE\<rparr>"

definition mcb_with_level :: "mchange_builder \<Rightarrow> u32 \<Rightarrow> mchange_builder" where
  "mcb_with_level b level = b\<lparr>mcb_level := level\<rparr>"

definition mcb_with_op :: "mchange_builder \<Rightarrow> operation \<Rightarrow> mchange_builder" where
  "mcb_with_op b op = b\<lparr>mcb_op := op\<rparr>"

definition mcb_build :: "mchange_builder \<Rightarrow> manifest_change" where
  "mcb_build b = \<lparr>mch_id = mcb_id b, mch_op = Inr (mcb_op b), mch_level = mcb_level b\<rparr>"

text \<open>
  \<open>pb_spilled ws\<close> is what a \<open>tokio::io::BufWriter\<close> has handed to the vector it wraps after the writes
  \<open>ws\<close>, without a flush. \<open>into_inner\<close> returns the vector and drops what is still buffered.
\<close>

record pb =
  pb_enc :: "manifest_change list \<Rightarrow> bytes"
  pb_dec :: "bytes \<Rightarrow> manifest_change list option"
  pb_crc32 :: "bytes \<Rightarrow> u32"
  pb_read_max :: nat
  pb_spilled :: "bytes list \<Rightarrow> bytes"

subsection \<open>The manifest in memory\<close>

record manifest =
  mf_levels :: "u64 set list"
  mf_tables :: "u64 \<rightharpoonup> 8 word"
  mf_creations :: nat
  mf_deletions :: nat

definition manifest_new :: manifest where
  "manifest_new = \<lparr>mf_levels = [], mf_tables = Map.empty, mf_creations = 0, mf_deletions = 0\<rparr>"

definition apply_manifest_change :: "manifest \<Rightarrow> manifest_change \<Rightarrow> manifest result option" where
  "apply_manifest_change build tc =
     (case mch_op tc of
        Inl unknown \<Rightarrow> None
      | Inr CREATE \<Rightarrow>
          (if mf_tables build (mch_id tc) \<noteq> None
           then Some (Inl (Unexpected (''MANIFEST invalid, table '' @ decimal (unat (mch_id tc)) @ '' exists'')))
           else
             let level = unat (mch_level tc);
                 levels = mf_levels build @ replicate (level + 1 - length (mf_levels build)) {}
             in Some (Inr (build\<lparr>
                  mf_tables := (mf_tables build)(mch_id tc \<mapsto> ucast (mch_level tc)),
                  mf_levels := levels[level := insert (mch_id tc) (levels ! level)],
                  mf_creations := mf_creations build + 1\<rparr>)))
      | Inr DELETE \<Rightarrow>
          (case mf_tables build (mch_id tc) of
             None \<Rightarrow> Some (Inl (Unexpected (''MANIFEST removes non-existing table '' @ decimal (unat (mch_id tc)))))
           | Some l \<Rightarrow>
               if unat l < length (mf_levels build) \<and> mch_id tc \<in> mf_levels build ! unat l
               then Some (Inr (build\<lparr>
                      mf_tables := (mf_tables build)(mch_id tc := None),
                      mf_levels := (mf_levels build)[unat l := mf_levels build ! unat l - {mch_id tc}],
                      mf_deletions := mf_deletions build + 1\<rparr>))
               else None))"

text \<open>A failing change stops the set; the changes before it stay applied.\<close>

fun apply_manifest_change_set :: "manifest \<Rightarrow> manifest_change list \<Rightarrow> (manifest \<times> unit result) option" where
  "apply_manifest_change_set build [] = Some (build, Inr ())"
| "apply_manifest_change_set build (change # changes) = do {
     r \<leftarrow> apply_manifest_change build change;
     (case r of Inl e \<Rightarrow> Some (build, Inl e) | Inr build \<Rightarrow> apply_manifest_change_set build changes) }"

definition as_changes :: "manifest \<Rightarrow> u64 list \<Rightarrow> manifest_change list" where
  "as_changes m order =
     map (\<lambda>i. mcb_build (mcb_with_level (mcb_with_op (mcb_new i) CREATE) (ucast (the (mf_tables m i))))) order"

subsection \<open>The file\<close>

type_synonym disk = "string \<rightharpoonup> bytes"

record fhandle =
  fh_path :: string
  fh_pos :: nat

text \<open>Writing at a position; a gap beyond the end is filled with zeros.\<close>

definition overwrite :: "bytes \<Rightarrow> nat \<Rightarrow> bytes \<Rightarrow> bytes" where
  "overwrite c pos bs = take pos c @ replicate (pos - length c) 0 @ bs @ drop (pos + length bs) c"

definition fh_write :: "disk \<Rightarrow> fhandle \<Rightarrow> bytes \<Rightarrow> disk \<times> fhandle" where
  "fh_write disk fp bs =
     (disk(fh_path fp \<mapsto> overwrite (case disk (fh_path fp) of Some c \<Rightarrow> c | None \<Rightarrow> []) (fh_pos fp) bs),
      fp\<lparr>fh_pos := fh_pos fp + length bs\<rparr>)"

definition open_existing_synced_file :: "disk \<Rightarrow> string \<Rightarrow> fhandle result" where
  "open_existing_synced_file disk path =
     (case disk path of
        None \<Rightarrow> Inl (StdIO KindNotFound (Some 2))
      | Some c \<Rightarrow> Inr \<lparr>fh_path = path, fh_pos = 0\<rparr>)"

definition MANIFEST_FILENAME :: string where "MANIFEST_FILENAME = ''MANIFEST''"
definition MANIFEST_REWRITE_FILENAME :: string where "MANIFEST_REWRITE_FILENAME = ''MANIFEST-REWRITE''"
definition MANIFEST_DELETIONS_REWRITE_THRESHOLD :: u32 where "MANIFEST_DELETIONS_REWRITE_THRESHOLD = 10000"
definition MANIFEST_DELETIONS_RATIO :: nat where "MANIFEST_DELETIONS_RATIO = 10"
definition MAGIC_TEXT :: bytes where "MAGIC_TEXT = [0x62, 0x64, 0x67, 0x72]"
definition MAGIC_VERSION :: u32 where "MAGIC_VERSION = 2"

definition change_set_bytes :: "pb \<Rightarrow> manifest_change list \<Rightarrow> bytes" where
  "change_set_bytes pb changes =
     (let content = pb_enc pb changes
      in enc_u32 (of_nat (length content)) @ enc_u32 (pb_crc32 pb content) @ content)"

text \<open>What both \<open>help_rewrite\<close>s write into their buffered writer, call by call, and all of it together.\<close>

definition rewrite_writes :: "pb \<Rightarrow> manifest \<Rightarrow> u64 list \<Rightarrow> bytes list" where
  "rewrite_writes pb m order =
     (let mf_buffer = pb_enc pb (as_changes m order)
      in [MAGIC_TEXT, enc_u32 MAGIC_VERSION, enc_u32 (of_nat (length mf_buffer)), enc_u32 (pb_crc32 pb mf_buffer), mf_buffer])"

definition rewrite_bytes :: "pb \<Rightarrow> manifest \<Rightarrow> u64 list \<Rightarrow> bytes" where
  "rewrite_bytes pb m order = concat (rewrite_writes pb m order)"

text \<open>
  The two \<open>help_rewrite\<close>s write a new file beside the old one and rename it over it. The one of
  \<open>ManifestFile\<close> takes the vector out of the buffered writer without a flush, so that the file gets
  only what the writer has handed over, and leaves the reopened file at its start. The one of
  \<open>Manifest\<close> flushes first and leaves the file at its end.
\<close>

definition file_help_rewrite :: "pb \<Rightarrow> string \<Rightarrow> manifest \<Rightarrow> u64 list \<Rightarrow> disk \<Rightarrow> (fhandle \<times> nat) \<times> disk" where
  "file_help_rewrite pb dir m order disk =
     (let path = path_join dir MANIFEST_FILENAME;
          disk = disk(path_join dir MANIFEST_REWRITE_FILENAME := None, path \<mapsto> pb_spilled pb (rewrite_writes pb m order))
      in ((\<lparr>fh_path = path, fh_pos = 0\<rparr>, card (dom (mf_tables m))), disk))"

definition manifest_help_rewrite :: "pb \<Rightarrow> string \<Rightarrow> manifest \<Rightarrow> u64 list \<Rightarrow> disk \<Rightarrow> (fhandle \<times> nat) \<times> disk" where
  "manifest_help_rewrite pb dir m order disk =
     (let path = path_join dir MANIFEST_FILENAME;
          content = rewrite_bytes pb m order;
          disk = disk(path_join dir MANIFEST_REWRITE_FILENAME := None, path \<mapsto> content)
      in ((\<lparr>fh_path = path, fh_pos = length content\<rparr>, card (dom (mf_tables m))), disk))"

subsection \<open>Replay\<close>

text \<open>
  The loop of \<open>replay_manifest_file\<close> on the bytes that are left. The body of an entry is read by a
  single \<open>read\<close>, which returns what is there, at most \<open>pb_read_max\<close> bytes; a short read fails the
  assertion.
\<close>

function replay_loop :: "pb \<Rightarrow> bytes \<Rightarrow> manifest \<Rightarrow> nat \<Rightarrow> (manifest \<times> nat) result option" where
  "replay_loop pb bs build offset =
     (case read_u32 bs of
        None \<Rightarrow> Some (Inr (build, offset))
      | Some (sz, bs1) \<Rightarrow>
          (case read_u32 bs1 of
             None \<Rightarrow> Some (Inr (build, offset))
           | Some (crc32, bs2) \<Rightarrow>
               let n = unat sz; buffer = take (min n (pb_read_max pb)) bs2 in
               if length buffer \<noteq> n then None
               else if crc32 \<noteq> pb_crc32 pb buffer then Some (Inr (build, offset))
               else (case pb_dec pb buffer of
                       None \<Rightarrow> Some (Inl BadMagic)
                     | Some mf_set \<Rightarrow>
                         (case apply_manifest_change_set build mf_set of
                            None \<Rightarrow> None
                          | Some (build, Inl e) \<Rightarrow> Some (Inl e)
                          | Some (build, Inr u) \<Rightarrow> replay_loop pb (drop n bs2) build (offset + 8 + n)))))"
  by pat_completeness auto
termination
  by (relation "measure (\<lambda>(pb, bs, m, off). length bs)")
    (auto simp: read_u32_def read_exact_def bind_eq_Some_conv split: if_splits)

declare replay_loop.simps [simp del]

definition replay_manifest_file :: "pb \<Rightarrow> bytes \<Rightarrow> (manifest \<times> nat) result option" where
  "replay_manifest_file pb content =
     (let magic = take 4 content; bs = drop 4 content in
      if length magic \<noteq> 4 then Some (Inl BadMagic)
      else if MAGIC_TEXT \<noteq> magic then Some (Inl BadMagic)
      else (case read_u32 bs of
              None \<Rightarrow> Some (Inl (StdIO UnexpectedEof None))
            | Some (version, bs) \<Rightarrow>
                if MAGIC_VERSION \<noteq> version then Some (Inl BadMagic)
                else replay_loop pb bs manifest_new 8))"

subsection \<open>The manifest file\<close>

record manifest_file =
  mff_fp :: "fhandle option"
  mff_directory :: string
  mff_threshold :: u32
  mff_manifest :: manifest

definition mff_rewrite :: "pb \<Rightarrow> u64 list \<Rightarrow> manifest_file \<Rightarrow> disk \<Rightarrow> manifest_file \<times> disk" where
  "mff_rewrite pb order mf disk =
     (let mf = mf\<lparr>mff_fp := None\<rparr>;
          ((fp, n), disk) = file_help_rewrite pb (mff_directory mf) (mff_manifest mf) order disk;
          mf = mf\<lparr>mff_fp := Some fp,
                  mff_manifest := (mff_manifest mf)\<lparr>mf_creations := n, mf_deletions := 0\<rparr>\<rparr>
      in (mf, disk))"

text \<open>Whether \<open>add_changes\<close> rewrites; \<open>None\<close> is an underflow of \<open>creations - deletions\<close>.\<close>

definition needs_rewrite :: "manifest_file \<Rightarrow> bool option" where
  "needs_rewrite mf =
     (let m = mff_manifest mf in
      if \<not> mf_deletions m > unat (mff_threshold mf) then Some False
      else do {
        live \<leftarrow> checked_sub (mf_creations m) (mf_deletions m);
        Some (mf_deletions m > MANIFEST_DELETIONS_RATIO * live) })"

definition add_changes ::
  "pb \<Rightarrow> u64 list \<Rightarrow> manifest_file \<Rightarrow> manifest_change list \<Rightarrow> disk \<Rightarrow> (unit result \<times> manifest_file \<times> disk) option" where
  "add_changes pb order mf changes disk = do {
     (m, r) \<leftarrow> apply_manifest_change_set (mff_manifest mf) changes;
     let mf = mf\<lparr>mff_manifest := m\<rparr>;
     (case r of
        Inl e \<Rightarrow> Some (Inl e, mf, disk)
      | Inr u \<Rightarrow> do {
          rewrite \<leftarrow> needs_rewrite mf;
          if rewrite then (case mff_rewrite pb order mf disk of (mf, disk) \<Rightarrow> Some (Inr (), mf, disk))
          else do {
            fp \<leftarrow> mff_fp mf;
            let (disk, fp) = fh_write disk fp (change_set_bytes pb changes);
            Some (Inr (), mf\<lparr>mff_fp := Some fp\<rparr>, disk) } }) }"

definition mff_close :: "manifest_file \<Rightarrow> manifest_file" where
  "mff_close mf = mf\<lparr>mff_fp := None\<rparr>"

text \<open>The constructor that the tests use.\<close>

definition file_open_or_create :: "pb \<Rightarrow> string \<Rightarrow> u32 \<Rightarrow> disk \<Rightarrow> (manifest_file result \<times> disk) option" where
  "file_open_or_create pb dir deletions_threshold disk =
     (let path = path_join dir MANIFEST_FILENAME in
      case open_existing_synced_file disk path of
        Inr fp \<Rightarrow> do {
          let c = the (disk path);
          r \<leftarrow> replay_manifest_file pb c;
          (case r of
             Inl e \<Rightarrow> Some (Inl e, disk)
           | Inr (m, trunc_offset) \<Rightarrow>
               Some (Inr \<lparr>mff_fp = Some (fp\<lparr>fh_pos := trunc_offset\<rparr>), mff_directory = dir,
                          mff_threshold = deletions_threshold, mff_manifest = m\<rparr>,
                     disk(path \<mapsto> take trunc_offset c))) }
      | Inl err \<Rightarrow>
          if is_io_notfound err then
            (case file_help_rewrite pb dir manifest_new [] disk of
               ((fp, n), disk) \<Rightarrow>
                 if n \<noteq> 0 then None
                 else Some (Inr \<lparr>mff_fp = Some fp, mff_directory = dir,
                                 mff_threshold = deletions_threshold, mff_manifest = manifest_new\<rparr>, disk))
          else Some (Inl err, disk))"

text \<open>The constructor that the store uses: after a replay the file is positioned at its start.\<close>

definition help_open_or_create_manifest_file ::
  "pb \<Rightarrow> string \<Rightarrow> u32 \<Rightarrow> disk \<Rightarrow> (manifest_file result \<times> disk) option" where
  "help_open_or_create_manifest_file pb dir deletions_threshold disk =
     (let path = path_join dir MANIFEST_FILENAME in
      case open_existing_synced_file disk path of
        Inl err \<Rightarrow>
          if \<not> is_io_existing err then Some (Inl err, disk)
          else (case manifest_help_rewrite pb dir manifest_new [] disk of
                  ((fp, net_creations), disk) \<Rightarrow>
                    if net_creations \<noteq> 0 then None
                    else Some (Inr \<lparr>mff_fp = Some fp, mff_directory = dir,
                                    mff_threshold = 0, mff_manifest = manifest_new\<rparr>, disk))
      | Inr fp \<Rightarrow> do {
          let c = the (disk path);
          r \<leftarrow> replay_manifest_file pb c;
          (case r of
             Inl e \<Rightarrow> Some (Inl e, disk)
           | Inr (m, trunc_offset) \<Rightarrow>
               Some (Inr \<lparr>mff_fp = Some (fp\<lparr>fh_pos := 0\<rparr>), mff_directory = dir,
                          mff_threshold = deletions_threshold, mff_manifest = m\<rparr>,
                     disk(path \<mapsto> take trunc_offset c))) })"

definition open_or_create_manifest_file :: "pb \<Rightarrow> string \<Rightarrow> disk \<Rightarrow> (manifest_file result \<times> disk) option" where
  "open_or_create_manifest_file pb dir disk =
     help_open_or_create_manifest_file pb dir MANIFEST_DELETIONS_REWRITE_THRESHOLD disk"

end
