(* ===== verification/Manifest_Correct.thy ===== *)
theory Manifest_Correct
  imports Manifest
begin

section \<open>Correctness of the manifest\<close>

text \<open>
  The invariant that ties the table map, the level sets and the counters together; what a replay
  of the file rebuilds; and what is left of the file after it is reopened.
\<close>

subsection \<open>Consistency in memory\<close>

definition mf_ok :: "manifest \<Rightarrow> bool" where
  "mf_ok m \<longleftrightarrow> finite (dom (mf_tables m))
     \<and> (\<forall>i l. mf_tables m i = Some l \<longleftrightarrow> unat l < length (mf_levels m) \<and> i \<in> mf_levels m ! unat l)
     \<and> mf_creations m = mf_deletions m + card (dom (mf_tables m))"

definition change_ok :: "manifest_change \<Rightarrow> bool" where
  "change_ok tc \<longleftrightarrow> (\<exists>op. mch_op tc = Inr op) \<and> unat (mch_level tc) < 256"

lemma mf_ok_new: "mf_ok manifest_new"
  by (simp add: mf_ok_def manifest_new_def)

lemma unat_ucast_level: "unat (w :: u32) < 256 \<Longrightarrow> unat (ucast w :: 8 word) = unat w"
  by (simp add: unsigned_ucast_eq take_bit_eq_mod)

lemma unat_u8_eq: "unat (a :: 8 word) = unat b \<longleftrightarrow> a = b"
  by (simp add: word_unat_eq_iff)

lemma apply_create:
  assumes ok: "mf_ok m" and c: "change_ok tc" "mch_op tc = Inr CREATE" and new: "mf_tables m (mch_id tc) = None"
  shows "\<exists>m'. apply_manifest_change m tc = Some (Inr m') \<and> mf_ok m'
    \<and> mf_tables m' = (mf_tables m)(mch_id tc \<mapsto> ucast (mch_level tc))
    \<and> mf_creations m' = mf_creations m + 1 \<and> mf_deletions m' = mf_deletions m"
proof -
  define l where "l = unat (mch_level tc)"
  define ls where "ls = mf_levels m @ replicate (l + 1 - length (mf_levels m)) {}"
  have len: "l < length ls" "length (mf_levels m) \<le> length ls" by (auto simp: ls_def)
  have at: "ls ! j = (if j < length (mf_levels m) then mf_levels m ! j else {})" if "j < length ls" for j
    using that by (auto simp: ls_def nth_append)
  have u: "unat (ucast (mch_level tc) :: 8 word) = l" using c(1) by (simp add: change_ok_def l_def unat_ucast_level)
  define m' where "m' = m\<lparr>mf_tables := (mf_tables m)(mch_id tc \<mapsto> ucast (mch_level tc)),
    mf_levels := ls[l := insert (mch_id tc) (ls ! l)], mf_creations := mf_creations m + 1\<rparr>"
  have "mf_tables m' i = Some k \<longleftrightarrow> unat k < length (mf_levels m') \<and> i \<in> mf_levels m' ! unat k" for i k
  proof -
    have k: "(unat k = l) = (k = ucast (mch_level tc))" using u unat_u8_eq by metis
    have old: "mf_tables m i = Some k \<longleftrightarrow> unat k < length ls \<and> i \<in> ls ! unat k"
      using ok at [of "unat k"] len(2) by (auto simp: mf_ok_def split: if_splits)
    have "mch_id tc \<notin> ls ! unat k" if "unat k < length ls"
    proof
      assume "mch_id tc \<in> ls ! unat k"
      with at [OF that] ok have "mf_tables m (mch_id tc) = Some k" by (auto simp: mf_ok_def split: if_splits)
      with new show False by simp
    qed
    then show ?thesis using old len(1) k by (auto simp: m'_def nth_list_update u)
  qed
  moreover have "card (dom (mf_tables m')) = card (dom (mf_tables m)) + 1" "finite (dom (mf_tables m'))"
    using ok new by (auto simp: m'_def mf_ok_def domIff)
  ultimately have "mf_ok m'" using ok by (simp add: mf_ok_def m'_def)
  moreover have "apply_manifest_change m tc = Some (Inr m')"
    using c(2) new by (simp add: apply_manifest_change_def m'_def ls_def l_def Let_def)
  ultimately show ?thesis by (auto simp: m'_def)
qed

lemma apply_delete:
  assumes ok: "mf_ok m" and c: "mch_op tc = Inr DELETE" and old: "mf_tables m (mch_id tc) = Some l"
  shows "\<exists>m'. apply_manifest_change m tc = Some (Inr m') \<and> mf_ok m'
    \<and> mf_tables m' = (mf_tables m)(mch_id tc := None)
    \<and> mf_creations m' = mf_creations m \<and> mf_deletions m' = mf_deletions m + 1"
proof -
  have fin: "finite (dom (mf_tables m))" using ok by (simp add: mf_ok_def)
  have l: "unat l < length (mf_levels m)" "mch_id tc \<in> mf_levels m ! unat l" using ok old by (auto simp: mf_ok_def)
  define m' where "m' = m\<lparr>mf_tables := (mf_tables m)(mch_id tc := None),
    mf_levels := (mf_levels m)[unat l := mf_levels m ! unat l - {mch_id tc}], mf_deletions := mf_deletions m + 1\<rparr>"
  have "mf_tables m' i = Some k \<longleftrightarrow> unat k < length (mf_levels m') \<and> i \<in> mf_levels m' ! unat k" for i k
  proof -
    have eq: "mf_tables m i = Some k \<longleftrightarrow> unat k < length (mf_levels m) \<and> i \<in> mf_levels m ! unat k"
      using ok by (simp add: mf_ok_def)
    have "i = mch_id tc \<Longrightarrow> i \<in> mf_levels m ! unat k \<Longrightarrow> unat k < length (mf_levels m) \<Longrightarrow> k = l"
      using eq old by simp
    then show ?thesis using eq l by (auto simp: m'_def nth_list_update unat_u8_eq)
  qed
  moreover have "finite (dom (mf_tables m'))" "card (dom (mf_tables m)) = card (dom (mf_tables m')) + 1"
    using fin card.remove [OF fin domI [of "mf_tables m", OF old]] by (simp_all add: m'_def)
  ultimately have "mf_ok m'" using ok by (simp add: mf_ok_def m'_def)
  moreover have "apply_manifest_change m tc = Some (Inr m')"
    using c old l by (simp add: apply_manifest_change_def m'_def)
  ultimately show ?thesis by (auto simp: m'_def)
qed

lemma apply_total:
  assumes "mf_ok m" and "change_ok tc"
  shows "\<exists>r. apply_manifest_change m tc = Some r \<and> (case r of Inl e \<Rightarrow> True | Inr m' \<Rightarrow> mf_ok m')"
proof -
  from assms(2) obtain op where op: "mch_op tc = Inr op" by (auto simp: change_ok_def)
  show ?thesis
  proof (cases op)
    case CREATE
    show ?thesis
    proof (cases "mf_tables m (mch_id tc)")
      case None
      with apply_create [OF assms] op CREATE show ?thesis by fastforce
    next
      case (Some l)
      with op CREATE show ?thesis by (simp add: apply_manifest_change_def)
    qed
  next
    case DELETE
    show ?thesis
    proof (cases "mf_tables m (mch_id tc)")
      case None
      with op DELETE show ?thesis by (simp add: apply_manifest_change_def)
    next
      case (Some l)
      with apply_delete [OF assms(1)] op DELETE show ?thesis by fastforce
    qed
  qed
qed

lemma apply_set_total:
  assumes "mf_ok m" and "list_all change_ok changes"
  shows "\<exists>m' r. apply_manifest_change_set m changes = Some (m', r) \<and> mf_ok m'"
  using assms
proof (induction changes arbitrary: m)
  case (Cons c cs)
  then obtain r where r: "apply_manifest_change m c = Some r" "case r of Inl e \<Rightarrow> True | Inr m' \<Rightarrow> mf_ok m'"
    using apply_total [of m c] by auto
  with Cons show ?case by (cases r) auto
qed simp

subsection \<open>Manifests that agree\<close>

text \<open>A rewritten file forgets how long the vector of levels was; everything else is kept.\<close>

definition same_manifest :: "manifest \<Rightarrow> manifest \<Rightarrow> bool" where
  "same_manifest a b \<longleftrightarrow> mf_tables a = mf_tables b \<and> mf_creations a = mf_creations b \<and> mf_deletions a = mf_deletions b"

lemma apply_same:
  assumes ok: "mf_ok a" "mf_ok b" and same: "same_manifest a b" and c: "change_ok tc"
    and b': "apply_manifest_change b tc = Some (Inr b')"
  shows "\<exists>a'. apply_manifest_change a tc = Some (Inr a') \<and> same_manifest a' b' \<and> mf_ok a' \<and> mf_ok b'"
proof -
  have t: "mf_tables a = mf_tables b" using same by (simp add: same_manifest_def)
  from c obtain op where op: "mch_op tc = Inr op" by (auto simp: change_ok_def)
  show ?thesis
  proof (cases op)
    case CREATE
    then have "mf_tables b (mch_id tc) = None"
      using b' op by (auto simp: apply_manifest_change_def split: if_splits)
    with CREATE apply_create [OF ok(1) c] apply_create [OF ok(2) c] op t b' same show ?thesis
      by (fastforce simp: same_manifest_def)
  next
    case DELETE
    then obtain l where "mf_tables b (mch_id tc) = Some l"
      using b' op by (auto simp: apply_manifest_change_def split: option.splits)
    with DELETE apply_delete [OF ok(1)] apply_delete [OF ok(2)] op t b' same show ?thesis
      by (fastforce simp: same_manifest_def)
  qed
qed

lemma apply_set_same:
  assumes "mf_ok a" "mf_ok b" "same_manifest a b" "list_all change_ok changes"
    and "apply_manifest_change_set b changes = Some (b', Inr ())"
  shows "\<exists>a'. apply_manifest_change_set a changes = Some (a', Inr ()) \<and> same_manifest a' b' \<and> mf_ok a'"
  using assms
proof (induction changes arbitrary: a b)
  case (Cons c cs)
  from Cons.prems(5) obtain r where "apply_manifest_change b c = Some r" by (cases "apply_manifest_change b c") auto
  with Cons.prems(5) obtain b1 where b1: "apply_manifest_change b c = Some (Inr b1)"
    and rest: "apply_manifest_change_set b1 cs = Some (b', Inr ())"
    by (cases r) auto
  with Cons.prems apply_same [of a b c b1] obtain a1 where
    "apply_manifest_change a c = Some (Inr a1)" "same_manifest a1 b1" "mf_ok a1" "mf_ok b1" by auto
  with Cons.IH [of a1 b1] Cons.prems rest show ?case by simp
qed simp

lemma ucast_level [simp]: "ucast (ucast (l :: 8 word) :: u32) = l"
  by (rule bit_word_eqI) (auto simp: bit_simps)

lemma level_lt: "unat (ucast (l :: 8 word) :: u32) < 256"
  using unsigned_less [of l, where ?'a = nat] by (simp add: unsigned_ucast_eq take_bit_eq_mod)

lemma apply_as_changes:
  assumes "mf_ok m0" "distinct order" "set order \<subseteq> dom (mf_tables m)" "\<forall>i\<in>set order. mf_tables m0 i = None"
  shows "\<exists>m'. apply_manifest_change_set m0 (as_changes m order) = Some (m', Inr ()) \<and> mf_ok m'
    \<and> mf_tables m' = (\<lambda>i. if i \<in> set order then mf_tables m i else mf_tables m0 i)
    \<and> mf_creations m' = mf_creations m0 + length order \<and> mf_deletions m' = mf_deletions m0"
  using assms
proof (induction order arbitrary: m0)
  case (Cons i order)
  define c where "c = mcb_build (mcb_with_level (mcb_with_op (mcb_new i) CREATE) (ucast (the (mf_tables m i))))"
  have c: "mch_op c = Inr CREATE" "mch_id c = i" "change_ok c" "ucast (mch_level c) = the (mf_tables m i)"
    by (simp_all add: c_def mcb_build_def mcb_with_level_def mcb_with_op_def mcb_new_def change_ok_def level_lt)
  from apply_create [OF Cons.prems(1) c(3,1)] c Cons.prems obtain m1 where
    m1: "apply_manifest_change m0 c = Some (Inr m1)" "mf_ok m1"
      "mf_tables m1 = (mf_tables m0)(i := mf_tables m i)"
      "mf_creations m1 = mf_creations m0 + 1" "mf_deletions m1 = mf_deletions m0" by auto
  have "\<forall>j\<in>set order. mf_tables m1 j = None" using Cons.prems m1(3) by auto
  from Cons.IH [OF m1(2) _ _ this] Cons.prems obtain m' where
    "apply_manifest_change_set m1 (as_changes m order) = Some (m', Inr ())" "mf_ok m'"
    "mf_tables m' = (\<lambda>j. if j \<in> set order then mf_tables m j else mf_tables m1 j)"
    "mf_creations m' = mf_creations m1 + length order" "mf_deletions m' = mf_deletions m1" by auto
  then show ?case using m1 Cons.prems by (auto simp: as_changes_def c_def fun_eq_iff)
qed (auto simp: as_changes_def)

subsection \<open>Replay\<close>

definition pb_fits :: "pb \<Rightarrow> manifest_change list \<Rightarrow> bool" where
  "pb_fits pb cs \<longleftrightarrow> length (pb_enc pb cs) < 2 ^ 32 \<and> length (pb_enc pb cs) \<le> pb_read_max pb"

lemma unat_of_nat_u32': "n < 2 ^ 32 \<Longrightarrow> unat (of_nat n :: u32) = n"
  by (simp add: unsigned_of_nat take_bit_eq_mod)

lemma change_set_bytes_length [simp]: "length (change_set_bytes pb cs) = 8 + length (pb_enc pb cs)"
  by (simp add: change_set_bytes_def Let_def)

lemma replay_loop_entry:
  assumes "pb_fits pb cs" and "pb_dec pb (pb_enc pb cs) = Some cs"
    and "apply_manifest_change_set build cs = Some (m, Inr ())"
  shows "replay_loop pb (change_set_bytes pb cs @ rest) build off
    = replay_loop pb rest m (off + length (change_set_bytes pb cs))"
  using assms
  by (subst replay_loop.simps) (simp add: change_set_bytes_def Let_def pb_fits_def unat_of_nat_u32' min_def add.assoc)

lemma read_u32_append: "read_u32 bs = Some (w, r) \<Longrightarrow> read_u32 (bs @ t) = Some (w, r @ t)"
  by (auto simp: read_u32_def read_exact_def bind_eq_Some_conv split: if_splits)

lemma read_u32_lengthD: "read_u32 bs = Some (w, r) \<Longrightarrow> length bs = length r + 4"
  by (auto simp: read_u32_def read_exact_def bind_eq_Some_conv split: if_splits)

text \<open>A replay that consumed all its input goes on with whatever is appended.\<close>

lemma replay_loop_append:
  "replay_loop pb bs build off = Some (Inr (m, off + length bs)) \<Longrightarrow>
   replay_loop pb (bs @ rest) build off = replay_loop pb rest m (off + length bs)"
proof (induction pb bs build off rule: replay_loop.induct)
  case (1 pb bs build off)
  show ?case
  proof (cases "bs = []")
    case True
    with 1(2) show ?thesis by (simp add: replay_loop.simps [of pb "[]"] read_u32_def)
  next
    case False
    with 1(2) obtain sz bs1 crc bs2 where r: "read_u32 bs = Some (sz, bs1)" "read_u32 bs1 = Some (crc, bs2)"
      by (subst (asm) replay_loop.simps) (auto split: option.splits)
    define n where "n = unat sz"
    define buf where "buf = take (min n (pb_read_max pb)) bs2"
    have len: "length bs = 8 + length bs2" using read_u32_lengthD r by fastforce
    have step: "length buf = n" "crc = pb_crc32 pb buf"
      using 1(2) False by (auto simp: replay_loop.simps [of pb bs] r n_def [symmetric] buf_def Let_def split: if_splits)
    then obtain mf_set m1 where mf: "pb_dec pb buf = Some mf_set"
      "apply_manifest_change_set build mf_set = Some (m1, Inr ())"
      and go: "replay_loop pb bs build off = replay_loop pb (drop n bs2) m1 (off + 8 + n)"
      using 1(2) by (auto simp: replay_loop.simps [of pb bs] r n_def [symmetric] buf_def Let_def
          split: if_splits option.splits sum.splits)
    have n: "n \<le> length bs2" "n \<le> pb_read_max pb" using step(1) by (auto simp: buf_def)
    have buf: "take (min n (pb_read_max pb)) (bs2 @ rest) = buf" using n by (simp add: buf_def)
    have "replay_loop pb (bs @ rest) build off = replay_loop pb (drop n bs2 @ rest) m1 (off + 8 + n)"
      using step mf n buf
      by (subst replay_loop.simps)
        (simp add: read_u32_append [OF r(1)] read_u32_append [OF r(2)] n_def [symmetric] Let_def del: take_append)
    also have "\<dots> = replay_loop pb rest m (off + 8 + n + length (drop n bs2))"
      using 1(1) [OF r(1) refl r(2) refl refl, folded n_def, OF buf_def] step mf go 1(2) n len by (simp add: buf_def)
    finally show ?thesis using n len by simp
  qed
qed

subsection \<open>Properties\<close>

text \<open>The manifests a run can reach: change sets, also failing ones, and the reset of a rewrite.\<close>

inductive mf_reach :: "manifest \<Rightarrow> bool" where
  mf_reach_new: "mf_reach manifest_new"
| mf_reach_apply: "mf_reach m \<Longrightarrow> list_all change_ok cs \<Longrightarrow> apply_manifest_change_set m cs = Some (m', r) \<Longrightarrow> mf_reach m'"
| mf_reach_rewrite: "mf_reach m \<Longrightarrow> mf_reach (m\<lparr>mf_creations := card (dom (mf_tables m)), mf_deletions := 0\<rparr>)"

lemma mf_reach_ok: "mf_reach m \<Longrightarrow> mf_ok m"
proof (induction rule: mf_reach.induct)
  case (mf_reach_apply m cs m' r)
  then show ?case using apply_set_total [of m cs] by auto
next
  case (mf_reach_rewrite m)
  then show ?case by (simp add: mf_ok_def)
qed (rule mf_ok_new)

text \<open>
  C17. The manifest stays consistent. Whatever change sets with known operations and levels below
  256 are applied, succeeding or failing, the table map and the sets of the levels agree, a table
  is on one level only, and the number of live tables is the creations minus the deletions; so
  applying a further change set does not panic, and neither does the subtraction that decides about
  rewriting.
\<close>

theorem manifest_stays_consistent:
  assumes "mf_reach (mff_manifest mf)" and "list_all change_ok cs"
  shows "(\<forall>i l. mf_tables (mff_manifest mf) i = Some l \<longleftrightarrow>
            unat l < length (mf_levels (mff_manifest mf)) \<and> i \<in> mf_levels (mff_manifest mf) ! unat l)
    \<and> card (dom (mf_tables (mff_manifest mf))) = mf_creations (mff_manifest mf) - mf_deletions (mff_manifest mf)
    \<and> apply_manifest_change_set (mff_manifest mf) cs \<noteq> None \<and> needs_rewrite mf \<noteq> None"
proof -
  note ok = mf_reach_ok [OF assms(1)]
  have "needs_rewrite mf \<noteq> None"
    using ok by (auto simp: needs_rewrite_def mf_ok_def checked_sub_def Let_def)
  moreover have "apply_manifest_change_set (mff_manifest mf) cs \<noteq> None"
    using apply_set_total [OF ok assms(2)] by auto
  ultimately show ?thesis using ok unfolding mf_ok_def by simp
qed

text \<open>The file of a session: positioned at its end, and replaying to the manifest in memory.\<close>

definition replays_to :: "pb \<Rightarrow> disk \<Rightarrow> string \<Rightarrow> manifest \<Rightarrow> bool" where
  "replays_to pb disk path m \<longleftrightarrow>
     (\<exists>c m'. disk path = Some c \<and> replay_manifest_file pb c = Some (Inr (m', length c)) \<and> same_manifest m' m \<and> mf_ok m')"

definition at_end :: "manifest_file \<Rightarrow> disk \<Rightarrow> bool" where
  "at_end mf disk \<longleftrightarrow>
     (\<exists>fp c. mff_fp mf = Some fp \<and> fh_path fp = path_join (mff_directory mf) MANIFEST_FILENAME
        \<and> disk (fh_path fp) = Some c \<and> fh_pos fp = length c)"

lemma MAGIC_length [simp]: "length MAGIC_TEXT = 4"
  by (simp add: MAGIC_TEXT_def)

lemma rewrite_bytes_eq: "rewrite_bytes pb m order = MAGIC_TEXT @ enc_u32 MAGIC_VERSION @ change_set_bytes pb (as_changes m order)"
  by (simp add: rewrite_bytes_def rewrite_writes_def change_set_bytes_def Let_def)

lemma replay_header:
  "replay_manifest_file pb (MAGIC_TEXT @ enc_u32 MAGIC_VERSION @ bs) = replay_loop pb bs manifest_new 8"
  by (simp add: replay_manifest_file_def)

lemma replay_append:
  assumes "replay_manifest_file pb c = Some (Inr (m, length c))"
  shows "replay_manifest_file pb (c @ rest) = replay_loop pb rest m (length c)"
proof -
  from assms have len: "4 \<le> length c" "take 4 c = MAGIC_TEXT"
    by (auto simp: replay_manifest_file_def Let_def split: if_splits option.splits)
  from assms obtain bs where bs: "read_u32 (drop 4 c) = Some (MAGIC_VERSION, bs)"
    "replay_loop pb bs manifest_new 8 = Some (Inr (m, length c))"
    by (auto simp: replay_manifest_file_def Let_def split: if_splits option.splits)
  have "length c = 8 + length bs" using read_u32_lengthD [OF bs(1)] len by simp
  then have "replay_loop pb (bs @ rest) manifest_new 8 = replay_loop pb rest m (length c)"
    using replay_loop_append [of pb bs manifest_new 8 m rest] bs(2) by simp
  then show ?thesis
    using len read_u32_append [OF bs(1), of rest] by (simp add: replay_manifest_file_def Let_def MAGIC_TEXT_def)
qed

definition pb_ok :: "pb \<Rightarrow> manifest_change list \<Rightarrow> bool" where
  "pb_ok pb cs \<longleftrightarrow> pb_fits pb cs \<and> pb_dec pb (pb_enc pb cs) = Some cs"

lemma replay_end: "replay_loop pb [] m off = Some (Inr (m, off))"
  by (subst replay_loop.simps) (simp add: read_u32_def)

lemma replay_rewritten:
  assumes ok: "mf_ok m" and order: "distinct order" "set order = dom (mf_tables m)" and pb: "pb_ok pb (as_changes m order)"
  shows "replays_to pb (disk(path \<mapsto> rewrite_bytes pb m order)) path
    (m\<lparr>mf_creations := card (dom (mf_tables m)), mf_deletions := 0\<rparr>)"
proof -
  from apply_as_changes [OF mf_ok_new order(1), of m] order obtain m' where
    m': "apply_manifest_change_set manifest_new (as_changes m order) = Some (m', Inr ())" "mf_ok m'"
      "mf_tables m' = (\<lambda>i. if i \<in> set order then mf_tables m i else mf_tables manifest_new i)"
      "mf_creations m' = length order" "mf_deletions m' = 0"
    by (auto simp: manifest_new_def)
  have "mf_tables m' = mf_tables m" using m'(3) order(2) by (auto simp: fun_eq_iff domIff manifest_new_def)
  moreover have "length order = card (dom (mf_tables m))" using order distinct_card by metis
  moreover have "replay_manifest_file pb (rewrite_bytes pb m order) = Some (Inr (m', length (rewrite_bytes pb m order)))"
    using replay_loop_entry [of pb "as_changes m order" manifest_new m' "[]" 8] pb m'(1)
    by (simp add: rewrite_bytes_eq replay_header replay_end pb_ok_def)
  ultimately show ?thesis using m' by (auto simp: replays_to_def same_manifest_def)
qed

lemma replay_appended:
  assumes r: "replays_to pb disk path m" and c: "disk path = Some c" and ok: "mf_ok m" "list_all change_ok changes"
    and a: "apply_manifest_change_set m changes = Some (m', Inr ())" and pb: "pb_ok pb changes"
  shows "replays_to pb (disk(path \<mapsto> c @ change_set_bytes pb changes)) path m'"
proof -
  from r c obtain m0 where m0: "replay_manifest_file pb c = Some (Inr (m0, length c))" "same_manifest m0 m" "mf_ok m0"
    by (auto simp: replays_to_def)
  from apply_set_same [OF m0(3) ok(1) m0(2) ok(2) a] obtain m1 where
    m1: "apply_manifest_change_set m0 changes = Some (m1, Inr ())" "same_manifest m1 m'" "mf_ok m1" by auto
  have "replay_manifest_file pb (c @ change_set_bytes pb changes)
      = Some (Inr (m1, length (c @ change_set_bytes pb changes)))"
    using replay_loop_entry [of pb changes m0 m1 "[]" "length c"] pb m1(1)
    by (simp add: replay_append [OF m0(1)] pb_ok_def replay_end)
  with m1 show ?thesis by (auto simp: replays_to_def)
qed

text \<open>
  The documented behaviour of the buffered writer on which a rewrite depends: its buffer holds eight
  kilobytes, and as long as they suffice nothing reaches the wrapped writer without a flush.
\<close>

definition buffer_law :: "pb \<Rightarrow> bool" where
  "buffer_law pb \<longleftrightarrow> (\<forall>ws. length (concat ws) < 8192 \<longrightarrow> pb_spilled pb ws = [])"

lemma open_empty_file:
  assumes "disk (path_join dir MANIFEST_FILENAME) = Some []"
  shows "help_open_or_create_manifest_file pb dir thr disk = Some (Inl BadMagic, disk)"
  using assms by (simp add: help_open_or_create_manifest_file_def open_existing_synced_file_def replay_manifest_file_def Let_def)

text \<open>
  C16. What a change set leaves on disk. The file of a session is positioned at its end and replays to
  the manifest in memory, the change set applies, and the buffered writer behaves as documented. When the
  change set is appended, it is durable: afterwards the file replays completely to the new manifest,
  the same tables on the same levels with the same counters, and is again at its end. When it
  triggers a rewrite and the whole manifest takes less than eight kilobytes, the manifest is lost: the buffered writer is
  not flushed, so the new file is empty although the call succeeds, and the next opening fails
  with \<open>BadMagic\<close>.
\<close>

theorem add_changes_on_disk:
  assumes "mf_ok (mff_manifest mf)" and "list_all change_ok changes" and "at_end mf disk"
    and "replays_to pb disk (path_join (mff_directory mf) MANIFEST_FILENAME) (mff_manifest mf)"
    and "apply_manifest_change_set (mff_manifest mf) changes = Some (m, Inr ())"
    and "pb_ok pb changes" and "buffer_law pb"
    and "needs_rewrite (mf\<lparr>mff_manifest := m\<rparr>) = Some True \<Longrightarrow> length (rewrite_bytes pb m order) < 8192"
  shows "\<exists>mf' disk'. add_changes pb order mf changes disk = Some (Inr (), mf', disk')
    \<and> mf_tables (mff_manifest mf') = mf_tables m
    \<and> (if needs_rewrite (mf\<lparr>mff_manifest := m\<rparr>) = Some True
       then disk' (path_join (mff_directory mf) MANIFEST_FILENAME) = Some []
         \<and> help_open_or_create_manifest_file pb (mff_directory mf) thr disk' = Some (Inl BadMagic, disk')
       else replays_to pb disk' (path_join (mff_directory mf) MANIFEST_FILENAME) (mff_manifest mf') \<and> at_end mf' disk')"
proof -
  define path where "path = path_join (mff_directory mf) MANIFEST_FILENAME"
  from assms(3) obtain fp c where fp: "mff_fp mf = Some fp" "fh_path fp = path" "disk path = Some c" "fh_pos fp = length c"
    unfolding at_end_def path_def by metis
  have ok: "mf_ok m" using apply_set_total [OF assms(1,2)] assms(5) by simp
  then have "needs_rewrite (mf\<lparr>mff_manifest := m\<rparr>) \<noteq> None"
    by (auto simp: needs_rewrite_def mf_ok_def checked_sub_def Let_def)
  then obtain rw where rw: "needs_rewrite (mf\<lparr>mff_manifest := m\<rparr>) = Some rw" by auto
  show ?thesis
  proof (cases rw)
    case True
    let ?disk = "disk(path_join (mff_directory mf) MANIFEST_REWRITE_FILENAME := None, path \<mapsto> [])"
    have "pb_spilled pb (rewrite_writes pb m order) = []"
      using assms(7,8) rw True by (simp add: buffer_law_def rewrite_bytes_def)
    moreover have "help_open_or_create_manifest_file pb (mff_directory mf) thr ?disk = Some (Inl BadMagic, ?disk)"
      by (rule open_empty_file) (simp add: path_def)
    ultimately show ?thesis using True rw assms(5)
      by (simp add: add_changes_def mff_rewrite_def file_help_rewrite_def path_def Let_def)
  next
    case False
    have "replays_to pb (disk(path \<mapsto> c @ change_set_bytes pb changes)) path m"
      using replay_appended [OF assms(4) [folded path_def] fp(3) assms(1,2,5,6)] .
    then show ?thesis using False rw assms(5) fp
      by (simp add: add_changes_def fh_write_def overwrite_def at_end_def path_def Let_def)
  qed
qed

lemma open_creates:
  assumes none: "disk (path_join dir MANIFEST_FILENAME) = None" and pb: "pb_ok pb []"
  shows "\<exists>mf disk'. help_open_or_create_manifest_file pb dir thr disk = Some (Inr mf, disk')
    \<and> mff_manifest mf = manifest_new \<and> at_end mf disk' \<and> replays_to pb disk' (path_join dir MANIFEST_FILENAME) manifest_new"
proof -
  define path where "path = path_join dir MANIFEST_FILENAME"
  have "replays_to pb (disk(path_join dir MANIFEST_REWRITE_FILENAME := None, path \<mapsto> rewrite_bytes pb manifest_new [])) path
      (manifest_new\<lparr>mf_creations := card (dom (mf_tables manifest_new)), mf_deletions := 0\<rparr>)"
    using mf_ok_new pb by (intro replay_rewritten) (simp_all add: as_changes_def manifest_new_def)
  then show ?thesis using none
    by (simp add: help_open_or_create_manifest_file_def open_existing_synced_file_def is_io_existing_def
        manifest_help_rewrite_def at_end_def manifest_new_def Let_def path_def)
qed

lemma open_replays:
  assumes d: "disk (path_join dir MANIFEST_FILENAME) = Some (c @ torn)"
    and c: "replay_manifest_file pb c = Some (Inr (m, length c))" and t: "length torn < 8"
  shows "\<exists>mf disk'. help_open_or_create_manifest_file pb dir thr disk = Some (Inr mf, disk')
    \<and> mff_manifest mf = m \<and> disk' (path_join dir MANIFEST_FILENAME) = Some c"
proof -
  have "replay_loop pb torn m (length c) = Some (Inr (m, length c))"
    using t by (subst replay_loop.simps) (auto simp: read_u32_def read_exact_def)
  then have "replay_manifest_file pb (c @ torn) = Some (Inr (m, length c))"
    by (simp add: replay_append [OF c])
  with d show ?thesis
    by (simp add: help_open_or_create_manifest_file_def open_existing_synced_file_def Let_def)
qed

text \<open>
  C31. Creating and reopening. Opening a directory without a manifest creates a file that replays to
  the empty manifest and is positioned at its end; opening a directory whose file is followed
  by up to seven bytes of a torn entry restores exactly the manifest that was written and cuts the
  file back to it.
\<close>

theorem open_restores_manifest:
  assumes "path = path_join dir MANIFEST_FILENAME"
    and "disk path = None \<and> pb_ok pb [] \<and> m = manifest_new
      \<or> disk path = Some (c @ torn) \<and> replay_manifest_file pb c = Some (Inr (m, length c)) \<and> length torn < 8"
  shows "\<exists>mf disk'. help_open_or_create_manifest_file pb dir thr disk = Some (Inr mf, disk') \<and> mff_manifest mf = m
    \<and> (if disk path = None then at_end mf disk' \<and> replays_to pb disk' path m else disk' path = Some c)"
proof (cases "disk path")
  case None
  with assms open_creates [of disk dir pb thr] show ?thesis by auto
next
  case (Some d)
  with assms open_replays [of disk dir c torn pb m thr] show ?thesis by auto
qed

text \<open>
  C36. A torn body is fatal. When the last entry was cut off after its eight-byte header, so
  that part of its body is missing, reopening does not truncate the file: the replay panics on the
  length assertion.
\<close>

theorem torn_body_panics:
  assumes "disk (path_join dir MANIFEST_FILENAME) = Some (c @ take k (change_set_bytes pb changes))"
    and "replay_manifest_file pb c = Some (Inr (m, length c))"
    and "8 \<le> k" and "k < length (change_set_bytes pb changes)" and "length (pb_enc pb changes) < 2 ^ 32"
  shows "help_open_or_create_manifest_file pb dir thr disk = None"
proof -
  define e where "e = pb_enc pb changes"
  have short: "\<not> length e \<le> k - 8" using assms(3,4) by (simp add: e_def)
  have "take k (change_set_bytes pb changes)
      = enc_u32 (of_nat (length e)) @ enc_u32 (pb_crc32 pb e) @ take (k - 8) e"
    using assms(3) by (simp add: change_set_bytes_def e_def Let_def)
  then have "replay_loop pb (take k (change_set_bytes pb changes)) m (length c) = None"
    using short assms(5) by (subst replay_loop.simps) (simp add: unat_of_nat_u32' e_def Let_def min_def)
  with assms(1,2) show ?thesis
    by (simp add: help_open_or_create_manifest_file_def open_existing_synced_file_def replay_append)
qed

lemma enc_MAGIC: "enc_u32 w = MAGIC_TEXT \<Longrightarrow> unat w = 0x62646772"
proof -
  assume "enc_u32 w = MAGIC_TEXT"
  then have "read_u32 MAGIC_TEXT = Some (w, [])" by (metis append_Nil2 read_enc_u32)
  then show ?thesis by (auto simp: MAGIC_TEXT_def codec_simps)
qed

text \<open>
  C18. A reopened manifest is destroyed by the next change set. Opening an existing file leaves it
  positioned at its start, so the next change set that is not a rewrite overwrites the magic
  text, and opening the directory after that fails with \<open>BadMagic\<close> (unless the change set happens to
  be 0x62646772 bytes long).
\<close>

theorem reopened_manifest_is_overwritten:
  assumes "disk (path_join dir MANIFEST_FILENAME) = Some c"
    and "help_open_or_create_manifest_file pb dir thr disk = Some (Inr mf, disk1)"
    and "apply_manifest_change_set (mff_manifest mf) changes = Some (m, Inr ())"
    and "needs_rewrite (mf\<lparr>mff_manifest := m\<rparr>) = Some False"
    and "length (pb_enc pb changes) < 2 ^ 32" and "length (pb_enc pb changes) \<noteq> 0x62646772"
  shows "\<exists>mf' disk'. add_changes pb order mf changes disk1 = Some (Inr (), mf', disk')
    \<and> help_open_or_create_manifest_file pb dir thr' disk' = Some (Inl BadMagic, disk')"
proof -
  define path where "path = path_join dir MANIFEST_FILENAME"
  from assms(1,2) obtain r where r: "replay_manifest_file pb c = Some r"
    by (cases "replay_manifest_file pb c")
      (auto simp: help_open_or_create_manifest_file_def open_existing_synced_file_def)
  with assms(1,2) obtain m0 off where "r = Inr (m0, off)"
    by (cases r) (auto simp: help_open_or_create_manifest_file_def open_existing_synced_file_def)
  with assms(1,2) r have mf: "mff_fp mf = Some \<lparr>fh_path = path, fh_pos = 0\<rparr>" "disk1 path = Some (take off c)"
    by (auto simp: help_open_or_create_manifest_file_def open_existing_synced_file_def Let_def path_def)
  let ?b = "change_set_bytes pb changes" and ?rest = "drop (length (change_set_bytes pb changes)) (take off c)"
  have add: "\<exists>mf'. add_changes pb order mf changes disk1 = Some (Inr (), mf', disk1(path \<mapsto> ?b @ ?rest))"
    using assms(3,4) mf by (simp add: add_changes_def fh_write_def overwrite_def Let_def)
  have "take 4 (?b @ ?rest) = enc_u32 (of_nat (length (pb_enc pb changes)))"
    by (simp add: change_set_bytes_def Let_def)
  moreover have "enc_u32 (of_nat (length (pb_enc pb changes))) \<noteq> MAGIC_TEXT"
    using enc_MAGIC [of "of_nat (length (pb_enc pb changes))"] assms(5,6) by (auto simp: unat_of_nat_u32')
  ultimately have "replay_manifest_file pb (?b @ ?rest) = Some (Inl BadMagic)"
    unfolding replay_manifest_file_def Let_def by simp
  then have "help_open_or_create_manifest_file pb dir thr' (disk1(path \<mapsto> ?b @ ?rest)) = Some (Inl BadMagic, disk1(path \<mapsto> ?b @ ?rest))"
    by (simp add: help_open_or_create_manifest_file_def open_existing_synced_file_def path_def)
  with add show ?thesis by blast
qed

subsection \<open>Witnesses\<close>

text \<open>Three bytes per change, for tables and levels below 256.\<close>

fun example_dec :: "bytes \<Rightarrow> manifest_change list option" where
  "example_dec [] = Some []"
| "example_dec (i # op # l # bs) =
     map_option (Cons \<lparr>mch_id = ucast i, mch_op = Inr (if op = 0 then CREATE else DELETE), mch_level = ucast l\<rparr>) (example_dec bs)"
| "example_dec bs = None"

definition example_pb :: pb where
  "example_pb = \<lparr>
     pb_enc = (\<lambda>cs. concat (map (\<lambda>c. [ucast (mch_id c), if mch_op c = Inr CREATE then 0 else 1, ucast (mch_level c)]) cs)),
     pb_dec = example_dec, pb_crc32 = (\<lambda>bs. of_nat (length bs)), pb_read_max = 2 ^ 21,
     pb_spilled = (\<lambda>ws. if length (concat ws) < 8192 then [] else concat ws)\<rparr>"

definition example_change :: manifest_change where
  "example_change = \<lparr>mch_id = 7, mch_op = Inr CREATE, mch_level = 1\<rparr>"

definition example_mf :: manifest_file where
  "example_mf = \<lparr>
     mff_fp = Some \<lparr>fh_path = path_join ''db'' MANIFEST_FILENAME, fh_pos = length (rewrite_bytes example_pb manifest_new [])\<rparr>,
     mff_directory = ''db'', mff_threshold = 0, mff_manifest = manifest_new\<rparr>"

definition example_disk :: disk where
  "example_disk = [path_join ''db'' MANIFEST_FILENAME \<mapsto> rewrite_bytes example_pb manifest_new []]"

definition example_manifest :: manifest where
  "example_manifest = \<lparr>mf_levels = [{}, {7}], mf_tables = [7 \<mapsto> 1], mf_creations = 1, mf_deletions = 0\<rparr>"

lemma example_apply: "apply_manifest_change_set manifest_new [example_change] = Some (example_manifest, Inr ())"
  by (simp add: apply_manifest_change_def manifest_new_def example_change_def example_manifest_def numeral_2_eq_2)

lemma example_change_ok: "change_ok example_change"
  by (simp add: change_ok_def example_change_def)

lemma example_pb_ok: "pb_ok example_pb []" "pb_ok example_pb [example_change]"
  by (simp_all add: pb_ok_def pb_fits_def example_pb_def example_change_def)

lemma example_replays: "replays_to example_pb example_disk (path_join ''db'' MANIFEST_FILENAME) manifest_new"
  using replay_rewritten [OF mf_ok_new, of "[]" example_pb Map.empty "path_join ''db'' MANIFEST_FILENAME"] example_pb_ok(1)
  by (simp add: as_changes_def manifest_new_def example_disk_def)

text \<open>Non-vacuity of C17: a manifest with one table.\<close>

theorem manifest_stays_consistent_witness:
  "card (dom (mf_tables example_manifest)) = 1 \<and> apply_manifest_change_set example_manifest [example_change] \<noteq> None"
proof -
  have "mf_reach example_manifest"
    using mf_reach_apply [OF mf_reach_new _ example_apply] example_change_ok by simp
  then show ?thesis
    using manifest_stays_consistent [of "example_mf\<lparr>mff_manifest := example_manifest\<rparr>" "[example_change]"] example_change_ok
    by (simp add: example_manifest_def)
qed

text \<open>Non-vacuity of C16: the first table of a new store is appended; deleting it again triggers a rewrite.\<close>

definition example_delete :: manifest_change where
  "example_delete = \<lparr>mch_id = 7, mch_op = Inr DELETE, mch_level = 1\<rparr>"

definition example_emptied :: manifest where
  "example_emptied = \<lparr>mf_levels = [{}, {}], mf_tables = Map.empty, mf_creations = 1, mf_deletions = 1\<rparr>"

lemma example_apply_delete: "apply_manifest_change_set example_manifest [example_delete] = Some (example_emptied, Inr ())"
  by (simp add: apply_manifest_change_def example_manifest_def example_delete_def example_emptied_def)

lemma example_buffer_law: "buffer_law example_pb"
  by (simp add: buffer_law_def example_pb_def)

lemma example_small: "length (rewrite_bytes example_pb example_manifest [7]) < 8192" "length (rewrite_bytes example_pb example_emptied []) < 8192"
  by (simp_all add: rewrite_bytes_eq example_pb_def as_changes_def)

theorem add_changes_on_disk_witness:
  "\<exists>mf' disk' mf'' disk''. add_changes example_pb [7] example_mf [example_change] example_disk = Some (Inr (), mf', disk')
    \<and> mf_tables (mff_manifest mf') 7 = Some 1
    \<and> replays_to example_pb disk' (path_join ''db'' MANIFEST_FILENAME) (mff_manifest mf')
    \<and> add_changes example_pb [] mf' [example_delete] disk' = Some (Inr (), mf'', disk'')
    \<and> disk'' (path_join ''db'' MANIFEST_FILENAME) = Some []"
proof -
  have mf: "mff_manifest example_mf = manifest_new" "mff_directory example_mf = ''db''" by (simp_all add: example_mf_def)
  have "at_end example_mf example_disk" by (simp add: at_end_def example_mf_def example_disk_def)
  moreover have "needs_rewrite (example_mf\<lparr>mff_manifest := example_manifest\<rparr>) = Some False"
    by (simp add: needs_rewrite_def example_mf_def example_manifest_def)
  ultimately obtain mf' disk' where a: "add_changes example_pb [7] example_mf [example_change] example_disk = Some (Inr (), mf', disk')"
    "mf_tables (mff_manifest mf') = mf_tables example_manifest"
    "replays_to example_pb disk' (path_join ''db'' MANIFEST_FILENAME) (mff_manifest mf')" "at_end mf' disk'"
    using add_changes_on_disk [of example_mf "[example_change]" example_disk example_pb example_manifest "[7]" 5]
      mf_ok_new example_change_ok example_pb_ok example_apply example_replays example_buffer_law example_small(1)
    by (auto simp: mf)
  have mf': "mff_manifest mf' = example_manifest" "mff_directory mf' = ''db''" "mff_threshold mf' = 0"
    using a(1) example_apply by (auto simp: add_changes_def mf needs_rewrite_def example_manifest_def fh_write_def Let_def bind_eq_Some_conv)
      (auto simp: example_mf_def)
  have "mf_ok example_manifest" using mf_reach_ok mf_reach_apply [OF mf_reach_new _ example_apply] example_change_ok by simp
  moreover have "needs_rewrite (mf'\<lparr>mff_manifest := example_emptied\<rparr>) = Some True"
    by (simp add: needs_rewrite_def mf' example_emptied_def checked_sub_def)
  moreover have "change_ok example_delete" "pb_ok example_pb [example_delete]"
    by (simp_all add: change_ok_def pb_ok_def pb_fits_def example_pb_def example_delete_def)
  ultimately obtain mf'' disk'' where "add_changes example_pb [] mf' [example_delete] disk' = Some (Inr (), mf'', disk'')"
    "disk'' (path_join ''db'' MANIFEST_FILENAME) = Some []"
    using add_changes_on_disk [of mf' "[example_delete]" disk' example_pb example_emptied "[]" 5]
      example_apply_delete example_buffer_law example_small(2) a(3,4) by (auto simp: mf')
  moreover have "mf_tables (mff_manifest mf') 7 = Some 1" by (simp add: mf' example_manifest_def)
  ultimately show ?thesis using a(1,3) by blast
qed

text \<open>Non-vacuity of C31: a file that ends in three stray bytes.\<close>

theorem open_restores_manifest_witness:
  "\<exists>c m mf disk'. help_open_or_create_manifest_file example_pb ''db'' 5
      [path_join ''db'' MANIFEST_FILENAME \<mapsto> c @ [0, 0, 0]] = Some (Inr mf, disk')
    \<and> mff_manifest mf = m \<and> disk' (path_join ''db'' MANIFEST_FILENAME) = Some c"
proof -
  from example_replays obtain c m where "replay_manifest_file example_pb c = Some (Inr (m, length c))"
    by (auto simp: replays_to_def)
  then show ?thesis
    using open_restores_manifest [of "path_join ''db'' MANIFEST_FILENAME" "''db''"
        "[path_join ''db'' MANIFEST_FILENAME \<mapsto> c @ [0, 0, 0]]" example_pb m c "[0, 0, 0]" 5] by auto
qed

text \<open>Non-vacuity of C36: the last byte of the entry of one table is missing.\<close>

theorem torn_body_panics_witness:
  "\<exists>c. help_open_or_create_manifest_file example_pb ''db'' 5
      [path_join ''db'' MANIFEST_FILENAME \<mapsto> c @ take 10 (change_set_bytes example_pb [example_change])] = None"
proof -
  from example_replays obtain c m where "replay_manifest_file example_pb c = Some (Inr (m, length c))"
    by (auto simp: replays_to_def)
  then show ?thesis
    using torn_body_panics [of "[path_join ''db'' MANIFEST_FILENAME \<mapsto> c @ take 10 (change_set_bytes example_pb [example_change])]"
        "''db''" c 10 example_pb "[example_change]" m 5]
    by (auto simp: example_pb_def)
qed

text \<open>Non-vacuity of C18: a store that is created, opened again, and given a table.\<close>

theorem reopened_manifest_is_overwritten_witness:
  "\<exists>mf disk1 mf' disk'. help_open_or_create_manifest_file example_pb ''db'' 5 example_disk = Some (Inr mf, disk1)
    \<and> add_changes example_pb [7] mf [example_change] disk1 = Some (Inr (), mf', disk')
    \<and> help_open_or_create_manifest_file example_pb ''db'' 5 disk' = Some (Inl BadMagic, disk')"
proof -
  have r: "replay_manifest_file example_pb (rewrite_bytes example_pb manifest_new [])
      = Some (Inr (manifest_new, length (rewrite_bytes example_pb manifest_new [])))"
    using replay_loop_entry [of example_pb "[]" manifest_new manifest_new "[]" 8] example_pb_ok(1)
    by (simp add: rewrite_bytes_eq replay_header as_changes_def replay_end pb_ok_def)
  then obtain mf disk1 where o: "help_open_or_create_manifest_file example_pb ''db'' 5 example_disk = Some (Inr mf, disk1)"
    "mff_manifest mf = manifest_new"
    using open_replays [of example_disk "''db''" "rewrite_bytes example_pb manifest_new []" "[]" example_pb manifest_new 5]
    by (auto simp: example_disk_def)
  have a: "apply_manifest_change_set (mff_manifest mf) [example_change] = Some (example_manifest, Inr ())"
    by (simp only: o(2) example_apply)
  have "\<exists>mf' disk'. add_changes example_pb [7] mf [example_change] disk1 = Some (Inr (), mf', disk')
    \<and> help_open_or_create_manifest_file example_pb ''db'' 5 disk' = Some (Inl BadMagic, disk')"
    by (rule reopened_manifest_is_overwritten [OF _ o(1) a, of "rewrite_bytes example_pb manifest_new []"])
      (simp_all add: example_disk_def needs_rewrite_def example_manifest_def example_pb_def)
  with o show ?thesis by blast
qed

end
