(* ===== verification/Levels.thy ===== *)
theory Levels
  imports Any_Iterator Level_Correct Compaction Manifest_Correct
begin

section \<open>The levels controller\<close>

text \<open>
  Models \<open>src/src/levels.rs\<close>: opening the levels from the manifest, lookups, the choice of what to
  compact, and a compaction from the choice of its tables to the exchange of the tables. Shared
  state is threaded: the controller with its levels, compaction status and manifest file, the table
  reference counts \<open>refs\<close> and the disk. The tasks that write the tables of a compaction are run in the
  order in which they are spawned; their results are sorted afterwards, as in the source. Of the
  worker loop the rounds are modelled; channels, timers and locks are left out, so \<open>do_compact\<close> runs
  to its end. Scores
  are 64-bit floats in the source; their division is a parameter \<open>fdiv\<close> into a linear order,
  \<open>None\<close> being a result that compares with nothing.
\<close>

record 'bf levels_controller =
  lc_levels :: "'bf level_handler list"
  lc_next_file_id :: u64
  lc_c_status :: compact_status
  lc_manifest :: manifest_file
  lc_opt :: options

subsection \<open>Opening\<close>

text \<open>The names are those of the regular files of the directory.\<close>

fun get_id_map :: "string list \<Rightarrow> u64 set option" where
  "get_id_map [] = Some {}"
| "get_id_map (name # names) = do {
     fid \<leftarrow> parse_file_id name;
     ids \<leftarrow> get_id_map names;
     Some (case fid of Inl e \<Rightarrow> ids | Inr fid \<Rightarrow> insert fid ids) }"

definition revert_to_manifest :: "string \<Rightarrow> manifest \<Rightarrow> u64 list \<Rightarrow> u64 set \<Rightarrow> disk \<Rightarrow> unit result \<times> disk" where
  "revert_to_manifest dir mf order id_map disk =
     (case find (\<lambda>i. i \<notin> id_map) order of
        Some i \<Rightarrow> (Inl (Unexpected (''file does not exist for table '' @ decimal (unat i))), disk)
      | None \<Rightarrow>
          (Inr (), \<lambda>path. if \<exists>i\<in>id_map. mf_tables mf i = None \<and> path = new_file_name i dir then None else disk path))"

fun init_levels :: "options \<Rightarrow> nat \<Rightarrow> 'bf level_handler list option" where
  "init_levels opt 0 = Some []"
| "init_levels opt (Suc i) = do {
     levels \<leftarrow> init_levels opt i;
     max_total_size \<leftarrow>
       (if i = 0 then Some 0
        else if i = 1 then Some (opt_level_one_size opt)
        else let n = unat (lh_max_total_size (levels ! (i - 1))) * unat (opt_level_size_multiplier opt)
             in if n < 2 ^ 64 then Some (of_nat n) else None);
     Some (levels @ [(lh_new opt i)\<lparr>lh_max_total_size := max_total_size\<rparr>]) }"

fun open_tables ::
  "'bf bloom \<Rightarrow> string \<Rightarrow> disk \<Rightarrow> manifest \<Rightarrow> u64 list \<Rightarrow> 'bf table_core list list \<Rightarrow> u64
     \<Rightarrow> ('bf table_core list list \<times> u64) result option" where
  "open_tables bl dir disk mf [] tables max_file_id = Some (Inr (tables, max_file_id))"
| "open_tables bl dir disk mf (file_id # order) tables max_file_id =
     (let file_name = new_file_name file_id dir; level = unat (the (mf_tables mf file_id)) in
      case disk file_name of
        None \<Rightarrow> Some (Inl (Unexpected (''Openfile file: '' @ file_name)))
      | Some fd \<Rightarrow> do {
          tb \<leftarrow> open_table bl fd file_name;
          (case tb of
             Inl err \<Rightarrow> Some (Inl (Unexpected (''Open file: '' @ file_name)))
           | Inr tb \<Rightarrow>
               if level < length tables then
                 open_tables bl dir disk mf order (tables[level := tables ! level @ [tb]])
                   (if file_id > max_file_id then file_id else max_file_id)
               else None) })"

fun lc_validate_levels :: "'bf level_handler list \<Rightarrow> unit result" where
  "lc_validate_levels [] = Inr ()"
| "lc_validate_levels (level # levels) =
     (case lh_validate level of Inl e \<Rightarrow> Inl e | Inr u \<Rightarrow> lc_validate_levels levels)"

definition lc_validate :: "'bf levels_controller \<Rightarrow> unit result" where
  "lc_validate lc = lc_validate_levels (lc_levels lc)"

definition cleanup_levels :: "'bf levels_controller \<Rightarrow> refs \<Rightarrow> refs" where
  "cleanup_levels lc refs = foldl (\<lambda>r level. lh_close level r) refs (lc_levels lc)"

definition lc_close :: "'bf levels_controller \<Rightarrow> refs \<Rightarrow> refs" where
  "lc_close lc refs = cleanup_levels lc refs"

text \<open>\<open>new\<close>; \<open>order\<close> is the order in which the tables of the manifest are iterated.\<close>

definition lc_new ::
  "'bf bloom \<Rightarrow> manifest_file \<Rightarrow> options \<Rightarrow> string list \<Rightarrow> u64 list \<Rightarrow> refs \<Rightarrow> disk
     \<Rightarrow> ('bf levels_controller result \<times> refs \<times> disk) option" where
  "lc_new bl manifest opt names order refs disk =
     (if \<not> opt_num_level_zero_tables_stall opt > opt_num_level_zero_tables opt then None
      else do {
        levels \<leftarrow> init_levels opt (opt_max_levels opt);
        let cstatus = replicate (opt_max_levels opt) lcs_default;
        let mf = mff_manifest manifest;
        id_map \<leftarrow> get_id_map names;
        (case revert_to_manifest (opt_dir opt) mf order id_map disk of
           (Inl e, disk) \<Rightarrow> Some (Inl e, refs, disk)
         | (Inr u, disk) \<Rightarrow> do {
             r \<leftarrow> open_tables bl (opt_dir opt) disk mf order (replicate (length levels) []) 0;
             (case r of
                Inl e \<Rightarrow> Some (Inl e, refs, disk)
              | Inr (tables, max_file_id) \<Rightarrow>
                  let refs = foldl (\<lambda>r tb. r(tb_id tb := 1)) refs (concat tables) in
                  if max_file_id = - 1 then None
                  else
                    let lc = \<lparr>lc_levels = map2 init_tables levels tables, lc_next_file_id = max_file_id + 1,
                              lc_c_status = cstatus, lc_manifest = manifest, lc_opt = opt\<rparr>
                    in case lc_validate lc of
                         Inl err \<Rightarrow> Some (Inl (Unexpected ''Level validation''), cleanup_levels lc refs, disk)
                       | Inr u \<Rightarrow> Some (Inr lc, refs, disk)) }) })"

subsection \<open>Lookups\<close>

definition get_all_fids :: "'bf levels_controller \<Rightarrow> u64 list" where
  "get_all_fids lc = concat (map (\<lambda>h. map tb_id (lh_tables h)) (lc_levels lc))"

fun get_in_levels :: "'bf bloom \<Rightarrow> 'bf level_handler list \<Rightarrow> bytes \<Rightarrow> refs \<Rightarrow> (value_struct option \<times> refs) option" where
  "get_in_levels bl [] key refs = Some (None, refs)"
| "get_in_levels bl (h # hs) key refs = do {
     (item, refs) \<leftarrow> lh_get bl h key refs;
     (case item of Some i \<Rightarrow> Some (Some (snd i), refs) | None \<Rightarrow> get_in_levels bl hs key refs) }"

definition lc_get :: "'bf bloom \<Rightarrow> 'bf levels_controller \<Rightarrow> bytes \<Rightarrow> refs \<Rightarrow> (value_struct option \<times> refs) option" where
  "lc_get bl lc key refs = get_in_levels bl (lc_levels lc) key refs"

definition lc_as_iterator :: "'bf levels_controller \<Rightarrow> bool \<Rightarrow> 'bf any_iter list" where
  "lc_as_iterator lc rv =
     concat (map (\<lambda>level. map (\<lambda>table. AnyTable (ti_new table rv))
       (if lh_level level = 0 then rev (lh_tables level) else lh_tables level)) (lc_levels lc))"

definition reserve_file_id :: "'bf levels_controller \<Rightarrow> u64 \<times> 'bf levels_controller" where
  "reserve_file_id lc = (lc_next_file_id lc, lc\<lparr>lc_next_file_id := lc_next_file_id lc + 1\<rparr>)"

subsection \<open>Choosing what to compact\<close>

definition is_level0_compactable :: "'bf levels_controller \<Rightarrow> bool" where
  "is_level0_compactable lc \<longleftrightarrow> num_tables (lc_levels lc ! 0) \<ge> opt_num_level_zero_tables (lc_opt lc)"

record 'f compaction_priority =
  cp_level :: nat
  cp_score :: 'f

fun pick_deeper ::
  "(nat \<Rightarrow> nat \<Rightarrow> 'f option) \<Rightarrow> nat \<Rightarrow> 'bf level_handler list \<Rightarrow> 'f option compaction_priority list option" where
  "pick_deeper fdiv i [] = Some []"
| "pick_deeper fdiv i (level # levels) = do {
     c \<leftarrow> is_compactable level 0;
     prios \<leftarrow> pick_deeper fdiv (i + 1) levels;
     Some (if c then \<lparr>cp_level = i,
                      cp_score = fdiv (unat (lh_total_size level)) (unat (lh_max_total_size level))\<rparr> # prios
           else prios) }"

text \<open>Sorting panics when two scores do not compare.\<close>

definition pick_compact_levels ::
  "(nat \<Rightarrow> nat \<Rightarrow> 'f :: linorder option) \<Rightarrow> 'bf levels_controller \<Rightarrow> 'f option compaction_priority list option" where
  "pick_compact_levels fdiv lc =
     (if lc_levels lc = [] then None
      else do {
        busy \<leftarrow> cs_overlaps_with (lc_c_status lc) 0 INFO_RANGE;
        deeper \<leftarrow> pick_deeper fdiv 1 (tl (lc_levels lc));
        let prios =
          (if \<not> busy \<and> is_level0_compactable lc
           then [\<lparr>cp_level = 0, cp_score = fdiv (num_tables (lc_levels lc ! 0)) (opt_num_level_zero_tables (lc_opt lc))\<rparr>]
           else []) @ deeper;
        if length prios \<le> 1 then Some prios
        else if list_ex (\<lambda>p. cp_score p = None) prios then None
        else Some (rev (sort_key (\<lambda>p. the (cp_score p)) (rev prios))) })"

subsection \<open>Filling a compaction\<close>

definition fill_tables_l0 ::
  "'bf levels_controller \<Rightarrow> 'bf compact_def \<Rightarrow> (bool \<times> 'bf compact_def \<times> 'bf levels_controller) option" where
  "fill_tables_l0 lc cd =
     (let this_level = lc_levels lc ! cd_this_level cd;
          next_level = lc_levels lc ! cd_next_level cd;
          cd = cd\<lparr>cd_top := cd_top cd @ lh_tables this_level\<rparr>
      in if cd_top cd = [] then Some (False, cd, lc)
         else do {
           let cd = cd\<lparr>cd_this_range := INFO_RANGE\<rparr>;
           kr \<leftarrow> get_range (cd_top cd);
           let (left, right) = overlapping_tables next_level kr;
           bot \<leftarrow> slice (lh_tables next_level) left right;
           let cd = cd\<lparr>cd_bot := cd_bot cd @ bot\<rparr>;
           next_range \<leftarrow> (if cd_bot cd = [] then Some kr else get_range (cd_bot cd));
           let cd = cd\<lparr>cd_next_range := next_range\<rparr>;
           (added, cs) \<leftarrow> compare_and_add (lc_c_status lc) cd this_level;
           Some (added, cd, lc\<lparr>lc_c_status := cs\<rparr>) })"

fun fill_tables_loop ::
  "'bf levels_controller \<Rightarrow> 'bf compact_def \<Rightarrow> 'bf table_core list \<Rightarrow> (bool \<times> 'bf compact_def \<times> 'bf levels_controller) option" where
  "fill_tables_loop lc cd [] = Some (False, cd, lc)"
| "fill_tables_loop lc cd (t # tables) =
     (let this_level = lc_levels lc ! cd_this_level cd;
          next_level = lc_levels lc ! cd_next_level cd;
          this_range = \<lparr>kr_left = tb_smallest t, kr_right = tb_biggest t, kr_inf = False\<rparr>
      in do {
        busy \<leftarrow> cs_overlaps_with (lc_c_status lc) (lh_level this_level) this_range;
        if busy then fill_tables_loop lc cd tables
        else do {
          let cd = cd\<lparr>cd_this_size := of_nat (tb_size t), cd_this_range := this_range, cd_top := [t]\<rparr>;
          let (left, right) = overlapping_tables next_level this_range;
          bot \<leftarrow> slice (lh_tables next_level) left right;
          let cd = cd\<lparr>cd_bot := bot\<rparr>;
          if bot = [] then do {
            let cd = cd\<lparr>cd_next_range := this_range\<rparr>;
            (added, cs) \<leftarrow> compare_and_add (lc_c_status lc) cd this_level;
            if \<not> added then fill_tables_loop lc cd tables
            else Some (True, cd, lc\<lparr>lc_c_status := cs\<rparr>) }
          else do {
            next_range \<leftarrow> get_range bot;
            let cd = cd\<lparr>cd_next_range := next_range\<rparr>;
            busy \<leftarrow> cs_overlaps_with (lc_c_status lc) (lh_level next_level) next_range;
            if busy then fill_tables_loop lc cd tables
            else do {
              (added, cs) \<leftarrow> compare_and_add (lc_c_status lc) cd this_level;
              if \<not> added then fill_tables_loop lc cd tables
              else Some (True, cd, lc\<lparr>lc_c_status := cs\<rparr>) } } } })"

definition fill_tables ::
  "'bf levels_controller \<Rightarrow> 'bf compact_def \<Rightarrow> (bool \<times> 'bf compact_def \<times> 'bf levels_controller) option" where
  "fill_tables lc cd =
     (let tables = lh_tables (lc_levels lc ! cd_this_level cd)
      in if tables = [] then Some (False, cd, lc)
         else fill_tables_loop lc cd (sort_key (\<lambda>t. - int (tb_size t)) tables))"

subsection \<open>Running a compaction\<close>

text \<open>The inner loop fills one table, the outer one writes and opens it.\<close>

partial_function (option) compact_fill ::
  "u64 \<Rightarrow> 'bf any_iter merge_iterator \<Rightarrow> builder \<Rightarrow> (builder \<times> 'bf any_iter merge_iterator) option" where
  "compact_fill max_table_size mitr b =
     (case mi_peek mitr of
        None \<Rightarrow> Some (b, mitr)
      | Some value \<Rightarrow> do {
          b \<leftarrow> builder_add b (fst value) (snd value);
          (_, mitr) \<leftarrow> merge_next any_ops mitr;
          if reached_capacity b max_table_size then Some (b, mitr)
          else compact_fill max_table_size mitr b })"

partial_function (option) compact_loop ::
  "'bf bloom \<Rightarrow> options \<Rightarrow> 'bf any_iter merge_iterator \<Rightarrow> 'bf levels_controller \<Rightarrow> disk
     \<Rightarrow> ('bf table_core result list \<times> 'bf levels_controller \<times> disk) option" where
  "compact_loop bl opt mitr lc disk = do {
     (b, mitr) \<leftarrow> compact_fill (opt_max_table_size opt) mitr builder_default;
     if is_zero_bytes b then Some ([], lc, disk)
     else do {
       let (file_id, lc) = reserve_file_id lc;
       let file_name = new_file_name file_id (opt_dir opt);
       (bytes, _) \<leftarrow> builder_finish bl b;
       let fd = (case disk file_name of Some c \<Rightarrow> c | None \<Rightarrow> []) @ bytes;
       tbl \<leftarrow> open_table bl fd file_name;
       (tbls, lc, disk) \<leftarrow> compact_loop bl opt mitr lc (disk(file_name \<mapsto> fd));
       Some (tbl # tbls, lc, disk) } }"

text \<open>
  Each iterator takes a reference on its table. \<open>close\<close> of the merge iterator is the default of the
  trait, which closes nothing, so these references stay.
\<close>

definition compact_build_tables ::
  "'bf bloom \<Rightarrow> nat \<Rightarrow> 'bf compact_def \<Rightarrow> 'bf levels_controller \<Rightarrow> refs \<Rightarrow> disk
     \<Rightarrow> ('bf table_core list result \<times> 'bf levels_controller \<times> refs \<times> disk) option" where
  "compact_build_tables bl l cd lc refs disk =
     (if l \<noteq> 0 \<and> length (cd_top cd) \<noteq> 1 then None
      else do {
        let top_tables = (if l = 0 then rev (cd_top cd) else cd_top cd);
        let itrs = map (\<lambda>tb. AnyTable (ti_new tb False)) top_tables @ [AnyConcat (ci_new (cd_bot cd) False)];
        let refs = foldl (\<lambda>r tb. ref_incr r (tb_id tb)) refs (top_tables @ cd_bot cd);
        (_, mitr) \<leftarrow> merge_rewind any_ops (mb_build (mb_add_batch mb_default itrs));
        (tbls, lc, disk) \<leftarrow> compact_loop bl (lc_opt lc) mitr lc disk;
        let new_tables = [tb. Inr tb \<leftarrow> tbls];
        let refs = foldl (\<lambda>r tb. r(tb_id tb := 1)) refs new_tables;
        if list_ex isl tbls then Some (Inl (Unexpected ''While running compaction''), lc, refs, disk)
        else Some (Inr (sort_key tb_biggest new_tables), lc, refs, disk) })"

definition build_change_set :: "'bf compact_def \<Rightarrow> 'bf table_core list \<Rightarrow> manifest_change list" where
  "build_change_set cd new_tables =
     map (\<lambda>tb. mcb_build (mcb_with_op (mcb_with_level (mcb_new (tb_id tb)) (of_nat (cd_next_level cd))) CREATE)) new_tables
     @ map (\<lambda>tb. mcb_build (mcb_with_op (mcb_new (tb_id tb)) DELETE)) (cd_top cd)
     @ map (\<lambda>tb. mcb_build (mcb_with_op (mcb_new (tb_id tb)) DELETE)) (cd_bot cd)"

text \<open>The two updates of the levels, in their order.\<close>

definition swap_tables ::
  "'bf compact_def \<Rightarrow> 'bf table_core list \<Rightarrow> 'bf levels_controller \<Rightarrow> refs \<Rightarrow> 'bf levels_controller \<times> refs" where
  "swap_tables cd new_tables lc refs =
     (let (next_level, refs) = replace_tables (lc_levels lc ! cd_next_level cd) new_tables refs;
          lc = lc\<lparr>lc_levels := (lc_levels lc)[cd_next_level cd := next_level]\<rparr>;
          (this_level, refs) = delete_tables (lc_levels lc ! cd_this_level cd) (map tb_id (cd_top cd)) refs;
          lc = lc\<lparr>lc_levels := (lc_levels lc)[cd_this_level cd := this_level]\<rparr>
      in (lc, refs))"

definition run_compact_def ::
  "'bf bloom \<Rightarrow> pb \<Rightarrow> u64 list \<Rightarrow> nat \<Rightarrow> 'bf compact_def \<Rightarrow> 'bf levels_controller \<Rightarrow> refs \<Rightarrow> disk
     \<Rightarrow> (unit result \<times> 'bf levels_controller \<times> refs \<times> disk) option" where
  "run_compact_def bl pb order l cd lc refs disk =
     (if cd_this_level cd \<ge> 1 \<and> cd_bot cd = [] then
        if length (cd_top cd) \<noteq> 1 then None
        else do {
          let table = hd (cd_top cd);
          let changes = [mcb_build (mcb_with_op (mcb_new (tb_id table)) DELETE),
                         mcb_build (mcb_with_op (mcb_with_level (mcb_new (tb_id table)) (of_nat (cd_next_level cd))) CREATE)];
          (r, mf, disk) \<leftarrow> add_changes pb order (lc_manifest lc) changes disk;
          let lc = lc\<lparr>lc_manifest := mf\<rparr>;
          (case r of
             Inl e \<Rightarrow> Some (Inl e, lc, refs, disk)
           | Inr u \<Rightarrow> (case swap_tables cd (cd_top cd) lc refs of (lc, refs) \<Rightarrow> Some (Inr (), lc, refs, disk))) }
      else do {
        (r, lc, refs, disk) \<leftarrow> compact_build_tables bl l cd lc refs disk;
        (case r of
           Inl e \<Rightarrow> Some (Inl e, lc, refs, disk)
         | Inr new_tables \<Rightarrow> do {
             (r, mf, disk) \<leftarrow> add_changes pb order (lc_manifest lc) (build_change_set cd new_tables) disk;
             let lc = lc\<lparr>lc_manifest := mf\<rparr>;
             let deref_tables = foldl (\<lambda>r tb. ref_decr r (tb_id tb));
             (case r of
                Inl e \<Rightarrow> Some (Inl e, lc, deref_tables refs new_tables, disk)
              | Inr u \<Rightarrow> (case swap_tables cd new_tables lc refs of
                            (lc, refs) \<Rightarrow> Some (Inr (), lc, deref_tables refs new_tables, disk))) }) })"

text \<open>\<open>do_compact\<close>: an error of the run is logged only.\<close>

definition do_compact ::
  "'bf bloom \<Rightarrow> pb \<Rightarrow> u64 list \<Rightarrow> nat \<Rightarrow> 'bf levels_controller \<Rightarrow> refs \<Rightarrow> disk
     \<Rightarrow> (bool \<times> 'bf levels_controller \<times> refs \<times> disk) option" where
  "do_compact bl pb order l lc refs disk =
     (if \<not> l + 1 < opt_max_levels (lc_opt lc) \<or> \<not> l + 1 < length (lc_levels lc) then None
      else do {
        let cd = cd_new l (l + 1);
        (filled, cd, lc) \<leftarrow> (if l = 0 then fill_tables_l0 lc cd else fill_tables lc cd);
        if \<not> filled then Some (False, lc, refs, disk)
        else do {
          (r, lc, refs, disk) \<leftarrow> run_compact_def bl pb order l cd lc refs disk;
          cs \<leftarrow> cs_delete (lc_c_status lc) cd;
          Some (True, lc\<lparr>lc_c_status := cs\<rparr>, refs, disk) } })"

text \<open>
  One round of a compaction worker. \<open>orders\<close> gives the order in which the manifest's tables are iterated,
  by the number of picks left; the signals that wake other tasks are left out.
\<close>

fun run_picks ::
  "'bf bloom \<Rightarrow> pb \<Rightarrow> (nat \<Rightarrow> u64 list) \<Rightarrow> 'f compaction_priority list \<Rightarrow> 'bf levels_controller \<Rightarrow> refs \<Rightarrow> disk
     \<Rightarrow> ('bf levels_controller \<times> refs \<times> disk) option" where
  "run_picks bl pb orders [] lc refs disk = Some (lc, refs, disk)"
| "run_picks bl pb orders (p # picks) lc refs disk = do {
     (compacted, lc, refs, disk) \<leftarrow> do_compact bl pb (orders (length picks)) (cp_level p) lc refs disk;
     if compacted then run_picks bl pb orders picks lc refs disk else Some (lc, refs, disk) }"

definition worker_tick ::
  "'bf bloom \<Rightarrow> pb \<Rightarrow> (nat \<Rightarrow> nat \<Rightarrow> 'f :: linorder option) \<Rightarrow> (nat \<Rightarrow> u64 list) \<Rightarrow> 'bf levels_controller \<Rightarrow> refs \<Rightarrow> disk
     \<Rightarrow> ('bf levels_controller \<times> refs \<times> disk) option" where
  "worker_tick bl pb fdiv orders lc refs disk =
     (if opt_do_not_compact (lc_opt lc) then Some (lc, refs, disk)
      else do {
        picks \<leftarrow> pick_compact_levels fdiv lc;
        run_picks bl pb orders picks lc refs disk })"

subsection \<open>Adding a table to level 0\<close>

text \<open>
  \<open>wait\<close> is what the other tasks do while the source sleeps: the compaction workers, in the program.
\<close>

partial_function (option) stall_loop ::
  "('bf levels_controller \<Rightarrow> refs \<Rightarrow> disk \<Rightarrow> ('bf levels_controller \<times> refs \<times> disk) option)
     \<Rightarrow> 'bf levels_controller \<Rightarrow> refs \<Rightarrow> disk \<Rightarrow> ('bf levels_controller \<times> refs \<times> disk) option" where
  "stall_loop wait lc refs disk = do {
     stalled \<leftarrow> (if is_level0_compactable lc then Some True
                 else if 1 < length (lc_levels lc) then is_compactable (lc_levels lc ! 1) 0 else None);
     if \<not> stalled then Some (lc, refs, disk)
     else do {
       (lc, refs, disk) \<leftarrow> wait lc refs disk;
       stall_loop wait lc refs disk } }"

partial_function (option) add_level0_loop ::
  "('bf levels_controller \<Rightarrow> refs \<Rightarrow> disk \<Rightarrow> ('bf levels_controller \<times> refs \<times> disk) option)
     \<Rightarrow> 'bf table_core \<Rightarrow> 'bf levels_controller \<Rightarrow> refs \<Rightarrow> disk \<Rightarrow> ('bf levels_controller \<times> refs \<times> disk) option" where
  "add_level0_loop wait table lc refs disk =
     (if lc_levels lc = [] then None
      else do {
        (added, level0, refs) \<leftarrow> try_add_level0_table (lc_levels lc ! 0) table refs;
        let lc = lc\<lparr>lc_levels := (lc_levels lc)[0 := level0]\<rparr>;
        if added then Some (lc, refs, disk)
        else do {
          (lc, refs, disk) \<leftarrow> stall_loop wait lc refs disk;
          add_level0_loop wait table lc refs disk } })"

definition add_level0_table ::
  "('bf levels_controller \<Rightarrow> refs \<Rightarrow> disk \<Rightarrow> ('bf levels_controller \<times> refs \<times> disk) option)
     \<Rightarrow> pb \<Rightarrow> u64 list \<Rightarrow> 'bf table_core \<Rightarrow> 'bf levels_controller \<Rightarrow> refs \<Rightarrow> disk
     \<Rightarrow> (unit result \<times> 'bf levels_controller \<times> refs \<times> disk) option" where
  "add_level0_table wait pb order table lc refs disk = do {
     (r, mf, disk) \<leftarrow> add_changes pb order (lc_manifest lc)
       [mcb_build (mcb_with_op (mcb_with_level (mcb_new (tb_id table)) 0) CREATE)] disk;
     let lc = lc\<lparr>lc_manifest := mf\<rparr>;
     (case r of
        Inl e \<Rightarrow> Some (Inl e, lc, refs, disk)
      | Inr u \<Rightarrow> do {
          (lc, refs, disk) \<leftarrow> add_level0_loop wait table lc refs disk;
          Some (Inr (), lc, refs, disk) }) }"

end
