(* ===== verification/Levels_Correct.thy ===== *)
theory Levels_Correct
  imports Levels
begin

section \<open>Correctness of compaction\<close>

text \<open>
  A compaction writes exactly the merged pairs of its input tables into new tables, and the
  exchange of the tables leaves the answer of every lookup as it was.
\<close>

subsection \<open>Tables and their pairs\<close>

definition holds :: "'bf bloom \<Rightarrow> 'bf table_core \<Rightarrow> item list \<Rightarrow> bool" where
  "holds bl t kvs \<longleftrightarrow> (\<exists>bs. tbl_ok t bs \<and> concat bs = kvs \<and> tb_smallest t = fst (hd kvs)
     \<and> tb_biggest t = fst (last kvs) \<and> bloom_sound bl t bs)"

definition bloom_laws :: "'bf bloom \<Rightarrow> bool" where
  "bloom_laws bl \<longleftrightarrow> (\<forall>f. bl_from_slice bl (bl_to_vec bl f) = Some f) \<and> (\<forall>n h. \<not> bl_contains bl (bl_new bl n) h)"

text \<open>Every table file that can be built from some of the pairs is below 4 GiB.\<close>

definition files_small :: "'bf bloom \<Rightarrow> item set \<Rightarrow> bool" where
  "files_small bl kvs \<longleftrightarrow> (\<forall>bs n. set (concat bs) \<subseteq> kvs \<longrightarrow> strictly_sorted (map fst (concat bs)) \<longrightarrow>
     (\<forall>c\<in>set bs. c \<noteq> []) \<longrightarrow> length (table_file bs (bl_to_vec bl (bl_new bl n))) < 2 ^ 32)"

lemma sorted_ends:
  assumes "strictly_sorted (map fst kvs)" and "e \<in> set kvs"
  shows "fst (hd kvs) \<le> fst e" and "fst e \<le> fst (last kvs)"
proof -
  obtain i where i: "i < length kvs" "kvs ! i = e" using assms(2) by (auto simp: in_set_conv_nth)
  have "fst (kvs ! a) \<le> fst (kvs ! b)" if "a \<le> b" "b < length kvs" for a b
    using assms(1) that by (cases "a = b") (auto simp: sorted_wrt_iff_nth_less intro: less_imp_le)
  moreover have "kvs \<noteq> []" using assms(2) by auto
  ultimately show "fst (hd kvs) \<le> fst e" "fst e \<le> fst (last kvs)"
    using i by (auto simp: hd_conv_nth last_conv_nth)
qed

lemma holdsD:
  assumes "holds bl t kvs"
  shows "kvs \<noteq> []" and "strictly_sorted (map fst kvs)" and "\<And>e. e \<in> set kvs \<Longrightarrow> entry_ok e"
    and "tb_smallest t = fst (hd kvs)" and "tb_biggest t = fst (last kvs)"
    and "\<And>e. e \<in> set kvs \<Longrightarrow> tb_smallest t \<le> fst e \<and> fst e \<le> tb_biggest t"
proof -
  from assms obtain bs where bs: "tbl_ok t bs" "concat bs = kvs" "tb_smallest t = fst (hd kvs)" "tb_biggest t = fst (last kvs)"
    by (auto simp: holds_def)
  show ne: "kvs \<noteq> []" using tbl_ok_items [OF bs(1)] bs(2) by simp
  show srt: "strictly_sorted (map fst kvs)" using tbl_okD(3) [OF bs(1)] bs(2) by simp
  show "tb_smallest t = fst (hd kvs)" "tb_biggest t = fst (last kvs)" using bs(3,4) .
  show "entry_ok e" if "e \<in> set kvs" for e
  proof -
    from that bs(2) obtain c where "c \<in> set bs" "e \<in> set c" by auto
    then obtain j where "j < length bs" "e \<in> set (bs ! j)" by (metis in_set_conv_nth)
    with tbl_okD(2) [OF bs(1)] show ?thesis by (auto simp: blk_ok_def)
  qed
  show "tb_smallest t \<le> fst e \<and> fst e \<le> tb_biggest t" if "e \<in> set kvs" for e
    using sorted_ends [OF srt that] bs(3,4) by simp
qed

lemma holds_le:
  assumes "holds bl t kvs"
  shows "tb_smallest t \<le> tb_biggest t"
  using holdsD(1) [OF assms] holdsD(6) [OF assms, of "hd kvs"] by (auto intro: order_trans)

lemma holds_unique:
  assumes "holds bl t a" and "holds bl t b"
  shows "a = b"
proof -
  from assms obtain bs cs where bs: "tbl_ok t bs" "concat bs = a" and cs: "tbl_ok t cs" "concat cs = b"
    by (auto simp: holds_def)
  obtain n where n: "length a < n" "length b < n" by (meson gt_ex max_less_iff_conj)
  have "collect ti_next n (ti_new t False) = Some a" "collect ti_next n (ti_new t False) = Some b"
    using tbl.collect_rest [OF ti_new_at [OF bs(1), of False], of n] tbl.collect_rest [OF ti_new_at [OF cs(1), of False], of n]
      bs(2) cs(2) n by simp_all
  then show ?thesis by simp
qed

lemma built_table_holds:
  assumes laws: "bloom_laws bl" and g: "g \<noteq> []" "strictly_sorted (map fst g)" "\<forall>e\<in>set g. entry_ok e"
    and small: "files_small bl kvs" "set g \<subseteq> kvs" and b: "builder_add_all builder_default g = Some b"
  shows "\<exists>bytes b' t. builder_finish bl b = Some (bytes, b') \<and> open_table bl bytes (new_file_name fid dir) = Some (Inr t)
    \<and> holds bl t g \<and> tb_id t = fid"
proof -
  from build_table [OF g(1), of bl] b obtain b' bs n where
    f: "builder_finish bl b = Some (table_file bs (bl_to_vec bl (bl_new bl n)), b')"
    and bs: "concat bs = g" "bs \<noteq> []" "\<forall>c\<in>set bs. c \<noteq> []" by auto
  have size: "length (table_file bs (bl_to_vec bl (bl_new bl n))) < 2 ^ 32"
    using small bs g(2) unfolding files_small_def by metis
  have "\<forall>c\<in>set bs. blk_ok c" using built_blocks_ok [OF bs(1,3) g(3) size] .
  with open_table_file [OF bs(2) _ _ size, of bl "bl_new bl n" fid dir] laws g(2) bs(1) obtain t where
    t: "open_table bl (table_file bs (bl_to_vec bl (bl_new bl n))) (new_file_name fid dir) = Some (Inr t)" "tbl_ok t bs"
      "tb_smallest t = fst (hd g)" "tb_biggest t = fst (last g)" "tb_id t = fid" "tb_bf t = bl_new bl n"
    by (auto simp: bloom_laws_def)
  have "bloom_sound bl t bs" using laws t(6) by (simp add: bloom_sound_def does_not_have_def bloom_laws_def)
  with t f bs(1) show ?thesis by (auto simp: holds_def)
qed

subsection \<open>The loop that writes tables\<close>

text \<open>\<open>produces xs mi\<close>: a loop over \<open>peek\<close> and \<open>next\<close> sees exactly \<open>xs\<close>, and then nothing any more.\<close>

fun produces :: "item list \<Rightarrow> 'bf any_iter merge_iterator \<Rightarrow> bool" where
  "produces [] mi \<longleftrightarrow> mi_peek mi = None \<and> merge_next any_ops mi = Some (None, mi)"
| "produces (x # xs) mi \<longleftrightarrow> mi_peek mi = Some x \<and> (\<exists>r mi'. merge_next any_ops mi = Some (r, mi') \<and> produces xs mi')"

lemma merge_next_peek: "merge_next ops mi = Some (r, mi') \<Longrightarrow> mi_peek mi' = r"
  by (auto simp: merge_next_def merge_step_def set_iter_empty_def mi_peek_def bind_eq_Some_conv
      split: if_splits option.splits)

lemma ready_produces:
  assumes "any.mi_ready sv rv mi alls ps" and "\<forall>p\<in>set ps. sorted_wrt (dlt rv) (map fst p)"
    and "\<forall>e\<in>set (concat ps). \<not> starts_with (fst e) BADGER_PREFIX"
  shows "\<exists>r mi' out. merge_next any_ops mi = Some (r, mi') \<and> produces out mi' \<and> merges rv ps out"
  using assms
proof (induction "length (concat ps)" arbitrary: mi ps rule: less_induct)
  case less
  show ?case
  proof (cases "waiting ps = {}")
    case True
    have "any.mi_ready sv rv (set_iter_empty mi) alls ps" using less(2) by (simp add: any.mi_ready_def set_iter_empty_def USIZE_MAX_def)
    from any.merge_next_end [OF this True] have "produces [] (set_iter_empty mi)" by (simp add: set_iter_empty_def mi_peek_def)
    then show ?thesis
      using any.merge_next_end [OF less(2) True] waiting_empty [OF True] by (auto simp: merges_def intro!: exI [of _ "[]"])
  next
    case False
    then obtain i mi' where i: "i \<in> waiting ps" "\<forall>j\<in>waiting ps. wins rv (fst (hd (ps ! i)), i) (fst (hd (ps ! j)), j)"
      "merge_next any_ops mi = Some (Some (hd (ps ! i)), mi')"
      "any.mi_ready sv rv mi' alls (map (drop_key (fst (hd (ps ! i)))) ps)"
      using any.merge_next_item [OF less(2) False less(3,4)] by blast
    from less(1) [OF any.length_drop_key [OF i(1)] i(4) any.drop_key_ok [OF less(3,4)]] obtain r mi2 out where
      out: "merge_next any_ops mi' = Some (r, mi2)" "produces out mi2" "merges rv (map (drop_key (fst (hd (ps ! i)))) ps) out"
      by blast
    then have "produces (hd (ps ! i) # out) mi'" using merge_next_peek [OF i(3)] by auto
    then show ?thesis using i(3) merges_step [OF i(1,2) less(3) out(3)] by blast
  qed
qed

lemma merge_sources_produce:
  fixes its :: "'bf any_iter list"
  assumes src: "list_all2 (source_ok sv) its alls" and "its \<noteq> []" and len: "length its < USIZE_MAX"
    and first: "\<forall>p\<in>set alls. internal_first p" and sorted: "\<forall>p\<in>set alls. sorted_wrt (dlt rv) (map fst p)"
  shows "\<exists>r mi out. merge_rewind any_ops (build_merge rv its) = Some (r, mi) \<and> produces out mi \<and> merges rv (map user_items alls) out"
proof -
  have "\<forall>i<length its. \<exists>cur rest. any_at sv (its ! i) (alls ! i) cur rest"
    using src source_okD(1) by (fastforce simp: list_all2_conv_all_nth)
  from any.build_at [OF this _ len] obtain ps where at: "any.mi_at sv rv (build_merge rv its) alls ps {}"
    using list_all2_lengthD [OF src] by auto
  have ne: "alls \<noteq> []" using assms(1,2) by auto
  have drop: "map (dropWhile internal) alls = map user_items alls" using first by (simp add: internal_first_def)
  from any.merge_rewind_ready [OF at ne] obtain mi1 where
    mi1: "merge_rewind any_ops (build_merge rv its) = merge_next any_ops mi1" "any.mi_ready sv rv mi1 alls (map user_items alls)"
    unfolding drop by blast
  have "\<forall>p\<in>set (map user_items alls). sorted_wrt (dlt rv) (map fst p)" using sorted user_items_sorted by auto
  moreover have "\<forall>e\<in>set (concat (map user_items alls)). \<not> internal e" by auto
  ultimately show ?thesis using ready_produces [OF mi1(2)] mi1(1) by metis
qed

lemma merge_produces:
  fixes its :: "'bf any_iter list"
  assumes "list_all2 (source_ok rv) its alls" and "its \<noteq> []" and "length its < USIZE_MAX" and "\<forall>p\<in>set alls. internal_first p"
  shows "\<exists>r mi out. merge_rewind any_ops (build_merge rv its) = Some (r, mi) \<and> produces out mi \<and> merges rv (map user_items alls) out"
  using merge_sources_produce [OF assms sources_at(2) [OF assms(1,3)]] .

lemma compact_fill_produces:
  assumes "produces xs mi" and "builder_at b done cur" and "\<forall>d\<in>set done. d \<noteq> []"
  shows "\<exists>g rest b' mi'. xs = g @ rest \<and> (xs \<noteq> [] \<longrightarrow> g \<noteq> []) \<and> compact_fill cap mi b = Some (b', mi')
    \<and> builder_add_all b g = Some b' \<and> produces rest mi'"
  using assms
proof (induction xs arbitrary: mi b "done" cur)
  case Nil
  then have "compact_fill cap mi b = Some (b, mi)" by (subst compact_fill.simps) simp
  with Nil show ?case by (intro exI [of _ "[]"] exI [of _ b] exI [of _ mi]) simp
next
  case (Cons x xs)
  obtain k v where x: "x = (k, v)" by (cases x)
  obtain r mi1 where mi1: "merge_next any_ops mi = Some (r, mi1)" "produces xs mi1" using Cons.prems(1) by auto
  obtain b1 done1 cur1 where b1: "builder_add b k v = Some b1" "builder_at b1 done1 cur1" "\<forall>d\<in>set done1. d \<noteq> []"
    using builder_add_at [OF Cons.prems(2,3), of k v] by blast
  note step = compact_fill.simps [of cap mi b]
  show ?case
  proof (cases "reached_capacity b1 cap")
    case True
    with Cons.prems(1) mi1 b1(1) have "compact_fill cap mi b = Some (b1, mi1)" by (subst step) (simp add: x)
    with mi1(2) b1(1) show ?thesis by (intro exI [of _ "[x]"] exI [of _ xs] exI [of _ b1] exI [of _ mi1]) (simp add: x)
  next
    case False
    with Cons.prems(1) mi1 b1(1) have go: "compact_fill cap mi b = compact_fill cap mi1 b1" by (subst step) (simp add: x)
    from Cons.IH [OF mi1(2) b1(2,3)] obtain g rest b' mi' where
      "xs = g @ rest" "compact_fill cap mi1 b1 = Some (b', mi')" "builder_add_all b1 g = Some b'" "produces rest mi'" by blast
    with go b1(1) show ?thesis by (intro exI [of _ "x # g"] exI [of _ rest] exI [of _ b'] exI [of _ mi']) (simp add: x)
  qed
qed

lemma builder_not_zero:
  assumes "builder_add_all builder_default g = Some b"
  shows "is_zero_bytes b \<longleftrightarrow> g = []"
proof (cases "g = []")
  case True
  with assms show ?thesis by (auto simp: is_zero_bytes_def builder_default_def)
next
  case False
  obtain "done" cur where b: "builder_at b done cur" "cur \<noteq> []"
    using builder_add_all_at [OF builder_default_at, of g] assms False by auto
  then obtain c e where "cur = c @ [e]" using rev_exhaust by metis
  with b show ?thesis using False by (simp add: is_zero_bytes_def builder_at_def entry_bytes_length)
qed

lemma new_file_name_eq: "new_file_name i dir = new_file_name j dir \<longleftrightarrow> i = j"
  by (metis parse_new_file_name option.inject sum.inject(2))

lemma compact_loop_builds:
  assumes "produces xs mi" and "strictly_sorted (map fst xs)" and "\<forall>e\<in>set xs. entry_ok e"
    and laws: "bloom_laws bl" and small: "files_small bl kvs" and "set xs \<subseteq> kvs" and "length xs < 2 ^ 64"
    and "\<forall>j<length xs. disk (new_file_name (lc_next_file_id lc + of_nat j) (opt_dir opt)) = None"
  shows "\<exists>tbls gs disk'. compact_loop bl opt mi lc disk
        = Some (map Inr tbls, lc\<lparr>lc_next_file_id := lc_next_file_id lc + of_nat (length tbls)\<rparr>, disk')
    \<and> concat gs = xs \<and> list_all2 (holds bl) tbls gs"
  using assms(1-3,6-)
proof (induction "length xs" arbitrary: xs mi lc disk rule: less_induct)
  case less
  have "\<forall>d\<in>set []. d \<noteq> ([] :: item list)" by simp
  from compact_fill_produces [OF less(2) builder_default_at this, of "opt_max_table_size opt"]
  obtain g rest b mi1 where g: "xs = g @ rest" "xs \<noteq> [] \<longrightarrow> g \<noteq> []"
    "compact_fill (opt_max_table_size opt) mi builder_default = Some (b, mi1)"
    "builder_add_all builder_default g = Some b" "produces rest mi1" by blast
  note step = compact_loop.simps [of bl opt mi lc disk]
  show ?case
  proof (cases "xs = []")
    case True
    then have "is_zero_bytes b" using g(1) builder_not_zero [OF g(4)] by simp
    then have "compact_loop bl opt mi lc disk = Some ([], lc, disk)" by (subst step) (simp add: g(3))
    with True show ?thesis by (intro exI [of _ "[]"] exI [of _ disk]) simp
  next
    case False
    then have ne: "g \<noteq> []" using g(2) by simp
    let ?fid = "lc_next_file_id lc"
    let ?lc1 = "lc\<lparr>lc_next_file_id := ?fid + 1\<rparr>"
    let ?name = "new_file_name ?fid (opt_dir opt)"
    have gs: "strictly_sorted (map fst g)" "\<forall>e\<in>set g. entry_ok e" "set g \<subseteq> kvs"
      using less(3,4,5) by (auto simp: g(1) sorted_wrt_append)
    obtain bytes b' t where t: "builder_finish bl b = Some (bytes, b')" "open_table bl bytes ?name = Some (Inr t)" "holds bl t g"
      using built_table_holds [OF laws ne gs(1,2) small gs(3) g(4)] by blast
    have "disk ?name = None" using less(7) [rule_format, of 0] False by simp
    moreover have "\<not> is_zero_bytes b" using builder_not_zero [OF g(4)] ne by simp
    ultimately have go: "compact_loop bl opt mi lc disk = do {
        (tbls, lc', disk') \<leftarrow> compact_loop bl opt mi1 ?lc1 (disk(?name \<mapsto> bytes)); Some (Inr t # tbls, lc', disk') }"
      using g(3) t(1,2) by (subst step) (simp add: reserve_file_id_def)
    have "(disk(?name \<mapsto> bytes)) (new_file_name (lc_next_file_id ?lc1 + of_nat j) (opt_dir opt)) = None" if "j < length rest" for j
    proof -
      have j: "Suc j < length xs" using that ne g(1) by (cases g) auto
      then have "(of_nat (Suc j) :: u64) \<noteq> 0" using less(6) by (simp add: word_unat_eq_iff unat_of_nat_u64 del: of_nat_Suc)
      moreover have eq: "lc_next_file_id ?lc1 + of_nat j = ?fid + of_nat (Suc j)" by simp
      moreover have "disk (new_file_name (?fid + of_nat (Suc j)) (opt_dir opt)) = None" using less(7) j by blast
      ultimately show ?thesis unfolding eq by (simp add: new_file_name_eq del: of_nat_Suc)
    qed
    with less(1) [of rest mi1 "disk(?name \<mapsto> bytes)" ?lc1] less(3-6) g(1,5) ne obtain tbls gs' disk' where
      "compact_loop bl opt mi1 ?lc1 (disk(?name \<mapsto> bytes)) = Some (map Inr tbls, ?lc1\<lparr>lc_next_file_id := ?fid + 1 + of_nat (length tbls)\<rparr>, disk')"
      "concat gs' = rest" "list_all2 (holds bl) tbls gs'"
      by (auto simp: sorted_wrt_append)
    with go t(3) g(1) show ?thesis
      by (intro exI [of _ "t # tbls"] exI [of _ "g # gs'"] exI [of _ disk']) (simp add: add.assoc)
  qed
qed

subsection \<open>Levels and their pairs\<close>

definition level_holds :: "'bf bloom \<Rightarrow> 'bf level_handler \<Rightarrow> item list list \<Rightarrow> bool" where
  "level_holds bl h kvss \<longleftrightarrow> list_all2 (holds bl) (lh_tables h) kvss
     \<and> (lh_level h \<noteq> 0 \<longrightarrow> strictly_sorted (map fst (concat kvss)))"

definition level_items :: "'bf level_handler \<Rightarrow> item list list \<Rightarrow> item list" where
  "level_items h kvss = concat (if lh_level h = 0 then rev kvss else kvss)"

lemma level_holds_get:
  assumes "level_holds bl h kvss"
  shows "\<exists>refs'. lh_get bl h k refs = Some (map_option (Pair k) (map_of (level_items h kvss) k), refs')"
proof -
  have "\<forall>i<length kvss. \<exists>bs. tbl_ok (lh_tables h ! i) bs \<and> concat bs = kvss ! i \<and> tb_smallest (lh_tables h ! i) = fst (hd (kvss ! i))
     \<and> tb_biggest (lh_tables h ! i) = fst (last (kvss ! i)) \<and> bloom_sound bl (lh_tables h ! i) bs"
    using assms by (auto simp: level_holds_def list_all2_conv_all_nth holds_def)
  then obtain f where f: "\<And>i. i < length kvss \<Longrightarrow> tbl_ok (lh_tables h ! i) (f i) \<and> concat (f i) = kvss ! i
     \<and> tb_smallest (lh_tables h ! i) = fst (hd (kvss ! i))
     \<and> tb_biggest (lh_tables h ! i) = fst (last (kvss ! i)) \<and> bloom_sound bl (lh_tables h ! i) (f i)" by metis
  define bss where "bss = map f [0..<length kvss]"
  have len: "length (lh_tables h) = length kvss" using assms by (auto simp: level_holds_def list_all2_lengthD)
  have c: "map concat bss = kvss" using f by (auto simp: bss_def intro: nth_equalityI)
  have "list_all2 (bloom_sound bl) (lh_tables h) bss" "list_all2 tbl_ok (lh_tables h) bss"
    "lh_level h \<noteq> 0 \<Longrightarrow> level_ok (lh_tables h) bss"
    using f len c assms by (auto simp: list_all2_conv_all_nth bss_def level_ok_def level_holds_def)
  then have "\<exists>refs'. lh_get bl h k refs = Some (map_option (Pair k)
      (map_of (concat (if lh_level h = 0 then rev (map concat bss) else map concat bss)) k), refs')"
    by (intro level_get) simp_all
  then show ?thesis unfolding c level_items_def .
qed

lemma get_in_levels_correct:
  assumes "list_all2 (level_holds bl) hs kvsss"
  shows "\<exists>refs'. get_in_levels bl hs k refs = Some (map_of (concat (map2 level_items hs kvsss)) k, refs')"
  using assms
proof (induction hs kvsss arbitrary: refs rule: list_all2_induct)
  case (Cons h hs kvss kvsss)
  obtain refs1 where r: "lh_get bl h k refs = Some (map_option (Pair k) (map_of (level_items h kvss) k), refs1)"
    using level_holds_get [OF Cons(1)] by blast
  show ?case
  proof (cases "map_of (level_items h kvss) k")
    case None
    then show ?thesis using r Cons(3) [of refs1] by (auto simp: map_add_def)
  next
    case (Some v)
    then show ?thesis using r by (simp add: map_add_def)
  qed
qed simp

lemma disjoint_iff_sorted:
  assumes "list_all2 (holds bl) ts kvss"
  shows "strictly_sorted (map fst (concat kvss)) \<longleftrightarrow> tables_disjoint ts"
  using assms
proof (induction ts kvss rule: list_all2_induct)
  case (Cons t ts kvs kvss)
  note t = holdsD [OF Cons(1)]
  have ends: "\<exists>e\<in>set kvs. fst e = tb_biggest t" using t(1,5) by (metis last_in_set)
  have low: "\<exists>e\<in>set kvs'. fst e = tb_smallest t'" if "holds bl t' kvs'" for t' kvs'
    using holdsD(1,4) [OF that] by (metis list.set_sel(1))
  have "(\<forall>x\<in>set kvs. \<forall>y\<in>set (concat kvss). fst x < fst y) \<longleftrightarrow> (\<forall>t'\<in>set ts. tb_biggest t < tb_smallest t')"
  proof (intro iffI ballI)
    fix t' assume all: "\<forall>x\<in>set kvs. \<forall>y\<in>set (concat kvss). fst x < fst y" and "t' \<in> set ts"
    then obtain kvs' where k': "kvs' \<in> set kvss" "holds bl t' kvs'"
      using Cons(2) by (metis list_all2_conv_all_nth in_set_conv_nth)
    from low [OF k'(2)] ends all k'(1) show "tb_biggest t < tb_smallest t'" by fastforce
  next
    fix x y assume all: "\<forall>t'\<in>set ts. tb_biggest t < tb_smallest t'" and x: "x \<in> set kvs" and "y \<in> set (concat kvss)"
    then obtain kvs' where "kvs' \<in> set kvss" "y \<in> set kvs'" by auto
    moreover from this(1) obtain t' where "t' \<in> set ts" "holds bl t' kvs'"
      using Cons(2) by (metis list_all2_conv_all_nth in_set_conv_nth)
    ultimately show "fst x < fst y"
      using all t(6) [OF x] holdsD(6) [of bl t' kvs' y] by (meson order_le_less_trans order_less_le_trans)
  qed
  moreover have "tb_smallest t \<le> tb_biggest t" using ends t(6) by metis
  ultimately show ?case
    using Cons(3) t(2) by (auto simp: tables_disjoint_def sorted_wrt_append)
qed (simp add: tables_disjoint_def)

lemma sorted_map_of: "strictly_sorted (map fst kvs) \<Longrightarrow> map_of kvs k = Some v \<longleftrightarrow> (k, v) \<in> set kvs"
  by (simp add: strict_sorted_iff)

text \<open>The pairs of a table as a function of the table.\<close>

lemma holds_fun:
  assumes "list_all2 (holds bl) ts kvss"
  obtains f where "\<And>t. t \<in> set ts \<Longrightarrow> holds bl t (f t)" and "kvss = map f ts"
proof -
  have "\<forall>t\<in>set ts. \<exists>kvs. holds bl t kvs" using assms by (metis list_all2_conv_all_nth in_set_conv_nth)
  then obtain f where f: "\<And>t. t \<in> set ts \<Longrightarrow> holds bl t (f t)" by metis
  have "kvss ! i = f (ts ! i)" if "i < length ts" for i
    using that assms f [of "ts ! i"] by (intro holds_unique [of bl "ts ! i"]) (auto simp: list_all2_conv_all_nth)
  then have "kvss = map f ts" using list_all2_lengthD [OF assms] by (auto intro: nth_equalityI)
  with f that show thesis by blast
qed

lemma holds_map: "(\<And>t. t \<in> set ts \<Longrightarrow> holds bl t (f t)) \<Longrightarrow> list_all2 (holds bl) ts (map f ts)"
  by (auto simp: list_all2_conv_all_nth)

lemma holds_lists_unique: "list_all2 (holds bl) ts a \<Longrightarrow> list_all2 (holds bl) ts b \<Longrightarrow> a = b"
  using holds_unique by (metis (no_types, lifting) list_all2_conv_all_nth nth_equalityI)

subsection \<open>The next level after a compaction\<close>

text \<open>
  \<open>down\<close> are the pairs that come down, \<open>lower\<close> the tables they are merged with: those of the next
  level that meet the range from \<open>a\<close> to \<open>b\<close>, in which the keys of \<open>down\<close> lie.
\<close>

definition bottom_of :: "'bf level_handler \<Rightarrow> item list \<Rightarrow> bytes \<Rightarrow> bytes \<Rightarrow> 'bf table_core list \<Rightarrow> bool" where
  "bottom_of h down a b lower \<longleftrightarrow> down \<noteq> [] \<and> (\<forall>e\<in>set down. a \<le> fst e \<and> fst e \<le> b)
     \<and> (\<forall>t. t \<in> set lower \<longleftrightarrow> t \<in> set (lh_tables h) \<and> tb_smallest t \<le> b \<and> a \<le> tb_biggest t)"

lemma outside_bottom:
  fixes ts :: "'bf table_core list"
  assumes h: "level_holds bl h kvss" "lh_level h \<noteq> 0" and lower: "bottom_of h down a b lower"
    and f: "\<And>t. t \<in> set (lh_tables h) \<Longrightarrow> holds bl t (f t)"
    and out: "out \<noteq> []" "strictly_sorted (map fst out)"
      "fst ` set out = fst ` set down \<union> (\<Union>t\<in>set lower. fst ` set (f t))"
    and t: "t \<in> set (lh_tables h)"
  shows "t \<notin> set lower \<longleftrightarrow> tb_biggest t < fst (hd out) \<or> fst (last out) < tb_smallest t"
proof -
  have dis: "tables_disjoint (lh_tables h)"
    using h disjoint_iff_sorted by (auto simp: level_holds_def)
  have apart: "apart t u" if "u \<in> set (lh_tables h)" "u \<noteq> t" for u
    using dis t that unfolding tables_disjoint_def sorted_wrt_iff_nth_less in_set_conv_nth by (metis linorder_neqE_nat)
  have ends: "fst (hd out) \<in> fst ` set out" "fst (last out) \<in> fst ` set out" using out(1) by auto
  have bounds: "fst (hd out) \<le> k \<and> k \<le> fst (last out)" if kin: "k \<in> fst ` set out" for k
  proof -
    obtain e where "e \<in> set out" "fst e = k" using kin by auto
    with sorted_ends [OF out(2)] show ?thesis by blast
  qed
  have keys: "tb_smallest u \<in> fst ` set (f u)" "tb_biggest u \<in> fst ` set (f u)" "tb_smallest u \<le> tb_biggest u"
    "\<And>k. k \<in> fst ` set (f u) \<Longrightarrow> tb_smallest u \<le> k \<and> k \<le> tb_biggest u" if "u \<in> set (lh_tables h)" for u
    using holdsD [OF f [OF that]] dis that by (auto simp: tables_disjoint_def)
  show ?thesis
  proof (cases "t \<in> set lower")
    case True
    then have "tb_smallest t \<in> fst ` set out" "tb_biggest t \<in> fst ` set out" using out(3) keys(1,2) [OF t] by auto
    from bounds [OF this(1)] bounds [OF this(2)] True show ?thesis by auto
  next
    case False
    then consider "tb_biggest t < a" | "b < tb_smallest t" using lower t by (auto simp: bottom_of_def not_le)
    then show ?thesis
    proof cases
      case 1
      have "tb_biggest t < k" if "k \<in> fst ` set out" for k
      proof -
        from that out(3) consider "k \<in> fst ` set down" | u where "u \<in> set lower" "k \<in> fst ` set (f u)" by auto
        then show ?thesis
        proof cases
          case 1
          then show ?thesis using lower \<open>tb_biggest t < a\<close> by (auto simp: bottom_of_def intro: order_less_le_trans)
        next
          case 2
          then have u: "u \<in> set (lh_tables h)" "a \<le> tb_biggest u" "u \<noteq> t" using lower False by (auto simp: bottom_of_def)
          have "tb_biggest t < tb_smallest u"
            using apart [OF u(1,3)] u(2) \<open>tb_biggest t < a\<close> keys(3) [OF t] by (meson leD order_less_le_trans order_less_trans)
          with keys(4) [OF u(1) 2(2)] show ?thesis by (meson order_less_le_trans)
        qed
      qed
      with ends(1) False show ?thesis by blast
    next
      case 2
      have "k < tb_smallest t" if "k \<in> fst ` set out" for k
      proof -
        from that out(3) consider "k \<in> fst ` set down" | u where "u \<in> set lower" "k \<in> fst ` set (f u)" by auto
        then show ?thesis
        proof cases
          case 1
          then show ?thesis using lower \<open>b < tb_smallest t\<close> by (auto simp: bottom_of_def intro: order_le_less_trans)
        next
          case 2
          then have u: "u \<in> set (lh_tables h)" "tb_smallest u \<le> b" "u \<noteq> t" using lower False by (auto simp: bottom_of_def)
          have "tb_biggest u < tb_smallest t"
            using apart [OF u(1,3)] u(2) \<open>b < tb_smallest t\<close> keys(3) [OF t] by (meson leD order_le_less_trans order_less_trans)
          with keys(4) [OF u(1) 2(2)] show ?thesis by (meson order_le_less_trans)
        qed
      qed
      with ends(2) False show ?thesis by blast
    qed
  qed
qed

text \<open>The replaced level answers the pairs that came down, and otherwise what it answered before.\<close>

lemma holds_ends:
  assumes "list_all2 (holds bl) new gs" and "gs \<noteq> []"
  shows "tb_smallest (hd new) = fst (hd (concat gs))" "tb_biggest (last new) = fst (last (concat gs))"
proof -
  have ne: "new \<noteq> []" "length new = length gs" using assms by (auto dest: list_all2_lengthD)
  have each: "holds bl (new ! i) (gs ! i)" if "i < length gs" for i using assms(1) that by (simp add: list_all2_conv_all_nth)
  have "hd gs \<noteq> []" "last gs \<noteq> []"
    using each [THEN holdsD(1)] assms(2) by (simp_all add: hd_conv_nth last_conv_nth)
  moreover have "concat gs = hd gs @ concat (tl gs)" "concat gs = concat (butlast gs) @ last gs"
    using assms(2) by (metis concat.simps(2) list.collapse, metis append_butlast_last_id concat.simps concat_append append_Nil2)
  ultimately have "hd (concat gs) = hd (hd gs)" "last (concat gs) = last (last gs)"
    by (metis hd_append2, metis last_appendR)
  then show "tb_smallest (hd new) = fst (hd (concat gs))" "tb_biggest (last new) = fst (last (concat gs))"
    using each [THEN holdsD(4), of 0] each [THEN holdsD(5), of "length gs - 1"] ne assms(2)
    by (simp_all add: hd_conv_nth last_conv_nth)
qed

text \<open>The pairs \<open>bs\<close> of a sorted list \<open>os\<close> give way to \<open>ns\<close>, which merges them with \<open>down\<close>.\<close>

lemma map_of_replaced:
  assumes srt: "strictly_sorted (map fst xs)" "strictly_sorted (map fst ns)" "strictly_sorted (map fst os)"
    and sets: "set os = set bs \<union> R" "set xs = set ns \<union> R" and merged: "map_of ns = map_of (down @ bs)"
  shows "map_of xs = map_of os ++ map_of down"
proof
  fix k
  show "map_of xs k = (map_of os ++ map_of down) k"
  proof (cases "map_of down k")
    case (Some v)
    then have "(k, v) \<in> set ns" using map_of_SomeD [of ns k v] by (simp add: merged)
    then have "map_of xs k = Some v" unfolding sorted_map_of [OF srt(1)] sets by blast
    then show ?thesis using Some by simp
  next
    case None
    have bs: "map_of bs k = Some v \<longleftrightarrow> (k, v) \<in> set bs" for v
    proof
      assume "(k, v) \<in> set bs"
      then obtain w where w: "map_of bs k = Some w" using weak_map_of_SomeI by metis
      then have "(k, w) \<in> set os" using map_of_SomeD [OF w] sets(1) by blast
      moreover have "(k, v) \<in> set os" using \<open>(k, v) \<in> set bs\<close> sets(1) by blast
      ultimately show "map_of bs k = Some v" using w sorted_map_of [OF srt(3)] by (metis option.inject)
    qed (rule map_of_SomeD)
    have "map_of ns k = map_of bs k" using None merged by (simp add: map_add_def)
    then have "map_of xs k = Some v \<longleftrightarrow> map_of os k = Some v" for v
      using bs [of v] sorted_map_of [OF srt(2), of k v] unfolding sorted_map_of [OF srt(1)] sorted_map_of [OF srt(3)] sets by auto
    then have "map_of xs k = map_of os k" by (metis not_None_eq)
    then show ?thesis using None by (simp add: map_add_def)
  qed
qed

lemma replace_view:
  assumes h: "level_holds bl h kvss" "lh_level h \<noteq> 0" and lower: "bottom_of h down a b lower"
    and new: "list_all2 (holds bl) new gs" "strictly_sorted (map fst (concat gs))"
    and kbot: "list_all2 (holds bl) lower kbot" and merged: "map_of (concat gs) = map_of (down @ concat kbot)"
    and wide: "\<forall>t\<in>set lower. tb_smallest t < tb_biggest t"
  shows "\<exists>kvss'. level_holds bl (fst (replace_tables h new refs)) kvss'
    \<and> map_of (concat kvss') = map_of (concat kvss) ++ map_of down"
proof -
  let ?ts = "lh_tables h" and ?h = "fst (replace_tables h new refs)"
  obtain f where f: "\<And>t. t \<in> set ?ts \<Longrightarrow> holds bl t (f t)" "kvss = map f ?ts"
    using holds_fun h(1) by (metis level_holds_def)
  have sub: "set lower \<subseteq> set ?ts" using lower by (auto simp: bottom_of_def)
  have kb: "kbot = map f lower"
    using holds_lists_unique [OF kbot holds_map [of lower bl f]] f(1) sub by blast
  have keys: "fst ` set (concat gs) = fst ` set down \<union> (\<Union>t\<in>set lower. fst ` set (f t))"
    using arg_cong [OF merged, of dom] by (simp add: dom_map_of_conv_image_fst kb image_Un image_UN)
  then have out: "concat gs \<noteq> []" using lower by (force simp: bottom_of_def)
  then have "gs \<noteq> []" by auto
  then have ne: "new \<noteq> []" using new(1) by auto
  note hdl = holds_ends [OF new(1) \<open>gs \<noteq> []\<close>]
  have inside: "t \<notin> set lower \<longleftrightarrow> tb_biggest t < tb_smallest (hd new) \<or> tb_biggest (last new) < tb_smallest t" if "t \<in> set ?ts" for t
    using outside_bottom [OF h lower f(1) out new(2) keys that] by (simp add: hdl)
  have dis_new: "tables_disjoint new" using disjoint_iff_sorted [OF new(1)] new(2) by blast
  have "tb_biggest t \<noteq> tb_smallest (hd new)" if t: "t \<in> set ?ts" for t
  proof (cases "t \<in> set lower")
    case True
    have "tb_smallest t \<in> fst ` set (f t)" using holdsD(1,4) [OF f(1) [OF t]] by simp
    then have "tb_smallest t \<in> fst ` set (concat gs)" using keys True by blast
    then have "fst (hd (concat gs)) \<le> tb_smallest t" using sorted_ends(1) [OF new(2)] by (metis imageE)
    then show ?thesis using hdl wide True by auto
  next
    case False
    have "tb_smallest (hd new) \<le> tb_biggest (last new)"
      using dis_new disjoint_between(1) [of new "last new"] ne by (auto simp: tables_disjoint_def intro: order_trans)
    then show ?thesis using False inside [OF t] holds_le [OF f(1) [OF t]] by auto
  qed
  with replace_order [of h new refs] dis_new ne h disjoint_iff_sorted [of bl ?ts kvss]
  have dis: "tables_disjoint (lh_tables ?h)"
    and set_h: "set (lh_tables ?h) = set new \<union> {t \<in> set ?ts. t \<notin> set lower}"
    using inside by (auto simp: level_holds_def)
  obtain f' where f': "\<And>t. t \<in> set new \<Longrightarrow> holds bl t (f' t)" "gs = map f' new" using holds_fun new(1) by metis
  define g where "g t = (if t \<in> set new then f' t else f t)" for t
  have g: "list_all2 (holds bl) (lh_tables ?h) (map g (lh_tables ?h))"
    using f(1) f'(1) set_h by (intro holds_map) (auto simp: g_def)
  then have srt: "strictly_sorted (map fst (concat (map g (lh_tables ?h))))" using disjoint_iff_sorted dis by blast
  let ?rest = "\<Union>t\<in>{t \<in> set ?ts. t \<notin> set lower}. set (f t)"
  have "g t = f t" if "t \<in> set ?ts" for t using that f(1) f'(1) holds_unique by (metis g_def)
  moreover have "g t = f' t" if "t \<in> set new" for t using that by (simp add: g_def)
  ultimately have "set (concat (map g (lh_tables ?h))) = set (concat gs) \<union> ?rest" by (auto simp: set_h f'(2))
  moreover have "set (concat kvss) = set (concat kbot) \<union> ?rest" using sub by (auto simp: f(2) kb)
  moreover have "strictly_sorted (map fst (concat kvss))" using h by (simp add: level_holds_def)
  ultimately have "map_of (concat (map g (lh_tables ?h))) = map_of (concat kvss) ++ map_of down"
    using map_of_replaced [OF srt new(2) _ _ _ merged] by blast
  moreover have "level_holds bl ?h (map g (lh_tables ?h))" using g srt by (simp add: level_holds_def)
  ultimately show ?thesis by blast
qed

subsection \<open>Both levels after a compaction\<close>

lemma delete_tables_tables:
  "lh_tables (fst (delete_tables h ids refs)) = filter (\<lambda>t. tb_id t \<notin> set ids) (lh_tables h)"
  "lh_level (fst (delete_tables h ids refs)) = lh_level h"
  by (simp_all add: delete_tables_def retain_tables_filter)

text \<open>The tables \<open>ts\<close> that a compaction takes from a level, and their pairs, newest first.\<close>

definition taken_from :: "'bf bloom \<Rightarrow> 'bf level_handler \<Rightarrow> 'bf table_core list \<Rightarrow> item list \<Rightarrow> bool" where
  "taken_from bl h ts down \<longleftrightarrow> (if lh_level h = 0 then ts = lh_tables h \<and> (\<exists>k. list_all2 (holds bl) ts k \<and> down = concat (rev k))
     else \<exists>t. ts = [t] \<and> t \<in> set (lh_tables h) \<and> holds bl t down)"

lemma delete_view:
  assumes h: "level_holds bl h kvss" and "taken_from bl h ts down" and ids: "distinct (map tb_id (lh_tables h))"
  shows "\<exists>kvss'. level_holds bl (fst (delete_tables h (map tb_id ts) refs)) kvss'
    \<and> map_of (level_items h kvss) = map_of (level_items (fst (delete_tables h (map tb_id ts) refs)) kvss') ++ map_of down
    \<and> dom (map_of (level_items (fst (delete_tables h (map tb_id ts) refs)) kvss')) \<inter> dom (map_of down) = {}"
proof (cases "lh_level h = 0")
  case True
  with assms(2) obtain k where k: "ts = lh_tables h" "list_all2 (holds bl) ts k" "down = concat (rev k)"
    by (auto simp: taken_from_def)
  then have "k = kvss" using h holds_lists_unique by (metis level_holds_def)
  moreover have "lh_tables (fst (delete_tables h (map tb_id ts) refs)) = []"
    by (simp add: delete_tables_tables k(1))
  ultimately show ?thesis using True k(3)
    by (intro exI [of _ "[]"]) (simp add: level_holds_def level_items_def delete_tables_tables(2))
next
  case False
  with assms(2) obtain t where t: "ts = [t]" "t \<in> set (lh_tables h)" "holds bl t down" by (auto simp: taken_from_def)
  then obtain us vs where split: "lh_tables h = us @ t # vs" by (meson split_list)
  obtain f where f: "\<And>t. t \<in> set (lh_tables h) \<Longrightarrow> holds bl t (f t)" "kvss = map f (lh_tables h)"
    using holds_fun h by (metis level_holds_def)
  have down: "f t = down" using holds_unique f(1) t(2,3) by blast
  let ?h = "fst (delete_tables h (map tb_id ts) refs)"
  have tabs: "lh_tables ?h = us @ vs"
  proof -
    have "\<forall>x\<in>set us. tb_id x \<noteq> tb_id t" "\<forall>x\<in>set vs. tb_id x \<noteq> tb_id t"
      using ids by (auto simp: split image_iff dest: sym)
    then show ?thesis by (simp add: delete_tables_tables t(1) split)
  qed
  define A B where "A = concat (map f us)" and "B = concat (map f vs)"
  have srt: "strictly_sorted (map fst (A @ down @ B))"
    using h False by (simp add: level_holds_def f(2) split down A_def B_def)
  then have srt': "strictly_sorted (map fst (A @ B))" by (simp add: sorted_wrt_append)
  have "list_all2 (holds bl) (us @ vs) (map f (us @ vs))" using f(1) split by (intro holds_map) auto
  then have holds': "level_holds bl ?h (map f (us @ vs))"
    using srt' tabs by (simp add: level_holds_def A_def B_def)
  have "distinct (map fst A @ map fst down @ map fst B)" using srt unfolding strict_sorted_iff by simp
  then have disj: "fst ` set (A @ B) \<inter> fst ` set down = {}"
    unfolding distinct_append set_append set_map image_Un by blast
  have "map_of (A @ down @ B) k = (map_of (A @ B) ++ map_of down) k" for k
  proof (cases "map_of down k")
    case (Some v)
    then have "k \<in> fst ` set down" using map_of_SomeD by (metis fst_conv image_eqI)
    with disj have "map_of A k = None" by (auto simp: map_of_eq_None_iff)
    with Some show ?thesis by (simp add: map_add_def)
  qed (simp add: map_add_def split: option.split)
  then have eq: "map_of (A @ down @ B) = map_of (A @ B) ++ map_of down" by (rule ext)
  have dom: "dom (map_of (A @ B)) \<inter> dom (map_of down) = {}"
    using disj unfolding dom_map_of_conv_image_fst .
  have "level_items h kvss = A @ down @ B" "level_items ?h (map f (us @ vs)) = A @ B"
    using False by (simp_all add: level_items_def delete_tables_tables(2) f(2) split down A_def B_def)
  with holds' eq dom show ?thesis by metis
qed

lemma map_of_concat_update2:
  assumes "Suc l < length L" and "map_of (X @ Y) k = map_of (L ! l @ L ! Suc l) k"
  shows "map_of (concat (L[l := X, Suc l := Y])) k = map_of (concat L) k"
proof -
  have "L = take l L @ L ! l # L ! Suc l # drop (Suc (Suc l)) L"
    using assms(1) by (metis Cons_nth_drop_Suc Suc_lessD id_take_nth_drop)
  then obtain A x y B where L: "L = A @ x # y # B" and l: "length A = l" "L ! l = x" "L ! Suc l = y"
    using assms(1) by (metis Suc_lessD length_take less_imp_le_nat min_absorb2)
  have "L[l := X, Suc l := Y] = A @ X # Y # B" using l(1) by (simp add: L list_update_append)
  moreover have "(map_of Y ++ map_of X) k = (map_of y ++ map_of x) k" using assms(2) l by simp
  moreover have "map_of (concat (A @ u # v # B)) k = (case map_of (concat A) k of Some w \<Rightarrow> Some w
      | None \<Rightarrow> (case (map_of v ++ map_of u) k of Some w \<Rightarrow> Some w | None \<Rightarrow> map_of (concat B) k))" for u v
    by (simp add: map_add_def split: option.split)
  ultimately show ?thesis using L by metis
qed

lemma map2_update: "map2 f (xs[i := x]) (ys[i := y]) = (map2 f xs ys)[i := f x y]"
  unfolding zip_update map_update by simp

lemma swap_view:
  assumes lc: "list_all2 (level_holds bl) (lc_levels lc) kvsss" and l: "cd_this_level cd = l" "cd_next_level cd = Suc l"
      "Suc l < length (lc_levels lc)"
    and "taken_from bl (lc_levels lc ! l) (cd_top cd) down" and "distinct (map tb_id (lh_tables (lc_levels lc ! l)))"
    and "lh_level (lc_levels lc ! Suc l) \<noteq> 0"
    and next_level: "\<exists>kvss'. level_holds bl (fst (replace_tables (lc_levels lc ! Suc l) new refs)) kvss'
      \<and> map_of (concat kvss') = map_of (concat (kvsss ! Suc l)) ++ map_of down'"
    and kept: "\<forall>k\<in>K. map_of down' k = map_of down k"
  shows "\<exists>kvsss'. list_all2 (level_holds bl) (lc_levels (fst (swap_tables cd new lc refs))) kvsss'
    \<and> (\<forall>k\<in>K. map_of (concat (map2 level_items (lc_levels (fst (swap_tables cd new lc refs))) kvsss')) k
      = map_of (concat (map2 level_items (lc_levels lc) kvsss)) k)"
proof -
  let ?hs = "lc_levels lc" and ?h2 = "fst (replace_tables (lc_levels lc ! Suc l) new refs)"
  define h1 where "h1 = fst (delete_tables (?hs ! l) (map tb_id (cd_top cd)) (snd (replace_tables (?hs ! Suc l) new refs)))"
  have hs': "lc_levels (fst (swap_tables cd new lc refs)) = ?hs[l := h1, Suc l := ?h2]"
    using l by (simp add: swap_tables_def Let_def h1_def case_prod_beta list_update_swap)
  have len: "length kvsss = length ?hs" using lc by (auto dest: list_all2_lengthD)
  have at: "level_holds bl (?hs ! i) (kvsss ! i)" if "i < length ?hs" for i using lc that by (simp add: list_all2_conv_all_nth)
  from delete_view [OF at assms(5,6), of "snd (replace_tables (?hs ! Suc l) new refs)", folded h1_def] l(3)
  obtain k1 where k1: "level_holds bl h1 k1" "map_of (level_items (?hs ! l) (kvsss ! l)) = map_of (level_items h1 k1) ++ map_of down"
    "dom (map_of (level_items h1 k1)) \<inter> dom (map_of down) = {}" by auto
  from next_level obtain k2 where k2: "level_holds bl ?h2 k2" "map_of (concat k2) = map_of (concat (kvsss ! Suc l)) ++ map_of down'" by blast
  have items2: "level_items ?h2 k2 = concat k2" "level_items (?hs ! Suc l) (kvsss ! Suc l) = concat (kvsss ! Suc l)"
    using assms(7) by (simp_all add: level_items_def replace_tables_tables(2))
  have "map_of (level_items h1 k1 @ level_items ?h2 k2) k = map_of (level_items (?hs ! l) (kvsss ! l) @ level_items (?hs ! Suc l) (kvsss ! Suc l)) k"
    if "k \<in> K" for k
  proof -
    have "map_of (level_items h1 k1 @ level_items ?h2 k2) k = (map_of (concat (kvsss ! Suc l)) ++ (map_of down ++ map_of (level_items h1 k1))) k"
      using kept that by (simp add: items2 k2(2) map_add_def split: option.split)
    also have "\<dots> = map_of (level_items (?hs ! l) (kvsss ! l) @ level_items (?hs ! Suc l) (kvsss ! Suc l)) k"
      using map_add_comm [OF k1(3)] by (simp add: items2 k1(2))
    finally show ?thesis .
  qed
  then have "\<forall>k\<in>K. map_of (concat (map2 level_items (?hs[l := h1, Suc l := ?h2]) (kvsss[l := k1, Suc l := k2]))) k
      = map_of (concat (map2 level_items ?hs kvsss)) k"
    unfolding map2_update using l(3) len by (intro ballI map_of_concat_update2) simp_all
  moreover have "list_all2 (level_holds bl) (?hs[l := h1, Suc l := ?h2]) (kvsss[l := k1, Suc l := k2])"
    using lc k1(1) k2(1) by (intro list_all2_update_cong) auto
  ultimately show ?thesis unfolding hs' by blast
qed

subsection \<open>Building the new tables\<close>

lemma source_table: "holds bl t kvs \<Longrightarrow> source_ok False (AnyTable (ti_new t False)) kvs"
  by (auto simp: holds_def source_ok_def in_dir_def)

lemma holds_blocks:
  assumes "list_all2 (holds bl) ts kvss"
  shows "\<exists>bss. list_all2 (\<lambda>t bs. tbl_ok t bs \<and> tb_smallest t = fst (hd (concat bs)) \<and> tb_biggest t = fst (last (concat bs))) ts bss
    \<and> map concat bss = kvss"
  using assms
proof (induction ts kvss rule: list_all2_induct)
  case (Cons t ts kvs kvss)
  then obtain bs bss where "tbl_ok t bs \<and> tb_smallest t = fst (hd (concat bs)) \<and> tb_biggest t = fst (last (concat bs))"
    "concat bs = kvs" "list_all2 (\<lambda>t bs. tbl_ok t bs \<and> tb_smallest t = fst (hd (concat bs)) \<and> tb_biggest t = fst (last (concat bs))) ts bss"
    "map concat bss = kvss" by (auto simp: holds_def)
  then show ?case by (intro exI [of _ "bs # bss"]) simp
qed simp

lemma holds_level_ok:
  assumes "list_all2 (holds bl) ts kvss" and "strictly_sorted (map fst (concat kvss))"
  shows "\<exists>bss. level_ok ts bss \<and> map concat bss = kvss"
  using holds_blocks [OF assms(1)] assms(2) by (auto simp: level_ok_def)

lemma source_concat:
  assumes "list_all2 (holds bl) ts kvss" and "strictly_sorted (map fst (concat kvss))"
  shows "source_ok False (AnyConcat (ci_new ts False)) (concat kvss)"
  using holds_level_ok [OF assms] by (auto simp: source_ok_def in_dir_def)

lemma merged_subset:
  assumes "strictly_sorted (map fst out)" and "map_of out = map_of kvs"
  shows "set out \<subseteq> set kvs" and "length out \<le> length kvs"
proof -
  show "set out \<subseteq> set kvs"
  proof
    fix e assume "e \<in> set out"
    then have "map_of out (fst e) = Some (snd e)" using sorted_map_of [OF assms(1), of "fst e" "snd e"] by simp
    then show "e \<in> set kvs" using assms(2) map_of_SomeD [of kvs "fst e" "snd e"] by simp
  qed
  then have "card (fst ` set out) \<le> card (fst ` set kvs)" by (intro card_mono) auto
  moreover have "card (fst ` set out) = length out"
    using assms(1) distinct_card [of "map fst out"] by (simp add: strict_sorted_iff)
  moreover have "card (fst ` set kvs) \<le> length kvs" by (metis card_length length_map set_map)
  ultimately show "length out \<le> length kvs" by simp
qed

lemma sort_new_tables: "list_all2 (holds bl) new gs \<Longrightarrow> strictly_sorted (map fst (concat gs)) \<Longrightarrow> sort_key tb_biggest new = new"
proof (rule sort_key_id_if_sorted)
  assume "list_all2 (holds bl) new gs" "strictly_sorted (map fst (concat gs))"
  then have "tables_disjoint new" using disjoint_iff_sorted by blast
  then have "sorted_wrt (\<lambda>a b. tb_biggest a \<le> tb_biggest b) new" unfolding tables_disjoint_def
    by (auto simp: sorted_wrt_iff_nth_less) (meson nth_mem less_imp_le order_less_le_trans order.strict_trans)
  then show "sorted (map tb_biggest new)" by (simp add: sorted_wrt_map)
qed

text \<open>What a compaction relies on beyond its tables.\<close>

definition compact_env :: "'bf bloom \<Rightarrow> 'bf levels_controller \<Rightarrow> disk \<Rightarrow> item list \<Rightarrow> bool" where
  "compact_env bl lc disk kvs \<longleftrightarrow> bloom_laws bl \<and> files_small bl (set kvs) \<and> length kvs < 2 ^ 64
     \<and> (\<forall>j<length kvs. disk (new_file_name (lc_next_file_id lc + of_nat j) (opt_dir (lc_opt lc))) = None)"

lemma compact_builds:
  fixes cd :: "'bf compact_def"
  assumes ktop: "list_all2 (holds bl) (cd_top cd) ktop" and kbot: "list_all2 (holds bl) (cd_bot cd) kbot"
    and srt: "strictly_sorted (map fst (concat kbot))" and one: "l \<noteq> 0 \<longrightarrow> length (cd_top cd) = 1"
    and len: "length (cd_top cd) + 1 < USIZE_MAX" and first: "\<forall>p\<in>set ktop. internal_first p" "\<forall>e\<in>set (concat kbot). \<not> internal e"
    and env: "compact_env bl lc disk (concat (if l = 0 then rev ktop else ktop) @ concat kbot)"
  shows "\<exists>new gs lc' refs' disk'. compact_build_tables bl l cd lc refs disk = Some (Inr new, lc', refs', disk')
    \<and> list_all2 (holds bl) new gs \<and> strictly_sorted (map fst (concat gs))
    \<and> map_of (concat gs) = map_of (user_items (concat (if l = 0 then rev ktop else ktop)) @ concat kbot)
    \<and> lc' = lc\<lparr>lc_next_file_id := lc_next_file_id lc'\<rparr>"
proof -
  let ?top = "if l = 0 then rev (cd_top cd) else cd_top cd" and ?k = "if l = 0 then rev ktop else ktop"
  let ?its = "map (\<lambda>tb. AnyTable (ti_new tb False)) ?top @ [AnyConcat (ci_new (cd_bot cd) False)]"
  let ?kvs = "concat ?k @ concat kbot"
  have k: "list_all2 (holds bl) ?top ?k" using ktop by simp
  have "list_all2 (source_ok False) ?its (?k @ [concat kbot])"
    using k source_concat [OF kbot srt] by (auto simp: list_all2_conv_all_nth nth_append source_table dest: list_all2_lengthD)
  then have src: "list_all2 (source_ok False) ?its (?k @ [concat kbot])" .
  have "length ?its < USIZE_MAX" using len by simp
  moreover have "\<forall>p\<in>set (?k @ [concat kbot]). internal_first p" using first internal_firstI by auto
  ultimately obtain r mi out where
    mi: "merge_rewind any_ops (build_merge False ?its) = Some (r, mi)" "produces out mi" "merges False (map user_items (?k @ [concat kbot])) out"
    using merge_produces [OF src] by blast
  have out: "strictly_sorted (map fst out)" "map_of out = map_of (user_items (concat ?k) @ concat kbot)"
    using mi(3) user_items_id [OF first(2)] by (simp_all add: merges_def dlt_def [abs_def] user_items_concat)
  have "set (user_items (concat ?k) @ concat kbot) \<subseteq> set ?kvs" "length (user_items (concat ?k) @ concat kbot) \<le> length ?kvs"
    using length_user_items [of "concat ?k"] by auto
  with merged_subset [OF out] have sub: "set out \<subseteq> set ?kvs" "length out \<le> length ?kvs" by (blast, linarith)
  have ok: "\<forall>e\<in>set out. entry_ok e"
  proof
    fix e assume "e \<in> set out"
    with sub(1) obtain kvs where "kvs \<in> set ?k \<union> set kbot" "e \<in> set kvs" by auto
    moreover from this(1) obtain t where "holds bl t kvs" using k kbot by (metis Un_iff in_set_conv_nth list_all2_conv_all_nth)
    ultimately show "entry_ok e" using holdsD(3) by blast
  qed
  from env have laws: "bloom_laws bl" "files_small bl (set ?kvs)" "length out < 2 ^ 64"
    "\<forall>j<length out. disk (new_file_name (lc_next_file_id lc + of_nat j) (opt_dir (lc_opt lc))) = None"
    using sub(2) by (auto simp: compact_env_def)
  from compact_loop_builds [OF mi(2) out(1) ok laws(1,2) sub(1) laws(3,4)] obtain tbls gs disk' where
    loop: "compact_loop bl (lc_opt lc) mi lc disk
        = Some (map Inr tbls, lc\<lparr>lc_next_file_id := lc_next_file_id lc + of_nat (length tbls)\<rparr>, disk')"
      "concat gs = out" "list_all2 (holds bl) tbls gs" by blast
  have build: "mb_build (mb_add_batch mb_default ?its) = build_merge False ?its"
    by (simp add: mb_set_reverse_def mb_add_batch_def mb_default_def)
  have "[tb. Inr tb \<leftarrow> (map Inr tbls :: 'bf table_core result list)] = tbls" by (induction tbls) auto
  moreover have "\<not> list_ex isl (map Inr tbls :: 'bf table_core result list)" by (simp add: list_ex_iff)
  moreover have "sort_key tb_biggest tbls = tbls" using sort_new_tables [OF loop(3)] loop(2) out(1) by simp
  ultimately have "\<exists>refs'. compact_build_tables bl l cd lc refs disk
      = Some (Inr tbls, lc\<lparr>lc_next_file_id := lc_next_file_id lc + of_nat (length tbls)\<rparr>, refs', disk')"
    using one mi(1) loop(1) unfolding compact_build_tables_def Let_def build by (cases "l = 0") simp_all
  with loop out show ?thesis by fastforce
qed

subsection \<open>Choosing the tables\<close>

lemma get_range_loop_bounds:
  assumes "get_range_loop s b ts = (l, r)"
  shows "l \<le> s \<and> b \<le> r \<and> (\<forall>t\<in>set ts. l \<le> tb_smallest t \<and> tb_biggest t \<le> r)"
  using assms
proof (induction ts arbitrary: s b)
  case (Cons t ts)
  let ?s = "if tb_smallest t < s then tb_smallest t else s" and ?b = "if tb_biggest t > b then tb_biggest t else b"
  have "l \<le> ?s \<and> ?b \<le> r \<and> (\<forall>t\<in>set ts. l \<le> tb_smallest t \<and> tb_biggest t \<le> r)" using Cons by simp
  moreover have "?s \<le> s" "?s \<le> tb_smallest t" "b \<le> ?b" "tb_biggest t \<le> ?b" by (auto simp: not_less)
  ultimately have "l \<le> s" "b \<le> r" "l \<le> tb_smallest t" "tb_biggest t \<le> r" by (blast intro: order_trans)+
  with \<open>l \<le> ?s \<and> ?b \<le> r \<and> _\<close> show ?case by simp
qed simp

lemma get_range_bounds:
  assumes "ts \<noteq> []" and "\<forall>t\<in>set ts. tb_smallest t \<le> tb_biggest t"
  shows "\<exists>kr. get_range ts = Some kr \<and> \<not> kr_inf kr \<and> kr_left kr \<le> kr_right kr
    \<and> (\<forall>t\<in>set ts. kr_left kr \<le> tb_smallest t \<and> tb_biggest t \<le> kr_right kr)"
proof -
  obtain t ts' where ts: "ts = t # ts'" using assms(1) by (cases ts) auto
  obtain l r where lr: "get_range_loop (tb_smallest t) (tb_biggest t) ts' = (l, r)" by fastforce
  note b = get_range_loop_bounds [OF lr]
  then have "l \<le> r" using assms(2) by (auto simp: ts intro: order_trans)
  with b show ?thesis by (simp add: get_range_def ts lr)
qed

lemma bottom_slice:
  assumes h: "level_holds bl h kvss" "lh_level h \<noteq> 0" and lr: "a \<le> b"
    and down: "down \<noteq> []" "\<forall>e\<in>set down. a \<le> fst e \<and> fst e \<le> b"
    and kr: "kr_left kr = a" "kr_right kr = b"
  shows "\<exists>l r lower kbot. overlapping_tables h kr = (l, r) \<and> slice (lh_tables h) l r = Some lower
    \<and> bottom_of h down a b lower \<and> list_all2 (holds bl) lower kbot \<and> strictly_sorted (map fst (concat kbot))
    \<and> set (concat kbot) \<subseteq> set (concat kvss) \<and> length (concat kbot) \<le> length (concat kvss)"
proof -
  obtain l r where o: "overlapping_tables h kr = (l, r)" by fastforce
  obtain bss where "level_ok (lh_tables h) bss" using holds_level_ok h by (metis level_holds_def)
  from overlapping_range [OF this _ o] lr kr have lr: "l \<le> r" "r \<le> length (lh_tables h)"
    and at: "\<And>j. j < length (lh_tables h) \<Longrightarrow> (l \<le> j \<and> j < r) \<longleftrightarrow> tb_smallest (lh_tables h ! j) \<le> b \<and> a \<le> tb_biggest (lh_tables h ! j)"
    by auto
  let ?s = "\<lambda>xs. take (r - l) (drop l xs)"
  have len: "length (lh_tables h) = length kvss" using h by (auto simp: level_holds_def dest: list_all2_lengthD)
  have in_s: "t \<in> set (?s (lh_tables h)) \<longleftrightarrow> (\<exists>j. l \<le> j \<and> j < r \<and> t = lh_tables h ! j)" for t
  proof
    assume "t \<in> set (?s (lh_tables h))"
    then obtain i where "i < r - l" "t = lh_tables h ! (l + i)" using lr by (auto simp: in_set_conv_nth)
    then show "\<exists>j. l \<le> j \<and> j < r \<and> t = lh_tables h ! j" by (intro exI [of _ "l + i"]) simp
  next
    assume "\<exists>j. l \<le> j \<and> j < r \<and> t = lh_tables h ! j"
    then obtain j where "l \<le> j" "j < r" "t = lh_tables h ! j" by blast
    then show "t \<in> set (?s (lh_tables h))" using lr by (auto simp: in_set_conv_nth intro!: exI [of _ "j - l"])
  qed
  have "bottom_of h down a b (?s (lh_tables h))"
  proof -
    have "(\<exists>j. l \<le> j \<and> j < r \<and> t = lh_tables h ! j) \<longleftrightarrow> t \<in> set (lh_tables h) \<and> tb_smallest t \<le> b \<and> a \<le> tb_biggest t" for t
    proof
      assume "\<exists>j. l \<le> j \<and> j < r \<and> t = lh_tables h ! j"
      then obtain j where "l \<le> j" "j < r" "t = lh_tables h ! j" by blast
      then show "t \<in> set (lh_tables h) \<and> tb_smallest t \<le> b \<and> a \<le> tb_biggest t" using at [of j] lr(2) by simp
    next
      assume t: "t \<in> set (lh_tables h) \<and> tb_smallest t \<le> b \<and> a \<le> tb_biggest t"
      then obtain j where "j < length (lh_tables h)" "lh_tables h ! j = t" by (auto simp: in_set_conv_nth)
      with at [of j] t show "\<exists>j. l \<le> j \<and> j < r \<and> t = lh_tables h ! j" by auto
    qed
    with down show ?thesis by (simp add: bottom_of_def in_s)
  qed
  moreover have kb: "list_all2 (holds bl) (?s (lh_tables h)) (?s kvss)"
    using h by (auto simp: level_holds_def intro: list_all2_takeI list_all2_dropI)
  moreover have "strictly_sorted (map fst (concat (?s kvss)))"
  proof -
    have "tables_disjoint (lh_tables h)" using h disjoint_iff_sorted by (auto simp: level_holds_def)
    then have "tables_disjoint (?s (lh_tables h))"
      by (auto simp: tables_disjoint_def sorted_wrt_take sorted_wrt_drop dest: in_set_takeD in_set_dropD)
    then show ?thesis using disjoint_iff_sorted [OF kb] by blast
  qed
  moreover have "concat kvss = concat (take l kvss) @ concat (?s kvss) @ concat (drop (r - l) (drop l kvss))"
    by (metis append_take_drop_id concat_append)
  then obtain A C where cc: "concat kvss = A @ concat (?s kvss) @ C" by blast
  have "set (concat (?s kvss)) \<subseteq> set (concat kvss)" "length (concat (?s kvss)) \<le> length (concat kvss)"
    unfolding cc length_append set_append by auto
  ultimately show ?thesis using o lr by (auto simp: slice_def)
qed

text \<open>A compaction definition that is ready to run on the levels \<open>l\<close> and \<open>l + 1\<close>.\<close>

definition filled :: "'bf bloom \<Rightarrow> 'bf level_handler list \<Rightarrow> item list list list \<Rightarrow> nat \<Rightarrow> 'bf compact_def \<Rightarrow> bool" where
  "filled bl hs kvsss l cd \<longleftrightarrow> cd_this_level cd = l \<and> cd_wf cd
     \<and> (\<exists>down a b kbot. taken_from bl (hs ! l) (cd_top cd) down \<and> bottom_of (hs ! Suc l) down a b (cd_bot cd)
          \<and> list_all2 (holds bl) (cd_bot cd) kbot \<and> strictly_sorted (map fst (concat kbot))
          \<and> set (down @ concat kbot) \<subseteq> set (concat (kvsss ! l) @ concat (kvsss ! Suc l))
          \<and> length (down @ concat kbot) \<le> length (concat (kvsss ! l) @ concat (kvsss ! Suc l)))"

lemma idle_compare:
  assumes "Suc (cd_this_level cd) < n"
  shows "\<exists>added cs. compare_and_add (replicate n lcs_default) cd h = Some (added, cs)
    \<and> (\<not> added \<longrightarrow> cs = replicate n lcs_default)"
  using assms by (auto simp: compare_and_add_def Let_def lcs_overlaps_with_def lcs_default_def checked_sub_def)

lemma idle_not_busy: "i < n \<Longrightarrow> cs_overlaps_with (replicate n lcs_default) i kr = Some False"
  by (simp add: cs_overlaps_with_def lcs_overlaps_with_def lcs_default_def)

text \<open>What filling promises: it does not panic, and it registers the compaction it chose.\<close>

definition fill_ok ::
  "'bf bloom \<Rightarrow> 'bf levels_controller \<Rightarrow> item list list list \<Rightarrow> nat \<Rightarrow> (bool \<times> 'bf compact_def \<times> 'bf levels_controller) option \<Rightarrow> bool" where
  "fill_ok bl lc kvsss l r \<longleftrightarrow> (\<exists>added cd lc'. r = Some (added, cd, lc') \<and> (if added
     then filled bl (lc_levels lc) kvsss l cd
       \<and> (\<exists>h cs. compare_and_add (lc_c_status lc) cd h = Some (True, cs) \<and> lc' = lc\<lparr>lc_c_status := cs\<rparr>)
     else lc' = lc))"

definition idle_levels :: "'bf bloom \<Rightarrow> 'bf levels_controller \<Rightarrow> item list list list \<Rightarrow> nat \<Rightarrow> bool" where
  "idle_levels bl lc kvsss l \<longleftrightarrow> list_all2 (level_holds bl) (lc_levels lc) kvsss
     \<and> (\<forall>i<length (lc_levels lc). lh_level (lc_levels lc ! i) = i)
     \<and> lc_c_status lc = replicate (length (lc_levels lc)) lcs_default \<and> Suc l < length (lc_levels lc)"

lemma idle_levelsD:
  assumes "idle_levels bl lc kvsss l"
  shows "level_holds bl (lc_levels lc ! l) (kvsss ! l)" and "level_holds bl (lc_levels lc ! Suc l) (kvsss ! Suc l)"
    and "lh_level (lc_levels lc ! Suc l) \<noteq> 0" and "lh_level (lc_levels lc ! l) = l"
    and "lc_c_status lc = replicate (length (lc_levels lc)) lcs_default" and "Suc l < length (lc_levels lc)"
    and "lh_level (lc_levels lc ! Suc l) = Suc l"
  using assms by (auto simp: idle_levels_def list_all2_conv_all_nth)

lemma next_range_wf:
  assumes i: "idle_levels bl lc kvsss l" and "bottom_of (lc_levels lc ! Suc l) down a b lower" and "lower \<noteq> []"
  shows "\<exists>kr. get_range lower = Some kr \<and> kr_wf kr"
proof -
  have "\<forall>t\<in>set (lh_tables (lc_levels lc ! Suc l)). tb_smallest t \<le> tb_biggest t"
    using idle_levelsD(2,3) [OF i] disjoint_iff_sorted by (auto simp: level_holds_def tables_disjoint_def)
  with assms have "\<forall>t\<in>set lower. tb_smallest t \<le> tb_biggest t" by (auto simp: bottom_of_def)
  from get_range_bounds [OF assms(3) this] show ?thesis by (auto simp: kr_wf_def)
qed

lemma table_bounds:
  assumes i: "idle_levels bl lc kvsss l" and "t \<in> set (lh_tables (lc_levels lc ! l))"
  obtains kvs where "holds bl t kvs" "kvs \<in> set (kvsss ! l)" "tb_smallest t \<le> tb_biggest t"
proof -
  from assms(2) idle_levelsD(1) [OF i] obtain kvs where "holds bl t kvs" "kvs \<in> set (kvsss ! l)"
    by (metis in_set_conv_nth level_holds_def list_all2_conv_all_nth)
  with holds_le that show thesis by blast
qed

lemma fill_tables_l0_ok:
  fixes lc :: "'bf levels_controller"
  assumes i: "idle_levels bl lc kvsss l" and l: "l = 0"
  shows "fill_ok bl lc kvsss l (fill_tables_l0 lc (cd_new l (Suc l)))"
proof (cases "lh_tables (lc_levels lc ! l) = []")
  case True
  then show ?thesis by (auto simp: fill_ok_def fill_tables_l0_def cd_new_def intro: exI [of _ False])
next
  case False
  let ?h = "lc_levels lc ! l" and ?n = "lc_levels lc ! Suc l"
  have lv: "lh_level ?h = 0" using idle_levelsD(4) [OF i] l by simp
  obtain f where f: "\<And>t. t \<in> set (lh_tables ?h) \<Longrightarrow> holds bl t (f t)" "kvsss ! l = map f (lh_tables ?h)"
    using holds_fun idle_levelsD(1) [OF i] by (metis level_holds_def)
  let ?down = "concat (rev (kvsss ! l))"
  obtain kr where kr: "get_range (lh_tables ?h) = Some kr" "\<not> kr_inf kr" "kr_left kr \<le> kr_right kr"
    "\<And>t. t \<in> set (lh_tables ?h) \<Longrightarrow> kr_left kr \<le> tb_smallest t \<and> tb_biggest t \<le> kr_right kr"
    using get_range_bounds [OF False] table_bounds [OF i] by metis
  have taken: "taken_from bl ?h (lh_tables ?h) ?down"
    using idle_levelsD(1) [OF i] lv by (auto simp: taken_from_def level_holds_def)
  have "\<forall>e\<in>set ?down. kr_left kr \<le> fst e \<and> fst e \<le> kr_right kr"
    using kr(4) holdsD(6) [OF f(1)] by (auto simp: f(2)) (meson order_trans)+
  moreover have "?down \<noteq> []" using False holdsD(1) [OF f(1)] by (cases "lh_tables ?h") (auto simp: f(2))
  ultimately obtain i j lower kbot where lo: "overlapping_tables ?n kr = (i, j)" "slice (lh_tables ?n) i j = Some lower"
    "bottom_of ?n ?down (kr_left kr) (kr_right kr) lower" "list_all2 (holds bl) lower kbot" "strictly_sorted (map fst (concat kbot))"
    "set (concat kbot) \<subseteq> set (concat (kvsss ! Suc l))" "length (concat kbot) \<le> length (concat (kvsss ! Suc l))"
    using bottom_slice [OF idle_levelsD(2,3) [OF i] kr(3) _ _ refl refl] by blast
  obtain nr where nr: "(if lower = [] then Some kr else get_range lower) = Some nr" "kr_wf nr"
    using next_range_wf [OF i lo(3)] kr(3) by (cases "lower = []") (auto simp: kr_wf_def)
  define cd where "cd = (cd_new l (Suc l) :: 'bf compact_def)\<lparr>cd_top := lh_tables ?h, cd_this_range := INFO_RANGE, cd_bot := lower, cd_next_range := nr\<rparr>"
  obtain added cs where cs: "compare_and_add (lc_c_status lc) cd ?h = Some (added, cs)" "\<not> added \<longrightarrow> cs = lc_c_status lc"
    using idle_compare [of cd "length (lc_levels lc)" ?h] idle_levelsD(5,6) [OF i] by (auto simp: cd_def cd_new_def)
  have "length (concat (rev (kvsss ! l))) = length (concat (kvsss ! l))" by (simp add: length_concat rev_map [symmetric] sum_list_rev)
  then have "filled bl (lc_levels lc) kvsss l cd"
    unfolding filled_def using taken lo nr(2)
    by (intro conjI exI [of _ ?down] exI [of _ "kr_left kr"] exI [of _ "kr_right kr"] exI [of _ kbot])
      (auto simp: cd_def cd_new_def cd_wf_def kr_wf_def INFO_RANGE_def)
  moreover have "fill_tables_l0 lc (cd_new l (Suc l)) = Some (added, cd, lc\<lparr>lc_c_status := cs\<rparr>)"
    using False kr(1) lo(1,2) nr(1) cs(1) by (simp add: fill_tables_l0_def cd_new_def cd_def Let_def split: if_splits)
  ultimately show ?thesis using cs unfolding fill_ok_def
    by (intro exI [of _ added] exI [of _ cd] exI [of _ "lc\<lparr>lc_c_status := cs\<rparr>"]) (cases added; auto)
qed

lemma fill_tables_loop_ok:
  fixes lc :: "'bf levels_controller"
  assumes i: "idle_levels bl lc kvsss l" and l: "l \<noteq> 0" and "set ts \<subseteq> set (lh_tables (lc_levels lc ! l))"
    and "cd_this_level cd = l" and "cd_next_level cd = Suc l"
  shows "fill_ok bl lc kvsss l (fill_tables_loop lc cd ts)"
  using assms(3-)
proof (induction ts arbitrary: cd)
  case Nil
  then show ?case by (auto simp: fill_ok_def intro: exI [of _ False])
next
  case (Cons t ts)
  let ?h = "lc_levels lc ! l" and ?n = "lc_levels lc ! Suc l"
  obtain kvs where kvs: "holds bl t kvs" "kvs \<in> set (kvsss ! l)" "tb_smallest t \<le> tb_biggest t"
    using table_bounds [OF i] Cons.prems(1) by (metis list.set_intros(1) subsetD)
  let ?kr = "\<lparr>kr_left = tb_smallest t, kr_right = tb_biggest t, kr_inf = False\<rparr>"
  have taken: "taken_from bl ?h [t] kvs" using kvs(1) Cons.prems(1) idle_levelsD(4) [OF i] l by (simp add: taken_from_def)
  obtain x y lower kbot where lo: "overlapping_tables ?n ?kr = (x, y)" "slice (lh_tables ?n) x y = Some lower"
    "bottom_of ?n kvs (tb_smallest t) (tb_biggest t) lower" "list_all2 (holds bl) lower kbot" "strictly_sorted (map fst (concat kbot))"
    "set (concat kbot) \<subseteq> set (concat (kvsss ! Suc l))" "length (concat kbot) \<le> length (concat (kvsss ! Suc l))"
    using bottom_slice [OF idle_levelsD(2,3) [OF i] kvs(3) holdsD(1) [OF kvs(1)], of ?kr] holdsD(6) [OF kvs(1)] by auto
  have busy: "cs_overlaps_with (lc_c_status lc) (lh_level ?h) kr = Some False" "cs_overlaps_with (lc_c_status lc) (lh_level ?n) kr = Some False" for kr
    using idle_levelsD(4,5,6,7) [OF i] by (simp_all add: idle_not_busy)
  obtain nr where nr: "(if lower = [] then Some ?kr else get_range lower) = Some nr" "kr_wf nr"
    using next_range_wf [OF i lo(3)] kvs(3) by (cases "lower = []") (auto simp: kr_wf_def)
  define cd' where "cd' = cd\<lparr>cd_this_size := of_nat (tb_size t), cd_this_range := ?kr, cd_top := [t], cd_bot := lower, cd_next_range := nr\<rparr>"
  obtain added cs where cs: "compare_and_add (lc_c_status lc) cd' ?h = Some (added, cs)" "\<not> added \<longrightarrow> cs = lc_c_status lc"
    using idle_compare [of cd' "length (lc_levels lc)" ?h] idle_levelsD(5,6) [OF i] Cons.prems(2) by (auto simp: cd'_def)
  have "length kvs \<le> length (concat (kvsss ! l))" using kvs(2) by (simp add: length_concat member_le_sum_list)
  then have fl: "filled bl (lc_levels lc) kvsss l cd'"
    unfolding filled_def using taken lo nr(2) kvs(2,3) Cons.prems(2,3)
    by (intro conjI exI [of _ kvs] exI [of _ "tb_smallest t"] exI [of _ "tb_biggest t"] exI [of _ kbot])
      (auto simp: cd'_def cd_wf_def kr_wf_def)
  have go: "fill_tables_loop lc cd (t # ts) = (if added then Some (True, cd', lc\<lparr>lc_c_status := cs\<rparr>) else fill_tables_loop lc cd' ts)"
    using lo(1,2) nr(1) cs(1) busy Cons.prems(2,3) by (cases "lower = []") (simp_all add: cd'_def Let_def)
  show ?case
  proof (cases added)
    case True
    then show ?thesis using go fl cs(1) by (auto simp: fill_ok_def)
  next
    case False
    then show ?thesis using go Cons.IH [of cd'] Cons.prems by (simp add: cd'_def)
  qed
qed

lemma fill_tables_ok:
  assumes "idle_levels bl lc kvsss l" and "l \<noteq> 0"
  shows "fill_ok bl lc kvsss l (fill_tables lc (cd_new l (Suc l)))"
proof (cases "lh_tables (lc_levels lc ! l) = []")
  case True
  then show ?thesis by (auto simp: fill_ok_def fill_tables_def cd_new_def intro: exI [of _ False])
next
  case False
  then show ?thesis using fill_tables_loop_ok [OF assms] by (simp add: fill_tables_def cd_new_def)
qed

subsection \<open>A whole compaction\<close>

lemma add_changes_total:
  assumes "mf_ok (mff_manifest mf)" and "list_all change_ok changes" and "mff_fp mf \<noteq> None"
  shows "\<exists>r mf' disk'. add_changes pb order mf changes disk = Some (r, mf', disk')"
proof -
  obtain m r where m: "apply_manifest_change_set (mff_manifest mf) changes = Some (m, r)" "mf_ok m"
    using apply_set_total [OF assms(1,2)] by blast
  then have "needs_rewrite (mf\<lparr>mff_manifest := m\<rparr>) \<noteq> None"
    by (auto simp: needs_rewrite_def mf_ok_def checked_sub_def Let_def)
  then obtain rw where "needs_rewrite (mf\<lparr>mff_manifest := m\<rparr>) = Some rw" by auto
  with m(1) assms(3) show ?thesis
    by (cases r; cases rw) (auto simp: add_changes_def case_prod_beta Let_def)
qed

lemma change_ok_build: "unat level < 256 \<Longrightarrow> change_ok (mcb_build (mcb_with_op (mcb_with_level (mcb_new i) level) op))"
  "change_ok (mcb_build (mcb_with_op (mcb_new i) op))"
  by (simp_all add: change_ok_def mcb_build_def mcb_with_op_def mcb_with_level_def mcb_new_def)

lemma unat_small_level: "n < 256 \<Longrightarrow> unat (of_nat n :: u32) < 256"
  by (simp add: unat_of_nat_u32')

lemma compact_env_mono:
  assumes "compact_env bl lc disk kvs" and "set kvs' \<subseteq> set kvs" and "length kvs' \<le> length kvs"
  shows "compact_env bl lc disk kvs'"
  using assms unfolding compact_env_def files_small_def by (meson order_less_le_trans order_le_less_trans subset_iff subset_trans)

text \<open>The levels answer the same lookups.\<close>

definition same_view :: "bytes set \<Rightarrow> 'bf bloom \<Rightarrow> 'bf level_handler list \<Rightarrow> item list list list \<Rightarrow> 'bf level_handler list \<Rightarrow> bool" where
  "same_view K bl hs kvsss hs' \<longleftrightarrow> (\<exists>kvsss'. list_all2 (level_holds bl) hs' kvsss'
     \<and> (\<forall>k\<in>K. map_of (concat (map2 level_items hs' kvsss')) k = map_of (concat (map2 level_items hs kvsss)) k))"

text \<open>
  The keys of the database itself, as a compaction from level \<open>l\<close> meets them: in every table of that level they come
  before the other keys, of which there is at least one, and the next level has none. \<open>kept_keys\<close> are the keys that survive: the
  others, and all keys when the level has none of the database itself.
\<close>

definition heads_ok :: "item list list list \<Rightarrow> nat \<Rightarrow> bool" where
  "heads_ok kvsss l \<longleftrightarrow> (\<forall>kvs\<in>set (kvsss ! l). internal_first kvs \<and> user_items kvs \<noteq> [])
     \<and> (\<forall>e\<in>set (concat (kvsss ! Suc l)). \<not> internal e)"

definition kept_keys :: "item list list list \<Rightarrow> nat \<Rightarrow> bytes set" where
  "kept_keys kvsss l = {k. starts_with k BADGER_PREFIX \<longrightarrow> (\<forall>e\<in>set (concat (kvsss ! l)). \<not> internal e)}"

lemma kept_keys_down:
  assumes "k \<in> kept_keys kvsss l" and "set down \<subseteq> set (concat (kvsss ! l))"
  shows "map_of (user_items down) k = map_of down k"
proof (cases "starts_with k BADGER_PREFIX")
  case True
  then have "user_items down = down" using assms by (intro user_items_id) (auto simp: kept_keys_def)
  then show ?thesis by simp
qed (simp add: map_of_user_items)

lemma swap_tables_status: "lc_c_status (fst (swap_tables cd new lc refs)) = lc_c_status lc"
  by (auto simp: swap_tables_def Let_def split: prod.splits)

lemma taken_top:
  assumes "taken_from bl h ts down" and "level_holds bl h kvss" and "lh_level h = l" and "length (lh_tables h) + 1 < USIZE_MAX"
  shows "\<exists>ktop. list_all2 (holds bl) ts ktop \<and> down = concat (if l = 0 then rev ktop else ktop) \<and> set ktop \<subseteq> set kvss
    \<and> (l \<noteq> 0 \<longrightarrow> length ts = 1) \<and> length ts + 1 < USIZE_MAX"
proof (cases "l = 0")
  case True
  with assms obtain k where k: "ts = lh_tables h" "list_all2 (holds bl) ts k" "down = concat (rev k)" by (auto simp: taken_from_def)
  then have "k = kvss" using assms(2) holds_lists_unique by (metis level_holds_def)
  with k True assms(4) show ?thesis by (intro exI [of _ k]) auto
next
  case False
  with assms obtain t where t: "ts = [t]" "t \<in> set (lh_tables h)" "holds bl t down" by (auto simp: taken_from_def)
  then obtain kvs where "holds bl t kvs" "kvs \<in> set kvss"
    using assms(2) by (metis in_set_conv_nth level_holds_def list_all2_conv_all_nth)
  with t have "down \<in> set kvss" using holds_unique by metis
  with t False show ?thesis by (intro exI [of _ "[down]"]) (auto simp: USIZE_MAX_def)
qed

text \<open>The pairs that come down, without the keys of the database itself.\<close>

lemma bottom_of_user:
  assumes "bottom_of h down a b lower" and "down = concat (if l = 0 then rev ktop else ktop)" and "\<forall>kvs\<in>set ktop. user_items kvs \<noteq> []"
  shows "bottom_of h (user_items down) a b lower"
proof -
  obtain kvs where "kvs \<in> set ktop" using assms(1,2) by (cases ktop) (auto simp: bottom_of_def)
  with assms(3) obtain e where "e \<in> set (user_items kvs)" by (metis list.set_intros(1) neq_Nil_conv)
  with \<open>kvs \<in> set ktop\<close> assms(2) have "e \<in> set (user_items down)" by auto
  then have "user_items down \<noteq> []" by (metis list.set(1) empty_iff)
  with assms(1) show ?thesis by (simp add: bottom_of_def)
qed

lemma run_compact_view:
  fixes lc :: "'bf levels_controller"
  assumes i: "idle_levels bl lc kvsss l" and fl: "filled bl (lc_levels lc) kvsss l cd"
    and env: "compact_env bl lc disk (concat (kvsss ! l) @ concat (kvsss ! Suc l))"
    and heads: "heads_ok kvsss l"
    and mf: "mf_ok (mff_manifest (lc_manifest lc))" "mff_fp (lc_manifest lc) \<noteq> None"
    and ids: "distinct (map tb_id (lh_tables (lc_levels lc ! l)))"
    and wide: "\<forall>t\<in>set (lh_tables (lc_levels lc ! Suc l)). tb_smallest t < tb_biggest t"
    and len: "length (lh_tables (lc_levels lc ! l)) + 1 < USIZE_MAX" and few: "Suc l < 256"
    and lc1: "lc_levels lc1 = lc_levels lc" "lc_manifest lc1 = lc_manifest lc" "lc_next_file_id lc1 = lc_next_file_id lc"
      "lc_opt lc1 = lc_opt lc"
  shows "\<exists>r lc' refs' disk'. run_compact_def bl pb order l cd lc1 refs disk = Some (r, lc', refs', disk')
    \<and> lc_c_status lc' = lc_c_status lc1 \<and> same_view (kept_keys kvsss l) bl (lc_levels lc) kvsss (lc_levels lc')"
proof -
  note d = idle_levelsD [OF i]
  have levels: "list_all2 (level_holds bl) (lc_levels lc) kvsss" using i by (simp add: idle_levels_def)
  then have same: "same_view (kept_keys kvsss l) bl (lc_levels lc) kvsss (lc_levels lc)" by (auto simp: same_view_def)
  from fl obtain down a b kbot where
    cd: "cd_this_level cd = l" "cd_next_level cd = Suc l" and tk: "taken_from bl (lc_levels lc ! l) (cd_top cd) down"
    and bo: "bottom_of (lc_levels lc ! Suc l) down a b (cd_bot cd)"
    and kb: "list_all2 (holds bl) (cd_bot cd) kbot" "strictly_sorted (map fst (concat kbot))"
    and sub: "set (down @ concat kbot) \<subseteq> set (concat (kvsss ! l) @ concat (kvsss ! Suc l))"
      "length (down @ concat kbot) \<le> length (concat (kvsss ! l) @ concat (kvsss ! Suc l))"
    unfolding filled_def cd_wf_def by auto
  obtain ktop where ktop: "list_all2 (holds bl) (cd_top cd) ktop" "down = concat (if l = 0 then rev ktop else ktop)"
      "set ktop \<subseteq> set (kvsss ! l)" and one: "l \<noteq> 0 \<longrightarrow> length (cd_top cd) = 1" and top_len: "length (cd_top cd) + 1 < USIZE_MAX"
    using taken_top [OF tk d(1,4) len] by blast
  have sub_down: "set down \<subseteq> set (concat (kvsss ! l))" using ktop(2,3) by auto
  have first: "\<forall>p\<in>set ktop. internal_first p" "\<forall>kvs\<in>set ktop. user_items kvs \<noteq> []" using heads ktop(3) by (auto simp: heads_ok_def)
  have "set (concat kbot) \<subseteq> set (concat (kvsss ! Suc l))"
  proof -
    obtain f where f: "\<And>t. t \<in> set (lh_tables (lc_levels lc ! Suc l)) \<Longrightarrow> holds bl t (f t)" "kvsss ! Suc l = map f (lh_tables (lc_levels lc ! Suc l))"
      using holds_fun d(2) by (metis level_holds_def)
    have "set (cd_bot cd) \<subseteq> set (lh_tables (lc_levels lc ! Suc l))" using bo by (auto simp: bottom_of_def)
    moreover from this have "kbot = map f (cd_bot cd)" using holds_lists_unique [OF kb(1) holds_map [of "cd_bot cd" bl f]] f(1) by blast
    ultimately show ?thesis by (auto simp: f(2))
  qed
  then have clean: "\<forall>e\<in>set (concat kbot). \<not> internal e" using heads unfolding heads_ok_def by blast
  note bo' = bottom_of_user [OF bo ktop(2) first(2)]
  have wide': "\<forall>t\<in>set (cd_bot cd). tb_smallest t < tb_biggest t" using wide bo by (auto simp: bottom_of_def)
  have kept: "\<forall>k\<in>kept_keys kvsss l. map_of (user_items down) k = map_of down k" using kept_keys_down sub_down by blast
  have lv: "unat (of_nat (Suc l) :: u32) < 256" using unat_small_level [OF few] .
  have swap: "same_view (kept_keys kvsss l) bl (lc_levels lc) kvsss (lc_levels (fst (swap_tables cd new lc2 refs)))"
    if new: "list_all2 (holds bl) new gs" "strictly_sorted (map fst (concat gs))" "map_of (concat gs) = map_of (down' @ concat kbot)"
      and lc2: "lc_levels lc2 = lc_levels lc" and down': "bottom_of (lc_levels lc ! Suc l) down' a b (cd_bot cd)"
        "\<forall>k\<in>kept_keys kvsss l. map_of down' k = map_of down k" for new gs refs down' and lc2 :: "'bf levels_controller"
    unfolding same_view_def
    using swap_view [of bl lc2 kvsss cd l down new refs down' "kept_keys kvsss l"]
      replace_view [OF d(2,3) down'(1) new(1,2) kb(1) new(3) wide', of refs] levels cd d(3,6) tk ids lc2 down'(2) by simp
  show ?thesis
  proof (cases "1 \<le> cd_this_level cd \<and> cd_bot cd = []")
    case True
    then have l: "l \<noteq> 0" using cd by simp
    then obtain t where t: "cd_top cd = [t]" "holds bl t down" using tk d(4) by (auto simp: taken_from_def)
    have "kbot = []" using kb True by simp
    then have sw: "same_view (kept_keys kvsss l) bl (lc_levels lc) kvsss (lc_levels (fst (swap_tables cd [t] lc2 refs)))"
      if "lc_levels lc2 = lc_levels lc" for lc2 refs
      using swap [of "[t]" "[down]" down lc2 refs] t(2) holdsD(2) [OF t(2)] that bo by simp
    let ?ch = "[mcb_build (mcb_with_op (mcb_new (tb_id t)) DELETE),
        mcb_build (mcb_with_op (mcb_with_level (mcb_new (tb_id t)) (of_nat (Suc l))) CREATE)]"
    have ch: "list_all change_ok ?ch" using lv by (simp add: change_ok_build del: of_nat_Suc)
    obtain r mf' disk' where add: "add_changes pb order (lc_manifest lc1) ?ch disk = Some (r, mf', disk')"
      using add_changes_total [OF _ ch, of "lc_manifest lc1" pb order disk] mf lc1(2) by auto
    show ?thesis
    proof (cases r)
      case (Inl e)
      then show ?thesis using True t add same lc1(1) cd by (simp add: run_compact_def_def)
    next
      case (Inr u)
      obtain lc' refs' where s: "swap_tables cd [t] (lc1\<lparr>lc_manifest := mf'\<rparr>) refs = (lc', refs')" by fastforce
      moreover have "lc_c_status lc' = lc_c_status lc1" using s swap_tables_status [of cd "[t]" "lc1\<lparr>lc_manifest := mf'\<rparr>" refs] by simp
      ultimately show ?thesis using Inr True t add cd sw [of "lc1\<lparr>lc_manifest := mf'\<rparr>" refs] lc1(1) by (simp add: run_compact_def_def)
    qed
  next
    case False
    have "compact_env bl lc1 disk (concat (if l = 0 then rev ktop else ktop) @ concat kbot)"
      using compact_env_mono [OF env sub] lc1(3,4) by (simp add: ktop(2) compact_env_def)
    from compact_builds [OF ktop(1) kb one top_len first(1) clean this, of refs] obtain new gs lc2 refs2 disk2 where
      b: "compact_build_tables bl l cd lc1 refs disk = Some (Inr new, lc2, refs2, disk2)"
        "list_all2 (holds bl) new gs" "strictly_sorted (map fst (concat gs))" "map_of (concat gs) = map_of (user_items down @ concat kbot)"
        "lc2 = lc1\<lparr>lc_next_file_id := lc_next_file_id lc2\<rparr>" unfolding ktop(2) by blast
    from b(5) have lc2: "lc_levels lc2 = lc_levels lc" "lc_manifest lc2 = lc_manifest lc" "lc_c_status lc2 = lc_c_status lc1"
      using lc1 by (metis levels_controller.select_convs levels_controller.surjective levels_controller.update_convs(2))+
    have "list_all change_ok (build_change_set cd new)"
      using lv by (auto simp: build_change_set_def list_all_iff change_ok_build cd)
    then obtain r mf' disk' where add: "add_changes pb order (lc_manifest lc2) (build_change_set cd new) disk2 = Some (r, mf', disk')"
      using add_changes_total mf lc2(2) by metis
    show ?thesis
    proof (cases r)
      case (Inl e)
      then show ?thesis using False add same lc2 b(1) by (auto simp: run_compact_def_def Let_def)
    next
      case (Inr u)
      obtain lc' refs' where s: "swap_tables cd new (lc2\<lparr>lc_manifest := mf'\<rparr>) refs2 = (lc', refs')" by fastforce
      moreover have "lc_c_status lc' = lc_c_status lc1" using s lc2(3) swap_tables_status [of cd new "lc2\<lparr>lc_manifest := mf'\<rparr>" refs2] by simp
      ultimately show ?thesis using Inr False add b(1) swap [OF b(2,3,4) _ bo' kept, of "lc2\<lparr>lc_manifest := mf'\<rparr>" refs2] lc2(1)
        by (auto simp: run_compact_def_def Let_def)
    qed
  qed
qed

lemma cs_inv_idle:
  assumes "cs_inv n (cs, [])"
  shows "cs = replicate n lcs_default"
proof (rule nth_equalityI)
  show "length cs = length (replicate n lcs_default)" using assms by (simp add: cs_inv_def)
  fix i assume "i < length cs"
  then show "cs ! i = replicate n lcs_default ! i"
    using assms by (auto simp: cs_inv_def lcs_default_def reserved_def taken_def)
qed

lemma finish_idle:
  assumes "compare_and_add (replicate n lcs_default) cd h = Some (True, cs)" and "cd_wf cd"
  shows "cs_delete cs cd = Some (replicate n lcs_default)"
proof -
  have "cs_inv n (cs, [cd])" using cs_inv_start [OF cs_inv_init assms(2,1)] .
  from cs_inv_finish [OF this, of cd] obtain cs' where "cs_delete cs cd = Some cs'"
    "cs_inv n (cs', remove1 cd [cd])" by auto
  with cs_inv_idle show ?thesis by simp
qed

lemma fill_compact_ok:
  assumes "idle_levels bl lc kvsss l"
  shows "fill_ok bl lc kvsss l (if l = 0 then fill_tables_l0 lc (cd_new l (Suc l)) else fill_tables lc (cd_new l (Suc l)))"
  using fill_tables_l0_ok [OF assms] fill_tables_ok [OF assms] by simp

definition may_compact :: "'bf bloom \<Rightarrow> 'bf levels_controller \<Rightarrow> disk \<Rightarrow> item list list list \<Rightarrow> nat \<Rightarrow> bool" where
  "may_compact bl lc disk kvsss l \<longleftrightarrow> idle_levels bl lc kvsss l
     \<and> compact_env bl lc disk (concat (kvsss ! l) @ concat (kvsss ! Suc l))
     \<and> heads_ok kvsss l \<and> mf_ok (mff_manifest (lc_manifest lc)) \<and> mff_fp (lc_manifest lc) \<noteq> None
     \<and> distinct (map tb_id (lh_tables (lc_levels lc ! l)))
     \<and> (\<forall>t\<in>set (lh_tables (lc_levels lc ! Suc l)). tb_smallest t < tb_biggest t)
     \<and> length (lh_tables (lc_levels lc ! l)) + 1 < USIZE_MAX \<and> Suc l < 256 \<and> Suc l < opt_max_levels (lc_opt lc)"

lemma do_compact_view:
  assumes "may_compact bl lc disk kvsss l"
  shows "\<exists>b lc' refs' disk'. do_compact bl pb order l lc refs disk = Some (b, lc', refs', disk')
    \<and> lc_c_status lc' = lc_c_status lc \<and> same_view (kept_keys kvsss l) bl (lc_levels lc) kvsss (lc_levels lc')"
proof -
  have i: "idle_levels bl lc kvsss l" and max: "l + 1 < opt_max_levels (lc_opt lc)" using assms by (simp_all add: may_compact_def)
  note d = idle_levelsD [OF i]
  have same: "same_view (kept_keys kvsss l) bl (lc_levels lc) kvsss (lc_levels lc)" using i by (auto simp: same_view_def idle_levels_def)
  from fill_compact_ok [OF i] obtain added cd lc1 where
    fill: "(if l = 0 then fill_tables_l0 lc (cd_new l (Suc l)) else fill_tables lc (cd_new l (Suc l))) = Some (added, cd, lc1)"
    and ok: "if added then filled bl (lc_levels lc) kvsss l cd
       \<and> (\<exists>h cs. compare_and_add (lc_c_status lc) cd h = Some (True, cs) \<and> lc1 = lc\<lparr>lc_c_status := cs\<rparr>) else lc1 = lc"
    unfolding fill_ok_def by blast
  show ?thesis
  proof (cases added)
    case False
    then show ?thesis using fill ok max d(6) same by (auto simp: do_compact_def Let_def)
  next
    case True
    with ok obtain h cs where f: "filled bl (lc_levels lc) kvsss l cd"
      and add: "compare_and_add (lc_c_status lc) cd h = Some (True, cs)" and lc1: "lc1 = lc\<lparr>lc_c_status := cs\<rparr>" by auto
    from f have del: "cs_delete cs cd = Some (lc_c_status lc)"
      using finish_idle add unfolding d(5) by (auto simp: filled_def)
    obtain r lc' refs' disk' where "run_compact_def bl pb order l cd lc1 refs disk = Some (r, lc', refs', disk')"
      "lc_c_status lc' = cs" "same_view (kept_keys kvsss l) bl (lc_levels lc) kvsss (lc_levels lc')"
      using run_compact_view [OF i f, of disk lc1 pb order refs] assms lc1 by (auto simp: may_compact_def)
    then show ?thesis using True fill max d(6) del by (auto simp: do_compact_def Let_def)
  qed
qed

text \<open>
  C4. A compaction does not change what lookups find. Let no other compaction run, let the tables of the
  levels hold their entries in order, no table of the lower level have a single key and the
  file names the compaction takes be free. Keys of the database itself, those with the prefix \<open>!badger!\<close> that every flush writes, may
  be present in the upper level, as long as in each of its tables they come before the other keys and there are
  other keys; the lower level must have none (a merge never writes one). Then \<open>do_compact\<close> on a level ends without a panic, whatever the
  manifest's writes do, releases its ranges, and afterwards every key without that prefix reads from the levels the same value, tombstones
  included, as it read before: also when only some tables of the next level take part, and when the
  tables are moved down instead of merged. Keys with the prefix are covered only when the upper level
  has none: a merge drops them.
\<close>

theorem compaction_preserves_lookups:
  assumes "may_compact bl lc disk kvsss l"
  shows "\<exists>b lc' refs' disk'. do_compact bl pb order l lc refs disk = Some (b, lc', refs', disk')
    \<and> lc_c_status lc' = lc_c_status lc
    \<and> (\<forall>k\<in>kept_keys kvsss l. \<forall>r1 r2. \<exists>v r1' r2'. lc_get bl lc k r1 = Some (v, r1') \<and> lc_get bl lc' k r2 = Some (v, r2'))"
proof -
  obtain b lc' refs' disk' kvsss' where c: "do_compact bl pb order l lc refs disk = Some (b, lc', refs', disk')"
    "lc_c_status lc' = lc_c_status lc" and new: "list_all2 (level_holds bl) (lc_levels lc') kvsss'"
    and eq: "\<forall>k\<in>kept_keys kvsss l.
      map_of (concat (map2 level_items (lc_levels lc') kvsss')) k = map_of (concat (map2 level_items (lc_levels lc) kvsss)) k"
    using do_compact_view [OF assms] unfolding same_view_def by blast
  have old: "list_all2 (level_holds bl) (lc_levels lc) kvsss" using assms by (simp add: may_compact_def idle_levels_def)
  have "\<exists>v r1' r2'. lc_get bl lc k r1 = Some (v, r1') \<and> lc_get bl lc' k r2 = Some (v, r2')" if "k \<in> kept_keys kvsss l" for k r1 r2
    using get_in_levels_correct [OF old, of k r1] get_in_levels_correct [OF new, of k r2] eq that by (auto simp: lc_get_def)
  with c show ?thesis by blast
qed

text \<open>Two levels, with one table on level 0.\<close>

definition example_levels :: "unit levels_controller" where
  "example_levels = \<lparr>lc_levels = [(lh_new (options_default ''db'') 0)\<lparr>lh_tables := [example_table 1]\<rparr>, lh_new (options_default ''db'') 1],
     lc_next_file_id = 2, lc_c_status = [lcs_default, lcs_default],
     lc_manifest = example_mf, lc_opt = options_default ''db''\<rparr>"

lemma example_holds: "holds example_bloom (example_table b) [example_item b]"
proof -
  have "bloom_sound example_bloom (example_table b) [[example_item b]]"
    by (simp add: bloom_sound_def does_not_have_def example_bloom_def)
  moreover have "tb_smallest (example_table b) = [b]" "tb_biggest (example_table b) = [b]" by (simp_all add: example_table_def)
  ultimately show ?thesis
    unfolding holds_def using example_table_ok by (intro exI [of _ "[[example_item b]]"]) (simp add: example_item_def)
qed

lemma example_files_small: "files_small example_bloom {example_item b}"
  unfolding files_small_def
proof (intro allI impI)
  fix bs :: "item list list" and n
  assume bs: "set (concat bs) \<subseteq> {example_item b}" "strictly_sorted (map fst (concat bs))" "\<forall>c\<in>set bs. c \<noteq> []"
  have "bs = [] \<or> bs = [[example_item b]]"
  proof (cases bs)
    case (Cons c bs')
    have tail: False if "xs \<noteq> []" "set xs \<subseteq> {example_item b}" "strictly_sorted (fst (example_item b) # map fst xs)" for xs :: "item list"
      using that by (cases xs) auto
    obtain e c' where c: "c = e # c'" using bs(3) Cons by (cases c) auto
    then have "e = example_item b" using bs(1) Cons by auto
    moreover have "set (c' @ concat bs') \<subseteq> {example_item b}" "strictly_sorted (fst e # map fst (c' @ concat bs'))"
      using bs(1,2) Cons c by auto
    ultimately have "c' @ concat bs' = []" using tail by blast
    moreover from this have "bs' = []" using bs(3) Cons by (cases bs') auto
    ultimately show ?thesis using Cons c \<open>e = example_item b\<close> by simp
  qed simp
  then show "length (table_file bs (bl_to_vec example_bloom (bl_new example_bloom n))) < 2 ^ 32"
    by (elim disjE) (simp_all add: table_file_def block_ends_def example_bloom_def example_item_def enc_block_length blk_def blk_step_def
      entry_bytes_length entry_diff_def vs_size_def vs_header_size_def)
qed

lemma example_may_compact: "may_compact example_bloom example_levels Map.empty [[[example_item 1]], []] 0"
proof -
  have "idle_levels example_bloom example_levels [[[example_item 1]], []] 0"
    using example_holds by (auto simp: idle_levels_def example_levels_def level_holds_def lh_new_def less_Suc_eq numeral_2_eq_2)
  moreover have "compact_env example_bloom example_levels Map.empty [example_item 1]"
    using example_files_small [of 1]
    by (simp add: compact_env_def bloom_laws_def example_bloom_def example_item_def starts_with_def BADGER_PREFIX_def)
  ultimately show ?thesis
    using mf_ok_new by (simp add: may_compact_def heads_ok_def internal_first_def user_items_def example_levels_def lh_new_def
        options_default_def USIZE_MAX_def example_mf_def)
qed

text \<open>A table of level 0 that begins with a key of the database, as a flush writes it.\<close>

definition example_head_levels :: "unit levels_controller" where
  "example_head_levels = example_levels\<lparr>lc_levels :=
     [(lh_new (options_default ''db'') 0)\<lparr>lh_tables := [example_pair example_head (example_item 97)]\<rparr>, lh_new (options_default ''db'') 1]\<rparr>"

lemma example_head_holds: "holds example_bloom (example_pair example_head (example_item 97)) [example_head, example_item 97]"
proof -
  have "bloom_sound example_bloom (example_pair example_head (example_item 97)) [[example_head, example_item 97]]"
    by (simp add: bloom_sound_def does_not_have_def example_bloom_def)
  then show ?thesis unfolding holds_def using example_head_pairs(1)
    by (intro exI [of _ "[[example_head, example_item 97]]"]) (simp add: example_pair_def)
qed

lemma blocks_of_two:
  fixes a b :: item
  assumes "set (concat bs) \<subseteq> {a, b}" and "strictly_sorted (map fst (concat bs))" and "\<forall>c\<in>set bs. c \<noteq> []" and "fst a < fst b"
  shows "bs \<in> {[], [[a]], [[b]], [[a, b]], [[a], [b]]}"
proof -
  have "concat bs = [] \<or> concat bs = [a] \<or> concat bs = [b] \<or> concat bs = [a, b]"
  proof (cases "concat bs")
    case (Cons x xs)
    then have x: "x = a \<or> x = b" "set xs \<subseteq> {a, b}" "\<forall>y\<in>set xs. fst x < fst y" "strictly_sorted (map fst xs)" using assms(1,2) by auto
    show ?thesis
    proof (cases xs)
      case Nil
      then show ?thesis using Cons x(1) by auto
    next
      case (Cons y ys)
      then have y: "x = a" "y = b" using x assms(4) by auto
      have "ys = []" using x(2,4) Cons y assms(4) by (cases ys) auto
      then show ?thesis using \<open>concat bs = x # xs\<close> Cons y by simp
    qed
  qed simp
  moreover have one: "cs = []" if "concat cs = []" "\<forall>c\<in>set cs. c \<noteq> []" for cs :: "item list list"
    using that by (cases cs) auto
  moreover have "bs = [[x]]" if "concat bs = [x]" for x
    using that assms(3) one [of "tl bs"] by (cases bs) (auto simp: append_eq_Cons_conv)
  moreover have "bs = [[a, b]] \<or> bs = [[a], [b]]" if eq: "concat bs = [a, b]"
  proof -
    obtain c cs where c: "bs = c # cs" "c \<noteq> []" "\<forall>c\<in>set cs. c \<noteq> []" using eq assms(3) by (cases bs) auto
    then consider "c = [a]" "concat cs = [b]" | "c = [a, b]" "concat cs = []" using eq by (auto simp: append_eq_Cons_conv)
    then show ?thesis
    proof cases
      case 1
      then obtain d ds where "cs = d # ds" "d = [b]" "concat ds = []" "\<forall>c\<in>set ds. c \<noteq> []"
        using c(3) by (cases cs) (auto simp: append_eq_Cons_conv)
      then show ?thesis using 1 c one [of ds] by simp
    qed (use c one [of cs] in simp)
  qed
  ultimately show ?thesis using assms(3) by blast
qed

lemma example_head_small: "files_small example_bloom {example_head, example_item 97}"
  unfolding files_small_def
proof (intro allI impI)
  fix bs :: "item list list" and n
  assume bs: "set (concat bs) \<subseteq> {example_head, example_item 97}" "strictly_sorted (map fst (concat bs))" "\<forall>c\<in>set bs. c \<noteq> []"
  have "fst example_head < fst (example_item 97)" by (simp add: BADGER_PREFIX_def example_item_def)
  from blocks_of_two [OF bs this] show "length (table_file bs (bl_to_vec example_bloom (bl_new example_bloom n))) < 2 ^ 32"
    by (auto simp: table_file_def block_ends_def example_bloom_def example_item_def enc_block_length blk_def blk_step_def
      entry_bytes_length entry_diff_def vs_size_def vs_header_size_def vs_default_def BADGER_PREFIX_def key_diff_def)
qed

lemma example_head_may_compact: "may_compact example_bloom example_head_levels Map.empty [[[example_head, example_item 97]], []] 0"
proof -
  have "idle_levels example_bloom example_head_levels [[[example_head, example_item 97]], []] 0"
    using example_head_holds
    by (auto simp: idle_levels_def example_head_levels_def example_levels_def level_holds_def lh_new_def less_Suc_eq numeral_2_eq_2)
  moreover have "compact_env example_bloom example_head_levels Map.empty [example_head, example_item 97]"
    using example_head_small by (simp add: compact_env_def bloom_laws_def example_bloom_def)
  ultimately show ?thesis
    using mf_ok_new by (simp add: may_compact_def heads_ok_def internal_first_def user_items_def example_head_levels_def example_levels_def
        lh_new_def options_default_def USIZE_MAX_def example_mf_def)
qed

text \<open>Non-vacuity of C4: a table of level 0 with a key of the database is merged into the empty level below.\<close>

theorem compaction_preserves_lookups_witness:
  "\<exists>b lc' refs' disk'. do_compact example_bloom example_pb [] 0 example_head_levels (\<lambda>_. 1) Map.empty = Some (b, lc', refs', disk')
    \<and> (\<exists>r. lc_get example_bloom lc' [97] (\<lambda>_. 1) = Some (Some (snd (example_item 97)), r))"
proof -
  let ?kvsss = "[[[example_head, example_item 97]], []]"
  have k: "[97] \<in> kept_keys ?kvsss 0" by (simp add: kept_keys_def starts_with_def BADGER_PREFIX_def)
  obtain b lc' refs' disk' where c: "do_compact example_bloom example_pb [] 0 example_head_levels (\<lambda>_. 1) Map.empty = Some (b, lc', refs', disk')"
    and same: "\<And>r1 r2. \<exists>v r1' r2'. lc_get example_bloom example_head_levels [97] r1 = Some (v, r1') \<and> lc_get example_bloom lc' [97] r2 = Some (v, r2')"
    using compaction_preserves_lookups [OF example_head_may_compact, of example_pb "[]" "\<lambda>_. 1"] k by fast
  have levels: "list_all2 (level_holds example_bloom) (lc_levels example_head_levels) ?kvsss"
    using example_head_may_compact by (simp add: may_compact_def idle_levels_def)
  obtain r where "lc_get example_bloom example_head_levels [97] (\<lambda>_. 1) = Some (Some (snd (example_item 97)), r)"
    using get_in_levels_correct [OF levels, of "[97]" "\<lambda>_. 1"]
    by (auto simp: lc_get_def example_head_levels_def level_items_def lh_new_def example_item_def BADGER_PREFIX_def)
  with same [of "\<lambda>_. 1" "\<lambda>_. 1"] c show ?thesis by auto
qed

end
