(* ===== verification/Value_Log.thy ===== *)
theory Value_Log
  imports Manifest
begin

section \<open>The value log\<close>

text \<open>
  Models \<open>src/src/value_log.rs\<close> (entries, value pointers and the value log) and \<open>src/src/log_file.rs\<close>
  (one log file). A log file is mapped into memory by a shared mapping, so that the bytes of the
  mapping are those of the file on the disk. The checksum and the lengths that can be mapped are code
  outside the repository, the fields of \<open>vl_env\<close>. Everything runs in one task: locks and channels are
  left out, and the callback of a traversal passes its state. \<open>None\<close> is a panic, an overflow of \<open>u32\<close>
  or \<open>u64\<close> arithmetic included.
\<close>

record vl_env =
  ve_crc32 :: "bytes \<Rightarrow> u32"
  ve_can_map :: "nat \<Rightarrow> bool"

definition BIT_DELETE :: byte where "BIT_DELETE = 1"
definition BIT_VALUE_POINTER :: byte where "BIT_VALUE_POINTER = 2"
definition BIT_UNUSED :: byte where "BIT_UNUSED = 4"
definition BIT_SET_IF_ABSENT :: byte where "BIT_SET_IF_ABSENT = 8"
definition MAX_KEY_SIZE :: nat where "MAX_KEY_SIZE = 2 ^ 20"

definition eof_error :: error where "eof_error = StdIO UnexpectedEof None"

text \<open>Arithmetic on \<open>u32\<close> that panics instead of wrapping around.\<close>

definition add_u32 :: "u32 \<Rightarrow> u32 \<Rightarrow> u32 option" where
  "add_u32 a b = (if unat a + unat b < 2 ^ 32 then Some (a + b) else None)"

text \<open>Writing into a slice of a buffer: what does not fit is not written.\<close>

definition buf_write :: "bytes \<Rightarrow> nat \<Rightarrow> bytes \<Rightarrow> bytes option" where
  "buf_write buf start xs =
     (if start \<le> length buf
      then Some (take start buf @ take (length buf - start) xs @ drop (start + length xs) buf)
      else None)"

subsection \<open>Headers\<close>

record vl_header =
  vh_k_len :: u32
  vh_v_len :: u32
  vh_meta :: byte
  vh_user_meta :: byte
  vh_cas_counter :: u64
  vh_cas_counter_check :: u64

text \<open>The size of the struct, with the padding before its 64-bit fields.\<close>

definition vh_encoded_size :: nat where "vh_encoded_size = 32"

definition vh_enc :: "vl_header \<Rightarrow> bytes" where
  "vh_enc h = enc_u32 (vh_k_len h) @ enc_u32 (vh_v_len h) @ [vh_meta h, vh_user_meta h]
     @ enc_u64 (vh_cas_counter h) @ enc_u64 (vh_cas_counter_check h)"

text \<open>\<open>None\<close> is an unexpected end of the input; otherwise the rest of the input is returned.\<close>

definition vh_dec :: "bytes \<Rightarrow> (vl_header \<times> bytes) option" where
  "vh_dec rd = do {
     (k, rd) \<leftarrow> read_u32 rd;
     (v, rd) \<leftarrow> read_u32 rd;
     (m, rd) \<leftarrow> read_u8 rd;
     (u, rd) \<leftarrow> read_u8 rd;
     (c, rd) \<leftarrow> read_u64 rd;
     (cc, rd) \<leftarrow> read_u64 rd;
     Some (\<lparr>vh_k_len = k, vh_v_len = v, vh_meta = m, vh_user_meta = u, vh_cas_counter = c, vh_cas_counter_check = cc\<rparr>, rd) }"

subsection \<open>Entries\<close>

record entry =
  en_key :: bytes
  en_meta :: byte
  en_user_meta :: byte
  en_value :: bytes
  en_cas_counter_check :: u64
  en_offset :: u32
  en_cas_counter :: u64

definition entry_default :: entry where
  "entry_default = \<lparr>en_key = [], en_meta = 0, en_user_meta = 0, en_value = [], en_cas_counter_check = 0,
     en_offset = 0, en_cas_counter = 0\<rparr>"

definition entry_of_header :: "vl_header \<Rightarrow> bytes \<Rightarrow> bytes \<Rightarrow> u32 \<Rightarrow> entry" where
  "entry_of_header h key v off = \<lparr>en_key = key, en_meta = vh_meta h, en_user_meta = vh_user_meta h, en_value = v,
     en_cas_counter_check = vh_cas_counter_check h, en_offset = off, en_cas_counter = vh_cas_counter h\<rparr>"

definition en_header :: "entry \<Rightarrow> vl_header" where
  "en_header e = \<lparr>vh_k_len = of_nat (length (en_key e)), vh_v_len = of_nat (length (en_value e)),
     vh_meta = en_meta e, vh_user_meta = en_user_meta e, vh_cas_counter = en_cas_counter e,
     vh_cas_counter_check = en_cas_counter_check e\<rparr>"

text \<open>\<open>from_slice\<close> extends vectors that already have their full length of zeros.\<close>

definition from_slice :: "u32 \<Rightarrow> bytes \<Rightarrow> entry result option" where
  "from_slice cursor_offset m = do {
     let start = unat cursor_offset;
     hbytes \<leftarrow> slice m start (start + vh_encoded_size);
     (case vh_dec hbytes of
        None \<Rightarrow> Some (Inl eof_error)
      | Some (h, _) \<Rightarrow> do {
          let start = start + vh_encoded_size;
          key \<leftarrow> slice m start (start + unat (vh_k_len h));
          let start = start + unat (vh_k_len h);
          v \<leftarrow> slice m start (start + unat (vh_v_len h));
          let start = start + unat (vh_v_len h);
          crc \<leftarrow> slice m start (start + 4);
          Some (Inr (entry_of_header h (replicate (unat (vh_k_len h)) 0 @ key)
                                       (replicate (unat (vh_v_len h)) 0 @ v) cursor_offset)) }) }"

definition entry_enc :: "vl_env \<Rightarrow> entry \<Rightarrow> bytes option" where
  "entry_enc env e = do {
     let h = en_header e;
     kv \<leftarrow> add_u32 (vh_k_len h) (vh_v_len h);
     kv4 \<leftarrow> add_u32 kv 4;
     let buffer = replicate (vh_encoded_size + unat kv4) 0;
     buffer \<leftarrow> buf_write buffer 0 (vh_enc h);
     let start = vh_encoded_size;
     buffer \<leftarrow> buf_write buffer start (en_key e);
     let start = start + unat (vh_k_len h);
     buffer \<leftarrow> buf_write buffer start (en_value e);
     let start = start + unat (vh_v_len h);
     hashed \<leftarrow> slice buffer 0 start;
     buf_write buffer start (enc_u32 (ve_crc32 env hashed)) }"

text \<open>\<open>dec\<close> of an entry from a cursor: short reads of the header, the key or the value panic.\<close>

definition entry_dec :: "entry \<Rightarrow> bytes \<Rightarrow> entry result option" where
  "entry_dec e rd = do {
     (hbytes, rd) \<leftarrow> read_exact vh_encoded_size rd;
     (case vh_dec hbytes of
        None \<Rightarrow> Some (Inl eof_error)
      | Some (h, _) \<Rightarrow> do {
          (key, rd) \<leftarrow> read_exact (unat (vh_k_len h)) rd;
          (v, rd) \<leftarrow> read_exact (unat (vh_v_len h)) rd;
          Some (case read_u32 rd of
                  None \<Rightarrow> Inl eof_error
                | Some _ \<Rightarrow> Inr (entry_of_header h key v (en_offset e))) }) }"

subsection \<open>Value pointers\<close>

record value_pointer =
  vp_fid :: u32
  vp_len :: u32
  vp_offset :: u32

definition vp_default :: value_pointer where
  "vp_default = \<lparr>vp_fid = 0, vp_len = 0, vp_offset = 0\<rparr>"

definition vp_less :: "value_pointer \<Rightarrow> value_pointer \<Rightarrow> bool" where
  "vp_less a b =
     (if vp_fid a \<noteq> vp_fid b then vp_fid a < vp_fid b
      else if vp_offset a \<noteq> vp_offset b then vp_offset a < vp_offset b
      else vp_len a < vp_len b)"

definition vp_is_zero :: "value_pointer \<Rightarrow> bool" where
  "vp_is_zero p \<longleftrightarrow> vp_fid p = 0 \<and> vp_offset p = 0 \<and> vp_len p = 0"

definition value_pointer_encoded_size :: nat where "value_pointer_encoded_size = 12"

definition vp_enc :: "value_pointer \<Rightarrow> bytes" where
  "vp_enc p = enc_u32 (vp_fid p) @ enc_u32 (vp_len p) @ enc_u32 (vp_offset p)"

definition vp_dec :: "bytes \<Rightarrow> value_pointer result" where
  "vp_dec rd =
     (case do {
        (fid, rd) \<leftarrow> read_u32 rd;
        (len, rd) \<leftarrow> read_u32 rd;
        (off, rd) \<leftarrow> read_u32 rd;
        Some \<lparr>vp_fid = fid, vp_len = len, vp_offset = off\<rparr> } of
        None \<Rightarrow> Inl eof_error
      | Some p \<Rightarrow> Inr p)"

subsection \<open>Log files\<close>

text \<open>\<open>Either<Mmap, MmapMut>\<close>: a mapping for reading only, or for writing.\<close>

datatype mmap_type = Mmap | MmapMut

record log_file =
  lf_path :: string
  lf_fd :: "fhandle option"
  lf_fid :: u32
  lf_mmap :: "mmap_type option"
  lf_sz :: u32

definition set_file_len :: "disk \<Rightarrow> string \<Rightarrow> nat \<Rightarrow> disk" where
  "set_file_len disk path n =
     (case disk path of
        None \<Rightarrow> disk
      | Some c \<Rightarrow> disk(path \<mapsto> take n c @ replicate (n - length c) 0))"

text \<open>The bytes of the mapping; a panic without one.\<close>

definition mmap_slice :: "log_file \<Rightarrow> disk \<Rightarrow> bytes option" where
  "mmap_slice lf disk = (case lf_mmap lf of None \<Rightarrow> None | Some m \<Rightarrow> disk (lf_path lf))"

fun read_entries_loop :: "u32 \<Rightarrow> bytes \<Rightarrow> u32 \<Rightarrow> nat \<Rightarrow> ((entry \<times> value_pointer) list \<times> u32) result option" where
  "read_entries_loop fid m cursor_offset 0 = Some (Inr ([], cursor_offset))"
| "read_entries_loop fid m cursor_offset (Suc n) =
     (if cursor_offset < of_nat (length m) then do {
        r \<leftarrow> from_slice cursor_offset m;
        (case r of
           Inl e \<Rightarrow> Some (Inl e)
         | Inr entry \<Rightarrow> do {
             len \<leftarrow> add_u32 (of_nat vh_encoded_size) (of_nat (length (en_key entry) + length (en_value entry)));
             len \<leftarrow> add_u32 len 4;
             let vpt = \<lparr>vp_fid = fid, vp_len = len, vp_offset = cursor_offset\<rparr>;
             cursor_offset \<leftarrow> add_u32 cursor_offset len;
             r \<leftarrow> read_entries_loop fid m cursor_offset n;
             Some (map_sum id (map_prod (Cons (entry, vpt)) id) r) }) }
      else Some (Inr ([], cursor_offset)))"

definition read_entries :: "log_file \<Rightarrow> disk \<Rightarrow> u32 \<Rightarrow> nat \<Rightarrow> ((entry \<times> value_pointer) list \<times> u32) result option" where
  "read_entries lf disk off n = do {
     m \<leftarrow> mmap_slice lf disk;
     read_entries_loop (lf_fid lf) m off n }"

text \<open>What \<open>async_iterate_by_offset\<close> sends when it is not closed before its end.\<close>

partial_function (option) async_iterate_by_offset ::
  "log_file \<Rightarrow> disk \<Rightarrow> u32 \<Rightarrow> (entry \<times> value_pointer) list option" where
  "async_iterate_by_offset lf disk off = do {
     r \<leftarrow> read_entries lf disk off 1;
     (case r of
        Inl e \<Rightarrow> None
      | Inr (v, nxt) \<Rightarrow>
          if v = [] then Some []
          else do {
            rest \<leftarrow> async_iterate_by_offset lf disk nxt;
            Some (v @ rest) }) }"

type_synonym 's log_callback = "entry \<Rightarrow> value_pointer \<Rightarrow> 's \<Rightarrow> (bool result \<times> 's) option"

partial_function (option) iterate_by_offset ::
  "log_file \<Rightarrow> disk \<Rightarrow> 's log_callback \<Rightarrow> u32 \<Rightarrow> 's \<Rightarrow> (unit result \<times> 's) option" where
  "iterate_by_offset lf disk f off s = do {
     r \<leftarrow> read_entries lf disk off 1;
     (case r of
        Inl e \<Rightarrow> Some (Inl e, s)
      | Inr (v, nxt) \<Rightarrow>
          if v = [] then Some (Inr (), s)
          else do {
            (go, s) \<leftarrow> f (fst (hd v)) (snd (hd v)) s;
            (case go of
               Inl e \<Rightarrow> Some (Inl e, s)
             | Inr continue \<Rightarrow> if continue then iterate_by_offset lf disk f nxt s else Some (Inr (), s)) }) }"

text \<open>
  \<open>iterate\<close> reads from the file. The key and value vectors are cleared before they are read into,
  and a read fills as many bytes as the vector is long.
\<close>

definition file_read :: "nat \<Rightarrow> bytes \<Rightarrow> bytes \<times> bytes" where
  "file_read n rd = (take n rd, drop n rd)"

partial_function (option) iterate_loop ::
  "u32 \<Rightarrow> 's log_callback \<Rightarrow> bytes \<Rightarrow> u32 \<Rightarrow> 's \<Rightarrow> (unit result \<times> 's) option" where
  "iterate_loop fid f rd record_offset s =
     (case vh_dec rd of
        None \<Rightarrow> Some (Inr (), s)
      | Some (h, rd) \<Rightarrow>
          let (key, rd) = file_read (length ([] :: bytes)) rd;
              (v, rd) = file_read (length ([] :: bytes)) rd
          in case read_u32 rd of
               None \<Rightarrow> Some (Inr (), s)
             | Some (crc, rd) \<Rightarrow> do {
                 len \<leftarrow> add_u32 (of_nat vh_encoded_size) (vh_k_len h);
                 len \<leftarrow> add_u32 len (vh_v_len h);
                 len \<leftarrow> add_u32 len 4;
                 nxt \<leftarrow> add_u32 record_offset len;
                 (go, s) \<leftarrow> f (entry_of_header h key v record_offset) \<lparr>vp_fid = fid, vp_len = len, vp_offset = record_offset\<rparr> s;
                 (case go of
                    Inl e \<Rightarrow> Some (Inl e, s)
                  | Inr continue \<Rightarrow> if continue then iterate_loop fid f rd nxt s else Some (Inr (), s)) })"

definition lf_iterate :: "log_file \<Rightarrow> disk \<Rightarrow> u32 \<Rightarrow> 's log_callback \<Rightarrow> 's \<Rightarrow> (unit result \<times> 's) option" where
  "lf_iterate lf disk off f s = do {
     fd \<leftarrow> lf_fd lf;
     c \<leftarrow> disk (fh_path fd);
     iterate_loop (lf_fid lf) f (drop (unat off) c) off s }"

definition open_read_only :: "vl_env \<Rightarrow> log_file \<Rightarrow> disk \<Rightarrow> unit result \<times> log_file" where
  "open_read_only env lf disk =
     (case disk (lf_path lf) of
        None \<Rightarrow> (Inl (StdIO KindNotFound (Some 2)), lf)
      | Some c \<Rightarrow>
          if \<not> ve_can_map env (length c) then (Inl (StdIO OtherKind None), lf)
          else (Inr (), lf\<lparr>lf_mmap := Some Mmap, lf_fd := Some \<lparr>fh_path = lf_path lf, fh_pos = 0\<rparr>, lf_sz := of_nat (length c)\<rparr>))"

definition lf_new :: "vl_env \<Rightarrow> string \<Rightarrow> disk \<Rightarrow> log_file result" where
  "lf_new env path disk =
     (case open_read_only env \<lparr>lf_path = path, lf_fd = None, lf_fid = 0, lf_mmap = None, lf_sz = 0\<rparr> disk of
        (Inl e, lf) \<Rightarrow> Inl e
      | (Inr u, lf) \<Rightarrow> Inr lf)"

definition lf_read :: "log_file \<Rightarrow> value_pointer \<Rightarrow> disk \<Rightarrow> bytes option" where
  "lf_read lf p disk = do {
     m \<leftarrow> mmap_slice lf disk;
     upto \<leftarrow> add_u32 (vp_offset p) (vp_len p);
     slice m (unat (vp_offset p)) (unat upto) }"

text \<open>\<open>done_writing\<close> needs the file open and mapped for writing.\<close>

definition done_writing :: "vl_env \<Rightarrow> log_file \<Rightarrow> u32 \<Rightarrow> disk \<Rightarrow> (unit result \<times> log_file \<times> disk) option" where
  "done_writing env lf off disk =
     (if lf_fd lf = None \<or> lf_mmap lf \<noteq> Some MmapMut then None
      else
        let disk = set_file_len disk (lf_path lf) (unat off);
            (r, lf) = open_read_only env (lf\<lparr>lf_mmap := None, lf_fd := None\<rparr>) disk
        in Some (r, lf, disk))"

definition set_write :: "vl_env \<Rightarrow> log_file \<Rightarrow> u64 \<Rightarrow> disk \<Rightarrow> (unit result \<times> log_file \<times> disk) option" where
  "set_write env lf sz disk =
     (if lf_fd lf = None then None
      else
        let disk = set_file_len disk (lf_path lf) (unat sz) in
        if \<not> ve_can_map env (unat sz) then Some (Inl (StdIO OtherKind None), lf, disk)
        else Some (Inr (), lf\<lparr>lf_mmap := Some MmapMut, lf_sz := ucast sz\<rparr>, disk))"

text \<open>\<open>write_buffer\<close> returns how many bytes fit into the mapping.\<close>

definition write_buffer :: "log_file \<Rightarrow> bytes \<Rightarrow> nat \<Rightarrow> disk \<Rightarrow> (nat \<times> disk) option" where
  "write_buffer lf buffer off disk =
     (if lf_mmap lf \<noteq> Some MmapMut then None
      else do {
        m \<leftarrow> disk (lf_path lf);
        m' \<leftarrow> buf_write m off buffer;
        Some (min (length buffer) (length m - off), disk(lf_path lf \<mapsto> m')) })"

end
