(* ===== verification/Vlog_Core.thy ===== *)
theory Vlog_Core
  imports Value_Log Badger_Options "HOL-Library.AList" "HOL-Library.Char_ord"
begin

section \<open>ValueLogCore\<close>

text \<open>
  Models \<open>ValueLogCore\<close> of \<open>src/src/value_log.rs\<close>: the set of log files, writing requests, reading
  values, replaying, and the removal of a file by garbage collection. The maps and sets of files are
  lists in the order in which the source iterates them. The store that owns the log is an argument
  where a routine calls it. The sampling that
  garbage collection starts with is in the theory \<open>Kv_Gc\<close>.
\<close>

record value_log =
  vl_dir_path :: string
  vl_max_fid :: u32
  vl_vlogs :: "(u32 \<times> log_file) list"
  vl_dirty_vlogs :: "u32 list"
  vl_num_active_iterators :: int
  vl_writable_log_offset :: u32
  vl_buf :: bytes
  vl_opt :: options

definition vl_default :: "string \<Rightarrow> value_log" where
  "vl_default dir = \<lparr>vl_dir_path = '''', vl_max_fid = 0, vl_vlogs = [], vl_dirty_vlogs = [], vl_num_active_iterators = 0,
     vl_writable_log_offset = 0, vl_buf = [], vl_opt = options_default dir\<rparr>"

definition vlog_file_path :: "string \<Rightarrow> u32 \<Rightarrow> string" where
  "vlog_file_path dir_path fid =
     (let d = decimal (unat fid) in path_join dir_path (replicate (6 - length d) CHR ''0'' @ d @ ''.vlog''))"

definition vl_fpath :: "value_log \<Rightarrow> u32 \<Rightarrow> string" where
  "vl_fpath vl fid = vlog_file_path (vl_dir_path vl) fid"

definition create_vlog_file :: "value_log \<Rightarrow> u32 \<Rightarrow> disk \<Rightarrow> log_file \<times> value_log \<times> disk" where
  "create_vlog_file vl fid disk =
     (let path = vl_fpath vl fid;
          disk = (case disk path of None \<Rightarrow> disk(path \<mapsto> []) | Some c \<Rightarrow> disk)
      in (\<lparr>lf_path = path, lf_fd = Some \<lparr>fh_path = path, fh_pos = 0\<rparr>, lf_fid = fid, lf_mmap = None, lf_sz = 0\<rparr>,
          vl\<lparr>vl_writable_log_offset := 0\<rparr>, disk))"

definition create_mmap_vlog_file ::
  "vl_env \<Rightarrow> value_log \<Rightarrow> u32 \<Rightarrow> nat \<Rightarrow> disk \<Rightarrow> log_file result \<times> value_log \<times> disk" where
  "create_mmap_vlog_file env vl fid off disk =
     (let (lf, vl, disk) = create_vlog_file vl fid disk;
          disk = set_file_len disk (lf_path lf) off
      in if \<not> ve_can_map env off then (Inl (StdIO OtherKind None), vl, disk)
         else (Inr (lf\<lparr>lf_mmap := Some Mmap\<rparr>), vl, disk))"

subsection \<open>Opening and closing\<close>

text \<open>\<open>paths\<close> are the paths of the files in the directory.\<close>

definition get_data_files :: "string list \<Rightarrow> string list" where
  "get_data_files paths = sort (filter (\<lambda>p. ends_with p ''.vlog'') paths)"

fun parse_vlog_ids :: "string list \<Rightarrow> u64 list option" where
  "parse_vlog_ids [] = Some []"
| "parse_vlog_ids (p # ps) = do {
     name \<leftarrow> path_file_name p;
     (case parse_u64 (takeWhile (\<lambda>c. c \<noteq> CHR ''.'') name) of
        Inl e \<Rightarrow> None
      | Inr i \<Rightarrow> map_option (Cons i) (parse_vlog_ids ps)) }"

definition parse_file_ids :: "string list \<Rightarrow> u64 list option" where
  "parse_file_ids data_files = map_option sort (parse_vlog_ids data_files)"

fun open_vlogs ::
  "vl_env \<Rightarrow> u32 \<Rightarrow> disk \<Rightarrow> (u32 \<times> log_file) list \<Rightarrow> (u32 \<times> log_file) list result" where
  "open_vlogs env max_fid disk [] = Inr []"
| "open_vlogs env max_fid disk ((fid, lf) # vlogs) =
     (case (if fid = max_fid
            then (case open_existing_synced_file disk (lf_path lf) of
                    Inl e \<Rightarrow> Inl e | Inr fp \<Rightarrow> Inr (lf\<lparr>lf_fd := Some fp\<rparr>))
            else (case open_read_only env lf disk of (Inl e, lf) \<Rightarrow> Inl e | (Inr u, lf) \<Rightarrow> Inr lf)) of
        Inl e \<Rightarrow> Inl e
      | Inr lf \<Rightarrow> map_sum id (Cons (fid, lf)) (open_vlogs env max_fid disk vlogs))"

definition open_create_files ::
  "vl_env \<Rightarrow> string list \<Rightarrow> value_log \<Rightarrow> disk \<Rightarrow> (unit result \<times> value_log \<times> disk) option" where
  "open_create_files env paths vl disk = do {
     fids \<leftarrow> parse_file_ids (get_data_files paths);
     let vlogs = foldl (\<lambda>m fid. AList.update (ucast fid)
           \<lparr>lf_path = vl_fpath vl (ucast fid), lf_fd = None, lf_fid = ucast fid, lf_mmap = None, lf_sz = 0\<rparr> m) (vl_vlogs vl) fids;
     let max_fid = foldl (\<lambda>m fid. if fid > m then fid else m) 0 fids;
     let vl = vl\<lparr>vl_max_fid := ucast max_fid, vl_vlogs := vlogs\<rparr>;
     (case open_vlogs env (vl_max_fid vl) disk vlogs of
        Inl e \<Rightarrow> Some (Inl e, vl, disk)
      | Inr vlogs \<Rightarrow>
          let vl = vl\<lparr>vl_vlogs := vlogs\<rparr> in
          if vlogs = [] then
            let (lf, vl, disk) = create_vlog_file vl 0 disk
            in Some (Inr (), vl\<lparr>vl_vlogs := [(0, lf)]\<rparr>, disk)
          else Some (Inr (), vl, disk)) }"

definition vl_open ::
  "vl_env \<Rightarrow> string list \<Rightarrow> options \<Rightarrow> value_log \<Rightarrow> disk \<Rightarrow> (unit result \<times> value_log \<times> disk) option" where
  "vl_open env paths opt vl disk =
     open_create_files env paths (vl\<lparr>vl_dir_path := opt_value_dir opt, vl_opt := opt\<rparr>) disk"

fun close_vlogs :: "value_log \<Rightarrow> (u32 \<times> log_file) list \<Rightarrow> disk \<Rightarrow> disk option" where
  "close_vlogs vl [] disk = Some disk"
| "close_vlogs vl ((fid, lf) # vlogs) disk =
     (if fid = vl_max_fid vl then
        if lf_mmap lf \<noteq> Some MmapMut \<or> lf_fd lf = None then None
        else close_vlogs vl vlogs (set_file_len disk (lf_path lf) (unat (vl_writable_log_offset vl)))
      else close_vlogs vl vlogs disk)"

definition vl_close :: "value_log \<Rightarrow> disk \<Rightarrow> (value_log \<times> disk) option" where
  "vl_close vl disk = do {
     disk \<leftarrow> close_vlogs vl (vl_vlogs vl) disk;
     Some (vl\<lparr>vl_vlogs := []\<rparr>, disk) }"

subsection \<open>Reading\<close>

text \<open>The file numbers in order, without the files to be deleted.\<close>

definition pick_log_guard :: "value_log \<Rightarrow> u32 list" where
  "pick_log_guard vl = sort (filter (\<lambda>fid. fid \<notin> set (vl_dirty_vlogs vl)) (map fst (vl_vlogs vl)))"

definition pick_log_by_vlog_id :: "value_log \<Rightarrow> u32 \<Rightarrow> log_file option" where
  "pick_log_by_vlog_id vl fid = map_of (vl_vlogs vl) fid"

text \<open>\<open>r1\<close> and \<open>r2\<close> are the random numbers.\<close>

definition pick_log :: "value_log \<Rightarrow> nat \<Rightarrow> nat \<Rightarrow> log_file option option" where
  "pick_log vl r1 r2 =
     (if length (vl_vlogs vl) \<le> 1 then Some None
      else
        let fids = pick_log_guard vl in
        if fids = [] then None
        else
          let idx = r1 mod length fids;
              idx = (if idx > 0 then r2 mod idx else idx)
          in map_option Some (map_of (vl_vlogs vl) (fids ! idx)))"

definition async_read_bytes :: "value_log \<Rightarrow> value_pointer \<Rightarrow> disk \<Rightarrow> bytes result option" where
  "async_read_bytes vl vp disk = do {
     lf \<leftarrow> pick_log_by_vlog_id vl (vp_fid vp);
     buffer \<leftarrow> lf_read lf vp disk;
     hbytes \<leftarrow> slice buffer 0 vh_encoded_size;
     (case vh_dec hbytes of
        None \<Rightarrow> Some (Inl eof_error)
      | Some (h, _) \<Rightarrow>
          if vh_meta h AND BIT_DELETE \<noteq> 0 then Some (Inr [])
          else do {
            let n = vh_encoded_size + unat (vh_k_len h);
            v \<leftarrow> slice buffer n (n + unat (vh_v_len h));
            Some (Inr v) }) }"

definition async_read :: "value_log \<Rightarrow> value_pointer \<Rightarrow> disk \<Rightarrow> bytes result option" where
  "async_read vl vp disk =
     (if vp_fid vp = vl_max_fid vl \<and> vp_offset vp \<ge> vl_writable_log_offset vl
      then Some (Inl (Unexpected ''Invalid value pointer offset''))
      else async_read_bytes vl vp disk)"

definition read_value_bytes :: "value_log \<Rightarrow> value_pointer \<Rightarrow> disk \<Rightarrow> bytes option" where
  "read_value_bytes vl vp disk = do {
     lf \<leftarrow> pick_log_by_vlog_id vl (vp_fid vp);
     lf_read lf vp disk }"

fun replay_files ::
  "value_log \<Rightarrow> disk \<Rightarrow> value_pointer \<Rightarrow> u32 \<Rightarrow> 's log_callback \<Rightarrow> u32 list \<Rightarrow> 's \<Rightarrow> (unit result \<times> 's) option" where
  "replay_files vl disk vp off f [] s = Some (Inr (), s)"
| "replay_files vl disk vp off f (fid # fids) s =
     (if fid < vp_fid vp then replay_files vl disk vp off f fids s
      else do {
        lf \<leftarrow> map_of (vl_vlogs vl) fid;
        (r, s) \<leftarrow> lf_iterate lf disk (if fid > vp_fid vp then 0 else off) f s;
        (case r of
           Inl e \<Rightarrow> Some (Inl e, s)
         | Inr u \<Rightarrow> replay_files vl disk vp off f fids s) })"

definition vl_replay ::
  "value_log \<Rightarrow> disk \<Rightarrow> value_pointer \<Rightarrow> 's log_callback \<Rightarrow> 's \<Rightarrow> (unit result \<times> value_log \<times> 's) option" where
  "vl_replay vl disk vp f s = do {
     off \<leftarrow> add_u32 (vp_offset vp) (vp_len vp);
     (r, s) \<leftarrow> replay_files vl disk vp off f (pick_log_guard vl) s;
     (case r of
        Inl e \<Rightarrow> Some (Inl e, vl, s)
      | Inr u \<Rightarrow> do {
          lf \<leftarrow> map_of (vl_vlogs vl) (vl_max_fid vl);
          fd \<leftarrow> lf_fd lf;
          c \<leftarrow> disk (fh_path fd);
          Some (Inr (), vl\<lparr>vl_writable_log_offset := of_nat (length c)\<rparr>, s) }) }"

subsection \<open>Writing\<close>

text \<open>
  The loops of \<open>write\<close>: a small value stays out of the log when writes are not synchronous, and its
  pointer stays unset; every other entry is appended to the buffer.
\<close>

fun write_entries ::
  "vl_env \<Rightarrow> options \<Rightarrow> u32 \<Rightarrow> u32 \<Rightarrow> entry list \<Rightarrow> bytes \<Rightarrow> (value_pointer option list \<times> bytes) option" where
  "write_entries env opt fid off [] buf = Some ([], buf)"
| "write_entries env opt fid off (e # es) buf =
     (if \<not> opt_sync_writes opt \<and> length (en_value e) < opt_value_threshold opt
      then map_option (apfst (Cons None)) (write_entries env opt fid off es buf)
      else do {
        poff \<leftarrow> add_u32 off (of_nat (length buf));
        bytes \<leftarrow> entry_enc env e;
        let buf' = buf @ bytes;
        let ptr = \<lparr>vp_fid = fid, vp_len = of_nat (length bytes), vp_offset = poff\<rparr>;
        if length buf' + unat off \<noteq> unat poff + length bytes then None
        else map_option (apfst (Cons (Some ptr))) (write_entries env opt fid off es buf') })"

fun write_reqs ::
  "vl_env \<Rightarrow> options \<Rightarrow> u32 \<Rightarrow> u32 \<Rightarrow> entry list list \<Rightarrow> bytes \<Rightarrow> (value_pointer option list list \<times> bytes) option" where
  "write_reqs env opt fid off [] buf = Some ([], buf)"
| "write_reqs env opt fid off (req # reqs) buf = do {
     (ptrs, buf) \<leftarrow> write_entries env opt fid off req buf;
     map_option (apfst (Cons ptrs)) (write_reqs env opt fid off reqs buf) }"

text \<open>
  The change to a new file when the current one is full: the new file gets the number that
  \<open>fetch_add\<close> returns, which is the old one, and takes the place of the current file.
\<close>

definition roll_over :: "vl_env \<Rightarrow> log_file \<Rightarrow> value_log \<Rightarrow> disk \<Rightarrow> (unit result \<times> value_log \<times> disk) option" where
  "roll_over env cur vl disk = do {
     (r, lf, disk) \<leftarrow> done_writing env cur (vl_writable_log_offset vl) disk;
     let cur_fid = vl_max_fid vl;
     let vl = vl\<lparr>vl_vlogs := AList.update cur_fid lf (vl_vlogs vl)\<rparr>;
     (case r of
        Inl e \<Rightarrow> Some (Inl e, vl, disk)
      | Inr u \<Rightarrow> do {
          let new_id = vl_max_fid vl;
          let vl = vl\<lparr>vl_max_fid := vl_max_fid vl + 1\<rparr>;
          let sz = 2 * unat (opt_value_log_file_size (vl_opt vl));
          if \<not> new_id < 2 ^ 16 \<or> \<not> sz < 2 ^ 64 then None
          else
            let (r, vl, disk) = create_mmap_vlog_file env vl new_id sz disk in
            Some (case r of
                    Inl e \<Rightarrow> (Inl e, vl, disk)
                  | Inr lf \<Rightarrow> (Inr (), vl\<lparr>vl_vlogs := AList.update cur_fid lf (vl_vlogs vl)\<rparr>, disk)) }) }"

definition vl_write ::
  "vl_env \<Rightarrow> entry list list \<Rightarrow> value_log \<Rightarrow> disk \<Rightarrow> (value_pointer option list list result \<times> value_log \<times> disk) option" where
  "vl_write env reqs vl disk = do {
     cur \<leftarrow> pick_log_by_vlog_id vl (vl_max_fid vl);
     let off = vl_writable_log_offset vl;
     (ptrs, buf) \<leftarrow> write_reqs env (vl_opt vl) (lf_fid cur) off reqs (vl_buf vl);
     if buf = [] then Some (Inr ptrs, vl, disk)
     else do {
       (n, disk) \<leftarrow> write_buffer cur buf (unat off) disk;
       if n \<noteq> length buf then None
       else do {
         let vl = vl\<lparr>vl_writable_log_offset := off + of_nat n, vl_buf := []\<rparr>;
         if vl_writable_log_offset vl > ucast (opt_value_log_file_size (vl_opt vl)) then do {
           (r, vl, disk) \<leftarrow> roll_over env cur vl disk;
           Some (map_sum id (\<lambda>_. ptrs) r, vl, disk) }
         else Some (Inr ptrs, vl, disk) } } }"

subsection \<open>Iterators and the removal of files\<close>

definition incr_iterator_count :: "value_log \<Rightarrow> value_log" where
  "incr_iterator_count vl = vl\<lparr>vl_num_active_iterators := vl_num_active_iterators vl + 1\<rparr>"

text \<open>\<open>sync\<close> looks up the current file and does nothing with it.\<close>

definition vl_sync :: "value_log \<Rightarrow> unit result option" where
  "vl_sync vl =
     (if opt_sync_writes (vl_opt vl) then Some (Inr ())
      else do {
        _ \<leftarrow> map_of (vl_vlogs vl) (vl_max_fid vl);
        Some (Inr ()) })"

text \<open>Deleting a file that is mapped for reading panics in \<open>get_mut_mmap\<close>.\<close>

definition delete_log_file_by_fid :: "value_log \<Rightarrow> log_file \<Rightarrow> disk \<Rightarrow> (unit result \<times> disk) option" where
  "delete_log_file_by_fid vl lf disk =
     (if lf_mmap lf = Some Mmap then None
      else case disk (vl_fpath vl (lf_fid lf)) of
             None \<Rightarrow> Some (Inl (StdIO KindNotFound (Some 2)), disk)
           | Some c \<Rightarrow> Some (Inr (), disk(vl_fpath vl (lf_fid lf) := None)))"

fun delete_log_files :: "value_log \<Rightarrow> log_file list \<Rightarrow> disk \<Rightarrow> (unit result \<times> disk) option" where
  "delete_log_files vl [] disk = Some (Inr (), disk)"
| "delete_log_files vl (lf # lfs) disk = do {
     (r, disk) \<leftarrow> delete_log_file_by_fid vl lf disk;
     (case r of Inl e \<Rightarrow> Some (Inl e, disk) | Inr u \<Rightarrow> delete_log_files vl lfs disk) }"

definition decr_iterator_count :: "value_log \<Rightarrow> disk \<Rightarrow> (unit result \<times> value_log \<times> disk) option" where
  "decr_iterator_count vl disk =
     (let n = vl_num_active_iterators vl; vl = vl\<lparr>vl_num_active_iterators := n - 1\<rparr> in
      if n \<noteq> 1 then Some (Inr (), vl, disk)
      else if \<not> set (vl_dirty_vlogs vl) \<subseteq> set (map fst (vl_vlogs vl)) then None
      else do {
        let lfs = map (\<lambda>fid. the (map_of (vl_vlogs vl) fid)) (vl_dirty_vlogs vl);
        let vl = vl\<lparr>vl_vlogs := filter (\<lambda>(fid, lf). fid \<notin> set (vl_dirty_vlogs vl)) (vl_vlogs vl), vl_dirty_vlogs := []\<rparr>;
        (r, disk) \<leftarrow> delete_log_files vl lfs disk;
        Some (r, vl, disk) })"

text \<open>
  The loop of \<open>rewrite\<close>: the entries of a file whose latest version is still the one in the file.
  \<open>kv_get\<close> is what \<open>_get\<close> of the store behind the pointer \<open>get_kv\<close> answers. The offset of the next entry is
  added to the current one. The test of the value pointer bit in the source, \<open>< 0\<close> on an unsigned
  number, never holds.
\<close>

partial_function (option) rewrite_loop ::
  "(bytes \<Rightarrow> value_struct result option) \<Rightarrow> log_file \<Rightarrow> disk \<Rightarrow> u32 \<Rightarrow> entry list \<Rightarrow> entry list result option" where
  "rewrite_loop kv_get lf disk off write_batch = do {
     r \<leftarrow> read_entries lf disk off 1;
     (case r of
        Inl e \<Rightarrow> Some (Inl e)
      | Inr (entries, nxt) \<Rightarrow>
          if entries = [] then Some (Inr write_batch)
          else do {
            off \<leftarrow> add_u32 off nxt;
            let entry = fst (hd entries);
            r \<leftarrow> kv_get (en_key entry);
            (case r of
               Inl err \<Rightarrow> if is_not_found err then rewrite_loop kv_get lf disk off write_batch else Some (Inl err)
             | Inr vs \<Rightarrow>
                 if vs_meta vs AND BIT_DELETE \<noteq> 0 then rewrite_loop kv_get lf disk off write_batch
                 else if vs_value vs = [] then Some (Inl (Unexpected ''Empty value''))
                 else case vp_dec (vs_value vs) of
                   Inl e \<Rightarrow> None
                 | Inr vptr \<Rightarrow>
                     if vp_fid vptr > lf_fid lf \<or> vp_offset vptr > en_offset entry
                     then rewrite_loop kv_get lf disk off write_batch
                     else if vp_fid vptr \<noteq> lf_fid lf \<or> vp_offset vptr \<noteq> en_offset entry then None
                     else if en_meta entry \<noteq> 0 \<and> en_meta entry \<noteq> BIT_SET_IF_ABSENT then None
                     else rewrite_loop kv_get lf disk off (write_batch @
                       [entry_default\<lparr>en_meta := 0, en_user_meta := en_user_meta entry, en_key := en_key entry,
                          en_value := en_value entry, en_cas_counter_check := vs_cas_counter vs\<rparr>])) }) }"

text \<open>\<open>kv_set\<close> is \<open>batch_set\<close> of the store behind the pointer, which may write to this log too; its results are dropped.\<close>

definition vl_rewrite ::
  "(bytes \<Rightarrow> value_struct result option) \<Rightarrow> (entry list \<Rightarrow> value_log \<Rightarrow> 's \<Rightarrow> (value_log \<times> 's) option) \<Rightarrow> log_file \<Rightarrow> value_log \<Rightarrow> disk \<Rightarrow> 's
     \<Rightarrow> (unit result \<times> value_log \<times> 's) option" where
  "vl_rewrite kv_get kv_set lf vl disk s =
     (if \<not> lf_fid lf < vl_max_fid vl then None
      else do {
        r \<leftarrow> rewrite_loop kv_get lf disk 0 [];
        (case r of
           Inl e \<Rightarrow> Some (Inl e, vl, s)
         | Inr write_batch \<Rightarrow>
             if write_batch = [] then Some (Inr (), vl, s)
             else do {
               (vl, s) \<leftarrow> kv_set write_batch vl s;
               Some (if map_of (vl_vlogs vl) (lf_fid lf) = None then (Inl (Unexpected ''Unable to find fid''), vl, s)
                     else if vl_num_active_iterators vl = 0
                     then (Inr (), vl\<lparr>vl_vlogs := AList.delete (lf_fid lf) (vl_vlogs vl)\<rparr>, s)
                     else (Inr (), vl\<lparr>vl_dirty_vlogs := List.insert (lf_fid lf) (vl_dirty_vlogs vl)\<rparr>, s)) }) })"

end
