(* ===== verification/Kv.thy ===== *)
theory Kv
  imports Levels_Correct Vlog_Core
begin

section \<open>The store\<close>

text \<open>
  Models \<open>src/src/st_manager.rs\<close> (the memtables) and \<open>KVCore\<close> and \<open>KV\<close> of \<open>src/src/kv.rs\<close>: lookups, the write path
  from \<open>batch_set\<close> to the memtable and the value log, and the flush of a memtable to level 0. Skip lists
  are shared between the memtable manager and the flush queue, so they live in a store of lists,
  and both refer to them by address. Requests are processed one after the other; channels other
  than the flush queue, locks, metrics and logging are left out. What other tasks do while a writer
  waits is an argument \<open>wait\<close>.
\<close>

record 'bf kv_env =
  ke_bl :: "'bf bloom"
  ke_pb :: pb
  ke_vl :: vl_env

definition HEAD_KEY :: bytes where
  "HEAD_KEY = [0x21, 0x62, 0x61, 0x64, 0x67, 0x65, 0x72, 0x21, 0x68, 0x65, 0x61, 0x64]"

subsection \<open>SkipListManager\<close>

record skip_list_manager =
  sm_lists :: "nat \<Rightarrow> skip_list"
  sm_next :: nat
  sm_mt :: nat
  sm_imm :: "nat list"
  sm_mt_seq :: nat

definition sm_new :: "nat \<Rightarrow> skip_list_manager option" where
  "sm_new sz = do {
     s \<leftarrow> sl_new sz 0;
     Some \<lparr>sm_lists = (\<lambda>_. s), sm_next = 1, sm_mt = 0, sm_imm = [], sm_mt_seq = 0\<rparr> }"

definition mt_ref :: "skip_list_manager \<Rightarrow> skip_list" where
  "mt_ref sm = sm_lists sm (sm_mt sm)"

definition swap_st :: "options \<Rightarrow> skip_list_manager \<Rightarrow> skip_list_manager option" where
  "swap_st opt sm = do {
     sz \<leftarrow> opt_arena_size opt;
     s \<leftarrow> sl_new (unat sz) (of_nat (sm_next sm));
     Some (sm\<lparr>sm_imm := sm_imm sm @ [sm_mt sm], sm_lists := (sm_lists sm)(sm_next sm := s),
              sm_mt := sm_next sm, sm_next := sm_next sm + 1, sm_mt_seq := sm_mt_seq sm + 1\<rparr>) }"

definition advance_imm :: "skip_list_manager \<Rightarrow> skip_list_manager option" where
  "advance_imm sm = (case sm_imm sm of [] \<Rightarrow> None | i # imm \<Rightarrow> Some (sm\<lparr>sm_imm := imm\<rparr>))"

subsection \<open>KVCore\<close>

record flush_task =
  ft_mt :: "nat option"
  ft_vptr :: value_pointer

record 'bf kv =
  kv_opt :: options
  kv_vlog :: value_log
  kv_vptr :: "value_pointer option"
  kv_lc :: "'bf levels_controller"
  kv_flush_chan :: "flush_task list"
  kv_mem :: skip_list_manager
  kv_last_used_cas_counter :: u64
  kv_refs :: refs
  kv_disk :: disk

definition must_mt :: "'bf kv \<Rightarrow> skip_list" where
  "must_mt kv = mt_ref (kv_mem kv)"

definition must_vptr :: "'bf kv \<Rightarrow> value_pointer" where
  "must_vptr kv = (case kv_vptr kv of None \<Rightarrow> vp_default | Some p \<Rightarrow> p)"

text \<open>The memtables, the newest first; the references taken here are given back by every caller.\<close>

definition get_mem_tables :: "'bf kv \<Rightarrow> skip_list list" where
  "get_mem_tables kv = must_mt kv # map (sm_lists (kv_mem kv)) (rev (sm_imm (kv_mem kv)))"

text \<open>The loop of \<open>_get\<close>; \<open>Some None\<close> is a key that no memtable answers for.\<close>

fun get_in_mem :: "skip_list list \<Rightarrow> bytes \<Rightarrow> value_struct result option option" where
  "get_in_mem [] key = Some None"
| "get_in_mem (st # sts) key = do {
     vs \<leftarrow> sl_get st key;
     (case vs of
        None \<Rightarrow> get_in_mem sts key
      | Some vs \<Rightarrow>
          if vs_meta vs AND BIT_DELETE \<noteq> 0 then Some (Some (Inl NotFound))
          else if vs_value vs \<noteq> [] then Some (Some (Inr vs))
          else get_in_mem sts key) }"

definition kv_get_vs :: "'bf kv_env \<Rightarrow> 'bf kv \<Rightarrow> bytes \<Rightarrow> (value_struct result \<times> 'bf kv) option" where
  "kv_get_vs env kv key = do {
     r \<leftarrow> get_in_mem (get_mem_tables kv) key;
     (case r of
        Some r \<Rightarrow> Some (r, kv)
      | None \<Rightarrow> do {
          (vs, refs) \<leftarrow> lc_get (ke_bl env) (kv_lc kv) key (kv_refs kv);
          let kv = kv\<lparr>kv_refs := refs\<rparr>;
          Some (case vs of
                  None \<Rightarrow> (Inl NotFound, kv)
                | Some vs \<Rightarrow> if vs_meta vs AND BIT_DELETE \<noteq> 0 then (Inl NotFound, kv) else (Inr vs, kv)) }) }"

definition kv_exists :: "'bf kv_env \<Rightarrow> 'bf kv \<Rightarrow> bytes \<Rightarrow> (bool result \<times> 'bf kv) option" where
  "kv_exists env kv key = do {
     (r, kv) \<leftarrow> kv_get_vs env kv key;
     Some (case r of
             Inl err \<Rightarrow> if is_not_found err then (Inr False, kv) else (Inl err, kv)
           | Inr v \<Rightarrow>
               if vs_value v = [] \<and> vs_meta v = 0 then (Inr False, kv)
               else (Inr (vs_meta v AND BIT_DELETE = 0), kv)) }"

definition new_cas_counter :: "'bf kv \<Rightarrow> u64 \<Rightarrow> u64 \<times> 'bf kv" where
  "new_cas_counter kv how_many =
     (kv_last_used_cas_counter kv + 1, kv\<lparr>kv_last_used_cas_counter := kv_last_used_cas_counter kv + how_many\<rparr>)"

definition should_write_value_to_lsm :: "'bf kv \<Rightarrow> entry \<Rightarrow> bool" where
  "should_write_value_to_lsm kv e \<longleftrightarrow> length (en_value e) < opt_value_threshold (kv_opt kv)"

definition update_offset :: "value_pointer option list \<Rightarrow> 'bf kv \<Rightarrow> 'bf kv" where
  "update_offset ptrs kv =
     (case find (\<lambda>p. \<not> (p = None \<or> vp_is_zero (the p))) (rev ptrs) of
        Some (Some ptr) \<Rightarrow> kv\<lparr>kv_vptr := Some ptr\<rparr>
      | _ \<Rightarrow> kv)"

subsection \<open>Writing\<close>

definition mt_put :: "bytes \<Rightarrow> value_struct \<Rightarrow> (nat \<Rightarrow> u32) \<Rightarrow> nat \<Rightarrow> skip_list_manager \<Rightarrow> skip_list_manager option" where
  "mt_put key v rnd addr sm = do {
     s \<leftarrow> sl_put (sm_lists sm addr) key v rnd;
     Some (sm\<lparr>sm_lists := (sm_lists sm)(addr := s)\<rparr>) }"

text \<open>What \<open>write_to_lsm\<close> puts into the memtable for an entry.\<close>

definition lsm_value :: "'bf kv \<Rightarrow> entry \<Rightarrow> value_pointer option \<Rightarrow> value_struct option" where
  "lsm_value kv e ptr =
     (if should_write_value_to_lsm kv e
      then Some (vs_new (en_value e) (en_meta e) (en_user_meta e) (en_cas_counter e))
      else do {
        ptr \<leftarrow> ptr;
        Some (vs_new (vp_enc ptr) (en_meta e OR BIT_VALUE_POINTER) (en_user_meta e) (en_cas_counter e)) })"

text \<open>One entry of \<open>write_to_lsm\<close>: the checks of the compare-and-set counter and of \<open>set_if_ab_sent\<close>, then the put.\<close>

definition write_entry_to_lsm ::
  "'bf kv_env \<Rightarrow> (nat \<Rightarrow> u32) \<Rightarrow> entry \<Rightarrow> value_pointer option \<Rightarrow> 'bf kv \<Rightarrow> (unit result \<times> 'bf kv) option" where
  "write_entry_to_lsm env rnd e ptr kv = do {
     (refused, kv) \<leftarrow>
       (if en_cas_counter_check e \<noteq> 0 then do {
          (old, kv) \<leftarrow> kv_get_vs env kv (en_key e);
          Some (case old of
                  Inl err \<Rightarrow> (Some err, kv)
                | Inr old \<Rightarrow> if vs_cas_counter old \<noteq> en_cas_counter_check e then (Some ValueCasMisMatch, kv) else (None, kv)) }
        else Some (None, kv));
     (case refused of
        Some err \<Rightarrow> Some (Inl err, kv)
      | None \<Rightarrow> do {
          (present, kv) \<leftarrow>
            (if en_meta e = BIT_SET_IF_ABSENT then kv_exists env kv (en_key e) else Some (Inr False, kv));
          (case present of
             Inl err \<Rightarrow> None
           | Inr True \<Rightarrow> Some (Inl ValueKeyExists, kv)
           | Inr False \<Rightarrow> do {
               v \<leftarrow> lsm_value kv e ptr;
               mem \<leftarrow> mt_put (en_key e) v rnd (sm_mt (kv_mem kv)) (kv_mem kv);
               Some (Inr (), kv\<lparr>kv_mem := mem\<rparr>) }) }) }"

text \<open>\<open>rnds\<close> are the random draws for the towers, by the number of entries left.\<close>

fun write_to_lsm ::
  "'bf kv_env \<Rightarrow> (nat \<Rightarrow> nat \<Rightarrow> u32) \<Rightarrow> entry list \<Rightarrow> value_pointer option list \<Rightarrow> 'bf kv \<Rightarrow> (unit result list \<times> 'bf kv) option" where
  "write_to_lsm env rnds [] [] kv = Some ([], kv)"
| "write_to_lsm env rnds (e # es) (p # ptrs) kv = do {
     (r, kv) \<leftarrow> write_entry_to_lsm env (rnds (length es)) e p kv;
     (rs, kv) \<leftarrow> write_to_lsm env rnds es ptrs kv;
     Some (r # rs, kv) }"
| "write_to_lsm env rnds es ptrs kv = None"

definition ensure_room_for_write :: "'bf kv \<Rightarrow> (unit result \<times> 'bf kv) option" where
  "ensure_room_for_write kv =
     (if mem_size (must_mt kv) < ucast (opt_max_table_size (kv_opt kv)) then Some (Inr (), kv)
      else do {
        empty \<leftarrow> sl_empty (must_mt kv);
        if empty then None
        else if length (kv_flush_chan kv) \<ge> opt_num_mem_tables (kv_opt kv)
        then Some (Inl (Unexpected ''No room for write''), kv)
        else do {
          let task = \<lparr>ft_mt = Some (sm_mt (kv_mem kv)), ft_vptr = must_vptr kv\<rparr>;
          let kv = kv\<lparr>kv_flush_chan := kv_flush_chan kv @ [task]\<rparr>;
          r \<leftarrow> vl_sync (kv_vlog kv);
          (case r of
             Inl e \<Rightarrow> Some (Inl e, kv)
           | Inr u \<Rightarrow> do {
               mem \<leftarrow> swap_st (kv_opt kv) (kv_mem kv);
               Some (Inr (), kv\<lparr>kv_mem := mem\<rparr>) }) } })"

partial_function (option) wait_for_room :: "('bf kv \<Rightarrow> 'bf kv option) \<Rightarrow> 'bf kv \<Rightarrow> 'bf kv option" where
  "wait_for_room wait kv = do {
     (r, kv) \<leftarrow> ensure_room_for_write kv;
     (case r of
        Inr u \<Rightarrow> Some kv
      | Inl e \<Rightarrow> do {
          kv \<leftarrow> wait kv;
          wait_for_room wait kv }) }"

text \<open>Counters are given out before anything is written.\<close>

fun assign_counters :: "entry list list \<Rightarrow> 'bf kv \<Rightarrow> entry list list \<times> 'bf kv" where
  "assign_counters [] kv = ([], kv)"
| "assign_counters (req # reqs) kv =
     (let (base, kv) = new_cas_counter kv (of_nat (length req));
          (reqs, kv) = assign_counters reqs kv
      in (map2 (\<lambda>i e. e\<lparr>en_cas_counter := base + of_nat i\<rparr>) [0..<length req] req # reqs, kv))"

fun write_reqs_to_lsm ::
  "'bf kv_env \<Rightarrow> ('bf kv \<Rightarrow> 'bf kv option) \<Rightarrow> (nat \<Rightarrow> nat \<Rightarrow> nat \<Rightarrow> u32) \<Rightarrow> entry list list \<Rightarrow> value_pointer option list list \<Rightarrow> 'bf kv
     \<Rightarrow> (unit result list list \<times> 'bf kv) option" where
  "write_reqs_to_lsm env wait rnds [] [] kv = Some ([], kv)"
| "write_reqs_to_lsm env wait rnds (req # reqs) (ptrs # ptrss) kv = do {
     (r, kv) \<leftarrow>
       (if req = [] then Some ([], kv)
        else do {
          kv \<leftarrow> wait_for_room wait kv;
          let kv = update_offset ptrs kv;
          write_to_lsm env (rnds (length reqs)) req ptrs kv });
     (rs, kv) \<leftarrow> write_reqs_to_lsm env wait rnds reqs ptrss kv;
     Some (r # rs, kv) }"
| "write_reqs_to_lsm env wait rnds reqs ptrss kv = None"

text \<open>An error of the value log is answered to every entry, and the writing task stops.\<close>

definition write_requests ::
  "'bf kv_env \<Rightarrow> ('bf kv \<Rightarrow> 'bf kv option) \<Rightarrow> (nat \<Rightarrow> nat \<Rightarrow> nat \<Rightarrow> u32) \<Rightarrow> entry list list \<Rightarrow> 'bf kv
     \<Rightarrow> (unit result list list \<times> 'bf kv) option" where
  "write_requests env wait rnds reqs kv =
     (if reqs = [] then Some ([], kv)
      else do {
        let (reqs, kv) = assign_counters reqs kv;
        (r, vlog, disk) \<leftarrow> vl_write (ke_vl env) reqs (kv_vlog kv) (kv_disk kv);
        let kv = kv\<lparr>kv_vlog := vlog, kv_disk := disk\<rparr>;
        (case r of
           Inl err \<Rightarrow> None
         | Inr ptrss \<Rightarrow> write_reqs_to_lsm env wait rnds reqs ptrss kv) })"

text \<open>
  \<open>batch_set\<close>: entries that are too big are answered with an error, the others are packed into
  requests that are sent off as soon as they reach a limit. The requests carry the positions of
  their entries.
\<close>

definition entry_too_big :: "options \<Rightarrow> entry \<Rightarrow> error option" where
  "entry_too_big opt e =
     (if length (en_key e) > MAX_KEY_SIZE then Some (Unexpected ''Key too big'')
      else if length (en_value e) > unat (opt_value_log_file_size opt) then Some (Unexpected ''Value to big'')
      else None)"

fun pack_requests ::
  "options \<Rightarrow> nat \<Rightarrow> (nat \<times> entry) list \<Rightarrow> nat \<Rightarrow> nat \<Rightarrow> entry list \<Rightarrow> (nat \<times> entry) list list" where
  "pack_requests opt i req cnt sz [] = (if req = [] then [] else [req])"
| "pack_requests opt i req cnt sz (e # es) =
     (if entry_too_big opt e \<noteq> None then pack_requests opt (i + 1) req cnt sz es
      else
        let cnt = cnt + 1; sz = sz + estimate_size opt (en_key e) (en_value e); req = req @ [(i, e)]
        in if cnt \<ge> unat (opt_max_batch_count opt) \<or> sz \<ge> unat (opt_max_batch_size opt)
           then req # pack_requests opt (i + 1) [] 0 0 es
           else pack_requests opt (i + 1) req cnt sz es)"

text \<open>Each request is written by the writing task before the next one is sent.\<close>

fun send_requests ::
  "'bf kv_env \<Rightarrow> ('bf kv \<Rightarrow> 'bf kv option) \<Rightarrow> (nat \<Rightarrow> nat \<Rightarrow> nat \<Rightarrow> nat \<Rightarrow> u32) \<Rightarrow> (nat \<times> entry) list list \<Rightarrow> unit result list \<Rightarrow> 'bf kv
     \<Rightarrow> (unit result list \<times> 'bf kv) option" where
  "send_requests env wait rnds [] res kv = Some (res, kv)"
| "send_requests env wait rnds (req # reqs) res kv = do {
     (rs, kv) \<leftarrow> write_requests env wait (rnds (length reqs)) [map snd req] kv;
     let res = foldl (\<lambda>res (i, r). res[i := r]) res (zip (map fst req) (concat rs));
     send_requests env wait rnds reqs res kv }"

definition batch_set ::
  "'bf kv_env \<Rightarrow> ('bf kv \<Rightarrow> 'bf kv option) \<Rightarrow> (nat \<Rightarrow> nat \<Rightarrow> nat \<Rightarrow> nat \<Rightarrow> u32) \<Rightarrow> entry list \<Rightarrow> 'bf kv
     \<Rightarrow> (unit result list \<times> 'bf kv) option" where
  "batch_set env wait rnds es kv =
     send_requests env wait rnds (pack_requests (kv_opt kv) 0 [] 0 0 es)
       (map (\<lambda>e. case entry_too_big (kv_opt kv) e of Some err \<Rightarrow> Inl err | None \<Rightarrow> Inr ()) es) kv"

definition set_one ::
  "'bf kv_env \<Rightarrow> ('bf kv \<Rightarrow> 'bf kv option) \<Rightarrow> (nat \<Rightarrow> nat \<Rightarrow> nat \<Rightarrow> nat \<Rightarrow> u32) \<Rightarrow> entry \<Rightarrow> 'bf kv \<Rightarrow> (unit result \<times> 'bf kv) option" where
  "set_one env wait rnds e kv = do {
     (rs, kv) \<leftarrow> batch_set env wait rnds [e] kv;
     Some (rs ! 0, kv) }"

definition kv_set where
  "kv_set env wait rnds key v user_meta kv =
     set_one env wait rnds (entry_default\<lparr>en_key := key, en_value := v, en_user_meta := user_meta\<rparr>) kv"

definition kv_delete where
  "kv_delete env wait rnds key kv = set_one env wait rnds (entry_default\<lparr>en_key := key, en_meta := BIT_DELETE\<rparr>) kv"

definition compare_and_set where
  "compare_and_set env wait rnds key v cas_counter kv =
     set_one env wait rnds (entry_default\<lparr>en_key := key, en_value := v, en_cas_counter_check := cas_counter\<rparr>) kv"

text \<open>\<open>compare_and_delete\<close> does not mark its entry as a deletion.\<close>

definition compare_and_delete where
  "compare_and_delete env wait rnds key cas_counter kv =
     set_one env wait rnds (entry_default\<lparr>en_key := key, en_cas_counter_check := cas_counter\<rparr>) kv"

definition set_if_ab_sent where
  "set_if_ab_sent env wait rnds key v user_meta kv = do {
     (r, kv) \<leftarrow> kv_exists env kv key;
     (case r of
        Inl e \<Rightarrow> Some (Inl e, kv)
      | Inr True \<Rightarrow> Some (Inl ValueKeyExists, kv)
      | Inr False \<Rightarrow> set_one env wait rnds (entry_default\<lparr>en_key := key, en_value := v, en_user_meta := user_meta,
                                                   en_meta := BIT_SET_IF_ABSENT\<rparr>) kv) }"

subsection \<open>Reading values\<close>

definition item_has_value :: "value_struct \<Rightarrow> bool" where
  "item_has_value vs \<longleftrightarrow> \<not> (vs_meta vs = 0 \<and> vs_value vs = []) \<and> vs_meta vs AND BIT_DELETE = 0"

definition yield_item_value :: "'bf kv \<Rightarrow> value_struct \<Rightarrow> bytes result option" where
  "yield_item_value kv vs =
     (if \<not> item_has_value vs then Some (Inr [])
      else if vs_meta vs AND BIT_VALUE_POINTER = 0 then Some (Inr (vs_value vs))
      else case vp_dec (vs_value vs) of
             Inl e \<Rightarrow> Some (Inl e)
           | Inr vptr \<Rightarrow> async_read (kv_vlog kv) vptr (kv_disk kv))"

definition kv_get :: "'bf kv_env \<Rightarrow> 'bf kv \<Rightarrow> bytes \<Rightarrow> (bytes result \<times> 'bf kv) option" where
  "kv_get env kv key = do {
     (r, kv) \<leftarrow> kv_get_vs env kv key;
     (case r of
        Inl e \<Rightarrow> Some (Inl e, kv)
      | Inr got \<Rightarrow>
          if vs_meta got = BIT_DELETE then Some (Inl NotFound, kv)
          else do {
            v \<leftarrow> yield_item_value kv got;
            Some (v, kv) }) }"

subsection \<open>Flushing a memtable\<close>

partial_function (option) write_level0_loop :: "cursor \<Rightarrow> builder \<Rightarrow> builder option" where
  "write_level0_loop cur b = do {
     (nx, cur) \<leftarrow> cu_next cur;
     (case nx of
        None \<Rightarrow> Some b
      | Some p \<Rightarrow> do {
          key \<leftarrow> cu_key cur;
          v \<leftarrow> cu_value cur;
          b \<leftarrow> builder_add b key v;
          write_level0_loop cur b }) }"

definition write_level0_table :: "'bf bloom \<Rightarrow> skip_list \<Rightarrow> string \<Rightarrow> disk \<Rightarrow> disk option" where
  "write_level0_table bl st f_name disk = do {
     b \<leftarrow> write_level0_loop (new_cursor st) builder_default;
     (bytes, b) \<leftarrow> builder_finish bl b;
     Some (disk(f_name \<mapsto> (case disk f_name of Some c \<Rightarrow> c | None \<Rightarrow> []) @ bytes)) }"

text \<open>
  One task of \<open>flush_mem_table\<close>. \<open>Inr False\<close> is the task that ends the loop. \<open>waitlc\<close> is what the
  compaction workers do while level 0 is full.
\<close>

definition flush_one ::
  "'bf kv_env \<Rightarrow> ('bf levels_controller \<Rightarrow> refs \<Rightarrow> disk \<Rightarrow> ('bf levels_controller \<times> refs \<times> disk) option)
     \<Rightarrow> u64 list \<Rightarrow> (nat \<Rightarrow> u32) \<Rightarrow> flush_task \<Rightarrow> 'bf kv \<Rightarrow> (bool result \<times> 'bf kv) option" where
  "flush_one env waitlc order rnd task kv =
     (case ft_mt task of
        None \<Rightarrow> Some (Inr False, kv)
      | Some mt \<Rightarrow> do {
          mem \<leftarrow>
            (if vp_is_zero (ft_vptr task) then Some (kv_mem kv)
             else mt_put HEAD_KEY (vs_new (vp_enc (ft_vptr task)) 0 0 (kv_last_used_cas_counter kv)) rnd mt (kv_mem kv));
          let (fid, lc) = reserve_file_id (kv_lc kv);
          let kv = kv\<lparr>kv_mem := mem, kv_lc := lc\<rparr>;
          let f_name = new_file_name fid (opt_dir (kv_opt kv));
          disk \<leftarrow> write_level0_table (ke_bl env) (sm_lists mem mt) f_name (kv_disk kv);
          let kv = kv\<lparr>kv_disk := disk\<rparr>;
          tc \<leftarrow> open_table (ke_bl env) (the (disk f_name)) f_name;
          (case tc of
             Inl e \<Rightarrow> Some (Inl e, kv)
           | Inr tb \<Rightarrow> do {
               (r, lc, refs, disk) \<leftarrow>
                 add_level0_table waitlc (ke_pb env) order tb (kv_lc kv) ((kv_refs kv)(tb_id tb := 1)) (kv_disk kv);
               let kv = kv\<lparr>kv_lc := lc, kv_refs := refs, kv_disk := disk\<rparr>;
               (case r of
                  Inl e \<Rightarrow> Some (Inl e, kv)
                | Inr u \<Rightarrow> do {
                    let kv = kv\<lparr>kv_refs := ref_decr (kv_refs kv) (tb_id tb)\<rparr>;
                    mem \<leftarrow> advance_imm (kv_mem kv);
                    let mem = mem\<lparr>sm_lists := (sm_lists mem)(mt := decr_ref (sm_lists mem mt))\<rparr>;
                    Some (Inr True, kv\<lparr>kv_mem := mem\<rparr>) }) }) })"

text \<open>Receiving a task and running it.\<close>

definition flush_mem_table ::
  "'bf kv_env \<Rightarrow> ('bf levels_controller \<Rightarrow> refs \<Rightarrow> disk \<Rightarrow> ('bf levels_controller \<times> refs \<times> disk) option)
     \<Rightarrow> u64 list \<Rightarrow> (nat \<Rightarrow> u32) \<Rightarrow> 'bf kv \<Rightarrow> (bool result \<times> 'bf kv) option" where
  "flush_mem_table env waitlc order rnd kv =
     (case kv_flush_chan kv of
        [] \<Rightarrow> Some (Inr True, kv)
      | task # tasks \<Rightarrow> flush_one env waitlc order rnd task (kv\<lparr>kv_flush_chan := tasks\<rparr>))"

end
