(* ===== verification/Kv_Iterator.thy ===== *)
theory Kv_Iterator
  imports Kv
begin

section \<open>Iterating over the store\<close>

text \<open>
  Models \<open>src/src/iterator.rs\<close> and \<open>KV::new_iterator\<close>. An iterator holds a merge of all memtables and
  tables, the current item and the queue of items fetched ahead. The task that fetches the value of
  an item ahead is run when it is spawned: every reader of the item waits for it. \<open>None\<close>
  stands for a panic and for a run that does not return.
\<close>

subsection \<open>Items\<close>

datatype pre_fetch_status = FetchEmpty | Prefetched

record kv_item =
  ki_status :: pre_fetch_status
  ki_key :: bytes
  ki_vptr :: bytes
  ki_value :: bytes
  ki_meta :: byte
  ki_user_meta :: byte
  ki_cas_counter :: u64

definition new_item :: kv_item where
  "new_item = \<lparr>ki_status = FetchEmpty, ki_key = [], ki_vptr = [], ki_value = [], ki_meta = 0, ki_user_meta = 0, ki_cas_counter = 0\<rparr>"

text \<open>\<open>KVItemInner::new\<close>.\<close>

definition item_new :: "bytes \<Rightarrow> value_struct \<Rightarrow> kv_item" where
  "item_new key v = \<lparr>ki_status = FetchEmpty, ki_key = key, ki_vptr = vs_value v, ki_value = [], ki_meta = vs_meta v,
     ki_user_meta = vs_user_meta v, ki_cas_counter = vs_cas_counter v\<rparr>"

definition item_vs :: "kv_item \<Rightarrow> value_struct" where
  "item_vs item = vs_new (ki_vptr item) (ki_meta item) (ki_user_meta item) (ki_cas_counter item)"

text \<open>\<open>value\<close> with the consumer of \<open>get_value\<close>, which hands the bytes on.\<close>

definition item_get_value :: "'bf kv \<Rightarrow> kv_item \<Rightarrow> bytes result option" where
  "item_get_value kv item =
     (if ki_status item = Prefetched then Some (Inr (ki_value item)) else yield_item_value kv (item_vs item))"

text \<open>An error leaves the item as it was: it is logged and the value is read again on demand.\<close>

definition pre_fetch_value :: "'bf kv \<Rightarrow> kv_item \<Rightarrow> kv_item option" where
  "pre_fetch_value kv item = do {
     r \<leftarrow> yield_item_value kv (item_vs item);
     Some (case r of
             Inl e \<Rightarrow> item
           | Inr v \<Rightarrow> if v = [] then item\<lparr>ki_status := Prefetched\<rparr> else item\<lparr>ki_status := Prefetched, ki_value := v\<rparr>) }"

definition estimated_size :: "kv_item \<Rightarrow> u64 option" where
  "estimated_size item =
     (if \<not> item_has_value (item_vs item) then Some 0
      else if ki_meta item AND BIT_VALUE_POINTER = 0 then Some (of_nat (length (ki_key item) + length (ki_vptr item)))
      else case vp_dec (ki_vptr item) of Inl e \<Rightarrow> None | Inr vpt \<Rightarrow> Some (ucast (vp_len vpt)))"

subsection \<open>IteratorExt\<close>

record iterator_options =
  io_pre_fetch_values :: bool
  io_pre_fetch_size :: int
  io_reverse :: bool

definition DEF_ITERATOR_OPTIONS :: iterator_options where
  "DEF_ITERATOR_OPTIONS = \<lparr>io_pre_fetch_values = True, io_pre_fetch_size = 100, io_reverse = False\<rparr>"

record 'bf iterator_ext =
  ie_itr :: "'bf any_iter merge_iterator"
  ie_opt :: iterator_options
  ie_item :: "kv_item option"
  ie_data :: "kv_item list"

definition ie_new :: "'bf any_iter merge_iterator \<Rightarrow> iterator_options \<Rightarrow> 'bf iterator_ext" where
  "ie_new itr opt = \<lparr>ie_itr = itr, ie_opt = opt, ie_item = None, ie_data = []\<rparr>"

text \<open>\<open>new_item\<close> and \<open>fill\<close> with the pair the merge iterator stands on.\<close>

definition fill :: "'bf kv \<Rightarrow> 'bf iterator_ext \<Rightarrow> kv_item \<Rightarrow> kv_item option" where
  "fill kv ie item = do {
     (key, vs) \<leftarrow> mi_peek (ie_itr ie);
     let item = item\<lparr>ki_meta := vs_meta vs, ki_user_meta := vs_user_meta vs, ki_cas_counter := vs_cas_counter vs,
                     ki_key := ki_key item @ key, ki_vptr := ki_vptr item @ vs_value vs, ki_value := []\<rparr>;
     if io_pre_fetch_values (ie_opt ie) then pre_fetch_value kv item else Some item }"

definition itr_next :: "'bf iterator_ext \<Rightarrow> (item option \<times> 'bf iterator_ext) option" where
  "itr_next ie = do {
     (r, itr) \<leftarrow> merge_next any_ops (ie_itr ie);
     Some (r, ie\<lparr>ie_itr := itr\<rparr>) }"

text \<open>The first item that is fetched becomes the current one if there is none.\<close>

definition keep_item :: "kv_item \<Rightarrow> 'bf iterator_ext \<Rightarrow> 'bf iterator_ext" where
  "keep_item xitem ie = (if ie_item ie = None then ie\<lparr>ie_item := Some xitem\<rparr> else ie\<lparr>ie_data := ie_data ie @ [xitem]\<rparr>)"

partial_function (option) pre_fetch_loop :: "'bf kv \<Rightarrow> int \<Rightarrow> int \<Rightarrow> 'bf iterator_ext \<Rightarrow> 'bf iterator_ext option" where
  "pre_fetch_loop kv sz cnt ie =
     (case mi_peek (ie_itr ie) of
        None \<Rightarrow> Some ie
      | Some item \<Rightarrow>
          if starts_with (fst item) BADGER_PREFIX \<or> vs_meta (snd item) AND BIT_DELETE \<noteq> 0 then do {
            (_, ie) \<leftarrow> itr_next ie;
            pre_fetch_loop kv sz cnt ie }
          else do {
            xitem \<leftarrow> fill kv ie new_item;
            let ie = keep_item xitem ie;
            if cnt + 1 = sz then Some ie
            else do {
              (_, ie) \<leftarrow> itr_next ie;
              pre_fetch_loop kv sz (cnt + 1) ie } })"

definition pre_fetch :: "'bf kv \<Rightarrow> 'bf iterator_ext \<Rightarrow> 'bf iterator_ext option" where
  "pre_fetch kv ie =
     (let sz = (if io_pre_fetch_values (ie_opt ie) \<and> io_pre_fetch_size (ie_opt ie) > 1 then io_pre_fetch_size (ie_opt ie) else 2)
      in pre_fetch_loop kv sz 0 ie)"

text \<open>\<open>seek\<close> seeks again as long as it lands on a key of the database itself.\<close>

partial_function (option) seek_loop :: "bytes \<Rightarrow> 'bf iterator_ext \<Rightarrow> 'bf iterator_ext option" where
  "seek_loop key ie = do {
     (r, itr) \<leftarrow> merge_seek any_ops (ie_itr ie) key;
     let ie = ie\<lparr>ie_itr := itr\<rparr>;
     (case r of
        None \<Rightarrow> Some ie
      | Some el \<Rightarrow> if starts_with (fst el) BADGER_PREFIX then seek_loop key ie else Some ie) }"

definition ie_seek :: "'bf kv \<Rightarrow> bytes \<Rightarrow> 'bf iterator_ext \<Rightarrow> (kv_item option \<times> 'bf iterator_ext) option" where
  "ie_seek kv key ie = do {
     let ie = ie\<lparr>ie_data := []\<rparr>;
     ie \<leftarrow> seek_loop key ie;
     ie \<leftarrow> pre_fetch kv ie;
     Some (ie_item ie, ie) }"

partial_function (option) skip_internal :: "item option \<Rightarrow> 'bf iterator_ext \<Rightarrow> 'bf iterator_ext option" where
  "skip_internal item ie =
     (case item of
        None \<Rightarrow> Some ie
      | Some el \<Rightarrow>
          if starts_with (fst el) BADGER_PREFIX then do {
            (item, ie) \<leftarrow> itr_next ie;
            skip_internal item ie }
          else Some ie)"

definition ie_rewind :: "'bf kv \<Rightarrow> 'bf iterator_ext \<Rightarrow> (kv_item option \<times> 'bf iterator_ext) option" where
  "ie_rewind kv ie = do {
     let ie = ie\<lparr>ie_data := []\<rparr>;
     (item, itr) \<leftarrow> merge_rewind any_ops (ie_itr ie);
     ie \<leftarrow> skip_internal item (ie\<lparr>ie_itr := itr\<rparr>);
     let ie = ie\<lparr>ie_item := None\<rparr>;
     ie \<leftarrow> pre_fetch kv ie;
     Some (ie_item ie, ie) }"

text \<open>The loop of \<open>next\<close> that moves the merge to the next live pair.\<close>

partial_function (option) next_live :: "'bf iterator_ext \<Rightarrow> 'bf iterator_ext option" where
  "next_live ie = do {
     (r, ie) \<leftarrow> itr_next ie;
     (case r of
        None \<Rightarrow> Some ie
      | Some el \<Rightarrow>
          if starts_with (fst el) BADGER_PREFIX then next_live ie
          else if vs_meta (snd el) AND BIT_DELETE = 0 then Some ie
          else next_live ie) }"

definition ie_next :: "'bf kv \<Rightarrow> 'bf iterator_ext \<Rightarrow> (kv_item option \<times> 'bf iterator_ext) option" where
  "ie_next kv ie = do {
     let ie = ie\<lparr>ie_item := None\<rparr>;
     let ie = (case ie_data ie of [] \<Rightarrow> ie | el # els \<Rightarrow> ie\<lparr>ie_item := Some el, ie_data := els\<rparr>);
     ie \<leftarrow> next_live ie;
     if mi_peek (ie_itr ie) = None then Some (None, ie)
     else do {
       xitem \<leftarrow> fill kv ie new_item;
       Some (Some xitem, ie\<lparr>ie_data := ie_data ie @ [xitem]\<rparr>) } }"

definition ie_peek :: "'bf iterator_ext \<Rightarrow> kv_item option" where
  "ie_peek ie = ie_item ie"

definition ie_valid :: "'bf iterator_ext \<Rightarrow> bool" where
  "ie_valid ie \<longleftrightarrow> ie_item ie \<noteq> None"

definition valid_for_prefix :: "bytes \<Rightarrow> 'bf iterator_ext \<Rightarrow> bool" where
  "valid_for_prefix prefix ie \<longleftrightarrow> (case ie_item ie of None \<Rightarrow> False | Some item \<Rightarrow> starts_with (ki_key item) prefix)"

definition ie_close :: "'bf kv \<Rightarrow> (unit result \<times> 'bf kv) option" where
  "ie_close kv = do {
     (r, vl, disk) \<leftarrow> decr_iterator_count (kv_vlog kv) (kv_disk kv);
     Some (r, kv\<lparr>kv_vlog := vl, kv_disk := disk\<rparr>) }"

text \<open>
  \<open>new_iterator\<close>: the sources are opened in the direction that is asked for; the merge is built
  without it. Each iterator of a table takes a reference on the table.
\<close>

definition new_iterator :: "'bf kv \<Rightarrow> iterator_options \<Rightarrow> 'bf iterator_ext \<times> 'bf kv" where
  "new_iterator kv opt =
     (let itrs = map (\<lambda>st. AnyUni (ui_new st (io_reverse opt))) (get_mem_tables kv) @ lc_as_iterator (kv_lc kv) (io_reverse opt);
          refs = foldl (\<lambda>r t. ref_incr r (tb_id t)) (kv_refs kv) (concat (map lh_tables (lc_levels (kv_lc kv))))
      in (ie_new (mb_build (mb_add_batch mb_default itrs)) opt, kv\<lparr>kv_vlog := incr_iterator_count (kv_vlog kv), kv_refs := refs\<rparr>))"

subsection \<open>Backup\<close>

text \<open>
  \<open>KV::backup\<close> with \<open>src/src/backup.rs\<close>. The protobuf encoding of a pair is the argument \<open>enc\<close>; the
  length in front of it is written with the lowest byte first.
\<close>

record kv_pair =
  kp_key :: bytes
  kp_value :: bytes
  kp_user_meta :: bytes

definition backup_write_to :: "(kv_pair \<Rightarrow> bytes) \<Rightarrow> kv_pair \<Rightarrow> bytes \<Rightarrow> bytes" where
  "backup_write_to enc e wt = (let buf = enc e in wt @ rev (enc_u64 (of_nat (length buf))) @ buf)"

partial_function (option) backup_loop ::
  "(kv_pair \<Rightarrow> bytes) \<Rightarrow> 'bf kv \<Rightarrow> 'bf iterator_ext \<Rightarrow> bytes \<Rightarrow> (unit result \<times> bytes) option" where
  "backup_loop enc kv ie wt =
     (case ie_peek ie of
        None \<Rightarrow> Some (Inr (), wt)
      | Some item \<Rightarrow> do {
          v \<leftarrow> item_get_value kv item;
          (case v of
             Inl e \<Rightarrow> Some (Inl e, wt)
           | Inr v \<Rightarrow> do {
               (_, ie) \<leftarrow> ie_next kv ie;
               backup_loop enc kv ie
                 (backup_write_to enc \<lparr>kp_key = ki_key item, kp_value = v, kp_user_meta = [ki_user_meta item]\<rparr> wt) }) })"

text \<open>The iterator is not closed.\<close>

definition kv_backup :: "(kv_pair \<Rightarrow> bytes) \<Rightarrow> 'bf kv \<Rightarrow> bytes \<Rightarrow> (unit result \<times> bytes \<times> 'bf kv) option" where
  "kv_backup enc kv wt = do {
     let (ie, kv) = new_iterator kv DEF_ITERATOR_OPTIONS;
     (_, ie) \<leftarrow> ie_rewind kv ie;
     (r, wt) \<leftarrow> backup_loop enc kv ie wt;
     Some (r, wt, kv) }"

subsection \<open>Reading everything\<close>

text \<open>The loop over an iterator as the documentation of \<open>KV\<close> writes it.\<close>

partial_function (option) scan_loop :: "'bf kv \<Rightarrow> 'bf iterator_ext \<Rightarrow> (bytes \<times> bytes result) list \<Rightarrow> (bytes \<times> bytes result) list option" where
  "scan_loop kv ie acc =
     (case ie_peek ie of
        None \<Rightarrow> Some acc
      | Some item \<Rightarrow> do {
          v \<leftarrow> item_get_value kv item;
          (_, ie) \<leftarrow> ie_next kv ie;
          scan_loop kv ie (acc @ [(ki_key item, v)]) })"

definition scan :: "'bf kv \<Rightarrow> iterator_options \<Rightarrow> (bytes \<times> bytes result) list option" where
  "scan kv opt = do {
     let (ie, kv) = new_iterator kv opt;
     (_, ie) \<leftarrow> ie_rewind kv ie;
     scan_loop kv ie [] }"

end
