(* ===== verification/Vlog_Correct.thy ===== *)
theory Vlog_Correct
  imports Vlog_Core
begin

section \<open>Properties of the value log\<close>

text \<open>
  The bytes of an entry and what decoding them gives; that a written value is read back through its
  pointer and stays readable; and what the routines that walk over a log file do with its entries.
\<close>

subsection \<open>The bytes of an entry\<close>

definition entry_prefix :: "entry \<Rightarrow> bytes" where
  "entry_prefix e = vh_enc (en_header e) @ replicate 6 0 @ en_key e @ en_value e"

definition entry_image :: "vl_env \<Rightarrow> entry \<Rightarrow> bytes" where
  "entry_image env e = entry_prefix e @ enc_u32 (ve_crc32 env (entry_prefix e))"

definition entry_small :: "entry \<Rightarrow> bool" where
  "entry_small e \<longleftrightarrow> length (en_key e) + length (en_value e) + 36 < 2 ^ 32"

lemma vh_enc_length [simp]: "length (vh_enc h) = 26"
  by (simp add: vh_enc_def)

lemma vh_dec_enc [simp]: "vh_dec (vh_enc h @ r) = Some (h, r)"
  by (simp add: vh_dec_def vh_enc_def)

lemma entry_image_length: "length (entry_image env e) = 36 + length (en_key e) + length (en_value e)"
  by (simp add: entry_image_def entry_prefix_def)

lemma buf_write_append:
  "length a = start \<Longrightarrow> length b = length xs \<Longrightarrow> buf_write (a @ b @ c) start xs = Some (a @ xs @ c)"
  by (simp add: buf_write_def)

lemma add_u32_small: "unat a + unat b < 2 ^ 32 \<Longrightarrow> add_u32 a b = Some (a + b)"
  by (simp add: add_u32_def)

lemma add_u32_nat: "m + n < 2 ^ 32 \<Longrightarrow> add_u32 (of_nat m) (of_nat n) = Some (of_nat (m + n))"
  by (simp add: add_u32_def)

lemma header_lens:
  assumes "entry_small e"
  shows "unat (vh_k_len (en_header e)) = length (en_key e)" and "unat (vh_v_len (en_header e)) = length (en_value e)"
  using assms by (simp_all add: entry_small_def en_header_def)

lemma entry_of_header_header: "entry_of_header (en_header e) (en_key e) (en_value e) off = e\<lparr>en_offset := off\<rparr>"
  by (simp add: entry_of_header_def en_header_def)

lemma entry_enc_image:
  assumes "entry_small e"
  shows "entry_enc env e = Some (entry_image env e)"
proof -
  let ?k = "length (en_key e)" and ?v = "length (en_value e)" and ?h = "en_header e"
  have lens: "?k + ?v + 4 < 2 ^ 32" using assms by (simp add: entry_small_def)
  have kv: "add_u32 (vh_k_len ?h) (vh_v_len ?h) = Some (of_nat (?k + ?v))"
    using add_u32_nat [of ?k ?v] lens by (simp add: en_header_def)
  have kv4: "add_u32 (of_nat (?k + ?v)) 4 = Some (of_nat (?k + ?v + 4))"
    using add_u32_nat [of "?k + ?v" 4] lens by simp
  have n: "unat (of_nat (?k + ?v + 4) :: u32) = ?k + ?v + 4" using lens by (simp add: unat_of_nat_u32 del: of_nat_add)
  let ?z = "\<lambda>n. replicate n (0 :: byte)"
  have zeros: "?z (32 + (?k + ?v + 4)) = ?z 26 @ (?z 6 @ ?z ?k @ ?z ?v @ ?z 4)"
    by (simp flip: replicate_add)
  have w1: "buf_write (?z (32 + (?k + ?v + 4))) 0 (vh_enc ?h) = Some (vh_enc ?h @ ?z 6 @ ?z ?k @ ?z ?v @ ?z 4)"
    unfolding zeros using buf_write_append [of "[]" 0 "?z 26" "vh_enc ?h"] by simp
  have w2: "buf_write (vh_enc ?h @ ?z 6 @ ?z ?k @ ?z ?v @ ?z 4) 32 (en_key e) = Some (vh_enc ?h @ ?z 6 @ en_key e @ ?z ?v @ ?z 4)"
    using buf_write_append [of "vh_enc ?h @ ?z 6" 32 "?z ?k" "en_key e"] by simp
  have w3: "buf_write (vh_enc ?h @ ?z 6 @ en_key e @ ?z ?v @ ?z 4) (32 + ?k) (en_value e) = Some (entry_prefix e @ ?z 4)"
    using buf_write_append [of "vh_enc ?h @ ?z 6 @ en_key e" "32 + ?k" "?z ?v" "en_value e" "?z 4"] by (simp add: entry_prefix_def)
  have len: "length (entry_prefix e) = 32 + ?k + ?v" by (simp add: entry_prefix_def)
  have w4: "buf_write (entry_prefix e @ ?z 4) (32 + ?k + ?v) (enc_u32 c) = Some (entry_prefix e @ enc_u32 c)" for c
    using buf_write_append [of "entry_prefix e" "32 + ?k + ?v" "?z 4" "enc_u32 c" "[]"] len by simp
  have "slice (entry_prefix e @ ?z 4) 0 (32 + ?k + ?v) = Some (entry_prefix e)"
    using slice_prefix [of "entry_prefix e" "?z 4"] len by simp
  then show ?thesis
    unfolding entry_enc_def Let_def vh_encoded_size_def kv Option.bind.bind_lunit kv4 n w1 w2 header_lens [OF assms] w3 entry_image_def
    by (simp add: w4)
qed

text \<open>
  An entry survives its encoding. An entry whose key and value together stay below 4 GiB is encoded without a panic into
  36 bytes more than the key and the value have, and decoding these bytes, whatever follows them,
  gives back every field but the offset, which the encoding does not hold.
\<close>

lemma log_entry_roundtrip:
  assumes "entry_small e"
  shows "\<exists>bs. entry_enc env e = Some bs \<and> length bs = 36 + length (en_key e) + length (en_value e)
    \<and> entry_dec e0 (bs @ rest) = Some (Inr (e\<lparr>en_offset := en_offset e0\<rparr>))"
proof -
  have head: "length (vh_enc (en_header e) @ replicate 6 0) = 32" by simp
  have "entry_image env e @ rest = (vh_enc (en_header e) @ replicate 6 0) @ en_key e @ en_value e
      @ enc_u32 (ve_crc32 env (entry_prefix e)) @ rest"
    by (simp add: entry_image_def entry_prefix_def)
  then have "entry_dec e0 (entry_image env e @ rest) = Some (Inr (e\<lparr>en_offset := en_offset e0\<rparr>))"
    unfolding entry_dec_def vh_encoded_size_def
    by (simp only: read_exact_append [where n = 32, OF head]) (simp add: header_lens [OF assms] entry_of_header_header)
  then show ?thesis using entry_enc_image [OF assms] by (simp add: entry_image_length)
qed

subsection \<open>Written values are read back\<close>

text \<open>Which entries go to the log, and the bytes a batch appends.\<close>

definition logged :: "options \<Rightarrow> entry \<Rightarrow> bool" where
  "logged opt e \<longleftrightarrow> opt_sync_writes opt \<or> opt_value_threshold opt \<le> length (en_value e)"

definition batch_image :: "vl_env \<Rightarrow> options \<Rightarrow> entry list \<Rightarrow> bytes" where
  "batch_image env opt es = concat (map (entry_image env) (filter (logged opt) es))"

text \<open>A pointer to an entry in a buffer that is written at \<open>base\<close>.\<close>

definition points :: "vl_env \<Rightarrow> u32 \<Rightarrow> nat \<Rightarrow> bytes \<Rightarrow> value_pointer \<Rightarrow> entry \<Rightarrow> bool" where
  "points env fid base buf p e \<longleftrightarrow> (\<exists>pre post. buf = pre @ entry_image env e @ post
     \<and> p = \<lparr>vp_fid = fid, vp_len = of_nat (length (entry_image env e)), vp_offset = of_nat (base + length pre)\<rparr>)"

definition pointer_ok :: "vl_env \<Rightarrow> options \<Rightarrow> u32 \<Rightarrow> nat \<Rightarrow> bytes \<Rightarrow> entry \<Rightarrow> value_pointer option \<Rightarrow> bool" where
  "pointer_ok env opt fid base buf e p \<longleftrightarrow>
     (if logged opt e then \<exists>q. p = Some q \<and> points env fid base buf q e else p = None)"

lemma batch_image_simps [simp]:
  "batch_image env opt [] = []"
  "batch_image env opt (e # es) = (if logged opt e then entry_image env e @ batch_image env opt es else batch_image env opt es)"
  "batch_image env opt (es @ es') = batch_image env opt es @ batch_image env opt es'"
  by (simp_all add: batch_image_def)

lemma pointer_ok_append: "pointer_ok env opt fid base buf e p \<Longrightarrow> pointer_ok env opt fid base (buf @ buf2) e p"
  by (fastforce simp: pointer_ok_def points_def split: if_splits)

lemma write_entries_points:
  assumes "\<forall>e\<in>set es. entry_small e" and "base + length buf + length (batch_image env opt es) < 2 ^ 32"
  shows "\<exists>ptrs. write_entries env opt fid (of_nat base) es buf = Some (ptrs, buf @ batch_image env opt es)
    \<and> list_all2 (pointer_ok env opt fid base (buf @ batch_image env opt es)) es ptrs"
  using assms
proof (induction es arbitrary: buf)
  case (Cons e es)
  show ?case
  proof (cases "logged opt e")
    case False
    then obtain ptrs where "write_entries env opt fid (of_nat base) es buf = Some (ptrs, buf @ batch_image env opt es)"
      "list_all2 (pointer_ok env opt fid base (buf @ batch_image env opt es)) es ptrs"
      using Cons.IH [of buf] Cons.prems by auto
    moreover have "pointer_ok env opt fid base (buf @ batch_image env opt es) e None" using False by (simp add: pointer_ok_def)
    ultimately show ?thesis using False by (simp add: logged_def)
  next
    case True
    let ?b = "entry_image env e"
    have len: "base + length buf + length ?b < 2 ^ 32" using Cons.prems(2) True by simp
    obtain ptrs where w: "write_entries env opt fid (of_nat base) es (buf @ ?b) = Some (ptrs, (buf @ ?b) @ batch_image env opt es)"
      "list_all2 (pointer_ok env opt fid base ((buf @ ?b) @ batch_image env opt es)) es ptrs"
      using Cons.IH [of "buf @ ?b"] Cons.prems True by auto
    have off: "add_u32 (of_nat base) (of_nat (length buf)) = Some (of_nat (base + length buf))"
      using add_u32_nat len by simp
    have un: "unat (of_nat (base + length buf) :: u32) = base + length buf" "unat (of_nat base :: u32) = base"
      using len by (simp_all add: unat_of_nat_u32 del: of_nat_add)
    let ?p = "\<lparr>vp_fid = fid, vp_len = of_nat (length ?b), vp_offset = of_nat (base + length buf)\<rparr> :: value_pointer"
    have "points env fid base (buf @ ?b @ batch_image env opt es) ?p e" unfolding points_def by blast
    with True have "pointer_ok env opt fid base (buf @ ?b @ batch_image env opt es) e (Some ?p)" by (simp add: pointer_ok_def)
    moreover have "write_entries env opt fid (of_nat base) (e # es) buf = Some (Some ?p # ptrs, buf @ ?b @ batch_image env opt es)"
      using True w(1) off un entry_enc_image [of e env] Cons.prems(1) by (auto simp: logged_def)
    ultimately show ?thesis
      using w(2) True by (intro exI [of _ "Some ?p # ptrs"]) (simp del: write_entries.simps)
  qed
qed simp

lemma write_reqs_points:
  assumes "\<forall>e\<in>set (concat reqs). entry_small e" and "base + length buf + length (batch_image env opt (concat reqs)) < 2 ^ 32"
  shows "\<exists>ptrs. write_reqs env opt fid (of_nat base) reqs buf = Some (ptrs, buf @ batch_image env opt (concat reqs))
    \<and> list_all2 (list_all2 (pointer_ok env opt fid base (buf @ batch_image env opt (concat reqs)))) reqs ptrs"
  using assms
proof (induction reqs arbitrary: buf)
  case (Cons es reqs)
  let ?b = "buf @ batch_image env opt es"
  obtain p where p: "write_entries env opt fid (of_nat base) es buf = Some (p, ?b)" "list_all2 (pointer_ok env opt fid base ?b) es p"
    using write_entries_points [of es base buf env opt fid] Cons.prems by auto
  obtain ptrs where "write_reqs env opt fid (of_nat base) reqs ?b = Some (ptrs, ?b @ batch_image env opt (concat reqs))"
    "list_all2 (list_all2 (pointer_ok env opt fid base (?b @ batch_image env opt (concat reqs)))) reqs ptrs"
    using Cons.IH [of ?b] Cons.prems by auto
  moreover have "list_all2 (pointer_ok env opt fid base (?b @ batch_image env opt (concat reqs))) es p"
    using p(2) pointer_ok_append by (fastforce simp: list_all2_conv_all_nth)
  ultimately show ?case using p(1) by simp
qed simp

text \<open>The value behind a pointer to an entry in a mapped file.\<close>

definition entry_value :: "entry \<Rightarrow> bytes" where
  "entry_value e = (if en_meta e AND BIT_DELETE \<noteq> 0 then [] else en_value e)"

lemma read_pointed:
  assumes p: "points env fid base buf p e" and lf: "pick_log_by_vlog_id vl fid = Some lf" "lf_mmap lf \<noteq> None"
    and m: "disk (lf_path lf) = Some m" "m = take base m @ buf @ rest" and len: "base \<le> length m" "base + length buf < 2 ^ 32"
    and e: "entry_small e"
  shows "async_read_bytes vl p disk = Some (Inr (entry_value e))"
proof -
  from p obtain pre post where b: "buf = pre @ entry_image env e @ post"
    and q: "p = \<lparr>vp_fid = fid, vp_len = of_nat (length (entry_image env e)), vp_offset = of_nat (base + length pre)\<rparr>"
    unfolding points_def by blast
  let ?a = "take base m @ pre" and ?i = "entry_image env e"
  have split: "m = ?a @ ?i @ post @ rest" using m(2) b by simp
  have a: "length ?a = base + length pre" using len(1) by simp
  have total: "base + length pre + length ?i < 2 ^ 32" using len(2) b by simp
  have "add_u32 (vp_offset p) (vp_len p) = Some (of_nat (base + length pre + length ?i))"
    using add_u32_nat [OF total] by (simp add: q)
  moreover have "slice m (base + length pre) (base + length pre + length ?i) = Some ?i"
    using slice_append_mid [of ?a ?i "post @ rest"] split a by metis
  moreover have "unat (of_nat (base + length pre + length ?i) :: u32) = base + length pre + length ?i"
    "unat (vp_offset p) = base + length pre"
    using total by (simp_all add: q unat_of_nat_u32 del: of_nat_add)
  ultimately have read: "lf_read lf p disk = Some ?i"
    using lf(2) m(1) by (auto simp: lf_read_def mmap_slice_def)
  have img: "?i = (vh_enc (en_header e) @ replicate 6 0) @ en_key e @ en_value e @ enc_u32 (ve_crc32 env (entry_prefix e))"
    by (simp add: entry_image_def entry_prefix_def)
  have s1: "slice ?i 0 32 = Some (vh_enc (en_header e) @ replicate 6 0)"
    using slice_prefix [of "vh_enc (en_header e) @ replicate 6 0"] unfolding img by simp
  have s2: "slice ?i (32 + length (en_key e)) (32 + length (en_key e) + length (en_value e)) = Some (en_value e)"
    using slice_append_mid [of "(vh_enc (en_header e) @ replicate 6 0) @ en_key e" "en_value e"] unfolding img by simp
  show ?thesis
    using lf(1) read s1 s2 header_lens [OF e]
    by (simp add: async_read_bytes_def q vh_encoded_size_def entry_value_def en_header_def)
qed

text \<open>The log can be written to: its current file \<open>cur\<close> with the bytes \<open>m\<close> is mapped for writing.\<close>

definition vl_ready :: "value_log \<Rightarrow> disk \<Rightarrow> log_file \<Rightarrow> bytes \<Rightarrow> bool" where
  "vl_ready vl disk cur m \<longleftrightarrow> pick_log_by_vlog_id vl (vl_max_fid vl) = Some cur \<and> lf_fid cur = vl_max_fid vl
     \<and> lf_mmap cur = Some MmapMut \<and> disk (lf_path cur) = Some m \<and> vl_buf vl = []
     \<and> unat (vl_writable_log_offset vl) \<le> length m
     \<and> (\<forall>(fid, lf)\<in>set (vl_vlogs vl). fid \<noteq> vl_max_fid vl \<longrightarrow> lf_path lf \<noteq> lf_path cur)"

text \<open>A batch that fits into the file and does not fill it up.\<close>

definition batch_fits :: "vl_env \<Rightarrow> value_log \<Rightarrow> bytes \<Rightarrow> entry list \<Rightarrow> bool" where
  "batch_fits env vl m es \<longleftrightarrow> (\<forall>e\<in>set es. entry_small e)
     \<and> unat (vl_writable_log_offset vl) + length (batch_image env (vl_opt vl) es) \<le> length m
     \<and> unat (vl_writable_log_offset vl) + length (batch_image env (vl_opt vl) es)
         \<le> unat (ucast (opt_value_log_file_size (vl_opt vl)) :: u32)"

lemma append_to_log:
  fixes m :: bytes
  assumes "off \<le> length m" and "off + length b \<le> length m"
  shows "buf_write m off b = Some (take off m @ b @ drop (off + length b) m)"
    and "length (take off m @ b @ drop (off + length b) m) = length m"
  using assms by (simp_all add: buf_write_def)

lemma vl_write_ok:
  assumes r: "vl_ready vl disk cur m" and f: "batch_fits env vl m (concat reqs)"
  defines "off \<equiv> unat (vl_writable_log_offset vl)" and "b \<equiv> batch_image env (vl_opt vl) (concat reqs)"
  defines "vl' \<equiv> vl\<lparr>vl_writable_log_offset := of_nat (off + length b)\<rparr>"
    and "m' \<equiv> take off m @ b @ drop (off + length b) m"
  shows "\<exists>ptrs. vl_write env reqs vl disk = Some (Inr ptrs, vl', disk(lf_path cur \<mapsto> m'))
    \<and> list_all2 (list_all2 (pointer_ok env (vl_opt vl) (vl_max_fid vl) off b)) reqs ptrs"
    and "vl_ready vl' (disk(lf_path cur \<mapsto> m')) cur m'"
proof -
  have lim: "off + length b \<le> length m" "off + length b \<le> unat (ucast (opt_value_log_file_size (vl_opt vl)) :: u32)"
    and small: "\<forall>e\<in>set (concat reqs). entry_small e"
    using f by (simp_all add: batch_fits_def off_def b_def)
  have lt: "off + length b < 2 ^ 32" using lim(2) unat_lt_32 [of "ucast (opt_value_log_file_size (vl_opt vl))"] by simp
  have word: "vl_writable_log_offset vl = of_nat off" by (simp add: off_def)
  have un: "unat (of_nat (off + length b) :: u32) = off + length b" using lt by (simp add: unat_of_nat_u32 del: of_nat_add)
  obtain ptrs where p: "write_reqs env (vl_opt vl) (vl_max_fid vl) (of_nat off) reqs [] = Some (ptrs, b)"
    "list_all2 (list_all2 (pointer_ok env (vl_opt vl) (vl_max_fid vl) off b)) reqs ptrs"
    using write_reqs_points [OF small, of off "[]" env "vl_opt vl" "vl_max_fid vl"] lt by (auto simp: b_def)
  have cur: "pick_log_by_vlog_id vl (vl_max_fid vl) = Some cur" "lf_fid cur = vl_max_fid vl" "lf_mmap cur = Some MmapMut"
    "disk (lf_path cur) = Some m" "vl_buf vl = []" "off \<le> length m"
    using r by (simp_all add: vl_ready_def off_def)
  have m': "length m' = length m" "buf_write m off b = Some m'"
    using append_to_log [OF cur(6) lim(1)] by (simp_all add: m'_def)
  show "vl_ready vl' (disk(lf_path cur \<mapsto> m')) cur m'"
    using r m'(1) lim(1) un by (simp add: vl_ready_def vl'_def pick_log_by_vlog_id_def)
  have "vl_write env reqs vl disk = Some (Inr ptrs, vl', disk(lf_path cur \<mapsto> m'))"
  proof (cases "b = []")
    case True
    then have "vl' = vl" "disk(lf_path cur \<mapsto> m') = disk" using cur by (auto simp: vl'_def m'_def word fun_upd_idem)
    then show ?thesis using True p(1) cur by (simp add: vl_write_def word)
  next
    case False
    have "\<not> of_nat (off + length b) > (ucast (opt_value_log_file_size (vl_opt vl)) :: u32)"
      using lim(2) un by (simp add: word_less_nat_alt del: of_nat_add)
    then show ?thesis
      using False p(1) cur m'(2) lim(1) lt by (simp add: vl_write_def word write_buffer_def vl'_def Let_def)
  qed
  with p(2) show "\<exists>ptrs. vl_write env reqs vl disk = Some (Inr ptrs, vl', disk(lf_path cur \<mapsto> m'))
    \<and> list_all2 (list_all2 (pointer_ok env (vl_opt vl) (vl_max_fid vl) off b)) reqs ptrs" by blast
qed

text \<open>Pointers of the batch, and pointers to what was written before.\<close>

lemma read_new_pointer:
  assumes r: "vl_ready vl' disk' cur m'" and m': "m' = take base m' @ buf @ rest" and base: "base \<le> length m'"
    and off: "unat (vl_writable_log_offset vl') = base + length buf" and p: "points env (vl_max_fid vl') base buf p e"
    and e: "entry_small e"
  shows "async_read vl' p disk' = Some (Inr (entry_value e))"
proof -
  have lt: "base + length buf < 2 ^ 32" using off unat_lt_32 [of "vl_writable_log_offset vl'"] by simp
  from p obtain pre post where "buf = pre @ entry_image env e @ post" "vp_offset p = of_nat (base + length pre)" "vp_fid p = vl_max_fid vl'"
    unfolding points_def by auto
  moreover have "length (entry_image env e) > 0" by (simp add: entry_image_length)
  ultimately have "unat (vp_offset p) < unat (vl_writable_log_offset vl')"
    using lt off by (auto simp: unat_of_nat_u32 simp del: of_nat_add)
  moreover have "async_read_bytes vl' p disk' = Some (Inr (entry_value e))"
    using read_pointed [OF p, of vl' cur disk' m' rest] r m' base lt e by (simp add: vl_ready_def)
  ultimately show ?thesis by (simp add: async_read_def word_le_nat_alt)
qed

lemma slice_take_same:
  assumes "b \<le> n" and "n \<le> length xs" and "take n ys = take n xs"
  shows "slice ys a b = slice xs a b"
proof -
  have "n \<le> length ys" using arg_cong [OF assms(3), of length] assms(2) by simp
  moreover have "take (b - a) (drop a zs) = drop a (take b (take n zs))" for zs :: "'a list"
    using assms(1) by (simp add: drop_take min_absorb1)
  then have "take (b - a) (drop a ys) = take (b - a) (drop a xs)" using assms(3) by metis
  ultimately show ?thesis using assms(1,2) by (simp add: slice_def)
qed

lemma read_old_pointer:
  assumes r: "vl_ready vl disk cur m" and q: "vp_fid q = vl_max_fid vl \<longrightarrow> unat (vp_offset q) + unat (vp_len q) \<le> unat (vl_writable_log_offset vl)"
    and vl': "vl_vlogs vl' = vl_vlogs vl" "vl_max_fid vl' = vl_max_fid vl" "vl_writable_log_offset vl \<le> vl_writable_log_offset vl'"
    and m': "take (unat (vl_writable_log_offset vl)) m' = take (unat (vl_writable_log_offset vl)) m"
    and read: "async_read vl q disk = Some (Inr bs)"
  shows "async_read vl' q (disk(lf_path cur \<mapsto> m')) = Some (Inr bs)"
proof -
  let ?d = "disk(lf_path cur \<mapsto> m')"
  have ok: "\<not> (vp_fid q = vl_max_fid vl \<and> vp_offset q \<ge> vl_writable_log_offset vl)" and old: "async_read_bytes vl q disk = Some (Inr bs)"
    using read by (auto simp: async_read_def split: if_splits)
  then obtain lf where lf: "pick_log_by_vlog_id vl (vp_fid q) = Some lf" by (auto simp: async_read_bytes_def bind_eq_Some_conv)
  have same: "lf_read lf q ?d = lf_read lf q disk"
  proof (cases "vp_fid q = vl_max_fid vl")
    case True
    with r lf have c: "lf = cur" "disk (lf_path cur) = Some m" "lf_mmap cur = Some MmapMut" "unat (vl_writable_log_offset vl) \<le> length m"
      by (simp_all add: vl_ready_def)
    have "slice m' (unat (vp_offset q)) (unat u) = slice m (unat (vp_offset q)) (unat u)" if "add_u32 (vp_offset q) (vp_len q) = Some u" for u
    proof (rule slice_take_same [OF _ c(4) m'])
      show "unat u \<le> unat (vl_writable_log_offset vl)"
        using that q True by (auto simp: add_u32_def unat_word_ariths split: if_splits)
    qed
    then show ?thesis using c by (cases "add_u32 (vp_offset q) (vp_len q)") (auto simp: lf_read_def mmap_slice_def)
  next
    case False
    then have "lf_path lf \<noteq> lf_path cur"
      using r lf map_of_SomeD [of "vl_vlogs vl" "vp_fid q" lf] by (auto simp: vl_ready_def pick_log_by_vlog_id_def)
    then show ?thesis by (simp add: lf_read_def mmap_slice_def split: option.splits)
  qed
  have "async_read_bytes vl' q ?d = Some (Inr bs)"
    using old lf same vl'(1) by (simp add: async_read_bytes_def pick_log_by_vlog_id_def)
  then show ?thesis using ok vl'(2,3) by (auto simp: async_read_def)
qed

definition read_back :: "options \<Rightarrow> value_log \<Rightarrow> disk \<Rightarrow> entry \<Rightarrow> value_pointer option \<Rightarrow> bool" where
  "read_back opt vl disk e p \<longleftrightarrow> (if logged opt e
     then \<exists>q. p = Some q \<and> async_read vl q disk = Some (Inr (entry_value e))
        \<and> unat (vp_offset q) + unat (vp_len q) \<le> unat (vl_writable_log_offset vl)
     else p = None)"

lemma points_within:
  assumes "points env fid base buf q e" and "base + length buf < 2 ^ 32"
  shows "unat (vp_offset q) + unat (vp_len q) \<le> base + length buf"
  using assms by (auto simp: points_def unat_of_nat_u32 simp del: of_nat_add)

lemma vl_write_step:
  assumes "vl_ready vl disk cur m" and "batch_fits env vl m (concat reqs)"
  shows "\<exists>ptrs vl' disk' m'. vl_write env reqs vl disk = Some (Inr ptrs, vl', disk') \<and> vl_ready vl' disk' cur m'
    \<and> vl_opt vl' = vl_opt vl \<and> vl_max_fid vl' = vl_max_fid vl \<and> vl_writable_log_offset vl \<le> vl_writable_log_offset vl'
    \<and> (\<forall>path. path \<noteq> lf_path cur \<longrightarrow> disk' path = disk path)
    \<and> list_all2 (list_all2 (read_back (vl_opt vl) vl' disk')) reqs ptrs
    \<and> (\<forall>q bs. (vp_fid q = vl_max_fid vl \<longrightarrow> unat (vp_offset q) + unat (vp_len q) \<le> unat (vl_writable_log_offset vl))
          \<longrightarrow> async_read vl q disk = Some (Inr bs) \<longrightarrow> async_read vl' q disk' = Some (Inr bs))"
proof -
  define off where "off = unat (vl_writable_log_offset vl)"
  define b where "b = batch_image env (vl_opt vl) (concat reqs)"
  define vl' where "vl' = vl\<lparr>vl_writable_log_offset := of_nat (off + length b)\<rparr>"
  define m' where "m' = take off m @ b @ drop (off + length b) m"
  let ?d = "disk(lf_path cur \<mapsto> m')"
  obtain ptrs where w: "vl_write env reqs vl disk = Some (Inr ptrs, vl', ?d)"
    "list_all2 (list_all2 (pointer_ok env (vl_opt vl) (vl_max_fid vl) off b)) reqs ptrs"
    and ready: "vl_ready vl' ?d cur m'"
    using vl_write_ok [OF assms] unfolding off_def b_def vl'_def m'_def by blast
  have small: "\<forall>e\<in>set (concat reqs). entry_small e" and le: "off + length b \<le> length m" "off + length b < 2 ^ 32"
    using assms(2) unat_lt_32 [of "ucast (opt_value_log_file_size (vl_opt vl))"] by (auto simp: batch_fits_def off_def b_def)
  have off': "unat (vl_writable_log_offset vl') = off + length b" using le(2) by (simp add: vl'_def unat_of_nat_u32 del: of_nat_add)
  have take_m': "take off m' = take off m" using le(1) by (simp add: m'_def)
  have "m' = take off m' @ b @ drop (off + length b) m" by (simp add: take_m') (simp add: m'_def)
  then have new: "async_read vl' q ?d = Some (Inr (entry_value e))" if "points env (vl_max_fid vl) off b q e" "e \<in> set es" "es \<in> set reqs" for q e es
    using read_new_pointer [OF ready, of off b "drop (off + length b) m" env q e] that le(1) off' small by (auto simp: vl'_def m'_def)
  have "list_all2 (list_all2 (read_back (vl_opt vl) vl' ?d)) reqs ptrs"
  proof (rule list.rel_mono_strong [OF w(2)])
    fix es ps assume "es \<in> set reqs" and ps: "list_all2 (pointer_ok env (vl_opt vl) (vl_max_fid vl) off b) es ps"
    then show "list_all2 (read_back (vl_opt vl) vl' ?d) es ps"
      using points_within [OF _ le(2)] off'
      by (intro list.rel_mono_strong [OF ps]) (fastforce simp: pointer_ok_def read_back_def intro!: new split: if_splits)
  qed
  moreover have "async_read vl' q ?d = Some (Inr bs)"
    if "vp_fid q = vl_max_fid vl \<longrightarrow> unat (vp_offset q) + unat (vp_len q) \<le> off" "async_read vl q disk = Some (Inr bs)" for q bs
    using read_old_pointer [OF assms(1), of q vl' m' bs] that off' take_m' by (simp add: vl'_def off_def word_le_nat_alt)
  moreover have "vl_opt vl' = vl_opt vl" "vl_max_fid vl' = vl_max_fid vl" "vl_writable_log_offset vl \<le> vl_writable_log_offset vl'"
    using off' by (simp_all add: vl'_def off_def word_le_nat_alt)
  moreover have "\<forall>path. path \<noteq> lf_path cur \<longrightarrow> ?d path = disk path" by simp
  ultimately show ?thesis using w(1) ready unfolding off_def by blast
qed

text \<open>
  C8. The value log gives back what was written. A batch of requests that fits into the current
  log file is written without a panic; the pointer of every logged entry reads back the value of the entry (nothing, for
  a tombstone), whatever its position in the batch; entries with short values get no pointer unless
  writes are synchronous; and every pointer that could be read before reads the same value afterwards.
\<close>

theorem vlog_write_reads_back:
  assumes "vl_ready vl disk cur m" and "batch_fits env vl m (concat reqs)"
  shows "\<exists>ptrs vl' disk'. vl_write env reqs vl disk = Some (Inr ptrs, vl', disk')
    \<and> list_all2 (list_all2 (\<lambda>e p. if logged (vl_opt vl) e
          then \<exists>q. p = Some q \<and> async_read vl' q disk' = Some (Inr (entry_value e)) else p = None)) reqs ptrs
    \<and> (\<forall>q bs. (vp_fid q = vl_max_fid vl \<longrightarrow> unat (vp_offset q) + unat (vp_len q) \<le> unat (vl_writable_log_offset vl))
          \<longrightarrow> async_read vl q disk = Some (Inr bs) \<longrightarrow> async_read vl' q disk' = Some (Inr bs))"
proof -
  obtain ptrs vl' disk' where w: "vl_write env reqs vl disk = Some (Inr ptrs, vl', disk')"
    "list_all2 (list_all2 (read_back (vl_opt vl) vl' disk')) reqs ptrs"
    and old: "\<forall>q bs. (vp_fid q = vl_max_fid vl \<longrightarrow> unat (vp_offset q) + unat (vp_len q) \<le> unat (vl_writable_log_offset vl))
          \<longrightarrow> async_read vl q disk = Some (Inr bs) \<longrightarrow> async_read vl' q disk' = Some (Inr bs)"
    using vl_write_step [OF assms] by blast
  have "list_all2 (list_all2 (\<lambda>e p. if logged (vl_opt vl) e
      then \<exists>q. p = Some q \<and> async_read vl' q disk' = Some (Inr (entry_value e)) else p = None)) reqs ptrs"
    using w(2) by (rule list.rel_mono_strong, elim list.rel_mono_strong) (auto simp: read_back_def)
  with w(1) old show ?thesis by blast
qed

text \<open>A log with one file of 2 MiB, mapped for writing.\<close>

definition example_vl_env :: vl_env where
  "example_vl_env = \<lparr>ve_crc32 = \<lambda>bs. of_nat (length bs), ve_can_map = \<lambda>n. 0 < n\<rparr>"

definition example_log_file :: log_file where
  "example_log_file = \<lparr>lf_path = vlog_file_path ''db'' 0, lf_fd = Some \<lparr>fh_path = vlog_file_path ''db'' 0, fh_pos = 0\<rparr>,
     lf_fid = 0, lf_mmap = Some MmapMut, lf_sz = 2 ^ 21\<rparr>"

definition example_vlog :: value_log where
  "example_vlog = \<lparr>vl_dir_path = ''db'', vl_max_fid = 0, vl_vlogs = [(0, example_log_file)], vl_dirty_vlogs = [],
     vl_num_active_iterators = 0, vl_writable_log_offset = 0, vl_buf = [],
     vl_opt = (options_default ''db'')\<lparr>opt_value_log_file_size := 2 ^ 20\<rparr>\<rparr>"

definition example_vlog_disk :: disk where
  "example_vlog_disk = [vlog_file_path ''db'' 0 \<mapsto> replicate (2 ^ 21) 0]"

definition example_entry :: entry where
  "example_entry = entry_default\<lparr>en_key := [1], en_value := replicate 32 7\<rparr>"

lemma example_vl_ready: "vl_ready example_vlog example_vlog_disk example_log_file (replicate (2 ^ 21) 0)"
  by (simp add: vl_ready_def example_vlog_def example_log_file_def example_vlog_disk_def pick_log_by_vlog_id_def)

lemma example_batch_fits: "batch_fits env example_vlog (replicate (2 ^ 21) 0) [example_entry]"
  by (simp add: batch_fits_def example_vlog_def example_entry_def entry_small_def entry_image_length logged_def options_default_def)

text \<open>Non-vacuity of C8: one entry with a value of 32 bytes.\<close>

theorem vlog_write_reads_back_witness:
  "\<exists>p vl' disk'. vl_write example_vl_env [[example_entry]] example_vlog example_vlog_disk = Some (Inr [[Some p]], vl', disk')
    \<and> async_read vl' p disk' = Some (Inr (replicate 32 7))"
proof -
  have "logged (vl_opt example_vlog) example_entry" "entry_value example_entry = replicate 32 7"
    by (simp_all add: logged_def example_vlog_def example_entry_def options_default_def entry_value_def entry_default_def)
  then show ?thesis
    using vlog_write_reads_back [OF example_vl_ready, of example_vl_env "[[example_entry]]"] example_batch_fits [of example_vl_env]
    by (fastforce simp: list_all2_Cons1)
qed

subsection \<open>A full log file\<close>

lemma roll_over_done:
  assumes "lf_mmap cur = Some MmapMut" and "lf_fd cur \<noteq> None" and "disk (lf_path cur) = Some m"
    and "ve_can_map env (unat (vl_writable_log_offset vl))"
    and "ve_can_map env (2 * unat (opt_value_log_file_size (vl_opt vl)))" and "2 * unat (opt_value_log_file_size (vl_opt vl)) < 2 ^ 64"
    and "vl_max_fid vl < 2 ^ 16"
  shows "\<exists>lf vl' disk'. roll_over env cur vl disk = Some (Inr (), vl', disk')
    \<and> vl_max_fid vl' = vl_max_fid vl + 1 \<and> set (map fst (vl_vlogs vl')) \<subseteq> insert (vl_max_fid vl) (set (map fst (vl_vlogs vl)))"
proof -
  let ?n = "unat (vl_writable_log_offset vl)"
  have "set_file_len disk (lf_path cur) ?n (lf_path cur) = Some (take ?n m @ replicate (?n - length m) 0)"
    using assms(3) by (simp add: set_file_len_def)
  moreover have "length (take ?n m @ replicate (?n - length m) 0) = ?n" by simp
  ultimately obtain lf where "done_writing env cur (vl_writable_log_offset vl) disk = Some (Inr (), lf, set_file_len disk (lf_path cur) ?n)"
    using assms(1,2,4) by (simp add: done_writing_def open_read_only_def Let_def split: prod.splits)
  then show ?thesis
    using assms(5-) by (auto simp: roll_over_def Let_def create_mmap_vlog_file_def create_vlog_file_def update_conv'
        simp flip: dom_map_of_conv_image_fst split: if_splits)
qed

text \<open>
  C25. A full log file ends all writing. When a batch fills the current file past the configured
  size, the batch itself is written, but the log then takes the next file number as its current
  one without having such a file: the number for the new file is the one \<open>fetch_add\<close> returns, the
  old one. Every later write panics.
\<close>

theorem full_log_panics_next_write:
  assumes "vl_ready vl disk cur m" and "lf_fd cur \<noteq> None" and "\<forall>e\<in>set (concat reqs). entry_small e"
    and "unat (vl_writable_log_offset vl) + length (batch_image env (vl_opt vl) (concat reqs)) \<le> length m"
    and "unat (vl_writable_log_offset vl) + length (batch_image env (vl_opt vl) (concat reqs)) < 2 ^ 32"
    and "unat (ucast (opt_value_log_file_size (vl_opt vl)) :: u32)
      < unat (vl_writable_log_offset vl) + length (batch_image env (vl_opt vl) (concat reqs))"
    and "batch_image env (vl_opt vl) (concat reqs) \<noteq> []"
    and "\<forall>n>0. ve_can_map env n" and "0 < opt_value_log_file_size (vl_opt vl)" and "opt_value_log_file_size (vl_opt vl) < 2 ^ 63"
    and "vl_max_fid vl < 2 ^ 16" and "vl_max_fid vl + 1 \<notin> set (map fst (vl_vlogs vl))"
  shows "\<exists>ptrs vl' disk'. vl_write env reqs vl disk = Some (Inr ptrs, vl', disk') \<and> (\<forall>reqs'. vl_write env reqs' vl' disk' = None)"
proof -
  define off where "off = unat (vl_writable_log_offset vl)"
  define b where "b = batch_image env (vl_opt vl) (concat reqs)"
  note lim = assms(4-7) [folded off_def b_def]
  define m' where "m' = take off m @ b @ drop (off + length b) m"
  have word: "vl_writable_log_offset vl = of_nat off" by (simp add: off_def)
  have un: "unat (of_nat (off + length b) :: u32) = off + length b" using lim(2) by (simp add: unat_of_nat_u32 del: of_nat_add)
  have cur: "pick_log_by_vlog_id vl (vl_max_fid vl) = Some cur" "lf_fid cur = vl_max_fid vl" "lf_mmap cur = Some MmapMut"
    "disk (lf_path cur) = Some m" "vl_buf vl = []" "off \<le> length m"
    using assms(1) by (simp_all add: vl_ready_def off_def)
  obtain ptrs where p: "write_reqs env (vl_opt vl) (vl_max_fid vl) (of_nat off) reqs [] = Some (ptrs, b)"
    using write_reqs_points [OF assms(3), of off "[]" env "vl_opt vl" "vl_max_fid vl"] lim(2) by (auto simp: b_def)
  let ?vl = "vl\<lparr>vl_writable_log_offset := of_nat (off + length b), vl_buf := []\<rparr>" and ?d = "disk(lf_path cur \<mapsto> m')"
  have map: "ve_can_map env (unat (of_nat (off + length b) :: u32))" 
    unfolding un using assms(8) lim(3) gr_implies_not_zero by blast
  have "2 * unat (opt_value_log_file_size (vl_opt vl)) < 2 ^ 64" "0 < unat (opt_value_log_file_size (vl_opt vl))"
    using assms(9,10) by (simp_all add: word_less_nat_alt)
  then obtain vl' disk' where r: "roll_over env cur ?vl ?d = Some (Inr (), vl', disk')" "vl_max_fid vl' = vl_max_fid vl + 1"
    "set (map fst (vl_vlogs vl')) \<subseteq> insert (vl_max_fid vl) (set (map fst (vl_vlogs vl)))"
    using roll_over_done [of cur ?d m' env ?vl] map cur(3) assms(2,8,11) by auto
  have "(ucast (opt_value_log_file_size (vl_opt vl)) :: u32) < of_nat (off + length b)"
    using lim(3) un by (simp add: word_less_nat_alt del: of_nat_add)
  then have "vl_write env reqs vl disk = Some (Inr ptrs, vl', disk')"
    using p cur append_to_log [OF cur(6) lim(1)] lim(1,2,4) r(1)
    by (simp add: vl_write_def word write_buffer_def Let_def m'_def min_absorb1)
  moreover have "vl_max_fid vl + 1 \<notin> set (map fst (vl_vlogs vl'))"
    using assms(12) r(3) by auto
  then have "map_of (vl_vlogs vl') (vl_max_fid vl') = None" using r(2) by (simp add: map_of_eq_None_iff)
  then have "vl_write env reqs' vl' disk' = None" for reqs' by (simp add: vl_write_def pick_log_by_vlog_id_def)
  ultimately show ?thesis by blast
qed

text \<open>Non-vacuity of C25: a log file that holds 10 bytes at most.\<close>

theorem full_log_panics_next_write_witness:
  "\<exists>ptrs vl' disk'. vl_write example_vl_env [[example_entry]] (example_vlog\<lparr>vl_opt := (options_default ''db'')\<lparr>opt_value_log_file_size := 10\<rparr>\<rparr>)
      example_vlog_disk = Some (Inr ptrs, vl', disk') \<and> vl_write example_vl_env [] vl' disk' = None"
proof -
  let ?vl = "example_vlog\<lparr>vl_opt := (options_default ''db'')\<lparr>opt_value_log_file_size := 10\<rparr>\<rparr>"
  have "vl_ready ?vl example_vlog_disk example_log_file (replicate (2 ^ 21) 0)"
    using example_vl_ready by (simp add: vl_ready_def pick_log_by_vlog_id_def)
  from full_log_panics_next_write [OF this, of "[[example_entry]]" example_vl_env] show ?thesis
    by (auto simp: example_vlog_def example_entry_def entry_small_def entry_image_length logged_def options_default_def
        example_log_file_def example_vl_env_def simp flip: length_greater_0_conv)
qed

subsection \<open>Walking over a log file\<close>

text \<open>The callback that collects what it is given.\<close>

definition collect_entries :: "(entry \<times> value_pointer) list log_callback" where
  "collect_entries e p es = Some (Inr True, es @ [(e, p)])"

definition nameless :: "entry \<times> value_pointer \<Rightarrow> bool" where
  "nameless ep \<longleftrightarrow> en_key (fst ep) = [] \<and> en_value (fst ep) = []"

lemma reader_shorter:
  "read_u8 rd = Some (b, rd') \<Longrightarrow> length rd = length rd' + 1"
  "read_u32 rd = Some (c, rd') \<Longrightarrow> length rd = length rd' + 4"
  "read_u64 rd = Some (d, rd') \<Longrightarrow> length rd = length rd' + 8"
  by (auto simp: read_u8_def read_u32_def read_u64_def read_exact_def bind_eq_Some_conv split: if_splits list.splits)

lemma vh_dec_shorter: "vh_dec rd = Some (h, rd') \<Longrightarrow> length rd = length rd' + 26"
  by (auto simp: vh_dec_def bind_eq_Some_conv dest!: reader_shorter)

lemma iterate_loop_step:
  assumes "vh_dec rd = Some (h, rd1)" and "read_u32 rd1 = Some (c, rd2)"
  shows "iterate_loop fid collect_entries rd off s = do {
     len \<leftarrow> add_u32 (of_nat vh_encoded_size) (vh_k_len h);
     len \<leftarrow> add_u32 len (vh_v_len h);
     len \<leftarrow> add_u32 len 4;
     nxt \<leftarrow> add_u32 off len;
     iterate_loop fid collect_entries rd2 nxt (s @ [(entry_of_header h [] [] off, \<lparr>vp_fid = fid, vp_len = len, vp_offset = off\<rparr>)]) }"
  by (subst iterate_loop.simps) (simp add: assms file_read_def collect_entries_def)

lemma iterate_loop_nameless:
  assumes "iterate_loop fid collect_entries rd off s = Some (r, es)" and "\<forall>ep\<in>set s. nameless ep"
  shows "\<forall>ep\<in>set es. nameless ep"
  using assms
proof (induction "length rd" arbitrary: rd off s rule: less_induct)
  case less
  show ?case
  proof (cases "vh_dec rd")
    case None
    then show ?thesis using less.prems by (simp add: iterate_loop.simps)
  next
    case (Some hr)
    obtain h rd1 where h: "vh_dec rd = Some (h, rd1)" using Some by (cases hr) simp
    show ?thesis
    proof (cases "read_u32 rd1")
      case None
      then show ?thesis using h less.prems by (simp add: iterate_loop.simps file_read_def)
    next
      case (Some cr)
      obtain c rd2 where c: "read_u32 rd1 = Some (c, rd2)" using Some by (cases cr) simp
      have shorter: "length rd2 < length rd" using vh_dec_shorter [OF h] reader_shorter(2) [OF c] by simp
      from less.prems(1) obtain len nxt where
        it: "iterate_loop fid collect_entries rd2 nxt (s @ [(entry_of_header h [] [] off, \<lparr>vp_fid = fid, vp_len = len, vp_offset = off\<rparr>)])
           = Some (r, es)"
        unfolding iterate_loop_step [OF h c] by (auto simp: bind_eq_Some_conv)
      show ?thesis
        by (rule less.hyps [OF shorter it]) (use less.prems(2) in \<open>auto simp: nameless_def entry_of_header_def\<close>)
    qed
  qed
qed

lemma replay_files_nameless:
  assumes "replay_files vl disk vp off collect_entries fids s = Some (r, es)" and "\<forall>ep\<in>set s. nameless ep"
  shows "\<forall>ep\<in>set es. nameless ep"
  using assms
proof (induction fids arbitrary: s)
  case (Cons fid fids)
  show ?case
  proof (cases "fid < vp_fid vp")
    case True
    then show ?thesis using Cons by simp
  next
    case False
    with Cons.prems(1) obtain lf r' s' off' where it: "lf_iterate lf disk off' collect_entries s = Some (r', s')"
      and rest: "(case r' of Inl e \<Rightarrow> Some (Inl e, s') | Inr u \<Rightarrow> replay_files vl disk vp off collect_entries fids s') = Some (r, es)"
      by (auto simp: bind_eq_Some_conv)
    have "\<forall>ep\<in>set s'. nameless ep"
      using it iterate_loop_nameless Cons.prems(2) by (fastforce simp: lf_iterate_def bind_eq_Some_conv)
    then show ?thesis using rest Cons.IH by (auto split: sum.splits)
  qed
qed simp

text \<open>
  C24. Replaying the value log loses every key and value. Whatever the log files hold, each entry that
  \<open>replay\<close> hands to its callback has an empty key and an empty value: the vectors for them are
  cleared before they are read into, so nothing is read.
\<close>

theorem replay_loses_entries:
  assumes "vl_replay vl disk vp collect_entries [] = Some (r, vl', es)"
  shows "\<forall>(e, p)\<in>set es. en_key e = [] \<and> en_value e = []"
proof -
  from assms obtain off r' es' where rp: "replay_files vl disk vp off collect_entries (pick_log_guard vl) [] = Some (r', es')"
    and rest: "(case r' of Inl e \<Rightarrow> Some (Inl e, vl, es') | Inr u \<Rightarrow> do {
          lf \<leftarrow> map_of (vl_vlogs vl) (vl_max_fid vl); fd \<leftarrow> lf_fd lf; c \<leftarrow> disk (fh_path fd);
          Some (Inr (), vl\<lparr>vl_writable_log_offset := of_nat (length c)\<rparr>, es') }) = Some (r, vl', es)"
    by (auto simp: vl_replay_def bind_eq_Some_conv)
  from rest have "es' = es" by (cases r') (auto simp: bind_eq_Some_conv)
  with replay_files_nameless [OF rp] show ?thesis by (auto simp: nameless_def)
qed

lemma example_replay:
  "vl_replay (example_vlog\<lparr>vl_vlogs := [(0, example_log_file\<lparr>lf_mmap := None\<rparr>)]\<rparr>)
      [vlog_file_path ''db'' 0 \<mapsto> entry_image example_vl_env (entry_default\<lparr>en_key := [1]\<rparr>)] vp_default collect_entries []
    = Some (Inr (), example_vlog\<lparr>vl_vlogs := [(0, example_log_file\<lparr>lf_mmap := None\<rparr>)], vl_writable_log_offset := 37\<rparr>,
        [(entry_default, \<lparr>vp_fid = 0, vp_len = 37, vp_offset = 0\<rparr>)])"
proof -
  let ?e = "entry_default\<lparr>en_key := [1]\<rparr>" and ?c = "enc_u32 (ve_crc32 example_vl_env (entry_prefix (entry_default\<lparr>en_key := [1]\<rparr>)))"
  have zeros: "replicate 6 0 = enc_u32 0 @ [0, 0]" by code_simp
  have img: "entry_image example_vl_env ?e = vh_enc (en_header ?e) @ enc_u32 0 @ [0, 0, 1] @ ?c"
    by (simp add: entry_image_def entry_prefix_def zeros entry_default_def)
  have stop: "iterate_loop 0 collect_entries (0 # 0 # 1 # enc_u32 w) 37 s = Some (Inr (), s)" for s w
  proof -
    have "vh_dec (0 # 0 # 1 # enc_u32 w) = None" using vh_dec_shorter by (cases "vh_dec (0 # 0 # 1 # enc_u32 w)") fastforce+
    then show ?thesis by (simp add: iterate_loop.simps)
  qed
  have len: "add_u32 32 1 = Some 33" "add_u32 33 0 = Some 33" "add_u32 33 4 = Some 37" "add_u32 0 37 = Some 37" "add_u32 0 0 = Some 0"
    by (simp_all add: add_u32_def)
  have "iterate_loop 0 collect_entries (entry_image example_vl_env ?e) 0 []
      = Some (Inr (), [(entry_default, \<lparr>vp_fid = 0, vp_len = 37, vp_offset = 0\<rparr>)])"
    unfolding img
    by (subst iterate_loop_step [OF vh_dec_enc read_enc_u32])
      (simp add: en_header_def entry_default_def vh_encoded_size_def len stop entry_of_header_def)
  then show ?thesis
    by (simp add: vl_replay_def example_vlog_def example_log_file_def vp_default_def len pick_log_guard_def lf_iterate_def entry_image_length
        entry_default_def)
qed

text \<open>Non-vacuity of C24: a log with one entry, whose key is lost.\<close>

theorem replay_loses_entries_witness:
  "\<exists>r vl' e p. vl_replay (example_vlog\<lparr>vl_vlogs := [(0, example_log_file\<lparr>lf_mmap := None\<rparr>)]\<rparr>)
      [vlog_file_path ''db'' 0 \<mapsto> entry_image example_vl_env (entry_default\<lparr>en_key := [1]\<rparr>)] vp_default collect_entries []
      = Some (r, vl', [(e, p)]) \<and> en_key e = []"
  using replay_loses_entries [OF example_replay] example_replay by (intro exI conjI) auto

lemma from_slice_image:
  assumes e: "entry_small e" and m: "m = pre @ entry_image env e @ post" and len: "length m < 2 ^ 32"
  shows "from_slice (of_nat (length pre)) m = Some (Inr (e\<lparr>en_key := replicate (length (en_key e)) 0 @ en_key e,
    en_value := replicate (length (en_value e)) 0 @ en_value e, en_offset := of_nat (length pre)\<rparr>))"
proof -
  let ?h = "vh_enc (en_header e) @ replicate 6 0" and ?k = "length (en_key e)" and ?v = "length (en_value e)"
    and ?c = "enc_u32 (ve_crc32 env (entry_prefix e))"
  have m': "m = pre @ ?h @ en_key e @ en_value e @ ?c @ post" by (simp add: m entry_image_def entry_prefix_def)
  have un: "unat (of_nat (length pre) :: u32) = length pre" using len m by (simp add: unat_of_nat_u32)
  have s: "slice m (length pre) (length pre + 32) = Some ?h"
    "slice m (length pre + 32) (length pre + 32 + ?k) = Some (en_key e)"
    "slice m (length pre + 32 + ?k) (length pre + 32 + ?k + ?v) = Some (en_value e)"
    "slice m (length pre + 32 + ?k + ?v) (length pre + 32 + ?k + ?v + 4) = Some ?c"
    unfolding m'
    using slice_append_mid [of pre ?h] slice_append_mid [of "pre @ ?h" "en_key e"]
      slice_append_mid [of "pre @ ?h @ en_key e" "en_value e"] slice_append_mid [of "pre @ ?h @ en_key e @ en_value e" ?c]
    by (simp_all add: add.commute add.left_commute)
  show ?thesis
    unfolding from_slice_def Let_def vh_encoded_size_def un s Option.bind.bind_lunit vh_dec_enc option.case prod.case header_lens [OF e]
    by (simp add: entry_of_header_def en_header_def)
qed

lemma read_one_entry:
  assumes "mmap_slice lf disk = Some m" and "(of_nat off :: u32) < of_nat (length m)" and "from_slice (of_nat off) m = Some (Inr e)"
    and "n = 36 + (length (en_key e) + length (en_value e))" and "off + n < 2 ^ 32"
  shows "read_entries lf disk (of_nat off) 1
    = Some (Inr ([(e, \<lparr>vp_fid = lf_fid lf, vp_len = of_nat n, vp_offset = of_nat off\<rparr>)], of_nat (off + n)))"
proof -
  define l where "l = length (en_key e) + length (en_value e)"
  have "add_u32 (of_nat 32) (of_nat l) = Some (of_nat (32 + l))" "add_u32 (of_nat (32 + l)) (of_nat 4) = Some (of_nat (32 + l + 4))"
    "add_u32 (of_nat off) (of_nat n) = Some (of_nat (off + n))"
    using assms(4,5) by (intro add_u32_nat; simp add: l_def)+
  moreover have "32 + l + 4 = n" using assms(4) by (simp add: l_def)
  ultimately show ?thesis
    using assms(1-3) by (simp add: read_entries_def vh_encoded_size_def del: of_nat_add flip: l_def)
qed

text \<open>
  Scanning a log file skips entries. When the scan that garbage collection uses stands at an
  entry, it hands over the key and the value behind as many zero bytes as they are long, and its
  pointer is longer than the entry by the length of the key and the value: the next entry is looked
  for that many bytes too far.
\<close>

lemma read_entries_image:
  assumes "entry_small e" and "mmap_slice lf disk = Some (pre @ entry_image env e @ post)"
    and "length (pre @ entry_image env e @ post) < 2 ^ 32"
    and "length pre + length (entry_image env e) + length (en_key e) + length (en_value e) < 2 ^ 32"
  shows "read_entries lf disk (of_nat (length pre)) 1 = Some (Inr (
     [(e\<lparr>en_key := replicate (length (en_key e)) 0 @ en_key e, en_value := replicate (length (en_value e)) 0 @ en_value e,
         en_offset := of_nat (length pre)\<rparr>,
       \<lparr>vp_fid = lf_fid lf, vp_len = of_nat (length (entry_image env e) + length (en_key e) + length (en_value e)),
         vp_offset = of_nat (length pre)\<rparr>)],
     of_nat (length pre + length (entry_image env e) + length (en_key e) + length (en_value e))))"
proof -
  let ?k = "length (en_key e)" and ?v = "length (en_value e)" and ?m = "pre @ entry_image env e @ post"
  have tot: "length pre + (36 + 2 * (?k + ?v)) < 2 ^ 32" using assms(4) by (simp add: entry_image_length)
  have here: "(of_nat (length pre) :: u32) < of_nat (length ?m)"
    using assms(3) by (simp add: word_less_nat_alt unat_of_nat_u32 entry_image_length del: of_nat_add)
  have "length (entry_image env e) + ?k + ?v = 36 + 2 * (?k + ?v)" by (simp add: entry_image_length)
  then show ?thesis
    using read_one_entry [OF assms(2) here from_slice_image [OF assms(1) refl assms(3)], of "36 + 2 * (?k + ?v)"] tot
    by (simp add: add.assoc)
qed

end
