(* ===== verification/Kv_Correct.thy ===== *)
theory Kv_Correct
  imports Kv Vlog_Correct
begin

section \<open>The store is a map\<close>

text \<open>
  An abstract view of the store: memtables stand for sorted lists of pairs, levels for the pairs of
  their tables, and a lookup for the first of them that answers. On it, \<open>set\<close> and \<open>delete\<close> update an
  abstract map from keys to values, while changing the memtable and flushing one to
  level 0 leave the map as it is.
\<close>

subsection \<open>Lookups\<close>

definition deleted :: "value_struct \<Rightarrow> bool" where
  "deleted vs \<longleftrightarrow> vs_meta vs AND BIT_DELETE \<noteq> 0"

fun mem_view :: "item list list \<Rightarrow> bytes \<Rightarrow> value_struct result option" where
  "mem_view [] k = None"
| "mem_view (kvs # kvss) k =
     (case map_of kvs k of
        None \<Rightarrow> mem_view kvss k
      | Some vs \<Rightarrow> if deleted vs then Some (Inl NotFound) else if vs_value vs \<noteq> [] then Some (Inr vs) else mem_view kvss k)"

definition store_view :: "item list list \<Rightarrow> item list \<Rightarrow> bytes \<Rightarrow> value_struct result" where
  "store_view kvss lower k =
     (case mem_view kvss k of
        Some r \<Rightarrow> r
      | None \<Rightarrow> (case map_of lower k of
                   None \<Rightarrow> Inl NotFound
                 | Some vs \<Rightarrow> if deleted vs then Inl NotFound else Inr vs))"

definition lower_items :: "'bf levels_controller \<Rightarrow> item list list list \<Rightarrow> item list" where
  "lower_items lc kvsss = concat (map2 level_items (lc_levels lc) kvsss)"

lemma get_in_mem_view: "list_all2 skip_abs sts kvss \<Longrightarrow> get_in_mem sts k = Some (mem_view kvss k)"
  by (induction sts kvss rule: list_all2_induct) (auto simp: sl_get_abs deleted_def split: option.splits)

lemma kv_get_vs_view:
  assumes "list_all2 skip_abs (get_mem_tables kv) kvss" and "list_all2 (level_holds (ke_bl env)) (lc_levels (kv_lc kv)) kvsss"
  shows "\<exists>refs. kv_get_vs env kv k = Some (store_view kvss (lower_items (kv_lc kv) kvsss) k, kv\<lparr>kv_refs := refs\<rparr>)"
proof (cases "mem_view kvss k")
  case (Some r)
  then show ?thesis
    using get_in_mem_view [OF assms(1), of k] by (intro exI [of _ "kv_refs kv"]) (simp add: kv_get_vs_def store_view_def)
next
  case None
  obtain refs where "lc_get (ke_bl env) (kv_lc kv) k (kv_refs kv) = Some (map_of (lower_items (kv_lc kv) kvsss) k, refs)"
    using get_in_levels_correct [OF assms(2), of k "kv_refs kv"] by (auto simp: lc_get_def lower_items_def)
  then show ?thesis
    using None get_in_mem_view [OF assms(1), of k]
    by (auto simp: kv_get_vs_def store_view_def deleted_def split: option.splits)
qed

subsection \<open>The abstract map\<close>

text \<open>A value whose pointer, if it has one, lies in the written part of the log.\<close>

definition in_log :: "value_log \<Rightarrow> value_struct \<Rightarrow> bool" where
  "in_log vl vs \<longleftrightarrow> (\<forall>p. vs_meta vs AND BIT_VALUE_POINTER \<noteq> 0 \<longrightarrow> vp_dec (vs_value vs) = Inr p \<longrightarrow> vp_fid p = vl_max_fid vl
     \<longrightarrow> unat (vp_offset p) + unat (vp_len p) \<le> unat (vl_writable_log_offset vl))"

definition solid :: "value_struct \<Rightarrow> bool" where
  "solid vs \<longleftrightarrow> deleted vs \<or> vs_value vs \<noteq> []"

definition answers :: "'bf kv \<Rightarrow> value_struct result \<Rightarrow> bytes option \<Rightarrow> bool" where
  "answers kv r x \<longleftrightarrow> (case r of
     Inl e \<Rightarrow> e = NotFound \<and> x = None
   | Inr vs \<Rightarrow> \<not> deleted vs \<and> in_log (kv_vlog kv) vs \<and> (\<exists>bs. yield_item_value kv vs = Some (Inr bs) \<and> x = Some bs))"

definition mem_ok :: "skip_list_manager \<Rightarrow> item list list \<Rightarrow> bool" where
  "mem_ok sm kvss \<longleftrightarrow> distinct (sm_mt sm # sm_imm sm) \<and> (\<forall>a\<in>set (sm_mt sm # sm_imm sm). a < sm_next sm)
     \<and> list_all2 skip_abs (map (sm_lists sm) (sm_mt sm # rev (sm_imm sm))) kvss
     \<and> (\<forall>kvs\<in>set kvss. \<forall>kv\<in>set kvs. solid (snd kv))"

text \<open>The tasks that wait to be flushed are the memtables that are no longer written to.\<close>

definition tasks_ok :: "'bf kv \<Rightarrow> bool" where
  "tasks_ok kv \<longleftrightarrow> map ft_mt (kv_flush_chan kv) = map Some (sm_imm (kv_mem kv))"

definition arena_fits :: "options \<Rightarrow> bool" where
  "arena_fits opt \<longleftrightarrow> (\<exists>sz. opt_arena_size opt = Some sz \<and> 128 \<le> unat sz \<and> unat sz < 2 ^ 31)"

definition kv_rep :: "'bf kv_env \<Rightarrow> 'bf kv \<Rightarrow> item list list \<Rightarrow> item list list list \<Rightarrow> log_file \<Rightarrow> bytes \<Rightarrow> (bytes \<Rightarrow> bytes option) \<Rightarrow> bool" where
  "kv_rep env kv kvss kvsss cur m M \<longleftrightarrow> mem_ok (kv_mem kv) kvss \<and> tasks_ok kv \<and> arena_fits (kv_opt kv)
     \<and> list_all2 (level_holds (ke_bl env)) (lc_levels (kv_lc kv)) kvsss
     \<and> vl_ready (kv_vlog kv) (kv_disk kv) cur m \<and> vl_opt (kv_vlog kv) = kv_opt kv
     \<and> (\<forall>k. k \<noteq> HEAD_KEY \<longrightarrow> answers kv (store_view kvss (lower_items (kv_lc kv) kvsss) k) (M k))"

definition kv_inv :: "'bf kv_env \<Rightarrow> 'bf kv \<Rightarrow> (bytes \<Rightarrow> bytes option) \<Rightarrow> bool" where
  "kv_inv env kv M \<longleftrightarrow> (\<exists>kvss kvsss cur m. kv_rep env kv kvss kvsss cur m M)"

lemma mem_tables_abs: "mem_ok (kv_mem kv) kvss \<Longrightarrow> list_all2 skip_abs (get_mem_tables kv) kvss"
  by (simp add: mem_ok_def get_mem_tables_def must_mt_def mt_ref_def)

lemma yield_cong: "kv_vlog kv' = kv_vlog kv \<Longrightarrow> kv_disk kv' = kv_disk kv \<Longrightarrow> yield_item_value kv' vs = yield_item_value kv vs"
  by (simp add: yield_item_value_def split: sum.splits)

lemma answers_cong: "kv_vlog kv' = kv_vlog kv \<Longrightarrow> kv_disk kv' = kv_disk kv \<Longrightarrow> answers kv' = answers kv"
  by (intro ext) (simp add: answers_def yield_cong [of kv' kv] split: sum.splits)

lemma kv_rep_same:
  assumes "kv_rep env kv kvss kvsss cur m M" and "kv_mem kv' = kv_mem kv" "kv_flush_chan kv' = kv_flush_chan kv" "kv_opt kv' = kv_opt kv"
    "kv_lc kv' = kv_lc kv" "kv_vlog kv' = kv_vlog kv" "kv_disk kv' = kv_disk kv"
  shows "kv_rep env kv' kvss kvsss cur m M"
  using assms answers_cong [of kv' kv] by (simp add: kv_rep_def tasks_ok_def)

lemma kv_get_answer:
  assumes mem: "list_all2 skip_abs (get_mem_tables kv) kvss" and lv: "list_all2 (level_holds (ke_bl env)) (lc_levels (kv_lc kv)) kvsss"
    and ans: "answers kv (store_view kvss (lower_items (kv_lc kv) kvsss) k) x"
  shows "\<exists>refs. kv_get env kv k = Some (case x of None \<Rightarrow> Inl NotFound | Some v \<Rightarrow> Inr v, kv\<lparr>kv_refs := refs\<rparr>)"
proof -
  let ?r = "store_view kvss (lower_items (kv_lc kv) kvsss) k"
  obtain refs where g: "kv_get_vs env kv k = Some (?r, kv\<lparr>kv_refs := refs\<rparr>)" using kv_get_vs_view [OF mem lv] by blast
  show ?thesis
  proof (cases ?r)
    case (Inl e)
    then show ?thesis using g ans by (auto simp: kv_get_def answers_def)
  next
    case (Inr vs)
    with ans have "vs_meta vs \<noteq> BIT_DELETE" by (auto simp: answers_def deleted_def BIT_DELETE_def)
    with Inr g ans yield_cong [of "kv\<lparr>kv_refs := refs\<rparr>" kv] show ?thesis by (auto simp: kv_get_def answers_def)
  qed
qed

lemma kv_get_map:
  assumes "kv_rep env kv kvss kvsss cur m M" and "k \<noteq> HEAD_KEY"
  shows "\<exists>refs. kv_get env kv k = Some (case M k of None \<Rightarrow> Inl NotFound | Some v \<Rightarrow> Inr v, kv\<lparr>kv_refs := refs\<rparr>)"
  using assms by (intro kv_get_answer [OF mem_tables_abs, of kv kvss env kvsss]) (simp_all add: kv_rep_def)

subsection \<open>One write\<close>

lemma assoc_put_solid: "(\<forall>kv\<in>set kvs. solid (snd kv)) \<Longrightarrow> solid v \<Longrightarrow> \<forall>kv\<in>set (assoc_put k v kvs). solid (snd kv)"
  by (induction kvs) (fastforce split: if_splits)+

lemma store_view_put:
  assumes "solid v"
  shows "store_view (assoc_put k v kvs # kvss) lower k' =
    (if k' = k then if deleted v then Inl NotFound else Inr v else store_view (kvs # kvss) lower k')"
  using assms by (auto simp: store_view_def solid_def)

lemma mem_ok_put:
  assumes "mem_ok sm (kvs # kvss)" and "sl_room (mt_ref sm) k v" and "solid v"
  shows "\<exists>sm'. mt_put k v rnd (sm_mt sm) sm = Some sm' \<and> mem_ok sm' (assoc_put k v kvs # kvss) \<and> sm_imm sm' = sm_imm sm"
proof -
  have "skip_abs (sm_lists sm (sm_mt sm)) kvs" using assms(1) by (simp add: mem_ok_def)
  then obtain s where s: "sl_put (sm_lists sm (sm_mt sm)) k v rnd = Some s" "skip_abs s (assoc_put k v kvs)"
    using sl_put_abs assms(2) unfolding mt_ref_def by blast
  have "map ((sm_lists sm)(sm_mt sm := s)) (rev (sm_imm sm)) = map (sm_lists sm) (rev (sm_imm sm))"
    using assms(1) by (auto simp: mem_ok_def)
  with s assms(1) assoc_put_solid [of kvs v k] assms(3) show ?thesis by (auto simp: mt_put_def mem_ok_def)
qed

text \<open>The counter the next write gets, and the pointer bit.\<close>

definition numbered :: "'bf kv \<Rightarrow> entry \<Rightarrow> entry" where
  "numbered kv e = e\<lparr>en_cas_counter := kv_last_used_cas_counter kv + 1\<rparr>"

text \<open>The bytes of the log file that is written to.\<close>

definition log_map :: "'bf kv \<Rightarrow> bytes" where
  "log_map kv = the (kv_disk kv (lf_path (the (pick_log_by_vlog_id (kv_vlog kv) (vl_max_fid (kv_vlog kv))))))"

text \<open>
  Room for one entry: in the current log file and, once a full memtable has been moved to the flush
  queue, in the memtable.
\<close>

definition kv_room :: "'bf kv_env \<Rightarrow> 'bf kv \<Rightarrow> entry \<Rightarrow> bool" where
  "kv_room env kv e \<longleftrightarrow> batch_fits (ke_vl env) (kv_vlog kv) (log_map kv) [e] \<and> entry_too_big (kv_opt kv) e = None
     \<and> (\<exists>kv'. ensure_room_for_write kv = Some (Inr (), kv')
          \<and> (\<forall>v. vs_size v \<le> 22 + length (en_value e) \<longrightarrow> sl_room (must_mt kv') (en_key e) v))"

definition plain :: "entry \<Rightarrow> bool" where
  "plain e \<longleftrightarrow> en_cas_counter_check e = 0 \<and> (en_meta e = 0 \<and> en_value e \<noteq> [] \<or> en_meta e = BIT_DELETE)"

lemma vp_dec_enc [simp]: "vp_dec (vp_enc p) = Inr p"
  by (simp add: vp_dec_def vp_enc_def)

lemma vp_enc_length [simp]: "length (vp_enc p) = 12"
  by (simp add: vp_enc_def)

lemma write_entry_plain:
  assumes "plain e" and "lsm_value kv e p = Some v"
  shows "write_entry_to_lsm env rnd e p kv =
    do { mem \<leftarrow> mt_put (en_key e) v rnd (sm_mt (kv_mem kv)) (kv_mem kv); Some (Inr (), kv\<lparr>kv_mem := mem\<rparr>) }"
  using assms
  by (auto simp: write_entry_to_lsm_def plain_def BIT_DELETE_def BIT_SET_IF_ABSENT_def split: option.splits)

lemma set_one_requests:
  assumes "entry_too_big (kv_opt kv) e = None" and "write_requests env wait (rnds 0) [[e]] kv = Some ([[r]], kv')"
  shows "set_one env wait rnds e kv = Some (r, kv')"
  using assms by (simp add: set_one_def batch_set_def Let_def)

text \<open>What was readable stays readable.\<close>

lemma answers_kept:
  assumes "answers kv r x" and "vl_max_fid (kv_vlog kv') = vl_max_fid (kv_vlog kv)"
    and "vl_writable_log_offset (kv_vlog kv) \<le> vl_writable_log_offset (kv_vlog kv')"
    and "\<And>q bs. (vp_fid q = vl_max_fid (kv_vlog kv) \<longrightarrow> unat (vp_offset q) + unat (vp_len q) \<le> unat (vl_writable_log_offset (kv_vlog kv)))
       \<Longrightarrow> async_read (kv_vlog kv) q (kv_disk kv) = Some (Inr bs) \<Longrightarrow> async_read (kv_vlog kv') q (kv_disk kv') = Some (Inr bs)"
  shows "answers kv' r x"
proof (cases r)
  case (Inl e)
  then show ?thesis using assms(1) by (simp add: answers_def)
next
  case (Inr vs)
  have "in_log (kv_vlog kv') vs"
    using assms(1-3) Inr unfolding in_log_def answers_def by (fastforce simp: word_le_nat_alt)
  moreover have "yield_item_value kv' vs = Some (Inr bs)" if "yield_item_value kv vs = Some (Inr bs)" for bs
    using that assms(1,4) Inr by (auto simp: yield_item_value_def answers_def in_log_def split: if_splits sum.splits)
  ultimately show ?thesis using assms(1) Inr by (auto simp: answers_def)
qed

text \<open>The value a plain entry leaves in the memtable.\<close>

lemma bit_tests [simp]:
  "(0 :: byte) OR BIT_VALUE_POINTER = 2" "BIT_DELETE OR BIT_VALUE_POINTER = 3" "(2 :: byte) AND BIT_DELETE = 0" "(3 :: byte) AND BIT_DELETE = 1"
  "BIT_DELETE AND BIT_DELETE = 1" "(0 :: byte) AND BIT_DELETE = 0" "(2 :: byte) AND BIT_VALUE_POINTER = 2" "(0 :: byte) AND BIT_VALUE_POINTER = 0"
  "BIT_VALUE_POINTER AND BIT_DELETE = 0" "BIT_DELETE \<noteq> 0" "0 \<noteq> BIT_DELETE" "BIT_VALUE_POINTER \<noteq> 0"
  by (simp_all add: BIT_DELETE_def BIT_VALUE_POINTER_def)

lemma lsm_value_plain:
  assumes e: "plain e" and opt: "vl_opt (kv_vlog kv) = kv_opt kv" and p: "read_back (kv_opt kv) (kv_vlog kv) (kv_disk kv) e p"
  shows "\<exists>v. lsm_value kv e p = Some v \<and> solid v \<and> vs_size v \<le> 22 + length (en_value e)
    \<and> answers kv (if deleted v then Inl NotFound else Inr v) (if en_meta e = 0 then Some (en_value e) else None)"
proof (cases "should_write_value_to_lsm kv e")
  case True
  then show ?thesis
    using e by (auto simp: lsm_value_def vs_new_def plain_def solid_def deleted_def answers_def in_log_def yield_item_value_def item_has_value_def
        vs_size_def vs_header_size_def)
next
  case False
  then have "logged (kv_opt kv) e" by (simp add: logged_def should_write_value_to_lsm_def)
  with p obtain q where q: "p = Some q" "async_read (kv_vlog kv) q (kv_disk kv) = Some (Inr (entry_value e))"
    "unat (vp_offset q) + unat (vp_len q) \<le> unat (vl_writable_log_offset (kv_vlog kv))" by (auto simp: read_back_def)
  let ?v = "vs_new (vp_enc q) (en_meta e OR BIT_VALUE_POINTER) (en_user_meta e) (en_cas_counter e)"
  have ne: "vp_enc q \<noteq> []" by (metis vp_enc_length list.size(3) zero_neq_numeral)
  have v: "lsm_value kv e p = Some ?v" "solid ?v" "vs_size ?v \<le> 22 + length (en_value e)"
    using False q(1) ne by (simp_all add: lsm_value_def solid_def vs_new_def vs_size_def vs_header_size_def)
  from e consider "en_meta e = 0" | "en_meta e = BIT_DELETE" by (auto simp: plain_def)
  then have "answers kv (if deleted ?v then Inl NotFound else Inr ?v) (if en_meta e = 0 then Some (en_value e) else None)"
  proof cases
    case 1
    with q show ?thesis
      by (simp add: answers_def vs_new_def deleted_def in_log_def yield_item_value_def item_has_value_def entry_value_def)
  next
    case 2
    then show ?thesis by (simp add: answers_def vs_new_def deleted_def)
  qed
  with v show ?thesis by blast
qed

lemma update_offset_upd: "\<exists>x. update_offset ptrs kv = kv\<lparr>kv_vptr := x\<rparr>"
proof -
  have "update_offset ptrs kv = kv\<lparr>kv_vptr := kv_vptr (update_offset ptrs kv)\<rparr>"
    by (simp add: update_offset_def split: option.splits)
  then show ?thesis by blast
qed

definition written :: "entry \<Rightarrow> (bytes \<Rightarrow> bytes option) \<Rightarrow> bytes \<Rightarrow> bytes option" where
  "written e M = M(en_key e := if en_meta e = 0 then Some (en_value e) else None)"

text \<open>The log is written first; then a full memtable makes room; then the entry enters the memtable.\<close>

lemma log_step:
  assumes rep: "kv_rep env kv kvss kvsss cur m M" and fits: "batch_fits (ke_vl env) (kv_vlog kv) m [e]"
  shows "\<exists>p vl' disk' m'. vl_write (ke_vl env) [[e]] (kv_vlog kv) (kv_disk kv) = Some (Inr [[p]], vl', disk')
    \<and> read_back (kv_opt kv) vl' disk' e p \<and> kv_rep env (kv\<lparr>kv_vlog := vl', kv_disk := disk'\<rparr>) kvss kvsss cur m' M"
proof -
  have r: "vl_ready (kv_vlog kv) (kv_disk kv) cur m" and opt: "vl_opt (kv_vlog kv) = kv_opt kv"
    and ans: "\<And>k. k \<noteq> HEAD_KEY \<Longrightarrow> answers kv (store_view kvss (lower_items (kv_lc kv) kvsss) k) (M k)"
    using rep by (simp_all add: kv_rep_def)
  have "batch_fits (ke_vl env) (kv_vlog kv) m (concat [[e]])" using fits by simp
  from vl_write_step [OF r this] obtain ptrs vl' disk' m' where
    w: "vl_write (ke_vl env) [[e]] (kv_vlog kv) (kv_disk kv) = Some (Inr ptrs, vl', disk')"
    "vl_ready vl' disk' cur m'" "vl_opt vl' = kv_opt kv" "vl_max_fid vl' = vl_max_fid (kv_vlog kv)"
    "vl_writable_log_offset (kv_vlog kv) \<le> vl_writable_log_offset vl'"
    "list_all2 (list_all2 (read_back (kv_opt kv) vl' disk')) [[e]] ptrs"
    and old: "\<And>q bs. (vp_fid q = vl_max_fid (kv_vlog kv) \<longrightarrow> unat (vp_offset q) + unat (vp_len q) \<le> unat (vl_writable_log_offset (kv_vlog kv)))
          \<Longrightarrow> async_read (kv_vlog kv) q (kv_disk kv) = Some (Inr bs) \<Longrightarrow> async_read vl' q disk' = Some (Inr bs)"
    unfolding opt by blast
  from w(6) obtain p where p: "ptrs = [[p]]" "read_back (kv_opt kv) vl' disk' e p" by (auto simp: list_all2_Cons1)
  have "answers (kv\<lparr>kv_vlog := vl', kv_disk := disk'\<rparr>) (store_view kvss (lower_items (kv_lc kv) kvsss) k) (M k)" if "k \<noteq> HEAD_KEY" for k
    using answers_kept [OF ans [OF that], of "kv\<lparr>kv_vlog := vl', kv_disk := disk'\<rparr>"] w(4,5) old by simp
  then have "kv_rep env (kv\<lparr>kv_vlog := vl', kv_disk := disk'\<rparr>) kvss kvsss cur m' M"
    using rep w(2,3) by (simp add: kv_rep_def tasks_ok_def)
  with w(1) p show ?thesis by blast
qed

lemma swap_st_ok:
  assumes "mem_ok sm kvss" and "arena_fits opt" and "swap_st opt sm = Some sm'"
  shows "mem_ok sm' ([] # kvss)" and "sm_imm sm' = sm_imm sm @ [sm_mt sm]"
proof -
  obtain sz s where sz: "opt_arena_size opt = Some sz" and s: "sl_new (unat sz) (of_nat (sm_next sm)) = Some s" "skip_abs s []"
    using assms(2) sl_new_abs unfolding arena_fits_def by metis
  then have sm': "sm' = sm\<lparr>sm_imm := sm_imm sm @ [sm_mt sm], sm_lists := (sm_lists sm)(sm_next sm := s),
              sm_mt := sm_next sm, sm_next := sm_next sm + 1, sm_mt_seq := sm_mt_seq sm + 1\<rparr>"
    using assms(3) by (simp add: swap_st_def)
  have new: "sm_mt sm < sm_next sm" "\<And>a. a \<in> set (sm_imm sm) \<Longrightarrow> a < sm_next sm"
    using assms(1) by (simp_all add: mem_ok_def)
  then have "map ((sm_lists sm)(sm_next sm := s)) (sm_mt sm # rev (sm_imm sm)) = map (sm_lists sm) (sm_mt sm # rev (sm_imm sm))"
    by (simp add: less_imp_neq)
  moreover have "sm_next sm \<notin> set (sm_imm sm)" using new(2) by blast
  ultimately show "mem_ok sm' ([] # kvss)" using assms(1) s(2) new by (simp add: mem_ok_def sm' less_SucI less_imp_neq)
  show "sm_imm sm' = sm_imm sm @ [sm_mt sm]" by (simp add: sm')
qed

lemma store_view_fresh [simp]: "store_view ([] # kvss) = store_view kvss"
  by (simp add: store_view_def fun_eq_iff)

definition rotated :: "'bf kv \<Rightarrow> skip_list_manager \<Rightarrow> 'bf kv" where
  "rotated kv mem = kv\<lparr>kv_flush_chan := kv_flush_chan kv @ [\<lparr>ft_mt = Some (sm_mt (kv_mem kv)), ft_vptr = must_vptr kv\<rparr>], kv_mem := mem\<rparr>"

lemma ensure_room_cases:
  "ensure_room_for_write kv = Some (Inr (), kv') \<longleftrightarrow>
     (if mem_size (must_mt kv) < ucast (opt_max_table_size (kv_opt kv)) then kv' = kv
      else sl_empty (must_mt kv) = Some False \<and> length (kv_flush_chan kv) < opt_num_mem_tables (kv_opt kv)
        \<and> vl_sync (kv_vlog kv) = Some (Inr ())
        \<and> (\<exists>mem. swap_st (kv_opt kv) (kv_mem kv) = Some mem \<and> kv' = rotated kv mem))"
  by (cases "sl_empty (must_mt kv)"; cases "swap_st (kv_opt kv) (kv_mem kv)"; cases "vl_sync (kv_vlog kv)")
     (auto simp: ensure_room_for_write_def Let_def rotated_def split: sum.splits)

lemma ensure_room_rep:
  assumes "kv_rep env kv kvss kvsss cur m M" and "ensure_room_for_write kv = Some (Inr (), kv')"
  shows "\<exists>kvss'. kv_rep env kv' kvss' kvsss cur m M \<and> (kvss' = kvss \<or> kvss' = [] # kvss)"
proof (cases "kv' = kv")
  case False
  with assms(2) obtain mem where mem: "swap_st (kv_opt kv) (kv_mem kv) = Some mem" and kv': "kv' = rotated kv mem"
    by (auto simp: ensure_room_cases split: if_splits)
  have "mem_ok mem ([] # kvss)" "sm_imm mem = sm_imm (kv_mem kv) @ [sm_mt (kv_mem kv)]"
    using swap_st_ok [OF _ _ mem, of kvss] assms(1) by (simp_all add: kv_rep_def)
  moreover have "answers kv' = answers kv" by (rule answers_cong) (simp_all add: kv' rotated_def)
  ultimately have "kv_rep env kv' ([] # kvss) kvsss cur m M"
    using assms(1) by (simp add: kv_rep_def tasks_ok_def kv' rotated_def)
  then show ?thesis by blast
qed (use assms in blast)

lemma ensure_room_keeps:
  assumes "ensure_room_for_write kv = Some (Inr (), kv')"
  shows "kv_opt kv' = kv_opt kv \<and> kv_lc kv' = kv_lc kv"
    and "vl_sync vl = vl_sync (kv_vlog kv) \<Longrightarrow> ensure_room_for_write (kv\<lparr>kv_last_used_cas_counter := c, kv_vlog := vl, kv_disk := disk\<rparr>)
      = Some (Inr (), kv'\<lparr>kv_last_used_cas_counter := c, kv_vlog := vl, kv_disk := disk\<rparr>)"
  using assms by (auto simp: ensure_room_cases rotated_def must_mt_def must_vptr_def split: if_splits)

lemma rep_sync: "kv_rep env kv kvss kvsss cur m M \<Longrightarrow> vl_sync (kv_vlog kv) = Some (Inr ())"
  by (simp add: kv_rep_def vl_ready_def vl_sync_def pick_log_by_vlog_id_def)

lemma wait_for_room_now: "ensure_room_for_write kv = Some (Inr (), kv') \<Longrightarrow> wait_for_room wait kv = Some kv'"
  by (subst wait_for_room.simps) simp

lemma write_entry_rep:
  assumes rep: "kv_rep env kv kvss kvsss cur m M" and e: "plain e" and p: "read_back (kv_opt kv) (kv_vlog kv) (kv_disk kv) e p"
    and room: "\<And>v. vs_size v \<le> 22 + length (en_value e) \<Longrightarrow> sl_room (must_mt kv) (en_key e) v"
  shows "\<exists>kv' kvss'. write_entry_to_lsm env rnd e p kv = Some (Inr (), kv') \<and> kv_rep env kv' kvss' kvsss cur m (written e M)"
proof -
  have mem: "mem_ok (kv_mem kv) kvss" and opt: "vl_opt (kv_vlog kv) = kv_opt kv"
    and ans: "\<And>k. k \<noteq> HEAD_KEY \<Longrightarrow> answers kv (store_view kvss (lower_items (kv_lc kv) kvsss) k) (M k)"
    using rep by (simp_all add: kv_rep_def)
  then obtain kvs kvss' where kvss: "kvss = kvs # kvss'" by (auto simp: mem_ok_def list_all2_Cons1)
  obtain v where v: "lsm_value kv e p = Some v" "solid v" "vs_size v \<le> 22 + length (en_value e)"
    "answers kv (if deleted v then Inl NotFound else Inr v) (if en_meta e = 0 then Some (en_value e) else None)"
    using lsm_value_plain [OF e opt p] by blast
  obtain sm' where sm': "mt_put (en_key e) v rnd (sm_mt (kv_mem kv)) (kv_mem kv) = Some sm'"
    "mem_ok sm' (assoc_put (en_key e) v kvs # kvss')" "sm_imm sm' = sm_imm (kv_mem kv)"
    using mem_ok_put [OF _ _ v(2)] mem room [OF v(3)] unfolding kvss must_mt_def by blast
  have same: "answers (kv\<lparr>kv_mem := sm'\<rparr>) = answers kv" by (rule answers_cong) simp_all
  have "answers kv (store_view (assoc_put (en_key e) v kvs # kvss') (lower_items (kv_lc kv) kvsss) k) (written e M k)" if "k \<noteq> HEAD_KEY" for k
    using v(4) ans [OF that] store_view_put [OF v(2)] by (simp add: written_def kvss)
  then have "kv_rep env (kv\<lparr>kv_mem := sm'\<rparr>) (assoc_put (en_key e) v kvs # kvss') kvsss cur m (written e M)"
    using rep sm'(2,3) same by (simp add: kv_rep_def tasks_ok_def)
  moreover have "write_entry_to_lsm env rnd e p kv = Some (Inr (), kv\<lparr>kv_mem := sm'\<rparr>)"
    using write_entry_plain [OF e v(1)] sm'(1) by simp
  ultimately show ?thesis by blast
qed

text \<open>
  A request of one entry, up to the point where the entry reaches the memtable: whatever the entry is,
  the store it reaches there still represents the map.
\<close>

lemma write_requests_single:
  assumes rep: "kv_rep env kv kvss kvsss cur m M" and room: "kv_room env kv (numbered kv e)"
  shows "\<exists>p kv1 kvss1 m1. kv_rep env kv1 kvss1 kvsss cur m1 M \<and> (kvss1 = kvss \<or> kvss1 = [] # kvss) \<and> kv_lc kv1 = kv_lc kv
    \<and> kv_opt kv1 = kv_opt kv \<and> read_back (kv_opt kv1) (kv_vlog kv1) (kv_disk kv1) (numbered kv e) p
    \<and> (\<forall>v. vs_size v \<le> 22 + length (en_value e) \<longrightarrow> sl_room (must_mt kv1) (en_key e) v)
    \<and> (\<forall>r kv'. write_entry_to_lsm env (rnds 0 0) (numbered kv e) p kv1 = Some (r, kv') \<longrightarrow>
         write_requests env wait rnds [[e]] kv = Some ([[r]], kv'))"
proof -
  let ?e = "numbered kv e" and ?c = "kv_last_used_cas_counter kv + 1"
  have "log_map kv = m" using rep by (simp add: log_map_def kv_rep_def vl_ready_def)
  then obtain kvr where fits: "batch_fits (ke_vl env) (kv_vlog kv) m [?e]" and r: "ensure_room_for_write kv = Some (Inr (), kvr)"
    and sl: "\<And>v. vs_size v \<le> 22 + length (en_value ?e) \<Longrightarrow> sl_room (must_mt kvr) (en_key ?e) v"
    using room by (auto simp: kv_room_def)
  obtain p vl' disk' m' where w: "vl_write (ke_vl env) [[?e]] (kv_vlog kv) (kv_disk kv) = Some (Inr [[p]], vl', disk')"
    "read_back (kv_opt kv) vl' disk' ?e p" "kv_rep env (kv\<lparr>kv_vlog := vl', kv_disk := disk'\<rparr>) kvss kvsss cur m' M"
    using log_step [OF rep fits] by blast
  define kv1 where "kv1 = kv\<lparr>kv_last_used_cas_counter := ?c, kv_vlog := vl', kv_disk := disk'\<rparr>"
  define kv2 where "kv2 = kvr\<lparr>kv_last_used_cas_counter := ?c, kv_vlog := vl', kv_disk := disk'\<rparr>"
  have rep1: "kv_rep env kv1 kvss kvsss cur m' M" by (rule kv_rep_same [OF w(3)]) (simp_all add: kv1_def)
  have "vl_sync vl' = vl_sync (kv_vlog kv)" using rep_sync [OF rep] rep_sync [OF w(3)] by simp
  then have r2: "ensure_room_for_write kv1 = Some (Inr (), kv2)" unfolding kv1_def kv2_def by (rule ensure_room_keeps(2) [OF r])
  obtain kvss2 where rep2: "kv_rep env kv2 kvss2 kvsss cur m' M" "kvss2 = kvss \<or> kvss2 = [] # kvss"
    using ensure_room_rep [OF rep1 r2] by blast
  obtain x where x: "update_offset [p] kv2 = kv2\<lparr>kv_vptr := x\<rparr>" using update_offset_upd by blast
  let ?kv = "kv2\<lparr>kv_vptr := x\<rparr>"
  have rep3: "kv_rep env ?kv kvss2 kvsss cur m' M" by (rule kv_rep_same [OF rep2(1)]) simp_all
  have same: "kv_lc ?kv = kv_lc kv" "kv_opt ?kv = kv_opt kv" "read_back (kv_opt ?kv) (kv_vlog ?kv) (kv_disk ?kv) ?e p" "must_mt ?kv = must_mt kvr"
    using w(2) ensure_room_keeps(1) [OF r] by (simp_all add: kv2_def must_mt_def)
  have "write_requests env wait rnds [[e]] kv = Some ([[r]], kv')" if "write_entry_to_lsm env (rnds 0 0) ?e p ?kv = Some (r, kv')" for r kv'
    using w(1) x that wait_for_room_now [OF r2, of wait]
    by (simp add: write_requests_def new_cas_counter_def Let_def numbered_def kv1_def)
  moreover have "\<forall>v. vs_size v \<le> 22 + length (en_value e) \<longrightarrow> sl_room (must_mt ?kv) (en_key e) v"
    using sl same(4) by (simp add: numbered_def)
  ultimately show ?thesis using rep3 rep2(2) same(1-3) by blast
qed

lemma write_requests_plain:
  assumes rep: "kv_rep env kv kvss kvsss cur m M" and room: "kv_room env kv (numbered kv e)" and e: "plain e"
  shows "\<exists>kv' kvss' m'. write_requests env wait rnds [[e]] kv = Some ([[Inr ()]], kv') \<and> kv_rep env kv' kvss' kvsss cur m' (written e M)"
proof -
  have e': "plain (numbered kv e)" "written (numbered kv e) = written e" "en_key (numbered kv e) = en_key e" "en_value (numbered kv e) = en_value e"
    using e by (simp_all add: numbered_def plain_def written_def fun_eq_iff)
  obtain p kv1 kvss1 m1 where w: "kv_rep env kv1 kvss1 kvsss cur m1 M" "read_back (kv_opt kv1) (kv_vlog kv1) (kv_disk kv1) (numbered kv e) p"
    "\<And>v. vs_size v \<le> 22 + length (en_value e) \<Longrightarrow> sl_room (must_mt kv1) (en_key e) v"
    "\<And>r kv'. write_entry_to_lsm env (rnds 0 0) (numbered kv e) p kv1 = Some (r, kv') \<Longrightarrow> write_requests env wait rnds [[e]] kv = Some ([[r]], kv')"
    using write_requests_single [OF rep room, of rnds wait] by blast
  show ?thesis using write_entry_rep [OF w(1) e'(1) w(2)] w(3,4) unfolding e'(2-) by metis
qed

end
