(* ===== verification/Kv_Flush.thy ===== *)
theory Kv_Flush
  imports Kv_Correct
begin

section \<open>Flushing a memtable keeps the map\<close>

text \<open>
  The oldest memtable that is no longer written to becomes a table of level 0. Its pairs move from
  the last place of the memtables to the first place of the levels, so lookups see the same pairs
  in the same order; the only new pair is the one of the head key, which holds the position of the
  value log.
\<close>

subsection \<open>The table of a memtable\<close>

lemma cursor_reads:
  assumes "skip_inv (cu_list c) L" and "p \<in> set (L 0)" and "cu_item c = Some p"
  shows "cu_key c = Some (key_of (sl_arena (cu_list c)) p)" and "cu_value c = Some (val_of (sl_arena (cu_list c)) p)"
proof -
  have wf: "node_key (sl_arena (cu_list c)) p = Some (key_of (sl_arena (cu_list c)) p)"
    "node_val (sl_arena (cu_list c)) p = Some (val_of (sl_arena (cu_list c)) p)"
    using skip_invD(8) [OF assms(1,2)] by (auto simp: node_wf_def key_of_def val_of_def)
  then show "cu_key c = Some (key_of (sl_arena (cu_list c)) p)" using assms(3) by (simp add: cu_key_def node_key_def)
  obtain nd off sz where "node_at (sl_arena (cu_list c)) p = Some nd" "get_value_offset nd = (off, sz)"
    "get_val (sl_arena (cu_list c)) off sz = Some (val_of (sl_arena (cu_list c)) p)"
    using node_val_read [OF wf(2)] .
  then show "cu_value c = Some (val_of (sl_arena (cu_list c)) p)" using assms(3) by (simp add: cu_value_def)
qed

lemma write_level0_chain:
  assumes "skip_inv (cu_list c) L" and "L 0 = ps @ qs" and "cu_item c = Some (last (sl_head (cu_list c) # ps))"
  shows "write_level0_loop c b = builder_add_all b (entries (sl_arena (cu_list c)) qs)"
  using assms
proof (induction qs arbitrary: c ps b)
  case Nil
  then have "cu_next c = Some (None, c\<lparr>cu_item := None\<rparr>)"
    using hd_next [OF Nil(1,2)] by (simp add: cu_next_def)
  then show ?case by (subst write_level0_loop.simps) simp
next
  case (Cons q qs)
  let ?c = "c\<lparr>cu_item := Some q\<rparr>"
  have "cu_next c = Some (Some q, ?c)"
    using hd_next [OF Cons.prems(1,2)] Cons.prems(3) by (simp add: cu_next_def)
  moreover have "cu_key ?c = Some (key_of (sl_arena (cu_list c)) q)" "cu_value ?c = Some (val_of (sl_arena (cu_list c)) q)"
    using cursor_reads [of ?c L q] Cons.prems by simp_all
  moreover have "write_level0_loop ?c b' = builder_add_all b' (entries (sl_arena (cu_list c)) qs)" for b'
    using Cons.prems Cons.IH [of ?c "ps @ [q]" b'] by simp
  ultimately show ?case by (subst write_level0_loop.simps) (simp cong: Option.bind_cong)
qed

lemma write_level0_items:
  assumes "skip_abs s kvs"
  shows "write_level0_loop (new_cursor s) b = builder_add_all b kvs"
proof -
  obtain L where L: "skip_inv s L" "kvs = entries (sl_arena s) (L 0)" using assms by (auto simp: skip_abs_def)
  have "skip_inv (incr_ref s) L" using L(1) by (simp add: incr_ref_def skip_inv_def)
  with write_level0_chain [of "new_cursor s" L "[]" "L 0" b] L(2) show ?thesis
    by (simp add: new_cursor_def cu_new_def incr_ref_def)
qed

lemma flushed_table:
  assumes "skip_abs s kvs" and "kvs \<noteq> []" "\<forall>e\<in>set kvs. entry_ok e" and "bloom_laws bl" "files_small bl (set kvs)"
    and "disk (new_file_name fid dir) = None"
  shows "\<exists>bytes t. write_level0_table bl s (new_file_name fid dir) disk = Some (disk(new_file_name fid dir \<mapsto> bytes))
    \<and> open_table bl bytes (new_file_name fid dir) = Some (Inr t) \<and> holds bl t kvs \<and> tb_id t = fid"
proof -
  obtain b where b: "builder_add_all builder_default kvs = Some b" using build_table [OF assms(2), of bl] by blast
  from built_table_holds [OF assms(4,2) skip_abs_sorted [OF assms(1)] assms(3,5) order_refl b, of fid dir]
  show ?thesis using b assms(6) by (auto simp: write_level0_table_def write_level0_items [OF assms(1)])
qed

subsection \<open>Moving the pairs\<close>

lemma mem_view_append: "mem_view (a @ b) k = (case mem_view a k of None \<Rightarrow> mem_view b k | Some r \<Rightarrow> Some r)"
  by (induction a) (auto split: option.splits)

lemma store_view_flush:
  assumes "\<forall>e\<in>set kvs. solid (snd e)"
  shows "store_view kvss (kvs @ lower) k = store_view (kvss @ [kvs]) lower k"
proof (cases "map_of kvs k")
  case (Some v)
  then have "solid v" using assms map_of_SomeD by fastforce
  with Some show ?thesis by (auto simp: store_view_def mem_view_append solid_def split: option.splits)
qed (simp add: store_view_def mem_view_append map_add_def split: option.splits)

lemma mem_view_head: "k \<noteq> HEAD_KEY \<Longrightarrow> mem_view (kvss @ [assoc_put HEAD_KEY v kvs]) k = mem_view (kvss @ [kvs]) k"
  by (simp add: mem_view_append split: option.splits)

text \<open>The oldest memtable is the last of the abstract ones.\<close>

lemma oldest:
  assumes "mem_ok sm kvss" and "sm_imm sm = mt # imm"
  obtains kvss' kvs where "kvss = kvss' @ [kvs]" "skip_abs (sm_lists sm mt) kvs" "\<forall>e\<in>set kvs. solid (snd e)"
    "mt \<noteq> sm_mt sm" "mt \<notin> set imm" "list_all2 skip_abs (map (sm_lists sm) (sm_mt sm # rev imm)) kvss'"
proof -
  have "list_all2 skip_abs (map (sm_lists sm) (sm_mt sm # rev imm) @ [sm_lists sm mt]) kvss"
    using assms by (simp add: mem_ok_def)
  then obtain kvss' kvs where "kvss = kvss' @ [kvs]" "skip_abs (sm_lists sm mt) kvs"
    "list_all2 skip_abs (map (sm_lists sm) (sm_mt sm # rev imm)) kvss'"
    by (fastforce simp: list_all2_append1 list_all2_Cons1 simp del: list.map)
  with that assms show thesis by (auto simp: mem_ok_def)
qed

lemma mem_ok_replace:
  assumes "mem_ok sm (kvss @ [kvs])" and "sm_imm sm = mt # imm" and "skip_abs s kvs'" and "\<forall>e\<in>set kvs'. solid (snd e)"
  shows "mem_ok (sm\<lparr>sm_lists := (sm_lists sm)(mt := s)\<rparr>) (kvss @ [kvs'])"
    and "mem_ok (sm\<lparr>sm_lists := (sm_lists sm)(mt := s), sm_imm := imm\<rparr>) kvss"
proof -
  from oldest [OF assms(1,2)] have o: "mt \<noteq> sm_mt sm" "mt \<notin> set imm" "list_all2 skip_abs (map (sm_lists sm) (sm_mt sm # rev imm)) kvss"
    by auto
  have "map ((sm_lists sm)(mt := s)) (sm_mt sm # rev imm) = map (sm_lists sm) (sm_mt sm # rev imm)" using o(1,2) by auto
  then have l: "list_all2 skip_abs (map ((sm_lists sm)(mt := s)) (sm_mt sm # rev imm)) kvss" using o(3) by (simp only:)
  then have "list_all2 skip_abs (map ((sm_lists sm)(mt := s)) (sm_mt sm # rev imm) @ [s]) (kvss @ [kvs'])"
    using assms(3) by (intro list_all2_appendI) simp_all
  with assms o(1,2) show "mem_ok (sm\<lparr>sm_lists := (sm_lists sm)(mt := s)\<rparr>) (kvss @ [kvs'])" by (auto simp: mem_ok_def)
  show "mem_ok (sm\<lparr>sm_lists := (sm_lists sm)(mt := s), sm_imm := imm\<rparr>) kvss" using l assms(1,2) by (auto simp: mem_ok_def)
qed

subsection \<open>What the flush needs\<close>

definition head_value :: "'bf kv \<Rightarrow> value_pointer \<Rightarrow> value_struct" where
  "head_value kv p = vs_new (vp_enc p) 0 0 (kv_last_used_cas_counter kv)"

definition flush_items :: "'bf kv \<Rightarrow> value_pointer \<Rightarrow> item list \<Rightarrow> item list" where
  "flush_items kv p kvs = (if vp_is_zero p then kvs else assoc_put HEAD_KEY (head_value kv p) kvs)"

definition manifest_paths :: "manifest_file \<Rightarrow> string set" where
  "manifest_paths mf = {path_join (mff_directory mf) MANIFEST_FILENAME, path_join (mff_directory mf) MANIFEST_REWRITE_FILENAME}
     \<union> fh_path ` set_option (mff_fp mf)"

text \<open>The log files are neither tables nor the manifest.\<close>

definition logs_apart :: "'bf kv \<Rightarrow> bool" where
  "logs_apart kv \<longleftrightarrow> (\<forall>(fid, lf)\<in>set (vl_vlogs (kv_vlog kv)). lf_path lf \<notin> manifest_paths (lc_manifest (kv_lc kv))
     \<and> lf_path lf \<noteq> new_file_name (lc_next_file_id (kv_lc kv)) (opt_dir (kv_opt kv)))"

text \<open>
  The number of the new table is unused, level 0 is not full, and the memtable and its head entry
  fit into a table file.
\<close>

definition flush_ready :: "'bf kv_env \<Rightarrow> 'bf kv \<Rightarrow> bool" where
  "flush_ready env kv \<longleftrightarrow> bloom_laws (ke_bl env) \<and> logs_apart kv
     \<and> mf_ok (mff_manifest (lc_manifest (kv_lc kv))) \<and> mff_fp (lc_manifest (kv_lc kv)) \<noteq> None
     \<and> mf_tables (mff_manifest (lc_manifest (kv_lc kv))) (lc_next_file_id (kv_lc kv)) = None
     \<and> kv_disk kv (new_file_name (lc_next_file_id (kv_lc kv)) (opt_dir (kv_opt kv))) = None
     \<and> (\<exists>h hs. lc_levels (kv_lc kv) = h # hs \<and> lh_level h = 0 \<and> length (lh_tables h) < opt_num_level_zero_tables_stall (lh_opt h))
     \<and> (case kv_flush_chan kv of [] \<Rightarrow> True | task # _ \<Rightarrow> \<forall>mt. ft_mt task = Some mt \<longrightarrow>
          (vp_is_zero (ft_vptr task) \<or> sl_room (sm_lists (kv_mem kv) mt) HEAD_KEY (head_value kv (ft_vptr task)))
          \<and> (\<forall>kvs. skip_abs (sm_lists (kv_mem kv) mt) kvs \<longrightarrow> flush_items kv (ft_vptr task) kvs \<noteq> []
               \<and> (\<forall>e\<in>set (flush_items kv (ft_vptr task) kvs). entry_ok e) \<and> files_small (ke_bl env) (set (flush_items kv (ft_vptr task) kvs))))"

lemma async_read_cong:
  assumes "\<forall>(fid, lf)\<in>set (vl_vlogs vl). disk' (lf_path lf) = disk (lf_path lf)"
  shows "async_read vl q disk' = async_read vl q disk"
proof -
  have "lf_read lf q disk' = lf_read lf q disk" if "pick_log_by_vlog_id vl (vp_fid q) = Some lf" for lf
    using that assms map_of_SomeD [of "vl_vlogs vl" "vp_fid q" lf]
    by (auto simp: pick_log_by_vlog_id_def lf_read_def mmap_slice_def split: option.splits)
  then show ?thesis by (simp add: async_read_def async_read_bytes_def cong: Option.bind_cong)
qed

lemma create_change:
  assumes "mf_ok (mff_manifest mf)" and "mff_fp mf \<noteq> None" and "mf_tables (mff_manifest mf) i = None"
  shows "\<exists>mf' disk'. add_changes pb order mf [mcb_build (mcb_with_op (mcb_with_level (mcb_new i) 0) CREATE)] disk = Some (Inr (), mf', disk')
    \<and> (\<forall>path. path \<notin> manifest_paths mf \<longrightarrow> disk' path = disk path)"
proof -
  let ?c = "mcb_build (mcb_with_op (mcb_with_level (mcb_new i) 0) CREATE)"
  have c: "change_ok ?c" "mch_op ?c = Inr CREATE" "mch_id ?c = i"
    by (simp_all add: change_ok_def mcb_build_def mcb_with_op_def mcb_with_level_def mcb_new_def)
  obtain m where m: "apply_manifest_change (mff_manifest mf) ?c = Some (Inr m)" "mf_ok m"
    using apply_create [OF assms(1) c(1,2)] assms(3) c(3) by auto
  then have "needs_rewrite (mf\<lparr>mff_manifest := m\<rparr>) \<noteq> None"
    by (auto simp: needs_rewrite_def mf_ok_def checked_sub_def Let_def)
  then obtain rw fp where "needs_rewrite (mf\<lparr>mff_manifest := m\<rparr>) = Some rw" "mff_fp mf = Some fp" using assms(2) by auto
  with m(1) show ?thesis
    by (cases rw) (auto simp: add_changes_def manifest_paths_def mff_rewrite_def file_help_rewrite_def fh_write_def Let_def)
qed

subsection \<open>The flush\<close>

lemma head_put:
  assumes m: "mem_ok sm (kvss @ [kvs])" "sm_imm sm = mt # imm"
    and room: "vp_is_zero p \<or> sl_room (sm_lists sm mt) HEAD_KEY (head_value kv p)"
  shows "\<exists>s. (if vp_is_zero p then Some sm else mt_put HEAD_KEY (head_value kv p) rnd mt sm) = Some (sm\<lparr>sm_lists := (sm_lists sm)(mt := s)\<rparr>)
    \<and> skip_abs s (flush_items kv p kvs) \<and> (\<forall>e\<in>set (flush_items kv p kvs). solid (snd e))"
proof -
  from oldest [OF m] have o: "skip_abs (sm_lists sm mt) kvs" "\<forall>e\<in>set kvs. solid (snd e)" by auto
  show ?thesis
  proof (cases "vp_is_zero p")
    case True
    with o show ?thesis by (intro exI [of _ "sm_lists sm mt"]) (simp add: flush_items_def)
  next
    case False
    then obtain s where s: "sl_put (sm_lists sm mt) HEAD_KEY (head_value kv p) rnd = Some s" "skip_abs s (assoc_put HEAD_KEY (head_value kv p) kvs)"
      using sl_put_abs [OF o(1)] room by blast
    have "vp_enc p \<noteq> []" by (metis vp_enc_length list.size(3) zero_neq_numeral)
    then have "solid (head_value kv p)" by (simp add: solid_def head_value_def vs_new_def)
    with s o(2) False assoc_put_solid [of kvs] show ?thesis by (auto simp: mt_put_def flush_items_def)
  qed
qed

lemma level0_grows:
  assumes lv: "lc_levels lc = h # hs" "lh_level h = 0" "length (lh_tables h) < opt_num_level_zero_tables_stall (lh_opt h)"
    and hold: "list_all2 (level_holds bl) (lc_levels lc) kvsss" and t: "holds bl t kvs"
    and mf: "mf_ok (mff_manifest (lc_manifest lc))" "mff_fp (lc_manifest lc) \<noteq> None" "mf_tables (mff_manifest (lc_manifest lc)) (tb_id t) = None"
  shows "\<exists>lc' refs' disk' kvsss'. add_level0_table wait pb order t lc refs disk = Some (Inr (), lc', refs', disk')
    \<and> list_all2 (level_holds bl) (lc_levels lc') kvsss' \<and> lower_items lc' kvsss' = kvs @ lower_items lc kvsss
    \<and> (\<forall>path. path \<notin> manifest_paths (lc_manifest lc) \<longrightarrow> disk' path = disk path)"
proof -
  obtain mf' disk' where c: "add_changes pb order (lc_manifest lc) [mcb_build (mcb_with_op (mcb_with_level (mcb_new (tb_id t)) 0) CREATE)] disk
      = Some (Inr (), mf', disk')" "\<forall>path. path \<notin> manifest_paths (lc_manifest lc) \<longrightarrow> disk' path = disk path"
    using create_change [OF mf] by blast
  define h' where "h' = (incr_total_size h (of_nat (tb_size t)))\<lparr>lh_tables := lh_tables h @ [t]\<rparr>"
  define lc' where "lc' = lc\<lparr>lc_manifest := mf', lc_levels := h' # hs\<rparr>"
  have h': "lh_level h' = 0" "lh_tables h' = lh_tables h @ [t]" using lv(2) by (simp_all add: h'_def incr_total_size_def)
  have add: "add_level0_table wait pb order t lc refs disk = Some (Inr (), lc', ref_incr refs (tb_id t), disk')"
    using c(1) lv by (simp add: add_level0_table_def add_level0_loop.simps try_add_level0_table_def lc'_def h'_def)
  obtain kvss0 kvsss0 where k: "kvsss = kvss0 # kvsss0" "level_holds bl h kvss0" "list_all2 (level_holds bl) hs kvsss0"
    using hold lv(1) by (auto simp: list_all2_Cons1)
  have "list_all2 (level_holds bl) (lc_levels lc') ((kvss0 @ [kvs]) # kvsss0)"
    using k(2,3) t h' lv(2) by (simp add: lc'_def level_holds_def list_all2_appendI)
  moreover have "lower_items lc' ((kvss0 @ [kvs]) # kvsss0) = kvs @ lower_items lc kvsss"
    using h' lv(1,2) k(1) by (simp add: lower_items_def lc'_def level_items_def)
  ultimately show ?thesis using add c(2) by blast
qed

lemma answers_disk:
  assumes "answers kv r x" and "kv_vlog kv' = kv_vlog kv"
    and "\<forall>(fid, lf)\<in>set (vl_vlogs (kv_vlog kv)). kv_disk kv' (lf_path lf) = kv_disk kv (lf_path lf)"
  shows "answers kv' r x"
proof -
  have "async_read (kv_vlog kv) q (kv_disk kv') = async_read (kv_vlog kv) q (kv_disk kv)" for q by (rule async_read_cong [OF assms(3)])
  then show ?thesis using answers_kept [OF assms(1), of kv'] assms(2) by simp
qed

lemma ready_disk:
  assumes "vl_ready vl disk cur m" and "\<forall>(fid, lf)\<in>set (vl_vlogs vl). disk' (lf_path lf) = disk (lf_path lf)"
  shows "vl_ready vl disk' cur m"
  using assms map_of_SomeD [of "vl_vlogs vl" "vl_max_fid vl" cur] by (fastforce simp: vl_ready_def pick_log_by_vlog_id_def)

lemma flush_one_run:
  assumes "ft_mt task = Some mt"
    and "(if vp_is_zero (ft_vptr task) then Some (kv_mem kv)
          else mt_put HEAD_KEY (vs_new (vp_enc (ft_vptr task)) 0 0 (kv_last_used_cas_counter kv)) rnd mt (kv_mem kv)) = Some mem"
    and "f = new_file_name (lc_next_file_id (kv_lc kv)) (opt_dir (kv_opt kv))"
    and "write_level0_table (ke_bl env) (sm_lists mem mt) f (kv_disk kv) = Some disk1" and "open_table (ke_bl env) (the (disk1 f)) f = Some (Inr t)"
    and "add_level0_table wait (ke_pb env) order t ((kv_lc kv)\<lparr>lc_next_file_id := lc_next_file_id (kv_lc kv) + 1\<rparr>) ((kv_refs kv)(tb_id t := 1)) disk1
      = Some (Inr (), lc, refs, disk2)"
    and "sm_imm mem = mt # imm"
  shows "flush_one env wait order rnd task kv = Some (Inr True, kv\<lparr>kv_mem := mem\<lparr>sm_imm := imm, sm_lists := (sm_lists mem)(mt := decr_ref (sm_lists mem mt))\<rparr>,
     kv_lc := lc, kv_refs := ref_decr refs (tb_id t), kv_disk := disk2\<rparr>)"
  unfolding flush_one_def assms(1) option.case assms(2) Option.bind.bind_lunit
  using assms(3-) by (simp add: reserve_file_id_def advance_imm_def Let_def)

lemma flushed_rep:
  assumes rep: "kv_rep env kv (kvss @ [kvs]) kvsss cur m M" and imm: "sm_imm (kv_mem kv) = mt # imm" and apart: "logs_apart kv"
    and kv': "map ft_mt (kv_flush_chan kv') = map Some imm" "kv_opt kv' = kv_opt kv" "kv_vlog kv' = kv_vlog kv"
      "kv_mem kv' = (kv_mem kv)\<lparr>sm_lists := (sm_lists (kv_mem kv))(mt := s), sm_imm := imm\<rparr>"
    and s: "skip_abs s (flush_items kv p kvs)" "\<forall>e\<in>set (flush_items kv p kvs). solid (snd e)"
    and lower: "list_all2 (level_holds (ke_bl env)) (lc_levels (kv_lc kv')) kvsss'"
      "lower_items (kv_lc kv') kvsss' = flush_items kv p kvs @ lower_items (kv_lc kv) kvsss"
    and disk: "\<forall>path. path \<notin> manifest_paths (lc_manifest (kv_lc kv)) \<longrightarrow>
      path \<noteq> new_file_name (lc_next_file_id (kv_lc kv)) (opt_dir (kv_opt kv)) \<longrightarrow> kv_disk kv' path = kv_disk kv path"
  shows "kv_rep env kv' kvss kvsss' cur m M"
proof -
  have mem: "mem_ok (kv_mem kv) (kvss @ [kvs])" using rep by (simp add: kv_rep_def)
  have logs: "\<forall>(fid, lf)\<in>set (vl_vlogs (kv_vlog kv)). kv_disk kv' (lf_path lf) = kv_disk kv (lf_path lf)"
    using apart disk by (fastforce simp: logs_apart_def)
  have "answers kv' (store_view kvss (lower_items (kv_lc kv') kvsss') k) (M k)" if "k \<noteq> HEAD_KEY" for k
  proof -
    have "mem_view (kvss @ [flush_items kv p kvs]) k = mem_view (kvss @ [kvs]) k"
      using mem_view_head [OF that] by (simp add: flush_items_def)
    then have "store_view kvss (lower_items (kv_lc kv') kvsss') k = store_view (kvss @ [kvs]) (lower_items (kv_lc kv) kvsss) k"
      using store_view_flush [OF s(2), of kvss _ k] lower(2) by (simp add: store_view_def)
    moreover have "answers kv (store_view (kvss @ [kvs]) (lower_items (kv_lc kv) kvsss) k) (M k)"
      using rep that by (simp add: kv_rep_def)
    ultimately show ?thesis using answers_disk [OF _ kv'(3) logs] by simp
  qed
  moreover have "mem_ok (kv_mem kv') kvss" using mem_ok_replace(2) [OF mem imm s] kv'(4) by simp
  moreover have "vl_ready (kv_vlog kv') (kv_disk kv') cur m" using ready_disk [OF _ logs] rep kv'(3) by (simp add: kv_rep_def)
  ultimately show ?thesis using rep kv' lower(1) by (simp add: kv_rep_def tasks_ok_def)
qed

lemma flush_rep:
  assumes rep: "kv_rep env kv kvss kvsss cur m M" and ready: "flush_ready env kv" and chan: "kv_flush_chan kv \<noteq> []"
  shows "\<exists>kv' kvss' kvsss'. flush_mem_table env wait order rnd kv = Some (Inr True, kv') \<and> kv_rep env kv' kvss' kvsss' cur m M
    \<and> kv_opt kv' = kv_opt kv \<and> kv_flush_chan kv' = tl (kv_flush_chan kv) \<and> must_mt kv' = must_mt kv"
proof -
  let ?mem = "kv_mem kv" and ?lc = "kv_lc kv" and ?fid = "lc_next_file_id (kv_lc kv)"
  let ?name = "new_file_name ?fid (opt_dir (kv_opt kv))"
  from chan obtain task tasks where ch: "kv_flush_chan kv = task # tasks" by (cases "kv_flush_chan kv") auto
  obtain mt imm where mt: "ft_mt task = Some mt" "sm_imm ?mem = mt # imm" "map ft_mt tasks = map Some imm"
    using rep ch by (auto simp: kv_rep_def tasks_ok_def Cons_eq_map_conv)
  have mem: "mem_ok ?mem kvss" and hold: "list_all2 (level_holds (ke_bl env)) (lc_levels ?lc) kvsss"
    using rep by (simp_all add: kv_rep_def)
  obtain kvss' kvs where k: "kvss = kvss' @ [kvs]" "skip_abs (sm_lists ?mem mt) kvs" using oldest [OF mem mt(2)] by metis
  define kvs' where "kvs' = flush_items kv (ft_vptr task) kvs"
  have fr: "bloom_laws (ke_bl env)" "logs_apart kv" "mf_ok (mff_manifest (lc_manifest ?lc))" "mff_fp (lc_manifest ?lc) \<noteq> None"
    "mf_tables (mff_manifest (lc_manifest ?lc)) ?fid = None" "kv_disk kv ?name = None"
    "vp_is_zero (ft_vptr task) \<or> sl_room (sm_lists ?mem mt) HEAD_KEY (head_value kv (ft_vptr task))"
    "kvs' \<noteq> []" "\<forall>e\<in>set kvs'. entry_ok e" "files_small (ke_bl env) (set kvs')"
    using ready ch mt(1) k(2) by (auto simp: flush_ready_def kvs'_def)
  obtain s where s: "(if vp_is_zero (ft_vptr task) then Some ?mem else mt_put HEAD_KEY (head_value kv (ft_vptr task)) rnd mt ?mem)
      = Some (?mem\<lparr>sm_lists := (sm_lists ?mem)(mt := s)\<rparr>)" "skip_abs s kvs'" "\<forall>e\<in>set kvs'. solid (snd e)"
    using head_put [OF mem [unfolded k(1)] mt(2) fr(7)] unfolding kvs'_def by blast
  obtain bytes t where t: "write_level0_table (ke_bl env) s ?name (kv_disk kv) = Some ((kv_disk kv)(?name \<mapsto> bytes))"
    "open_table (ke_bl env) bytes ?name = Some (Inr t)" "holds (ke_bl env) t kvs'" "tb_id t = ?fid"
    using flushed_table [OF s(2) fr(8,9,1,10), of "kv_disk kv" ?fid] fr(6) by blast
  define lc1 where "lc1 = ?lc\<lparr>lc_next_file_id := ?fid + 1\<rparr>"
  obtain h hs where lv: "lc_levels lc1 = h # hs" "lh_level h = 0" "length (lh_tables h) < opt_num_level_zero_tables_stall (lh_opt h)"
    using ready by (auto simp: flush_ready_def lc1_def)
  obtain lc2 refs2 disk2 kvsss' where add: "add_level0_table wait (ke_pb env) order t lc1 ((kv_refs kv)(tb_id t := 1)) ((kv_disk kv)(?name \<mapsto> bytes))
      = Some (Inr (), lc2, refs2, disk2)" "list_all2 (level_holds (ke_bl env)) (lc_levels lc2) kvsss'"
    "lower_items lc2 kvsss' = kvs' @ lower_items lc1 kvsss"
    "\<forall>path. path \<notin> manifest_paths (lc_manifest lc1) \<longrightarrow> disk2 path = ((kv_disk kv)(?name \<mapsto> bytes)) path"
    using level0_grows [OF lv _ t(3)] hold fr(3-5) t(4) unfolding lc1_def by fastforce
  define kv' where "kv' = kv\<lparr>kv_flush_chan := tasks, kv_lc := lc2, kv_refs := ref_decr refs2 (tb_id t), kv_disk := disk2,
    kv_mem := ?mem\<lparr>sm_lists := (sm_lists ?mem)(mt := decr_ref s), sm_imm := imm\<rparr>\<rparr>"
  let ?kv = "kv\<lparr>kv_flush_chan := tasks\<rparr>" and ?m = "?mem\<lparr>sm_lists := (sm_lists ?mem)(mt := s)\<rparr>"
  have "flush_one env wait order rnd task ?kv = Some (Inr True, ?kv\<lparr>kv_mem := ?m\<lparr>sm_imm := imm, sm_lists := (sm_lists ?m)(mt := decr_ref (sm_lists ?m mt))\<rparr>,
     kv_lc := lc2, kv_refs := ref_decr refs2 (tb_id t), kv_disk := disk2\<rparr>)"
  proof (rule flush_one_run [OF mt(1), where f = ?name and mem = ?m and imm = imm])
    show "(if vp_is_zero (ft_vptr task) then Some (kv_mem ?kv)
          else mt_put HEAD_KEY (vs_new (vp_enc (ft_vptr task)) 0 0 (kv_last_used_cas_counter ?kv)) rnd mt (kv_mem ?kv)) = Some ?m"
      using s(1) by (simp add: head_value_def cong: if_cong split del: if_split)
  qed (use t add(1) mt(2) in \<open>simp_all add: lc1_def\<close>)
  then have "flush_one env wait order rnd task ?kv = Some (Inr True, kv')" by (simp add: kv'_def)
  then have "flush_mem_table env wait order rnd kv = Some (Inr True, kv')" by (simp add: flush_mem_table_def ch)
  moreover have "skip_abs (decr_ref s) kvs'" using s(2) by (simp add: skip_abs_def skip_inv_def decr_ref_def)
  then have "kv_rep env kv' kvss' kvsss' cur m M"
    using s(3) add(2-4) mt(3) unfolding kvs'_def
    by (intro flushed_rep [OF rep [unfolded k(1)] mt(2) fr(2)]) (simp_all add: kv'_def lower_items_def lc1_def)
  moreover have "sm_mt ?mem \<noteq> mt" using mem mt(2) by (auto simp: mem_ok_def)
  then have "kv_opt kv' = kv_opt kv \<and> kv_flush_chan kv' = tl (kv_flush_chan kv) \<and> must_mt kv' = must_mt kv"
    by (simp add: kv'_def ch must_mt_def mt_ref_def)
  ultimately show ?thesis by blast
qed

subsection \<open>The store refines the map\<close>

abbreviation set_entry :: "bytes \<Rightarrow> bytes \<Rightarrow> byte \<Rightarrow> entry" where
  "set_entry k v um \<equiv> entry_default\<lparr>en_key := k, en_value := v, en_user_meta := um\<rparr>"

abbreviation delete_entry :: "bytes \<Rightarrow> entry" where
  "delete_entry k \<equiv> entry_default\<lparr>en_key := k, en_meta := BIT_DELETE\<rparr>"

lemma kv_get_inv:
  assumes "kv_inv env kv M" and "k \<noteq> HEAD_KEY"
  shows "\<exists>kv'. kv_get env kv k = Some (case M k of None \<Rightarrow> Inl NotFound | Some v \<Rightarrow> Inr v, kv') \<and> kv_inv env kv' M"
proof -
  obtain kvss kvsss cur m where rep: "kv_rep env kv kvss kvsss cur m M" using assms(1) by (auto simp: kv_inv_def)
  obtain refs where "kv_get env kv k = Some (case M k of None \<Rightarrow> Inl NotFound | Some v \<Rightarrow> Inr v, kv\<lparr>kv_refs := refs\<rparr>)"
    using kv_get_map [OF rep assms(2)] by blast
  moreover have "kv_rep env (kv\<lparr>kv_refs := refs\<rparr>) kvss kvsss cur m M" by (rule kv_rep_same [OF rep]) simp_all
  ultimately show ?thesis by (auto simp: kv_inv_def)
qed

lemma set_one_inv:
  assumes "kv_inv env kv M" and "kv_room env kv (numbered kv e)" and "plain e"
  shows "\<exists>kv'. set_one env wait rnds e kv = Some (Inr (), kv') \<and> kv_inv env kv' (written e M)"
proof -
  obtain kvss kvsss cur m where rep: "kv_rep env kv kvss kvsss cur m M" using assms(1) by (auto simp: kv_inv_def)
  obtain kv' kvss' m' where w: "write_requests env wait (rnds 0) [[e]] kv = Some ([[Inr ()]], kv')"
    "kv_rep env kv' kvss' kvsss cur m' (written e M)"
    using write_requests_plain [OF rep assms(2,3)] by blast
  have "entry_too_big (kv_opt kv) e = None" using assms(2) by (auto simp: kv_room_def entry_too_big_def numbered_def split: if_splits)
  from set_one_requests [OF this, of env wait rnds "Inr ()" kv'] w show ?thesis by (auto simp: kv_inv_def)
qed

text \<open>
  C1. The store is a map. In every state that represents a map \<open>M\<close> from keys to values, across the
  memtables, the tables of the levels and the value log: \<open>KV::get\<close> answers exactly \<open>M\<close> (for any key
  but the head key, which the store keeps for itself); \<open>KV::set\<close> of a non-empty value
  succeeds and leads to a state that represents \<open>M\<close> with the new value; \<open>KV::delete\<close> succeeds and
  leads to \<open>M\<close> without the key; and a flush of the oldest memtable to level 0 succeeds and leaves
  the map unchanged. A write needs room in the value log and in the memtable,
  after a full memtable has been replaced; a flush needs room on level 0 and an unused table number.
\<close>

theorem store_refines_map:
  assumes "kv_inv env kv M" and "k \<noteq> HEAD_KEY"
  shows "(\<exists>kv'. kv_get env kv k = Some (case M k of None \<Rightarrow> Inl NotFound | Some v \<Rightarrow> Inr v, kv') \<and> kv_inv env kv' M)
    \<and> (kv_room env kv (numbered kv (set_entry k v um)) \<longrightarrow> v \<noteq> [] \<longrightarrow>
         (\<exists>kv'. kv_set env wait rnds k v um kv = Some (Inr (), kv') \<and> kv_inv env kv' (M(k \<mapsto> v))))
    \<and> (kv_room env kv (numbered kv (delete_entry k)) \<longrightarrow>
         (\<exists>kv'. kv_delete env wait rnds k kv = Some (Inr (), kv') \<and> kv_inv env kv' (M(k := None))))
    \<and> (kv_flush_chan kv \<noteq> [] \<longrightarrow> flush_ready env kv \<longrightarrow>
         (\<exists>kv'. flush_mem_table env waitlc order rnd kv = Some (Inr True, kv') \<and> kv_inv env kv' M))"
proof (intro conjI impI)
  show "\<exists>kv'. kv_get env kv k = Some (case M k of None \<Rightarrow> Inl NotFound | Some v \<Rightarrow> Inr v, kv') \<and> kv_inv env kv' M"
    by (rule kv_get_inv [OF assms])
next
  assume "kv_room env kv (numbered kv (set_entry k v um))" and "v \<noteq> []"
  then show "\<exists>kv'. kv_set env wait rnds k v um kv = Some (Inr (), kv') \<and> kv_inv env kv' (M(k \<mapsto> v))"
    using set_one_inv [OF assms(1), of "set_entry k v um"] by (simp add: kv_set_def plain_def written_def entry_default_def)
next
  assume "kv_room env kv (numbered kv (delete_entry k))"
  then show "\<exists>kv'. kv_delete env wait rnds k kv = Some (Inr (), kv') \<and> kv_inv env kv' (M(k := None))"
    using set_one_inv [OF assms(1), of "delete_entry k"] by (simp add: kv_delete_def plain_def written_def entry_default_def)
next
  assume "kv_flush_chan kv \<noteq> []" "flush_ready env kv"
  then show "\<exists>kv'. flush_mem_table env waitlc order rnd kv = Some (Inr True, kv') \<and> kv_inv env kv' M"
    using assms(1) flush_rep unfolding kv_inv_def by metis
qed

text \<open>A store with a fresh memtable, a second one that waits to be flushed, and a table on level 0.\<close>

definition example_list :: skip_list where
  "example_list = the (sl_new 400 1)"

definition example_full_list :: skip_list where
  "example_full_list = the (sl_put (the (sl_new 400 0)) [1] (snd (example_item 1)) (\<lambda>_. 0))"

definition example_env :: "unit kv_env" where
  "example_env = \<lparr>ke_bl = example_bloom, ke_pb = example_pb, ke_vl = example_vl_env\<rparr>"

definition example_kv :: "unit kv" where
  "example_kv = \<lparr>kv_opt = vl_opt example_vlog, kv_vlog = example_vlog, kv_vptr = None, kv_lc = example_levels,
     kv_flush_chan = [\<lparr>ft_mt = Some 0, ft_vptr = vp_default\<rparr>],
     kv_mem = \<lparr>sm_lists = (\<lambda>a. if a = 0 then example_full_list else example_list), sm_next = 2, sm_mt = 1, sm_imm = [0], sm_mt_seq = 1\<rparr>,
     kv_last_used_cas_counter = 1, kv_refs = (\<lambda>_. 1), kv_disk = example_vlog_disk\<rparr>"

lemma node_new_cap: "node_new a key v h = Some (p, a') \<Longrightarrow> da_cap a' = da_cap a"
  by (auto simp: node_new_def put_key_def put_val_def put_node_def da_alloc_def da_alloc_rev_def bind_eq_Some_conv Let_def split: if_splits)

lemma example_lists:
  "skip_abs example_list []" "skip_abs example_full_list [example_item 1]"
  "mem_size example_list < ucast (64 * 2 ^ 20 :: u64)" "sl_free example_list = 294"
proof -
  obtain s where s: "sl_new 400 1 = Some s" "skip_abs s []" "da_head (sl_arena s) = 104" "da_tail (sl_arena s) + 10 = 408"
    using sl_new_abs [of 400 1] by auto
  then have e: "example_list = s" by (simp add: example_list_def)
  have "da_cap (sl_arena s) = 408"
    using s(1) node_new_cap by (fastforce simp: sl_new_def arena_new_def da_new_def PtrAlign_def bind_eq_Some_conv cals_size_with_align_8)
  then show "mem_size example_list < ucast (64 * 2 ^ 20 :: u64)" using s(3,4) e by (simp add: mem_size_def arena_size_def da_len_def)
  show "skip_abs example_list []" "sl_free example_list = 294" using s e by (simp_all add: sl_free_def)
  obtain s0 where s0: "sl_new 400 0 = Some s0" "skip_abs s0 []" "da_head (sl_arena s0) = 104" "da_tail (sl_arena s0) + 10 = 408"
    using sl_new_abs [of 400 0] by auto
  then have "sl_room s0 [1] (snd (example_item 1))"
    by (simp add: sl_room_def example_item_def vs_size_def vs_header_size_def)
  then show "skip_abs example_full_list [example_item 1]"
    using sl_put_abs [OF s0(2), of "[1]" "snd (example_item 1)" "\<lambda>_. 0"] s0(1)
    by (auto simp: example_full_list_def example_item_def)
qed

lemma sorted_assoc_unique:
  fixes a b :: "('k::linorder \<times> 'v) list"
  assumes "strictly_sorted (map fst a)" and "strictly_sorted (map fst b)" and m: "map_of a = map_of b"
  shows "a = b"
proof -
  have d: "distinct (map fst a)" "distinct (map fst b)" "sorted (map fst a)" "sorted (map fst b)"
    using assms(1,2) by (simp_all add: strict_sorted_iff)
  have "set (map fst a) = set (map fst b)" using m by (metis dom_map_of_conv_image_fst list.set_map)
  then have k: "map fst a = map fst b" using d by (intro sorted_distinct_set_unique) auto
  have e: "map (\<lambda>k. (k, the (map_of xs k))) (map fst xs) = xs" if "distinct (map fst xs)" for xs :: "('k \<times> 'v) list"
    unfolding map_map by (rule map_idI) (auto simp: that)
  from e [OF d(1)] e [OF d(2)] show ?thesis unfolding k m by (rule trans [OF sym])
qed

lemma skip_abs_unique: "skip_abs s a \<Longrightarrow> skip_abs s b \<Longrightarrow> a = b"
  using sl_get_abs [of s a] sl_get_abs [of s b] by (intro sorted_assoc_unique skip_abs_sorted ext) auto

lemma example_item_read:
  "solid (snd (example_item 1))" "\<not> deleted (snd (example_item 1))" "fst (example_item 1) = [1]"
  "answers kv (Inr (snd (example_item 1))) (Some [1])"
  by (simp_all add: solid_def deleted_def example_item_def in_log_def yield_item_value_def item_has_value_def answers_def)

lemma example_levels_rep:
  "list_all2 (level_holds example_bloom) (lc_levels example_levels) [[[example_item 1]], []]"
  "lower_items example_levels [[[example_item 1]], []] = [example_item 1]"
  using example_may_compact by (simp_all add: may_compact_def idle_levels_def lower_items_def example_levels_def level_items_def lh_new_def)

lemma example_view:
  "store_view [[], [example_item 1]] [example_item 1] k = (if k = [1] then Inr (snd (example_item 1)) else Inl NotFound)"
  "store_view [[example_item 1]] [example_item 1] k = (if k = [1] then Inr (snd (example_item 1)) else Inl NotFound)"
  using example_item_read(1-3) by (cases "example_item 1"; simp add: store_view_def solid_def)+

lemma example_arena_fits: "arena_fits (kv_opt example_kv)"
  by (simp add: arena_fits_def example_kv_def example_vlog_def options_default_def opt_arena_size_def node_size_def MAX_HEIGHT_def)

lemma answers_none [simp]: "answers kv (Inl NotFound) None"
  by (simp add: answers_def)

declare example_item_read(4) [simp]

lemma example_kv_rep:
  "kv_rep example_env example_kv [[], [example_item 1]] [[[example_item 1]], []] example_log_file (replicate (2 ^ 21) 0) [[1] \<mapsto> [1]]"
proof -
  have "mem_ok (kv_mem example_kv) [[], [example_item 1]]"
    using example_lists example_item_read(1) by (simp add: mem_ok_def example_kv_def)
  moreover have "kv_lc example_kv = example_levels" "tasks_ok example_kv" "ke_bl example_env = example_bloom"
    "kv_vlog example_kv = example_vlog" "vl_opt example_vlog = kv_opt example_kv" "kv_disk example_kv = example_vlog_disk"
    by (simp_all add: example_kv_def tasks_ok_def example_env_def)
  ultimately show ?thesis
    using example_vl_ready example_levels_rep example_arena_fits by (simp add: kv_rep_def example_view)
qed

lemma example_kv_inv: "kv_inv example_env example_kv [[1] \<mapsto> [1]]"
  using example_kv_rep by (auto simp: kv_inv_def)

lemma example_kv_room:
  assumes "en_key e = [1]" and "length (en_value e) \<le> 100"
  shows "kv_room example_env example_kv (numbered example_kv e)"
proof -
  have "ensure_room_for_write example_kv = Some (Inr (), example_kv)"
    using example_lists(3) by (simp add: ensure_room_for_write_def example_kv_def must_mt_def mt_ref_def example_vlog_def options_default_def)
  moreover have "sl_room (must_mt example_kv) [1] v" if "vs_size v \<le> 122" for v
    using that example_lists(4) by (intro sl_room_free) (simp_all add: put_cost_def put_small_def example_kv_def must_mt_def mt_ref_def)
  moreover have "log_map example_kv = replicate (2 ^ 21) 0"
    using example_vl_ready by (simp add: log_map_def vl_ready_def example_kv_def)
  moreover have "batch_fits example_vl_env example_vlog (replicate (2 ^ 21) 0) [numbered example_kv e]"
    using assms by (simp add: batch_fits_def example_vlog_def entry_small_def entry_image_length options_default_def numbered_def batch_image_def)
  ultimately show ?thesis
    using assms by (auto simp: kv_room_def example_env_def entry_too_big_def MAX_KEY_SIZE_def numbered_def example_kv_def example_vlog_def options_default_def)
qed

lemma example_flush_ready: "flush_ready example_env example_kv"
proof -
  have path: "lf_path example_log_file = ''db/000000.vlog''" "path_join ''db'' MANIFEST_FILENAME = ''db/MANIFEST''"
    "path_join ''db'' MANIFEST_REWRITE_FILENAME = ''db/MANIFEST-REWRITE''" "new_file_name 2 ''db'' = ''db/2.sst''"
    by code_simp+
  then have "logs_apart example_kv"
    by (simp add: logs_apart_def example_kv_def example_vlog_def manifest_paths_def example_levels_def example_mf_def options_default_def)
  moreover have "bloom_laws example_bloom" by (simp add: bloom_laws_def example_bloom_def)
  moreover have "kv_disk example_kv (new_file_name 2 ''db'') = None"
    using path by (simp add: example_kv_def example_vlog_disk_def example_log_file_def)
  moreover have "flush_items example_kv vp_default kvs = [example_item 1]" if "skip_abs example_full_list kvs" for kvs
    using skip_abs_unique [OF that example_lists(2)] by (simp add: flush_items_def vp_is_zero_def vp_default_def)
  moreover have "entry_ok (example_item 1)" by (simp add: entry_ok_def example_item_def vs_size_def vs_header_size_def)
  moreover have "vp_is_zero vp_default" "kv_flush_chan example_kv = [\<lparr>ft_mt = Some 0, ft_vptr = vp_default\<rparr>]"
    "sm_lists (kv_mem example_kv) 0 = example_full_list" "kv_lc example_kv = example_levels" "opt_dir (kv_opt example_kv) = ''db''"
    by (simp_all add: vp_is_zero_def vp_default_def example_kv_def example_vlog_def options_default_def)
  moreover have "ke_bl example_env = example_bloom" by (simp add: example_env_def)
  ultimately show ?thesis
    using example_files_small [of 1] mf_ok_new
    by (simp add: flush_ready_def example_levels_def example_mf_def lh_new_def options_default_def manifest_new_def)
qed

text \<open>Non-vacuity of C1: reading, overwriting and deleting a key, and flushing.\<close>

theorem store_refines_map_witness:
  "(\<exists>kv'. kv_get example_env example_kv [1] = Some (Inr [1], kv'))
   \<and> (\<exists>kv'. kv_set example_env Some (\<lambda>_ _ _ _. 0) [1] (replicate 32 7) 0 example_kv = Some (Inr (), kv')
        \<and> kv_inv example_env kv' [[1] \<mapsto> replicate 32 7])
   \<and> (\<exists>kv'. kv_delete example_env Some (\<lambda>_ _ _ _. 0) [1] example_kv = Some (Inr (), kv') \<and> kv_inv example_env kv' Map.empty)
   \<and> (\<exists>kv'. flush_mem_table example_env (\<lambda>lc refs disk. Some (lc, refs, disk)) [] (\<lambda>_. 0) example_kv = Some (Inr True, kv')
        \<and> kv_inv example_env kv' [[1] \<mapsto> [1]])"
proof -
  have "[1] \<noteq> HEAD_KEY" by (simp add: HEAD_KEY_def)
  from store_refines_map [OF example_kv_inv this, where v = "replicate 32 7" and um = 0 and wait = Some and rnds = "\<lambda>_ _ _ _. 0"
      and waitlc = "\<lambda>lc refs disk. Some (lc, refs, disk)" and order = "[]" and rnd = "\<lambda>_. 0"]
    example_kv_room [of "set_entry [1] (replicate 32 7) 0"] example_kv_room [of "delete_entry [1]"] example_flush_ready
  show ?thesis by (auto simp: example_kv_def entry_default_def)
qed

end
