(* ===== verification/Iterator_Correct.thy ===== *)
theory Iterator_Correct
  imports Kv_Iterator Kv_Flush
begin

section \<open>Iterating enumerates the map\<close>

text \<open>
  The queue of fetched items and the position of the merge together hold the live pairs that are
  still to come. \<open>rewind\<close> fills the queue, \<open>next\<close> moves it by one, and the loop over both hands over
  every live pair once, in order.
\<close>

subsection \<open>Items and the queue\<close>

definition live :: "item \<Rightarrow> bool" where
  "live e \<longleftrightarrow> \<not> starts_with (fst e) BADGER_PREFIX \<and> \<not> deleted (snd e)"

definition made :: "'bf kv \<Rightarrow> item \<Rightarrow> kv_item \<Rightarrow> bool" where
  "made kv e item \<longleftrightarrow> ki_key item = fst e \<and> ki_user_meta item = vs_user_meta (snd e) \<and> item_get_value kv item = yield_item_value kv (snd e)"

definition readable :: "'bf kv \<Rightarrow> item list \<Rightarrow> bool" where
  "readable kv es \<longleftrightarrow> (\<forall>e\<in>set es. live e \<longrightarrow> yield_item_value kv (snd e) \<noteq> None)"

lemma fill_made:
  assumes "mi_peek (ie_itr ie) = Some e" and "yield_item_value kv (snd e) = Some r"
  shows "\<exists>item. fill kv ie new_item = Some item \<and> made kv e item"
proof -
  obtain key vs where e: "e = (key, vs)" by (cases e)
  define item where "item = new_item\<lparr>ki_meta := vs_meta vs, ki_user_meta := vs_user_meta vs, ki_cas_counter := vs_cas_counter vs,
    ki_key := key, ki_vptr := vs_value vs\<rparr>"
  have vs: "item_vs item = vs" by (simp add: item_def item_vs_def vs_new_def)
  have new: "ki_status item = FetchEmpty" "ki_key item = key" "ki_value item = []" "ki_user_meta item = vs_user_meta vs"
    by (simp_all add: item_def new_item_def)
  have fill: "fill kv ie new_item = (if io_pre_fetch_values (ie_opt ie) then pre_fetch_value kv item else Some item)"
    using assms(1) by (simp add: fill_def e item_def new_item_def)
  show ?thesis
  proof (cases "io_pre_fetch_values (ie_opt ie)")
    case True
    then show ?thesis
      using fill assms(2) vs new by (cases r) (auto simp: pre_fetch_value_def made_def item_get_value_def e item_vs_def)
  next
    case False
    then show ?thesis using fill new vs by (simp add: made_def item_get_value_def e)
  qed
qed

definition queued :: "'bf kv \<Rightarrow> 'bf iterator_ext \<Rightarrow> item list \<Rightarrow> bool" where
  "queued kv ie F \<longleftrightarrow> (case ie_item ie of None \<Rightarrow> F = [] \<and> ie_data ie = [] | Some i \<Rightarrow> list_all2 (made kv) F (i # ie_data ie))"

definition rest_at :: "item list \<Rightarrow> 'bf any_iter merge_iterator \<Rightarrow> bool" where
  "rest_at ys itr \<longleftrightarrow> (\<exists>x. produces (x # ys) itr) \<or> ys = [] \<and> produces [] itr"

lemma queued_itr [simp]: "queued kv (ie\<lparr>ie_itr := itr\<rparr>) F = queued kv ie F"
  by (simp add: queued_def split: option.splits)

lemma queued_keep: "queued kv ie F \<Longrightarrow> made kv e item \<Longrightarrow> queued kv (keep_item item ie) (F @ [e])"
  by (auto simp: queued_def keep_item_def list_all2_appendI simp flip: append_Cons split: option.splits)

lemma produces_peek: "produces xs mi \<Longrightarrow> mi_peek mi = hd_opt xs"
  by (cases xs) simp_all

lemma merge_rewind_peek: "merge_rewind ops mi = Some (r, mi') \<Longrightarrow> mi_peek mi' = r"
  by (auto simp: merge_rewind_def bind_eq_Some_conv dest: merge_next_peek split: if_splits) (simp add: set_iter_empty_def mi_peek_def)

lemma rest_next:
  assumes "rest_at ys (ie_itr ie)"
  shows "\<exists>itr. itr_next ie = Some (hd_opt ys, ie\<lparr>ie_itr := itr\<rparr>) \<and> produces ys itr"
proof -
  from assms obtain r itr where "merge_next any_ops (ie_itr ie) = Some (r, itr)" "produces ys itr" by (auto simp: rest_at_def)
  with merge_next_peek produces_peek show ?thesis by (fastforce simp: itr_next_def)
qed

lemma pre_fetch_loop_ok:
  assumes "produces ys (ie_itr ie)" and "queued kv ie F" and "cnt < sz" and "readable kv ys"
  shows "\<exists>ie' G ys'. pre_fetch_loop kv sz cnt ie = Some ie' \<and> queued kv ie' (F @ G) \<and> rest_at ys' (ie_itr ie')
    \<and> filter live ys = G @ filter live ys' \<and> set ys' \<subseteq> set ys \<and> (ys' = [] \<or> int (length G) = sz - cnt)"
  using assms
proof (induction ys arbitrary: ie F cnt)
  case Nil
  then have "pre_fetch_loop kv sz cnt ie = Some ie" by (subst pre_fetch_loop.simps) simp
  with Nil show ?case by (intro exI [of _ ie] exI [of _ "[]"]) (simp add: rest_at_def)
next
  case (Cons y ys)
  have peek: "mi_peek (ie_itr ie) = Some y" and rest: "rest_at ys (ie_itr ie)" using Cons.prems(1) by (auto simp: rest_at_def)
  have readable: "readable kv ys" using Cons.prems(4) by (simp add: readable_def)
  show ?case
  proof (cases "live y")
    case False
    obtain itr where itr: "itr_next ie = Some (hd_opt ys, ie\<lparr>ie_itr := itr\<rparr>)" "produces ys itr" using rest_next [OF rest] by blast
    have "pre_fetch_loop kv sz cnt ie = pre_fetch_loop kv sz cnt (ie\<lparr>ie_itr := itr\<rparr>)"
      using False peek itr(1) by (subst pre_fetch_loop.simps) (auto simp: live_def deleted_def)
    moreover have "queued kv (ie\<lparr>ie_itr := itr\<rparr>) F" using Cons.prems(2) by simp
    ultimately show ?thesis using Cons.IH [of "ie\<lparr>ie_itr := itr\<rparr>" F cnt] itr(2) Cons.prems(3) readable False by fastforce
  next
    case True
    obtain item where item: "fill kv ie new_item = Some item" "made kv y item"
      using fill_made [OF peek, of kv] Cons.prems(4) True by (auto simp: readable_def)
    let ?ie = "keep_item item ie"
    have k: "ie_itr ?ie = ie_itr ie" by (simp add: keep_item_def)
    have q: "queued kv ?ie (F @ [y])" using queued_keep [OF Cons.prems(2) item(2)] .
    have user: "\<not> starts_with (fst y) BADGER_PREFIX" "vs_meta (snd y) AND BIT_DELETE = 0" using True by (simp_all add: live_def deleted_def)
    show ?thesis
    proof (cases "cnt + 1 = sz")
      case stop: True
      then have "pre_fetch_loop kv sz cnt ie = Some ?ie" using user peek item(1) by (subst pre_fetch_loop.simps) simp
      then show ?thesis using q rest True stop k by (intro exI [of _ ?ie] exI [of _ "[y]"] exI [of _ ys]) auto
    next
      case go: False
      obtain itr where itr: "itr_next ?ie = Some (hd_opt ys, ?ie\<lparr>ie_itr := itr\<rparr>)" "produces ys itr"
        using rest_next [of ys ?ie] rest k by auto
      have "pre_fetch_loop kv sz cnt ie = pre_fetch_loop kv sz (cnt + 1) (?ie\<lparr>ie_itr := itr\<rparr>)"
        using user peek item(1) go itr(1) by (subst pre_fetch_loop.simps) simp
      moreover obtain ie' G ys' where "pre_fetch_loop kv sz (cnt + 1) (?ie\<lparr>ie_itr := itr\<rparr>) = Some ie'" "queued kv ie' ((F @ [y]) @ G)"
        "rest_at ys' (ie_itr ie')" "filter live ys = G @ filter live ys'" "set ys' \<subseteq> set ys" "ys' = [] \<or> int (length G) = sz - (cnt + 1)"
        using Cons.IH [of "?ie\<lparr>ie_itr := itr\<rparr>" "F @ [y]" "cnt + 1"] itr(2) q readable Cons.prems(3) go by auto
      ultimately show ?thesis using True by (intro exI [of _ ie'] exI [of _ "y # G"] exI [of _ ys']) auto
    qed
  qed
qed

lemma next_live_ok:
  assumes "rest_at ys (ie_itr ie)"
  shows "\<exists>itr. next_live ie = Some (ie\<lparr>ie_itr := itr\<rparr>) \<and> produces (dropWhile (\<lambda>e. \<not> live e) ys) itr"
  using assms
proof (induction ys arbitrary: ie)
  case Nil
  then show ?case using rest_next [of "[]" ie] by (subst next_live.simps) auto
next
  case (Cons y ys)
  obtain itr where itr: "itr_next ie = Some (Some y, ie\<lparr>ie_itr := itr\<rparr>)" "produces (y # ys) itr" using rest_next [OF Cons.prems] by auto
  show ?case
  proof (cases "live y")
    case True
    then show ?thesis using itr by (subst next_live.simps) (auto simp: live_def deleted_def)
  next
    case False
    have "next_live ie = next_live (ie\<lparr>ie_itr := itr\<rparr>)"
      using itr(1) False by (subst next_live.simps) (auto simp: live_def deleted_def)
    moreover have "rest_at ys (ie_itr (ie\<lparr>ie_itr := itr\<rparr>))" using itr(2) by (auto simp: rest_at_def)
    ultimately show ?thesis using Cons.IH [of "ie\<lparr>ie_itr := itr\<rparr>"] False by fastforce
  qed
qed

text \<open>Two items are in the queue as long as the merge has more live pairs.\<close>

definition ahead :: "'bf kv \<Rightarrow> 'bf iterator_ext \<Rightarrow> item list \<Rightarrow> bool" where
  "ahead kv ie es \<longleftrightarrow> (\<exists>F ys. queued kv ie F \<and> rest_at ys (ie_itr ie) \<and> readable kv ys \<and> es = F @ filter live ys
     \<and> (filter live ys = [] \<or> 2 \<le> length F))"

lemma pre_fetch_ahead:
  assumes "produces ys (ie_itr ie)" and "ie_item ie = None" "ie_data ie = []" and "readable kv ys"
  shows "\<exists>ie'. pre_fetch kv ie = Some ie' \<and> ahead kv ie' (filter live ys)"
proof -
  define sz where "sz = (if io_pre_fetch_values (ie_opt ie) \<and> io_pre_fetch_size (ie_opt ie) > 1 then io_pre_fetch_size (ie_opt ie) else 2)"
  have sz: "2 \<le> sz" by (simp add: sz_def)
  have "queued kv ie []" using assms(2,3) by (simp add: queued_def)
  from pre_fetch_loop_ok [OF assms(1) this _ assms(4), of 0 sz] sz obtain ie' G ys' where
    l: "pre_fetch_loop kv sz 0 ie = Some ie'" "queued kv ie' G" "rest_at ys' (ie_itr ie')" "filter live ys = G @ filter live ys'"
    "set ys' \<subseteq> set ys" "ys' = [] \<or> int (length G) = sz" by auto
  have "readable kv ys'" using assms(4) l(5) by (auto simp: readable_def)
  with l sz have "ahead kv ie' (filter live ys)" unfolding ahead_def by (intro exI [of _ G] exI [of _ ys']) auto
  with l(1) show ?thesis by (simp add: pre_fetch_def flip: sz_def)
qed

lemma dropWhile_live: "dropWhile (\<lambda>e. \<not> P e) xs = (if filter P xs = [] then [] else hd (filter P xs) # tl (dropWhile (\<lambda>e. \<not> P e) xs))"
  "filter P (tl (dropWhile (\<lambda>e. \<not> P e) xs)) = tl (filter P xs)"
  by (induction xs) (auto split: if_splits)

lemma set_tl_dropWhile: "set (tl (dropWhile P xs)) \<subseteq> set xs"
proof -
  have "set (tl ys) \<subseteq> set ys" for ys :: "'a list" by (cases ys) auto
  then show ?thesis using set_dropWhileD by fastforce
qed

lemma ie_next_ahead:
  assumes "ahead kv ie (e # es)"
  shows "\<exists>r ie'. ie_next kv ie = Some (r, ie') \<and> ahead kv ie' es"
proof -
  obtain F ys where a: "queued kv ie F" "rest_at ys (ie_itr ie)" "readable kv ys" "e # es = F @ filter live ys"
    "filter live ys = [] \<or> 2 \<le> length F" using assms by (auto simp: ahead_def)
  then obtain F' where F: "F = e # F'" by (cases F) auto
  with a(1) obtain i where i: "ie_item ie = Some i" "list_all2 (made kv) F' (ie_data ie)" by (auto simp: queued_def split: option.splits)
  define ie1 where "ie1 = (case ie_data ie of [] \<Rightarrow> ie\<lparr>ie_item := None\<rparr> | el # els \<Rightarrow> ie\<lparr>ie_item := Some el, ie_data := els\<rparr>)"
  have q1: "queued kv ie1 F'" "ie_itr ie1 = ie_itr ie" using i(2) by (auto simp: ie1_def queued_def split: list.splits)
  define zs where "zs = dropWhile (\<lambda>e. \<not> live e) ys"
  obtain itr where itr: "next_live ie1 = Some (ie1\<lparr>ie_itr := itr\<rparr>)" "produces zs itr"
    using next_live_ok [of ys ie1] a(2) q1(2) by (auto simp: zs_def)
  have step: "ie_next kv ie = (if mi_peek itr = None then Some (None, ie1\<lparr>ie_itr := itr\<rparr>)
      else do { xitem \<leftarrow> fill kv (ie1\<lparr>ie_itr := itr\<rparr>) new_item; Some (Some xitem, ie1\<lparr>ie_itr := itr, ie_data := ie_data ie1 @ [xitem]\<rparr>) })"
    using itr(1) by (cases "ie_data ie") (simp_all add: ie_next_def ie1_def Let_def)
  show ?thesis
  proof (cases "filter live ys")
    case Nil
    then have "zs = []" using dropWhile_live(1) [of live ys] by (simp add: zs_def)
    then have "rest_at [] itr" "mi_peek itr = None" using itr(2) by (simp_all add: rest_at_def)
    moreover have "ahead kv (ie1\<lparr>ie_itr := itr\<rparr>) es"
      unfolding ahead_def using q1(1) a(4) F Nil \<open>rest_at [] itr\<close> by (intro exI [of _ F'] exI [of _ "[]"]) (simp add: readable_def)
    ultimately show ?thesis using step by simp
  next
    case (Cons z zs')
    then have zs: "zs = z # tl zs" "filter live (tl zs) = zs'" "set (tl zs) \<subseteq> set ys"
      using dropWhile_live [of live ys] set_tl_dropWhile [of _ ys] by (simp_all add: zs_def)
    have "z \<in> set (filter live ys)" using Cons by simp
    then have z: "live z" "z \<in> set ys" by simp_all
    have peek: "mi_peek itr = Some z" using itr(2) zs(1) by (metis produces.simps(2))
    obtain xitem where x: "fill kv (ie1\<lparr>ie_itr := itr\<rparr>) new_item = Some xitem" "made kv z xitem"
      using fill_made [of "ie1\<lparr>ie_itr := itr\<rparr>" z kv] peek z a(3) by (fastforce simp: readable_def)
    obtain f F'' where F': "F' = f # F''" using a(5) F Cons by (cases F') auto
    then obtain i1 where "ie_item ie1 = Some i1" "list_all2 (made kv) F' (i1 # ie_data ie1)"
      using q1(1) by (auto simp: queued_def split: option.splits)
    then have q2: "queued kv (ie1\<lparr>ie_itr := itr, ie_data := ie_data ie1 @ [xitem]\<rparr>) (F' @ [z])"
      using x(2) by (simp add: queued_def list_all2_appendI flip: append_Cons)
    have rest: "rest_at (tl zs) itr" using itr(2) zs(1) unfolding rest_at_def by metis
    have "readable kv (tl zs)" using a(3) zs(3) by (auto simp: readable_def)
    then have "ahead kv (ie1\<lparr>ie_itr := itr, ie_data := ie_data ie1 @ [xitem]\<rparr>) es"
      unfolding ahead_def using q2 rest a(4,5) F F' Cons zs(2)
      by (intro exI [of _ "F' @ [z]"] exI [of _ "tl zs"]) simp
    then show ?thesis using step peek x(1) by simp
  qed
qed

text \<open>What the loops over an iterator rely on: the current item is the one of the first pair that is left.\<close>

lemma ahead_done: "ahead kv ie [] \<Longrightarrow> ie_item ie = None"
  by (auto simp: ahead_def queued_def split: option.splits)

lemma ahead_step:
  assumes "ahead kv ie (e # es)"
  shows "\<exists>i r ie'. ie_item ie = Some i \<and> made kv e i \<and> ie_next kv ie = Some (r, ie') \<and> ahead kv ie' es"
proof -
  from assms obtain F ys where "queued kv ie F" "e # es = F @ filter live ys" "filter live ys = [] \<or> 2 \<le> length F"
    by (auto simp: ahead_def)
  then have "\<exists>i. ie_item ie = Some i \<and> made kv e i" by (cases F) (auto simp: queued_def split: option.splits)
  with ie_next_ahead [OF assms] show ?thesis by blast
qed

lemma scan_loop_ahead:
  assumes "ahead kv ie es" and "\<forall>e\<in>set es. yield_item_value kv (snd e) = Some (Inr (val e))"
  shows "scan_loop kv ie acc = Some (acc @ map (\<lambda>e. (fst e, Inr (val e))) es)"
  using assms
proof (induction es arbitrary: ie acc)
  case Nil
  then show ?case by (subst scan_loop.simps) (simp add: ie_peek_def ahead_done)
next
  case (Cons e es)
  obtain i r ie' where n: "ie_item ie = Some i" "made kv e i" "ie_next kv ie = Some (r, ie')" "ahead kv ie' es"
    using ahead_step [OF Cons.prems(1)] by blast
  then show ?case
    using Cons.IH [OF n(4)] Cons.prems(2) by (subst scan_loop.simps) (simp add: ie_peek_def made_def)
qed

lemma backup_loop_ahead:
  assumes "ahead kv ie es" and "\<forall>e\<in>set es. yield_item_value kv (snd e) = Some (Inr (val e))"
  shows "backup_loop enc kv ie wt = Some (Inr (), wt @ concat (map (\<lambda>e.
     backup_write_to enc \<lparr>kp_key = fst e, kp_value = val e, kp_user_meta = [vs_user_meta (snd e)]\<rparr> []) es))"
  using assms
proof (induction es arbitrary: ie wt)
  case Nil
  then show ?case by (subst backup_loop.simps) (simp add: ie_peek_def ahead_done)
next
  case (Cons e es)
  obtain i r ie' where n: "ie_item ie = Some i" "made kv e i" "ie_next kv ie = Some (r, ie')" "ahead kv ie' es"
    using ahead_step [OF Cons.prems(1)] by blast
  then show ?case
    using Cons.IH [OF n(4)] Cons.prems(2) by (subst backup_loop.simps) (simp add: ie_peek_def made_def backup_write_to_def Let_def)
qed

subsection \<open>The whole store\<close>

lemma store_view_concat:
  assumes "\<forall>kvs\<in>set kvss. \<forall>e\<in>set kvs. solid (snd e)"
  shows "store_view kvss lower k = (case map_of (concat kvss @ lower) k of None \<Rightarrow> Inl NotFound
    | Some vs \<Rightarrow> if deleted vs then Inl NotFound else Inr vs)"
  using assms
proof (induction kvss)
  case Nil
  show ?case by (simp add: store_view_def)
next
  case (Cons kvs kvss)
  show ?case
  proof (cases "map_of kvs k")
    case None
    then have "store_view (kvs # kvss) lower k = store_view kvss lower k" by (simp add: store_view_def)
    with None Cons show ?thesis by (simp add: map_add_def)
  next
    case (Some vs)
    then have "solid vs" using Cons.prems map_of_SomeD by fastforce
    with Some show ?thesis by (auto simp: store_view_def solid_def)
  qed
qed

lemma yield_new_iterator [simp]: "yield_item_value (snd (new_iterator kv opt)) = yield_item_value kv"
  by (simp add: fun_eq_iff yield_item_value_def new_iterator_def Let_def incr_iterator_count_def async_read_def async_read_bytes_def
      pick_log_by_vlog_id_def split: sum.splits)

definition level_sources :: "'bf level_handler list \<Rightarrow> item list list list \<Rightarrow> item list list" where
  "level_sources hs kvsss = concat (map2 (\<lambda>h kvss. if lh_level h = 0 then rev kvss else kvss) hs kvsss)"

lemma level_sources_items: "concat (level_sources hs kvsss) = concat (map2 level_items hs kvsss)"
  unfolding level_sources_def by (induction hs kvsss rule: list_induct2') (simp_all add: level_items_def)

lemma table_source: "holds bl t kvs \<Longrightarrow> source_ok rv (AnyTable (ti_new t rv)) (in_dir rv kvs)"
  by (auto simp: holds_def source_ok_def)

lemma lc_sources:
  assumes "list_all2 (level_holds bl) hs kvsss"
  shows "list_all2 (source_ok rv) (concat (map (\<lambda>level. map (\<lambda>table. AnyTable (ti_new table rv))
       (if lh_level level = 0 then rev (lh_tables level) else lh_tables level)) hs)) (map (in_dir rv) (level_sources hs kvsss))"
  using assms unfolding level_sources_def
proof (induction hs kvsss rule: list_all2_induct)
  case (Cons h hs kvss kvsss)
  have "list_all2 (holds bl) (lh_tables h) kvss" using Cons(1) by (simp add: level_holds_def)
  then have "list_all2 (source_ok rv) (map (\<lambda>table. AnyTable (ti_new table rv)) (lh_tables h)) (map (in_dir rv) kvss)"
    by (auto simp: list_all2_map1 list_all2_map2 intro: list.rel_mono_strong table_source)
  then have "list_all2 (source_ok rv) (map (\<lambda>table. AnyTable (ti_new table rv)) (if lh_level h = 0 then rev (lh_tables h) else lh_tables h))
      (map (in_dir rv) (if lh_level h = 0 then rev kvss else kvss))" by (simp flip: rev_map)
  then show ?case using Cons(3) by (simp add: list_all2_appendI)
qed simp

lemma build_forward: "mb_build (mb_add_batch mb_default its) = build_merge False its"
  by (simp add: mb_build_def mb_add_batch_def mb_default_def mb_set_reverse_def)

lemma mem_sources:
  assumes "list_all2 skip_abs sts kvss" and "\<forall>kvs\<in>set kvss. kvs \<noteq> []"
  shows "list_all2 (source_ok rv) (map (\<lambda>st. AnyUni (ui_new st rv)) sts) (map (in_dir rv) kvss)"
  using assms by (induction sts kvss rule: list_all2_induct) (auto simp: source_ok_def)

lemma dlt_False: "dlt False = (<)"
  by (simp add: fun_eq_iff dlt_def)

lemma merges_false:
  assumes "merges False alls out"
  shows "strictly_sorted (map fst out)" and "set out \<subseteq> set (concat alls)"
proof -
  show s: "strictly_sorted (map fst out)" using assms by (simp add: merges_def dlt_False)
  show "set out \<subseteq> set (concat alls)"
  proof
    fix e assume "e \<in> set out"
    then have "map_of (concat alls) (fst e) = Some (snd e)" using assms sorted_map_of [OF s, of "fst e" "snd e"] by (simp add: merges_def)
    then show "e \<in> set (concat alls)" using map_of_SomeD by fastforce
  qed
qed

text \<open>A rewound iterator stands before the live pairs of the merge of its sources.\<close>

lemma rewind_merge:
  fixes its :: "'bf any_iter list" and kv :: "'bf kv"
  assumes "list_all2 (source_ok sv) its alls" and "its \<noteq> []" and "length its < USIZE_MAX"
    and first: "\<forall>p\<in>set alls. internal_first p"
    and sorted: "\<forall>p\<in>set alls. strictly_sorted (map fst p)"
    and read: "\<And>out. merges False (map user_items alls) out \<Longrightarrow> readable kv out"
  shows "\<exists>out r ie. merges False (map user_items alls) out \<and> ie_rewind kv (ie_new (build_merge False its) opt) = Some (r, ie)
    \<and> ahead kv ie (filter live out)"
proof -
  obtain r mi out where m: "merge_rewind any_ops (build_merge False its) = Some (r, mi)" "produces out mi" "merges False (map user_items alls) out"
    using merge_sources_produce [OF assms(1-4), of False] sorted dlt_False by auto
  let ?ie = "(ie_new (build_merge False its) opt)\<lparr>ie_itr := mi\<rparr>"
  have "r = hd_opt out" using merge_rewind_peek [OF m(1)] produces_peek [OF m(2)] by simp
  moreover have "set out \<subseteq> set (concat (map user_items alls))" by (rule merges_false(2) [OF m(3)])
  ultimately have skip: "skip_internal r ?ie = Some ?ie"
    by (subst skip_internal.simps) (cases out; auto)
  obtain ie' where ie': "pre_fetch kv ?ie = Some ie'" "ahead kv ie' (filter live out)"
    using pre_fetch_ahead [of out ?ie kv] m(2) read [OF m(3)] by (auto simp: ie_new_def)
  have "ie_rewind kv (ie_new (build_merge False its) opt) = Some (ie_item ie', ie')"
    using m(1) skip ie'(1) by (simp add: ie_rewind_def ie_new_def)
  with ie'(2) show ?thesis using m(3) by blast
qed

lemma map_of_live:
  assumes "strictly_sorted (map fst out)" and "\<forall>e\<in>set out. \<not> starts_with (fst e) BADGER_PREFIX"
  shows "map_of (filter live out) k = Option.bind (map_of out k) (\<lambda>vs. if deleted vs then None else Some vs)"
  using assms
proof (induction out)
  case (Cons e out)
  have "map_of out (fst e) = None" using Cons.prems(1) by (auto simp: map_of_eq_None_iff)
  with Cons show ?case by (cases e) (auto simp: live_def)
qed simp

text \<open>The map without the keys of the database itself.\<close>

definition user_map :: "(bytes \<Rightarrow> 'v option) \<Rightarrow> bytes \<Rightarrow> 'v option" where
  "user_map M k = (if starts_with k BADGER_PREFIX then None else M k)"

lemma HEAD_KEY_internal [simp]: "starts_with HEAD_KEY BADGER_PREFIX"
  by (simp add: starts_with_def HEAD_KEY_def BADGER_PREFIX_def)

lemma view_reads:
  assumes rep: "kv_rep env kv kvss kvsss cur m M" and alls: "alls = kvss @ level_sources (lc_levels (kv_lc kv)) kvsss"
    and out: "merges False (map user_items alls) out"
  shows "user_map M k = (case map_of (filter live out) k of None \<Rightarrow> None | Some vs \<Rightarrow> Some (projr (the (yield_item_value kv vs))))"
    and "e \<in> set (filter live out) \<Longrightarrow> \<exists>bs. yield_item_value kv (snd e) = Some (Inr bs)"
proof -
  have m: "map_of out k = (if starts_with k BADGER_PREFIX then None else map_of (concat kvss @ lower_items (kv_lc kv) kvsss) k)" for k
    using out by (simp add: merges_def user_items_concat [symmetric] map_of_user_items)
      (simp add: alls level_sources_items lower_items_def)
  have solid: "\<forall>kvs\<in>set kvss. \<forall>e\<in>set kvs. solid (snd e)" using rep by (simp add: kv_rep_def mem_ok_def)
  have ans: "answers kv (case map_of out k of None \<Rightarrow> Inl NotFound | Some vs \<Rightarrow> if deleted vs then Inl NotFound else Inr vs) (user_map M k)" for k
  proof (cases "starts_with k BADGER_PREFIX")
    case True
    then show ?thesis by (simp add: m user_map_def answers_def)
  next
    case False
    then have "k \<noteq> HEAD_KEY" by auto
    then show ?thesis using rep store_view_concat [OF solid] False by (simp add: kv_rep_def m user_map_def)
  qed
  have user: "\<forall>e\<in>set out. \<not> starts_with (fst e) BADGER_PREFIX" using merges_false(2) [OF out] by auto
  have dist: "distinct (map fst out)" using merges_false(1) [OF out] by (simp add: strict_sorted_iff)
  have live: "map_of (filter live out) k = Option.bind (map_of out k) (\<lambda>vs. if deleted vs then None else Some vs)" for k
    using map_of_live [OF merges_false(1) [OF out] user] .
  show "user_map M k = (case map_of (filter live out) k of None \<Rightarrow> None | Some vs \<Rightarrow> Some (projr (the (yield_item_value kv vs))))"
    using ans [of k] by (auto simp: live answers_def split: option.splits)
  show "\<exists>bs. yield_item_value kv (snd e) = Some (Inr bs)" if "e \<in> set (filter live out)"
  proof -
    have e: "e \<in> set out" "live e" using that by simp_all
    moreover have "map_of out (fst e) = Some (snd e)" using e(1) dist by simp
    ultimately show ?thesis using ans [of "fst e"] by (auto simp: answers_def live_def)
  qed
qed

lemma in_dir_False: "in_dir False = (\<lambda>p. p)"
  by (simp add: fun_eq_iff in_dir_def)

lemma sources_sorted:
  assumes "list_all2 skip_abs sts kvss" and "list_all2 (level_holds (ke_bl env)) hs kvsss" and "p \<in> set (kvss @ level_sources hs kvsss)"
  shows "strictly_sorted (map fst p)"
proof (cases "p \<in> set kvss")
  case True
  then show ?thesis using assms(1) skip_abs_sorted by (auto simp: list_all2_conv_all_nth in_set_conv_nth)
next
  case False
  then have "p \<in> set (level_sources hs kvsss)" using assms(3) by simp
  then obtain it :: "'a any_iter" where "source_ok False it p"
    using lc_sources [OF assms(2), of False] by (auto simp: in_dir_False list_all2_conv_all_nth in_set_conv_nth)
  then show ?thesis using source_okD(2) [of False it p] by (simp add: dlt_False)
qed

lemma rewind_ascending:
  assumes rep: "kv_rep env kv kvss kvsss cur m M" and full: "\<forall>kvs\<in>set kvss. kvs \<noteq> []"
    and first: "\<forall>p\<in>set (kvss @ level_sources (lc_levels (kv_lc kv)) kvsss). internal_first p"
    and few: "length (get_mem_tables kv) + length (concat (map lh_tables (lc_levels (kv_lc kv)))) < USIZE_MAX"
    and dir: "\<forall>p\<in>set (kvss @ level_sources (lc_levels (kv_lc kv)) kvsss). in_dir (io_reverse opt) p = p"
  shows "\<exists>es val r ie. ie_rewind (snd (new_iterator kv opt)) (fst (new_iterator kv opt)) = Some (r, ie) \<and> ahead (snd (new_iterator kv opt)) ie es
    \<and> (\<forall>e\<in>set es. yield_item_value kv (snd e) = Some (Inr (val e))) \<and> strictly_sorted (map fst es)
    \<and> map_of (map (\<lambda>e. (fst e, val e)) es) = user_map M"
proof -
  let ?hs = "lc_levels (kv_lc kv)" and ?kv = "snd (new_iterator kv opt)"
  let ?its = "map (\<lambda>st. AnyUni (ui_new st (io_reverse opt))) (get_mem_tables kv) @ lc_as_iterator (kv_lc kv) (io_reverse opt)"
  define alls where "alls = kvss @ level_sources ?hs kvsss"
  have mem: "list_all2 skip_abs (get_mem_tables kv) kvss" using rep mem_tables_abs by (auto simp: kv_rep_def)
  have src: "list_all2 (source_ok (io_reverse opt)) ?its (map (in_dir (io_reverse opt)) alls)"
    unfolding alls_def lc_as_iterator_def map_append using rep
    by (intro list_all2_appendI mem_sources [OF mem full] lc_sources [of "ke_bl env"]) (simp add: kv_rep_def)
  then have src: "list_all2 (source_ok (io_reverse opt)) ?its alls" using dir by (simp add: alls_def map_idI)
  have first': "\<forall>p\<in>set alls. internal_first p" using first by (simp add: alls_def)
  have len: "length ?its < USIZE_MAX"
    using few by (simp add: lc_as_iterator_def length_concat comp_def if_distrib [of length] cong: if_cong)
  have sorted: "\<forall>p\<in>set alls. strictly_sorted (map fst p)"
    using mem rep by (intro ballI sources_sorted [where env = env]) (simp_all add: alls_def kv_rep_def)
  note view = view_reads [OF rep alls_def]
  have "readable ?kv out" if "merges False (map user_items alls) out" for out
    using view(2) [OF that] by (fastforce simp: readable_def)
  from rewind_merge [OF src _ len first' sorted this, of opt] obtain out r ie where
    out: "merges False (map user_items alls) out" "ie_rewind ?kv (ie_new (build_merge False ?its) opt) = Some (r, ie)" "ahead ?kv ie (filter live out)"
    by (auto simp: get_mem_tables_def)
  define val where "val e = projr (the (yield_item_value kv (snd e)))" for e :: item
  have "\<forall>e\<in>set (filter live out). yield_item_value kv (snd e) = Some (Inr (val e))"
    using view(2) [OF out(1)] by (fastforce simp: val_def)
  moreover have "strictly_sorted (map fst (filter live out))" using merges_false(1) [OF out(1)] by (simp add: sorted_wrt_map sorted_wrt_filter)
  moreover have "map_of (map (\<lambda>e. (fst e, val e)) (filter live out)) k = user_map M k" for k
    using view(1) [OF out(1), of k] map_of_map [of "\<lambda>vs. projr (the (yield_item_value kv vs))" "filter live out"]
    by (simp add: val_def case_prod_unfold map_option_case)
  moreover have "fst (new_iterator kv opt) = ie_new (build_merge False ?its) opt"
    by (simp add: new_iterator_def Let_def build_forward)
  ultimately show ?thesis using out(2,3) by (intro exI [of _ "filter live out"] exI [of _ val] exI [of _ r] exI [of _ ie] conjI ext) simp_all
qed

lemma scan_ascending:
  assumes "kv_rep env kv kvss kvsss cur m M" and "\<forall>kvs\<in>set kvss. kvs \<noteq> []"
    and "\<forall>p\<in>set (kvss @ level_sources (lc_levels (kv_lc kv)) kvsss). internal_first p"
    and "length (get_mem_tables kv) + length (concat (map lh_tables (lc_levels (kv_lc kv)))) < USIZE_MAX"
    and "\<forall>p\<in>set (kvss @ level_sources (lc_levels (kv_lc kv)) kvsss). in_dir (io_reverse opt) p = p"
  shows "\<exists>out. scan kv opt = Some (map (\<lambda>(k, v). (k, Inr v)) out) \<and> strictly_sorted (map fst out)
    \<and> map_of out = user_map M"
proof -
  obtain es val r ie where i: "ie_rewind (snd (new_iterator kv opt)) (fst (new_iterator kv opt)) = Some (r, ie)" "ahead (snd (new_iterator kv opt)) ie es"
    "\<forall>e\<in>set es. yield_item_value kv (snd e) = Some (Inr (val e))" "strictly_sorted (map fst es)"
    "map_of (map (\<lambda>e. (fst e, val e)) es) = user_map M"
    using rewind_ascending [OF assms] by blast
  have "scan kv opt = Some (map (\<lambda>e. (fst e, Inr (val e))) es)"
    using i(1,3) scan_loop_ahead [OF i(2), of val "[]"] by (simp add: scan_def case_prod_beta Let_def)
  with i(4,5) show ?thesis by (intro exI [of _ "map (\<lambda>e. (fst e, val e)) es"]) (simp add: comp_def)
qed

text \<open>
  C3. Iterating over the store enumerates its map. When the store represents the map \<open>M\<close>, the
  loop of the documentation (\<open>rewind\<close>, then \<open>peek\<close>, \<open>value\<close> and \<open>next\<close> until \<open>peek\<close> is empty) over a
  forward iterator terminates and hands over every key of \<open>M\<close> exactly once, in ascending
  order, with its value, whatever the number of values fetched ahead. Deleted keys do not
  appear, and neither do the keys of the database itself, those with the prefix \<open>!badger!\<close>. The memtables must not
  be empty, since rewinding over an empty one panics, and in every memtable, table and level
  the keys of the database itself must come before the other keys, since the merge panics on them elsewhere.
\<close>

theorem iterator_enumerates_map:
  assumes "kv_rep env kv kvss kvsss cur m M" and "\<forall>kvs\<in>set kvss. kvs \<noteq> []"
    and "\<forall>p\<in>set (kvss @ level_sources (lc_levels (kv_lc kv)) kvsss). internal_first p"
    and "length (get_mem_tables kv) + length (concat (map lh_tables (lc_levels (kv_lc kv)))) < USIZE_MAX" and "\<not> io_reverse opt"
  shows "\<exists>out. scan kv opt = Some (map (\<lambda>(k, v). (k, Inr v)) out) \<and> strictly_sorted (map fst out)
    \<and> map_of out = user_map M"
  using assms(5) by (intro scan_ascending [OF assms(1-4)]) (simp add: in_dir_False)

text \<open>Non-vacuity of C3: a store with a memtable and a table that share a key, and no values fetched ahead.\<close>

definition example_iter_kv :: "unit kv" where
  "example_iter_kv = example_kv\<lparr>kv_flush_chan := [],
     kv_mem := \<lparr>sm_lists = (\<lambda>_. example_full_list), sm_next = 1, sm_mt = 0, sm_imm = [], sm_mt_seq = 0\<rparr>\<rparr>"

lemma example_iter_rep: "kv_rep example_env example_iter_kv [[example_item 1]] [[[example_item 1]], []] example_log_file (replicate (2 ^ 21) 0) [[1] \<mapsto> [1]]"
proof -
  have "mem_ok (kv_mem example_iter_kv) [[example_item 1]]"
    using example_lists example_item_read(1) by (simp add: mem_ok_def example_iter_kv_def)
  moreover have "kv_lc example_iter_kv = example_levels" "tasks_ok example_iter_kv" "ke_bl example_env = example_bloom"
    "kv_vlog example_iter_kv = example_vlog" "vl_opt example_vlog = kv_opt example_iter_kv" "kv_disk example_iter_kv = example_vlog_disk"
    "kv_opt example_iter_kv = kv_opt example_kv"
    by (simp_all add: example_kv_def example_iter_kv_def tasks_ok_def example_env_def)
  ultimately show ?thesis
    using example_vl_ready example_levels_rep example_arena_fits by (simp add: kv_rep_def example_view)
qed

theorem iterator_enumerates_map_witness:
  "scan example_iter_kv \<lparr>io_pre_fetch_values = False, io_pre_fetch_size = 0, io_reverse = False\<rparr> = Some [([1], Inr [1])]"
proof -
  let ?opt = "\<lparr>io_pre_fetch_values = False, io_pre_fetch_size = 0, io_reverse = False\<rparr>"
  have "\<forall>p\<in>set ([[example_item 1]] @ level_sources (lc_levels (kv_lc example_iter_kv)) [[[example_item 1]], []]). internal_first p"
    by (simp add: level_sources_def example_iter_kv_def example_kv_def example_levels_def lh_new_def internal_first_def user_items_def)
  moreover have "length (get_mem_tables example_iter_kv) + length (concat (map lh_tables (lc_levels (kv_lc example_iter_kv)))) < USIZE_MAX"
    by (simp add: example_iter_kv_def example_kv_def example_levels_def get_mem_tables_def lh_new_def USIZE_MAX_def)
  ultimately obtain out where out: "scan example_iter_kv ?opt = Some (map (\<lambda>(k, v). (k, Inr v)) out)" "strictly_sorted (map fst out)"
    "map_of out = user_map [[1] \<mapsto> [1]]"
    using iterator_enumerates_map [OF example_iter_rep, of ?opt] by auto
  have "map_of out = map_of [([1], [1])]" unfolding out(3) by (simp add: user_map_def starts_with_def BADGER_PREFIX_def fun_eq_iff)
  then have "out = [([1], [1])]" using out(2) by (intro sorted_assoc_unique) simp_all
  with out(1) show ?thesis by simp
qed

subsection \<open>Reversed iteration\<close>

text \<open>
  C23. A reversed iteration is not descending. \<open>new_iterator\<close> opens the sources in the direction that
  is asked for, but merges them forwards. When every memtable and every table holds a single key,
  a reversed traversal hands over the keys in ascending order, exactly like a forward one. Memtables must not be empty, and
  keys of the database itself do not appear.
\<close>

theorem reverse_iteration_ascends:
  assumes "kv_rep env kv kvss kvsss cur m M" and "\<forall>kvs\<in>set kvss. kvs \<noteq> []"
    and "\<forall>p\<in>set (kvss @ level_sources (lc_levels (kv_lc kv)) kvsss). internal_first p"
    and "length (get_mem_tables kv) + length (concat (map lh_tables (lc_levels (kv_lc kv)))) < USIZE_MAX"
    and "\<forall>kvs\<in>set (kvss @ level_sources (lc_levels (kv_lc kv)) kvsss). length kvs \<le> 1" and "io_reverse opt"
  shows "\<exists>out. scan kv opt = Some (map (\<lambda>(k, v). (k, Inr v)) out) \<and> strictly_sorted (map fst out)
    \<and> map_of out = user_map M"
proof (rule scan_ascending [OF assms(1-4)])
  have "rev kvs = kvs" if "length kvs \<le> 1" for kvs :: "item list" using that by (cases kvs) auto
  with assms(5) show "\<forall>p\<in>set (kvss @ level_sources (lc_levels (kv_lc kv)) kvsss). in_dir (io_reverse opt) p = p" by (simp add: in_dir_def)
qed

text \<open>Non-vacuity of C23: the key 1 in the memtable and the key 2 in a table.\<close>

definition example_two_kv :: "unit kv" where
  "example_two_kv = example_iter_kv\<lparr>kv_lc := example_levels\<lparr>lc_levels := [(lh_new (options_default ''db'') 0)\<lparr>lh_tables := [example_table 2]\<rparr>]\<rparr>\<rparr>"

lemma example_two_lower: "lower_items (kv_lc example_two_kv) [[[example_item 2]]] = [example_item 2]"
  by (simp add: lower_items_def level_items_def example_two_kv_def lh_new_def)

lemma example_two_small:
  "\<forall>p\<in>set ([[example_item 1]] @ level_sources (lc_levels (kv_lc example_two_kv)) [[[example_item 2]]]). internal_first p"
  "length (get_mem_tables example_two_kv) + length (concat (map lh_tables (lc_levels (kv_lc example_two_kv)))) < USIZE_MAX"
  by (simp_all add: level_sources_def internal_first_def user_items_def example_two_kv_def example_iter_kv_def get_mem_tables_def lh_new_def
      USIZE_MAX_def)

lemma example_two_rep:
  "kv_rep example_env example_two_kv [[example_item 1]] [[[example_item 2]]] example_log_file (replicate (2 ^ 21) 0) [[1] \<mapsto> [1], [2] \<mapsto> [2]]"
proof -
  have "list_all2 (level_holds (ke_bl example_env)) (lc_levels (kv_lc example_two_kv)) [[[example_item 2]]]"
    using example_holds [of 2] by (simp add: level_holds_def example_two_kv_def lh_new_def example_env_def)
  moreover have "answers example_two_kv (store_view [[example_item 1]] [example_item 2] k) (([[1] \<mapsto> [1], [2] \<mapsto> [2]] :: bytes \<Rightarrow> bytes option) k)" for k
    by (simp add: store_view_def example_item_def deleted_def answers_def in_log_def yield_item_value_def item_has_value_def)
  moreover have "kv_mem example_two_kv = kv_mem example_iter_kv" "kv_opt example_two_kv = kv_opt example_iter_kv" "kv_vlog example_two_kv = kv_vlog example_iter_kv"
    "kv_disk example_two_kv = kv_disk example_iter_kv" "tasks_ok example_two_kv = tasks_ok example_iter_kv"
    by (simp_all add: example_two_kv_def tasks_ok_def)
  ultimately show ?thesis using example_iter_rep by (simp add: kv_rep_def example_two_lower)
qed

theorem reverse_iteration_ascends_witness:
  "scan example_two_kv \<lparr>io_pre_fetch_values = False, io_pre_fetch_size = 0, io_reverse = True\<rparr> = Some [([1], Inr [1]), ([2], Inr [2])]"
proof -
  let ?opt = "\<lparr>io_pre_fetch_values = False, io_pre_fetch_size = 0, io_reverse = True\<rparr>"
  have "\<forall>kvs\<in>set ([[example_item 1]] @ level_sources (lc_levels (kv_lc example_two_kv)) [[[example_item 2]]]). length kvs \<le> 1"
    by (simp add: level_sources_def example_two_kv_def)
  then obtain out where out: "scan example_two_kv ?opt = Some (map (\<lambda>(k, v). (k, Inr v)) out)" "strictly_sorted (map fst out)"
    "map_of out = user_map [[1] \<mapsto> [1], [2] \<mapsto> [2]]"
    using reverse_iteration_ascends [OF example_two_rep _ example_two_small, of ?opt] by auto
  have "map_of out = map_of [([1], [1]), ([2], [2])]" unfolding out(3) by (auto simp: user_map_def starts_with_def BADGER_PREFIX_def fun_eq_iff)
  then have "out = [([1], [1]), ([2], [2])]" using out(2) by (intro sorted_assoc_unique) simp_all
  with out(1) show ?thesis by simp
qed

subsection \<open>Backups\<close>

text \<open>
  C13. A backup holds the whole map. When the store represents the map \<open>M\<close>, no memtable is empty (rewinding over an empty
  one panics, as in a store that was just opened), and in every memtable, table and level the keys of the database itself, those
  with the prefix \<open>!badger!\<close> that flushes write, come before the other keys (elsewhere the merge panics on them), \<open>KV::backup\<close>
  terminates without an error and
  appends to the writer, for every key of \<open>M\<close> without that prefix once and in ascending order, the length of the
  encoded pair and the encoding of the pair with the value of the key and one byte of user data.
\<close>

theorem backup_writes_map:
  assumes "kv_rep env kv kvss kvsss cur m M" and "\<forall>kvs\<in>set kvss. kvs \<noteq> []"
    and "\<forall>p\<in>set (kvss @ level_sources (lc_levels (kv_lc kv)) kvsss). internal_first p"
    and "length (get_mem_tables kv) + length (concat (map lh_tables (lc_levels (kv_lc kv)))) < USIZE_MAX"
  shows "\<exists>ps kv'. kv_backup enc kv wt = Some (Inr (), wt @ concat (map (\<lambda>p. backup_write_to enc p []) ps), kv')
    \<and> strictly_sorted (map kp_key ps) \<and> map_of (map (\<lambda>p. (kp_key p, kp_value p)) ps) = user_map M
    \<and> (\<forall>p\<in>set ps. length (kp_user_meta p) = 1)"
proof -
  let ?opt = DEF_ITERATOR_OPTIONS
  obtain es val r ie where i: "ie_rewind (snd (new_iterator kv ?opt)) (fst (new_iterator kv ?opt)) = Some (r, ie)" "ahead (snd (new_iterator kv ?opt)) ie es"
    "\<forall>e\<in>set es. yield_item_value kv (snd e) = Some (Inr (val e))" "strictly_sorted (map fst es)"
    "map_of (map (\<lambda>e. (fst e, val e)) es) = user_map M"
    using rewind_ascending [OF assms, of ?opt] by (auto simp: DEF_ITERATOR_OPTIONS_def in_dir_False)
  define pair where "pair e = \<lparr>kp_key = fst e, kp_value = val e, kp_user_meta = [vs_user_meta (snd e)]\<rparr>" for e
  have "kv_backup enc kv wt = Some (Inr (), wt @ concat (map (\<lambda>e. backup_write_to enc (pair e) []) es), snd (new_iterator kv ?opt))"
    using i(1,3) backup_loop_ahead [OF i(2), of val enc wt] by (simp add: kv_backup_def pair_def case_prod_beta Let_def)
  with i(4,5) show ?thesis by (intro exI [of _ "map pair es"]) (simp add: pair_def comp_def)
qed

text \<open>Non-vacuity of C13: the store with two keys.\<close>

theorem backup_writes_map_witness:
  "\<exists>ps kv'. kv_backup kp_value example_two_kv [] = Some (Inr (), concat (map (\<lambda>p. backup_write_to kp_value p []) ps), kv')
    \<and> map_of (map (\<lambda>p. (kp_key p, kp_value p)) ps) [2] = Some [2]"
proof -
  obtain ps kv' where "kv_backup kp_value example_two_kv [] = Some (Inr (), [] @ concat (map (\<lambda>p. backup_write_to kp_value p []) ps), kv')"
    "map_of (map (\<lambda>p. (kp_key p, kp_value p)) ps) = user_map [[1] \<mapsto> [1], [2] \<mapsto> [2]]"
    using backup_writes_map [OF example_two_rep _ example_two_small, of kp_value "[]"] by auto
  then show ?thesis by (intro exI [of _ ps] exI [of _ kv']) (simp add: user_map_def starts_with_def BADGER_PREFIX_def)
qed

end
