(* ===== verification/Kv_Open.thy ===== *)
theory Kv_Open
  imports Kv
begin

section \<open>Opening and closing the store\<close>

text \<open>
  Models \<open>KV::open\<close> and \<open>KV::close\<close> of \<open>src/src/kv.rs\<close>. Opening composes the manifest, the levels, the
  value log and its replay into a memtable. The directory listings \<open>names\<close> and \<open>paths\<close> and the order \<open>order\<close> in
  which the tables of the manifest are visited are arguments. Directory locks, the spawning of the
  background tasks and metrics are left out.
\<close>

subsection \<open>Opening\<close>

text \<open>The batch limits; \<open>None\<close> is an overflow of \<open>u64\<close>.\<close>

definition open_options :: "options \<Rightarrow> options option" where
  "open_options opt =
     (let n = 15 * unat (opt_max_table_size opt) in
      if n \<ge> 2 ^ 64 then None
      else
        let sz = n div 100 in
        Some (opt\<lparr>opt_max_batch_size := of_nat sz, opt_max_batch_count := of_nat (2 * sz div node_align_size)\<rparr>))"

text \<open>
  The closure that \<open>replay\<close> runs on an entry of the log; \<open>Inr True\<close> asks for more. \<open>rnds\<close> are the random
  draws for the towers, by the offset of the entry.
\<close>

definition replay_entry ::
  "'bf kv_env \<Rightarrow> ('bf kv \<Rightarrow> 'bf kv option) \<Rightarrow> (u32 \<Rightarrow> nat \<Rightarrow> u32) \<Rightarrow> 'bf kv log_callback" where
  "replay_entry env wait rnds e vp kv = do {
     let kv = (if kv_last_used_cas_counter kv < en_cas_counter e then kv\<lparr>kv_last_used_cas_counter := en_cas_counter e\<rparr> else kv);
     (stop, kv) \<leftarrow>
       (if en_cas_counter_check e \<noteq> 0 then do {
          (old, kv) \<leftarrow> kv_get_vs env kv (en_key e);
          Some (case old of
                  Inl err \<Rightarrow> (Some (Inl err), kv)
                | Inr old \<Rightarrow> if vs_cas_counter old \<noteq> en_cas_counter_check e then (Some (Inr True), kv) else (None, kv)) }
        else Some (None, kv));
     (case stop of
        Some r \<Rightarrow> Some (r, kv)
      | None \<Rightarrow> do {
          let v = (if should_write_value_to_lsm kv e then vs_new (en_value e) (en_meta e) (en_user_meta e) (en_cas_counter e)
                   else vs_new (vp_enc vp) (en_meta e OR BIT_VALUE_POINTER) (en_user_meta e) (en_cas_counter e));
          kv \<leftarrow> wait_for_room wait kv;
          mem \<leftarrow> mt_put (en_key e) v (rnds (en_offset e)) (sm_mt (kv_mem kv)) (kv_mem kv);
          Some (Inr True, kv\<lparr>kv_mem := mem\<rparr>) }) }"

text \<open>What \<open>open\<close> does once its parts are there: the head, the replay, and the current log file mapped for writing.\<close>

definition open_log_head :: "'bf kv_env \<Rightarrow> 'bf kv \<Rightarrow> (value_pointer result \<times> 'bf kv) option" where
  "open_log_head env kv = do {
     (r, kv) \<leftarrow> kv_get_vs env kv HEAD_KEY;
     let item = (case r of Inl e \<Rightarrow> if e = NotFound then Inr vs_default else Inl (Unexpected ''Retrieving head'') | Inr item \<Rightarrow> Inr item);
     Some (case item of
             Inl e \<Rightarrow> (Inl e, kv)
           | Inr item \<Rightarrow> (if vs_value item = [] then Inr vp_default else vp_dec (vs_value item),
                          kv\<lparr>kv_last_used_cas_counter := vs_cas_counter item\<rparr>)) }"

definition open_replay ::
  "'bf kv_env \<Rightarrow> ('bf kv \<Rightarrow> 'bf kv option) \<Rightarrow> (u32 \<Rightarrow> nat \<Rightarrow> u32) \<Rightarrow> value_pointer \<Rightarrow> 'bf kv \<Rightarrow> (unit result \<times> 'bf kv) option" where
  "open_replay env wait rnds vptr kv = do {
     (r, vl, kv) \<leftarrow> vl_replay (kv_vlog kv) (kv_disk kv) vptr (replay_entry env wait rnds) kv;
     (case r of
        Inl e \<Rightarrow> Some (Inl e, kv)
      | Inr u \<Rightarrow> do {
          lf \<leftarrow> pick_log_by_vlog_id vl (vl_max_fid vl);
          (r, lf, disk) \<leftarrow> set_write (ke_vl env) lf (opt_value_log_file_size (kv_opt kv) * 2) (kv_disk kv);
          Some (r, kv\<lparr>kv_vlog := vl\<lparr>vl_vlogs := AList.update (vl_max_fid vl) lf (vl_vlogs vl)\<rparr>, kv_disk := disk\<rparr>) }) }"

definition kv_open ::
  "'bf kv_env \<Rightarrow> ('bf kv \<Rightarrow> 'bf kv option) \<Rightarrow> (u32 \<Rightarrow> nat \<Rightarrow> u32) \<Rightarrow> string list \<Rightarrow> string list \<Rightarrow> u64 list \<Rightarrow> options \<Rightarrow> disk
     \<Rightarrow> ('bf kv result \<times> disk) option" where
  "kv_open env wait rnds names paths order opt disk = do {
     opt \<leftarrow> open_options opt;
     if \<not> (unat (opt_value_log_file_size opt) \<le> 2 ^ 31 \<and> unat (opt_value_log_file_size opt) \<ge> 2 ^ 20) then Some (Inl ValueLogSize, disk)
     else do {
       (mf, disk) \<leftarrow> open_or_create_manifest_file (ke_pb env) (opt_dir opt) disk;
       (case mf of
          Inl e \<Rightarrow> Some (Inl e, disk)
        | Inr mf \<Rightarrow> do {
            sz \<leftarrow> opt_arena_size opt;
            mem \<leftarrow> sm_new (unat sz);
            (lc, refs, disk) \<leftarrow> lc_new (ke_bl env) mf opt names order (\<lambda>_. 0) disk;
            (case lc of
               Inl e \<Rightarrow> Some (Inl e, disk)
             | Inr lc \<Rightarrow> do {
                 (r, vl, disk) \<leftarrow> vl_open (ke_vl env) paths opt (vl_default (opt_dir opt)) disk;
                 (case r of
                    Inl e \<Rightarrow> Some (Inl e, disk)
                  | Inr u \<Rightarrow> do {
                      let kv = \<lparr>kv_opt = opt, kv_vlog = vl, kv_vptr = None, kv_lc = lc, kv_flush_chan = [], kv_mem = mem,
                                kv_last_used_cas_counter = 1, kv_refs = refs, kv_disk = disk\<rparr>;
                      (vptr, kv) \<leftarrow> open_log_head env kv;
                      (case vptr of
                         Inl e \<Rightarrow> Some (Inl e, kv_disk kv)
                       | Inr vptr \<Rightarrow> do {
                           (r, kv) \<leftarrow> open_replay env wait rnds vptr kv;
                           Some (case r of Inl e \<Rightarrow> (Inl e, kv_disk kv) | Inr u \<Rightarrow> (Inr kv, kv_disk kv)) }) }) }) }) } }"

subsection \<open>Closing\<close>

text \<open>The flush task on the queue that \<open>close\<close> leaves behind; an error ends it, and so does the empty task.\<close>

fun flush_tasks ::
  "'bf kv_env \<Rightarrow> ('bf levels_controller \<Rightarrow> refs \<Rightarrow> disk \<Rightarrow> ('bf levels_controller \<times> refs \<times> disk) option)
     \<Rightarrow> (nat \<Rightarrow> u64 list) \<Rightarrow> (nat \<Rightarrow> nat \<Rightarrow> u32) \<Rightarrow> flush_task list \<Rightarrow> 'bf kv \<Rightarrow> 'bf kv option" where
  "flush_tasks env waitlc orders rnds [] kv = Some kv"
| "flush_tasks env waitlc orders rnds (task # tasks) kv = do {
     (r, kv) \<leftarrow> flush_one env waitlc (orders (length tasks)) (rnds (length tasks)) task (kv\<lparr>kv_flush_chan := tasks\<rparr>);
     if r = Inr True then flush_tasks env waitlc orders rnds tasks kv else Some kv }"

definition kv_close ::
  "'bf kv_env \<Rightarrow> ('bf levels_controller \<Rightarrow> refs \<Rightarrow> disk \<Rightarrow> ('bf levels_controller \<times> refs \<times> disk) option)
     \<Rightarrow> (nat \<Rightarrow> u64 list) \<Rightarrow> (nat \<Rightarrow> nat \<Rightarrow> u32) \<Rightarrow> 'bf kv \<Rightarrow> (unit result \<times> 'bf kv) option" where
  "kv_close env waitlc orders rnds kv = do {
     (vl, disk) \<leftarrow> vl_close (kv_vlog kv) (kv_disk kv);
     let kv = kv\<lparr>kv_vlog := vl, kv_disk := disk\<rparr>;
     empty \<leftarrow> sl_empty (must_mt kv);
     kv \<leftarrow>
       (if empty then Some kv
        else do {
          let task = \<lparr>ft_mt = Some (sm_mt (kv_mem kv)), ft_vptr = must_vptr kv\<rparr>;
          mem \<leftarrow> swap_st (kv_opt kv) (kv_mem kv);
          Some (kv\<lparr>kv_flush_chan := kv_flush_chan kv @ [task], kv_mem := mem\<rparr>) });
     kv \<leftarrow> flush_tasks env waitlc orders rnds (kv_flush_chan kv @ [\<lparr>ft_mt = None, ft_vptr = vp_default\<rparr>]) kv;
     let lc = kv_lc kv;
     Some (Inr (), kv\<lparr>kv_refs := lc_close lc (kv_refs kv), kv_lc := lc\<lparr>lc_manifest := mff_close (lc_manifest lc)\<rparr>\<rparr>) }"

end
