(* ===== verification/Open_Correct.thy ===== *)
theory Open_Correct
  imports Kv_Open Kv_Flush
begin

section \<open>A store that is opened for the first time\<close>

text \<open>
  In directories without a store, \<open>open\<close> creates the manifest, the levels and the first log file, and
  the result represents the empty map: it is a state the refinement of the map starts from.
\<close>

lemma init_levels_ok:
  assumes "init_levels opt n = Some hs"
  shows "length hs = n" and "\<And>h. h \<in> set hs \<Longrightarrow> lh_tables h = [] \<and> lh_opt h = opt" and "n \<noteq> 0 \<Longrightarrow> lh_level (hd hs) = 0"
  using assms
proof (induction n arbitrary: hs)
  case (Suc n)
  { case 1 then show ?case using Suc(1) by (auto simp: bind_eq_Some_conv) }
  { case 2 then show ?case using Suc(2) by (auto simp: bind_eq_Some_conv lh_new_def) }
  { case 3
    then obtain hs' sz where h: "init_levels opt n = Some hs'" "hs = hs' @ [(lh_new opt n)\<lparr>lh_max_total_size := sz\<rparr>]"
      by (auto simp: bind_eq_Some_conv)
    show ?case using h Suc(1) [OF h(1)] Suc(3) [OF _ h(1)] by (cases "n = 0") (auto simp: lh_new_def hd_append) }
qed simp_all

lemma empty_levels:
  assumes "\<And>h. h \<in> set hs \<Longrightarrow> lh_tables h = []"
  shows "list_all2 (level_holds bl) hs (replicate (length hs) [])" and "lc_validate_levels hs = Inr ()"
    and "concat (map2 level_items hs (replicate (length hs) [])) = []"
  using assms by (induction hs) (auto simp: level_holds_def lh_validate_def level_items_def)

lemma no_tables:
  assumes "\<And>h. h \<in> set hs \<Longrightarrow> lh_tables h = []"
  shows "\<And>h. h \<in> set (map2 init_tables hs (replicate (length hs) [])) \<Longrightarrow> lh_tables h = []"
  by (auto simp: init_tables_def set_zip)

lemma open_levels:
  fixes bl :: "'bf bloom" and hs :: "'bf level_handler list"
  assumes "init_levels opt (opt_max_levels opt) = Some hs" and "opt_num_level_zero_tables opt < opt_num_level_zero_tables_stall opt"
    and "get_id_map names = Some {}"
  shows "\<exists>lc. lc_new bl mf opt names [] refs disk = Some (Inr lc, refs, disk)
    \<and> list_all2 (level_holds bl) (lc_levels lc) (replicate (length hs) []) \<and> lower_items lc (replicate (length hs) []) = []
    \<and> lc_manifest lc = mf \<and> length (lc_levels lc) = opt_max_levels opt \<and> (\<forall>h\<in>set (lc_levels lc). lh_tables h = [])"
proof -
  define hs' where "hs' = map2 init_tables hs (replicate (length hs) [])"
  have len: "length hs' = length hs" by (simp add: hs'_def)
  have none: "lh_tables h = []" if "h \<in> set hs'" for h
    using no_tables [of hs h] init_levels_ok(2) [OF assms(1)] that by (simp add: hs'_def)
  have "lc_new bl mf opt names [] refs disk = Some (Inr \<lparr>lc_levels = hs', lc_next_file_id = 1,
      lc_c_status = replicate (opt_max_levels opt) lcs_default, lc_manifest = mf, lc_opt = opt\<rparr>, refs, disk)"
    using assms empty_levels(2) [of hs', OF none]
    by (simp add: lc_new_def revert_to_manifest_def lc_validate_def hs'_def [symmetric] Let_def)
  then show ?thesis
    using empty_levels(1,3) [of hs', OF none] none init_levels_ok(1) [OF assms(1)]
    by (simp add: lower_items_def len del: concat_eq_Nil_conv)
qed

lemma path_join_last: "name \<noteq> [] \<Longrightarrow> last (path_join dir name) = last name"
  by (simp add: path_join_def)

lemma log_path_not_manifest:
  "vlog_file_path vdir fid \<noteq> path_join dir MANIFEST_FILENAME" "vlog_file_path vdir fid \<noteq> path_join dir MANIFEST_REWRITE_FILENAME"
proof -
  have "last (vlog_file_path vdir fid) = CHR ''g''" by (simp add: vlog_file_path_def path_join_last Let_def)
  then show "vlog_file_path vdir fid \<noteq> path_join dir MANIFEST_FILENAME" "vlog_file_path vdir fid \<noteq> path_join dir MANIFEST_REWRITE_FILENAME"
    using path_join_last [of MANIFEST_FILENAME dir] path_join_last [of MANIFEST_REWRITE_FILENAME dir]
    by (auto simp: MANIFEST_FILENAME_def MANIFEST_REWRITE_FILENAME_def)
qed

text \<open>The manifest of a new store, in memory and on disk: no tables, and a file that is positioned at its end.\<close>

definition fresh_manifest :: "pb \<Rightarrow> string \<Rightarrow> manifest_file \<Rightarrow> disk \<Rightarrow> bool" where
  "fresh_manifest pb dir mf disk \<longleftrightarrow> mff_manifest mf = manifest_new \<and> mff_directory mf = dir \<and> at_end mf disk
     \<and> disk (path_join dir MANIFEST_FILENAME) = Some (rewrite_bytes pb manifest_new [])"

lemma fresh_manifest_replays:
  assumes "fresh_manifest pb dir mf disk" and "pb_ok pb []"
  shows "replays_to pb disk (path_join dir MANIFEST_FILENAME) manifest_new"
proof -
  have "replays_to pb (disk(path_join dir MANIFEST_FILENAME \<mapsto> rewrite_bytes pb manifest_new [])) (path_join dir MANIFEST_FILENAME)
      (manifest_new\<lparr>mf_creations := card (dom (mf_tables manifest_new)), mf_deletions := 0\<rparr>)"
    using mf_ok_new assms(2) by (intro replay_rewritten) (simp_all add: as_changes_def manifest_new_def)
  moreover have "disk(path_join dir MANIFEST_FILENAME \<mapsto> rewrite_bytes pb manifest_new []) = disk"
    using assms(1) by (auto simp: fresh_manifest_def fun_eq_iff)
  ultimately show ?thesis by (simp add: manifest_new_def)
qed

lemma fresh_manifest_update:
  assumes "fresh_manifest pb dir mf disk"
  shows "fresh_manifest pb dir mf (disk(vlog_file_path vdir fid \<mapsto> c))"
proof -
  have "at_end mf (disk(vlog_file_path vdir fid \<mapsto> c))" if "at_end mf disk" "mff_directory mf = dir"
    using that log_path_not_manifest(1) [of vdir fid dir] unfolding at_end_def by (metis fun_upd_other)
  then show ?thesis using assms log_path_not_manifest(1) [of vdir fid dir] by (auto simp: fresh_manifest_def)
qed

lemma open_manifest:
  assumes "disk (path_join dir MANIFEST_FILENAME) = None" and "disk (vlog_file_path vdir fid) = None"
  shows "\<exists>mf disk'. open_or_create_manifest_file pb dir disk = Some (Inr mf, disk') \<and> disk' (vlog_file_path vdir fid) = None
    \<and> fresh_manifest pb dir mf disk'"
  using assms log_path_not_manifest [of vdir fid dir]
  by (simp add: open_or_create_manifest_file_def help_open_or_create_manifest_file_def open_existing_synced_file_def
      is_io_existing_def manifest_help_rewrite_def Let_def fresh_manifest_def at_end_def)
    (simp add: manifest_new_def)

text \<open>The first log file, before and after it is mapped for writing.\<close>

definition first_log :: "options \<Rightarrow> mmap_type option \<Rightarrow> u32 \<Rightarrow> log_file" where
  "first_log opt map_kind sz = (let path = vlog_file_path (opt_value_dir opt) 0 in
     \<lparr>lf_path = path, lf_fd = Some \<lparr>fh_path = path, fh_pos = 0\<rparr>, lf_fid = 0, lf_mmap = map_kind, lf_sz = sz\<rparr>)"

definition first_vlog :: "options \<Rightarrow> log_file \<Rightarrow> value_log" where
  "first_vlog opt lf = (vl_default (opt_dir opt))\<lparr>vl_dir_path := opt_value_dir opt, vl_opt := opt, vl_vlogs := [(0, lf)]\<rparr>"

lemma open_log:
  assumes "get_data_files paths = []" and "disk (vlog_file_path (opt_value_dir opt) 0) = None"
  shows "vl_open env paths opt (vl_default (opt_dir opt)) disk
    = Some (Inr (), first_vlog opt (first_log opt None 0), disk(vlog_file_path (opt_value_dir opt) 0 \<mapsto> []))"
  using assms
  by (simp add: vl_open_def open_create_files_def parse_file_ids_def vl_default_def create_vlog_file_def vl_fpath_def
      first_vlog_def first_log_def Let_def)

lemma iterate_nothing: "iterate_loop fid f [] pos s = Some (Inr (), s)"
  by (subst iterate_loop.simps) (simp add: vh_dec_def read_u32_def)

lemma replay_nothing:
  assumes "disk (vlog_file_path (opt_value_dir opt) 0) = Some []"
  shows "vl_replay (first_vlog opt (first_log opt None 0)) disk vp_default f s
    = Some (Inr (), first_vlog opt (first_log opt None 0), s)"
  using assms by (simp add: vl_replay_def first_vlog_def first_log_def vl_default_def pick_log_guard_def vp_default_def add_u32_def
      lf_iterate_def iterate_nothing Let_def)

lemma replay_fresh:
  assumes "kv_opt kv = opt" and "kv_vlog kv = first_vlog opt (first_log opt None 0)"
    and "kv_disk kv (vlog_file_path (opt_value_dir opt) 0) = Some []" and "ve_can_map (ke_vl env) (unat (opt_value_log_file_size opt * 2))"
  shows "open_replay env wait rnds vp_default kv
    = Some (Inr (), kv\<lparr>kv_vlog := first_vlog opt (first_log opt (Some MmapMut) (ucast (opt_value_log_file_size opt * 2))),
        kv_disk := (kv_disk kv)(vlog_file_path (opt_value_dir opt) 0 \<mapsto> replicate (unat (opt_value_log_file_size opt * 2)) 0)\<rparr>)"
proof -
  let ?vl = "first_vlog opt (first_log opt None 0)"
  have "vl_replay (kv_vlog kv) (kv_disk kv) vp_default (replay_entry env wait rnds) kv = Some (Inr (), ?vl, kv)"
    using replay_nothing [of "kv_disk kv" opt, OF assms(3)] assms(2) by simp
  moreover have "pick_log_by_vlog_id ?vl (vl_max_fid ?vl) = Some (first_log opt None 0)"
    by (simp add: pick_log_by_vlog_id_def first_vlog_def vl_default_def)
  moreover have "set_write (ke_vl env) (first_log opt None 0) (opt_value_log_file_size opt * 2) (kv_disk kv)
      = Some (Inr (), first_log opt (Some MmapMut) (ucast (opt_value_log_file_size opt * 2)),
          (kv_disk kv)(vlog_file_path (opt_value_dir opt) 0 \<mapsto> replicate (unat (opt_value_log_file_size opt * 2)) 0))"
    using assms(3,4) by (simp add: set_write_def set_file_len_def first_log_def Let_def)
  moreover have "?vl\<lparr>vl_vlogs := AList.update (vl_max_fid ?vl) lf (vl_vlogs ?vl)\<rparr> = first_vlog opt lf" for lf
    by (simp add: first_vlog_def vl_default_def)
  ultimately show ?thesis by (simp add: open_replay_def assms(1))
qed

text \<open>The memtable, the levels and the log of a new store.\<close>

lemma fresh_rep:
  assumes "sl_new n 0 = Some s" "skip_abs s []" "arena_fits (kv_opt kv)" and "kv_flush_chan kv = []"
    and "kv_mem kv = \<lparr>sm_lists = (\<lambda>_. s), sm_next = 1, sm_mt = 0, sm_imm = [], sm_mt_seq = 0\<rparr>"
    and "list_all2 (level_holds (ke_bl env)) (lc_levels (kv_lc kv)) kvsss" "lower_items (kv_lc kv) kvsss = []"
  shows "\<exists>refs. kv_get_vs env kv k = Some (Inl NotFound, kv\<lparr>kv_refs := refs\<rparr>)"
    and "kv_vlog kv = first_vlog (kv_opt kv) (first_log (kv_opt kv) (Some MmapMut) sz)
      \<Longrightarrow> kv_disk kv (vlog_file_path (opt_value_dir (kv_opt kv)) 0) = Some m \<Longrightarrow> kv_inv env kv Map.empty"
proof -
  have mem: "mem_ok (kv_mem kv) [[]]" and tasks: "tasks_ok kv" and view: "store_view [[]] [] k = Inl NotFound" for k
    using assms by (simp_all add: mem_ok_def tasks_ok_def store_view_def)
  show "\<exists>refs. kv_get_vs env kv k = Some (Inl NotFound, kv\<lparr>kv_refs := refs\<rparr>)"
    using kv_get_vs_view [OF mem_tables_abs [OF mem] assms(6), of k] assms(7) view by simp
  assume "kv_vlog kv = first_vlog (kv_opt kv) (first_log (kv_opt kv) (Some MmapMut) sz)"
    and "kv_disk kv (vlog_file_path (opt_value_dir (kv_opt kv)) 0) = Some m"
  then have "kv_rep env kv [[]] kvsss (first_log (kv_opt kv) (Some MmapMut) sz) m Map.empty"
    using assms mem tasks view
    by (simp add: kv_rep_def vl_ready_def first_vlog_def first_log_def pick_log_by_vlog_id_def vl_default_def Let_def)
  then show "kv_inv env kv Map.empty" by (auto simp: kv_inv_def)
qed

text \<open>What else is known of a new store: its memtable and its log are empty.\<close>

definition fresh_store :: "options \<Rightarrow> 'bf kv \<Rightarrow> bool" where
  "fresh_store opt kv \<longleftrightarrow> kv_opt kv = opt \<and> (\<exists>sz. kv_vlog kv = first_vlog opt (first_log opt (Some MmapMut) sz))
     \<and> kv_disk kv (vlog_file_path (opt_value_dir opt) 0) = Some (replicate (unat (opt_value_log_file_size opt * 2)) 0)
     \<and> (\<exists>sz. opt_arena_size opt = Some sz \<and> sl_new (unat sz) 0 = Some (must_mt kv))"

lemma fresh_store_empty:
  fixes env :: "'bf kv_env" and hs :: "'bf level_handler list"
  assumes opt: "open_options opt = Some opt'" "arena_fits opt'" "opt_num_level_zero_tables opt' < opt_num_level_zero_tables_stall opt'"
      "2 ^ 20 \<le> unat (opt_value_log_file_size opt')" "unat (opt_value_log_file_size opt') \<le> 2 ^ 31"
    and levels: "init_levels opt' (opt_max_levels opt') = Some hs"
    and map: "ve_can_map (ke_vl env) (unat (opt_value_log_file_size opt' * 2))"
    and disk: "disk (path_join (opt_dir opt') MANIFEST_FILENAME) = None" "disk (vlog_file_path (opt_value_dir opt') 0) = None"
    and lists: "get_id_map names = Some {}" "get_data_files paths = []"
  shows "\<exists>kv disk'. kv_open env wait rnds names paths [] opt disk = Some (Inr kv, disk') \<and> kv_inv env kv Map.empty \<and> fresh_store opt' kv
    \<and> kv_disk kv = disk' \<and> fresh_manifest (ke_pb env) (opt_dir opt') (lc_manifest (kv_lc kv)) disk'
    \<and> length (lc_levels (kv_lc kv)) = opt_max_levels opt' \<and> (\<forall>h\<in>set (lc_levels (kv_lc kv)). lh_tables h = [])"
proof -
  let ?path = "vlog_file_path (opt_value_dir opt') 0" and ?n = "unat (opt_value_log_file_size opt' * 2)"
  obtain mf disk1 where m: "open_or_create_manifest_file (ke_pb env) (opt_dir opt') disk = Some (Inr mf, disk1)" "disk1 ?path = None"
    "fresh_manifest (ke_pb env) (opt_dir opt') mf disk1"
    using open_manifest [OF disk] by blast
  obtain sz s where s: "opt_arena_size opt' = Some sz" "sl_new (unat sz) 0 = Some s" "skip_abs s []"
    using opt(2) sl_new_abs [of _ 0] unfolding arena_fits_def by metis
  define mem where "mem = \<lparr>sm_lists = (\<lambda>_. s), sm_next = 1, sm_mt = 0, sm_imm = [], sm_mt_seq = 0\<rparr>"
  have mem: "sm_new (unat sz) = Some mem" using s by (simp add: sm_new_def mem_def)
  obtain lc where lc: "lc_new (ke_bl env) mf opt' names [] (\<lambda>_. 0) disk1 = Some (Inr lc, \<lambda>_. 0, disk1)"
    "list_all2 (level_holds (ke_bl env)) (lc_levels lc) (replicate (length hs) [])" "lower_items lc (replicate (length hs) []) = []"
    "lc_manifest lc = mf" "length (lc_levels lc) = opt_max_levels opt'" "\<forall>h\<in>set (lc_levels lc). lh_tables h = []"
    using open_levels [OF levels opt(3) lists(1)] by blast
  let ?disk2 = "disk1(?path \<mapsto> [])"
  note vl = open_log [of paths disk1 opt' "ke_vl env", OF lists(2) m(2)]
  define kv where "kv = \<lparr>kv_opt = opt', kv_vlog = first_vlog opt' (first_log opt' None 0), kv_vptr = None, kv_lc = lc, kv_flush_chan = [],
      kv_mem = mem, kv_last_used_cas_counter = 1, kv_refs = (\<lambda>_. 0), kv_disk = ?disk2\<rparr>"
  have kv: "arena_fits (kv_opt kv)" "kv_flush_chan kv = []" "kv_mem kv = mem"
    "list_all2 (level_holds (ke_bl env)) (lc_levels (kv_lc kv)) (replicate (length hs) [])" "lower_items (kv_lc kv) (replicate (length hs) []) = []"
    using opt(2) lc by (simp_all add: kv_def)
  obtain refs where "kv_get_vs env kv HEAD_KEY = Some (Inl NotFound, kv\<lparr>kv_refs := refs\<rparr>)"
    using fresh_rep(1) [OF s(2,3) kv(1,2) kv(3) [unfolded mem_def] kv(4,5)] by blast
  then have head: "open_log_head env kv = Some (Inr vp_default, kv\<lparr>kv_refs := refs, kv_last_used_cas_counter := vs_cas_counter vs_default\<rparr>)"
    by (simp add: open_log_head_def vs_default_def)
  define kv' where "kv' = kv\<lparr>kv_refs := refs, kv_last_used_cas_counter := vs_cas_counter vs_default,
      kv_vlog := first_vlog opt' (first_log opt' (Some MmapMut) (ucast (opt_value_log_file_size opt' * 2))),
      kv_disk := ?disk2(?path \<mapsto> replicate ?n 0)\<rparr>"
  have replay: "open_replay env wait rnds vp_default (kv\<lparr>kv_refs := refs, kv_last_used_cas_counter := vs_cas_counter vs_default\<rparr>) = Some (Inr (), kv')"
    by (subst replay_fresh [of _ opt']) (use map in \<open>simp_all add: kv_def kv'_def\<close>)
  have "kv_inv env kv' Map.empty"
    by (rule fresh_rep(2) [OF s(2,3)]) (use kv in \<open>simp_all add: kv'_def mem_def kv_def\<close>)
  moreover have "fresh_store opt' kv'"
    using s(1,2) by (auto simp: fresh_store_def kv'_def kv_def must_mt_def mt_ref_def mem_def)
  moreover have "kv_open env wait rnds names paths [] opt disk = Some (Inr kv', kv_disk kv')"
    using opt m(1) s(1) mem lc(1) vl head replay by (simp add: kv_open_def kv_def)
  moreover have "fresh_manifest (ke_pb env) (opt_dir opt') mf (kv_disk kv')"
    using fresh_manifest_update [OF m(3)] by (simp add: kv'_def)
  ultimately show ?thesis using lc(4-6) by (intro exI [of _ kv'] exI [of _ "kv_disk kv'"]) (simp add: kv'_def kv_def)
qed

lemma new_list_room:
  assumes "sl_new n i = Some s" and "400 \<le> n" and "n < 2 ^ 31"
  shows "mem_size s < 200" and "290 \<le> sl_free s"
proof -
  obtain s' where "sl_new n i = Some s'" "da_head (sl_arena s') = 104" "da_tail (sl_arena s') + 10 = (n + 8) div 8 * 8"
    using sl_new_abs [of n i] assms by auto
  then have s: "da_head (sl_arena s) = 104" "da_tail (sl_arena s) + 10 = (n + 8) div 8 * 8" using assms(1) by simp_all
  have "da_cap (sl_arena s) = (n + 8) div 8 * 8"
    using assms arena_new_ok(5) [of n] node_new_cap by (fastforce simp: sl_new_def bind_eq_Some_conv)
  moreover have c: "408 \<le> (n + 8) div 8 * 8" using assms(2) by presburger
  ultimately have "da_len (sl_arena s) = 114" using s by (simp add: da_len_def)
  then show "mem_size s < 200" by (simp add: mem_size_def arena_size_def)
  show "290 \<le> sl_free s" using s c by (simp add: sl_free_def)
qed

text \<open>
  C9. Opening a new store. In directories that hold no manifest, no table and no log file, with
  options whose arena and level sizes fit their types and a value log size between one megabyte and two gigabytes, \<open>open\<close> does not fail,
  whichever other files the directories list. It writes a manifest
  file with the header and an empty change set, which is positioned at its end and replays to the manifest without tables; it creates
  a log file of twice the configured size, filled with zeros and mapped for writing; the store has as many levels as configured, all
  without tables, and represents the empty map.
\<close>

theorem open_fresh_store:
  fixes env :: "'bf kv_env" and hs :: "'bf level_handler list"
  assumes opt: "open_options opt = Some opt'" "arena_fits opt'" "opt_num_level_zero_tables opt' < opt_num_level_zero_tables_stall opt'"
      "2 ^ 20 \<le> unat (opt_value_log_file_size opt')" "unat (opt_value_log_file_size opt') \<le> 2 ^ 31"
    and levels: "init_levels opt' (opt_max_levels opt') = Some hs"
    and map: "ve_can_map (ke_vl env) (unat (opt_value_log_file_size opt' * 2))"
    and disk: "disk (path_join (opt_dir opt') MANIFEST_FILENAME) = None" "disk (vlog_file_path (opt_value_dir opt') 0) = None"
    and lists: "get_id_map names = Some {}" "get_data_files paths = []" and pb: "pb_ok (ke_pb env) []"
  shows "\<exists>kv disk' lf. kv_open env wait rnds names paths [] opt disk = Some (Inr kv, disk') \<and> kv_inv env kv Map.empty
    \<and> disk' (path_join (opt_dir opt') MANIFEST_FILENAME) = Some (rewrite_bytes (ke_pb env) manifest_new [])
    \<and> replays_to (ke_pb env) disk' (path_join (opt_dir opt') MANIFEST_FILENAME) manifest_new
    \<and> mff_manifest (lc_manifest (kv_lc kv)) = manifest_new \<and> at_end (lc_manifest (kv_lc kv)) disk'
    \<and> vl_vlogs (kv_vlog kv) = [(0, lf)] \<and> lf_mmap lf = Some MmapMut \<and> lf_path lf = vlog_file_path (opt_value_dir opt') 0
    \<and> disk' (lf_path lf) = Some (replicate (unat (opt_value_log_file_size opt' * 2)) 0)
    \<and> length (lc_levels (kv_lc kv)) = opt_max_levels opt' \<and> (\<forall>h\<in>set (lc_levels (kv_lc kv)). lh_tables h = [])"
proof -
  obtain kv disk' where kv: "kv_open env wait rnds names paths [] opt disk = Some (Inr kv, disk')" "kv_inv env kv Map.empty" "fresh_store opt' kv"
    "kv_disk kv = disk'" "fresh_manifest (ke_pb env) (opt_dir opt') (lc_manifest (kv_lc kv)) disk'"
    "length (lc_levels (kv_lc kv)) = opt_max_levels opt'" "\<forall>h\<in>set (lc_levels (kv_lc kv)). lh_tables h = []"
    using fresh_store_empty [OF assms(1-11), of wait rnds] by blast
  from kv(3) obtain sz where "kv_vlog kv = first_vlog opt' (first_log opt' (Some MmapMut) sz)" by (auto simp: fresh_store_def)
  moreover have "disk' (vlog_file_path (opt_value_dir opt') 0) = Some (replicate (unat (opt_value_log_file_size opt' * 2)) 0)"
    using kv(3,4) by (simp add: fresh_store_def)
  ultimately show ?thesis using kv fresh_manifest_replays [OF kv(5) pb]
    by (intro exI [of _ kv] exI [of _ disk'] exI [of _ "first_log opt' (Some MmapMut) sz"])
      (simp add: fresh_manifest_def first_vlog_def first_log_def Let_def)
qed

text \<open>The default options, with the batch limits that \<open>open\<close> computes.\<close>

definition default_opened :: options where
  "default_opened = (options_default ''db'')\<lparr>opt_max_batch_size := 10066329, opt_max_batch_count := 209715\<rparr>"

lemma default_open:
  "open_options (options_default ''db'') = Some default_opened" "opt_arena_size default_opened = Some 97307833" "arena_fits default_opened"
  "\<exists>hs :: unit level_handler list. init_levels default_opened (opt_max_levels default_opened) = Some hs"
  "opt_num_level_zero_tables default_opened < opt_num_level_zero_tables_stall default_opened" "opt_value_log_file_size default_opened = 2 ^ 30"
  "opt_dir default_opened = ''db''" "opt_value_dir default_opened = ''db''"
proof -
  show "open_options (options_default ''db'') = Some default_opened"
    by (simp add: open_options_def default_opened_def options_default_def node_align_size_def)
  show "opt_arena_size default_opened = Some 97307833"
    by (simp add: default_opened_def options_default_def opt_arena_size_def node_size_def MAX_HEIGHT_def)
  then show "arena_fits default_opened" by (simp add: arena_fits_def)
  have "opt_max_levels default_opened = Suc (Suc (Suc (Suc (Suc (Suc (Suc 0))))))" by (simp add: default_opened_def options_default_def)
  then show "\<exists>hs :: unit level_handler list. init_levels default_opened (opt_max_levels default_opened) = Some hs"
    by (simp only:) (simp add: default_opened_def options_default_def lh_new_def nth_append)
  show "opt_num_level_zero_tables default_opened < opt_num_level_zero_tables_stall default_opened" "opt_value_log_file_size default_opened = 2 ^ 30"
    "opt_dir default_opened = ''db''" "opt_value_dir default_opened = ''db''"
    by (simp_all add: default_opened_def options_default_def)
qed

lemma no_table_names: "get_id_map [''MANIFEST'', ''dir_lock_guard.lock''] = Some {}" "get_data_files [''db/MANIFEST''] = []"
proof -
  have "parse_file_id ''MANIFEST'' = Some (Inl (Unexpected ''invalid file MANIFEST''))"
    "parse_file_id ''dir_lock_guard.lock'' = Some (Inl (Unexpected ''invalid file dir_lock_guard.lock''))"
    by (simp_all add: parse_file_id_def path_file_name_def ends_with_def FILE_SUFFIX_def split_slash_last(1) del: split_slash.simps)
  then show "get_id_map [''MANIFEST'', ''dir_lock_guard.lock''] = Some {}" by simp
  show "get_data_files [''db/MANIFEST''] = []" by code_simp
qed

text \<open>A small entry fits into a new store.\<close>

lemma fresh_room:
  assumes "fresh_store default_opened kv" and "length (en_key e) + length (en_value e) \<le> 100"
  shows "kv_room env kv (numbered kv e)"
proof -
  obtain sz where kv: "kv_opt kv = default_opened" "kv_vlog kv = first_vlog default_opened (first_log default_opened (Some MmapMut) sz)"
    "kv_disk kv (vlog_file_path ''db'' 0) = Some (replicate (2 ^ 31) 0)" "sl_new 97307833 0 = Some (must_mt kv)"
    using assms(1) default_open by (auto simp: fresh_store_def)
  note new = new_list_room [OF kv(4)]
  have "ucast (opt_max_table_size default_opened) = (67108864 :: u32)" by (simp add: default_opened_def options_default_def)
  then have "ensure_room_for_write kv = Some (Inr (), kv)"
    using new(1) kv(1) less_trans [of "mem_size (must_mt kv)" 200 67108864] by (simp add: ensure_room_for_write_def)
  moreover have "sl_room (must_mt kv) (en_key e) v" if "vs_size v \<le> 22 + length (en_value e)" for v
    using that new(2) assms(2) by (intro sl_room_free) (simp_all add: put_cost_def put_small_def)
  moreover have "log_map kv = replicate (2 ^ 31) 0"
    using kv(2,3) default_open(8) by (simp add: log_map_def first_vlog_def first_log_def pick_log_by_vlog_id_def vl_default_def Let_def)
  moreover have "batch_fits (ke_vl env) (kv_vlog kv) (replicate (2 ^ 31) 0) [numbered kv e]"
    using assms(2) kv(2) default_open(6)
    by (simp add: batch_fits_def first_vlog_def vl_default_def entry_small_def entry_image_length numbered_def batch_image_def)
  moreover have "entry_too_big (kv_opt kv) (numbered kv e) = None"
    using assms(2) kv(1) default_open(6) by (simp add: entry_too_big_def MAX_KEY_SIZE_def numbered_def)
  ultimately show ?thesis using assms(2) by (auto simp: kv_room_def numbered_def)
qed

text \<open>Non-vacuity of C9: a store with the default options in a directory with a lock file.\<close>

theorem open_fresh_store_witness:
  "\<exists>kv disk'. kv_open example_env Some (\<lambda>_ _. 0) [''MANIFEST'', ''dir_lock_guard.lock''] [''db/MANIFEST''] [] (options_default ''db'') Map.empty
      = Some (Inr kv, disk') \<and> kv_inv example_env kv Map.empty
      \<and> replays_to example_pb disk' (path_join ''db'' MANIFEST_FILENAME) manifest_new \<and> length (lc_levels (kv_lc kv)) = 7"
proof -
  obtain hs :: "unit level_handler list" where hs: "init_levels default_opened (opt_max_levels default_opened) = Some hs" using default_open(4) by blast
  have env: "ke_pb example_env = example_pb" "ke_vl example_env = example_vl_env" by (simp_all add: example_env_def)
  have map: "ve_can_map (ke_vl example_env) (unat (opt_value_log_file_size default_opened * 2))" by (simp add: default_open env example_vl_env_def)
  have lim: "2 ^ 20 \<le> unat (opt_value_log_file_size default_opened)" "unat (opt_value_log_file_size default_opened) \<le> 2 ^ 31" by (simp_all add: default_open)
  have "opt_max_levels default_opened = 7" by (simp add: default_opened_def options_default_def)
  with open_fresh_store [OF default_open(1,3,5) lim hs map _ _ no_table_names, of Map.empty Some "\<lambda>_ _. 0"] example_pb_ok(1) show ?thesis
    unfolding env default_open(7) by fastforce
qed

end
