(* ===== verification/Kv_Writer.thy ===== *)
theory Kv_Writer
  imports Kv_Flush
begin

section \<open>The writing task\<close>

text \<open>
  Models \<open>KV::do_writes\<close> of \<open>src/src/kv.rs\<close>, the task that takes requests from the write channel and
  hands them to \<open>write_requests\<close>, as a step relation: which arm of \<open>select!\<close> is taken and when other
  tasks send is left open. A request is the list of its entries. A step that panics has no successor.
\<close>

subsection \<open>The task\<close>

definition KV_WRITE_CH_CAPACITY :: nat where "KV_WRITE_CH_CAPACITY = 1000"

text \<open>The random draws for the towers of the entries of a batch.\<close>

type_synonym draws = "nat \<Rightarrow> nat \<Rightarrow> nat \<Rightarrow> u32"

datatype write_phase = Serving | Draining | Exited

record 'bf write_task =
  wt_phase :: write_phase
  wt_reqs :: "entry list list"
  wt_ch :: "entry list list"
  wt_ch_closed :: bool
  wt_kv :: "'bf kv"

definition write_task_new :: "'bf kv \<Rightarrow> 'bf write_task" where
  "write_task_new kv = \<lparr>wt_phase = Serving, wt_reqs = [], wt_ch = [], wt_ch_closed = False, wt_kv = kv\<rparr>"

text \<open>The batch that one turn of the loop writes: nothing while another request could be received and there are few.\<close>

definition next_batch :: "'bf write_task \<Rightarrow> entry list list \<times> 'bf write_task" where
  "next_batch w =
     (if length (wt_reqs w) \<ge> 3 * KV_WRITE_CH_CAPACITY then (wt_reqs w, w\<lparr>wt_reqs := []\<rparr>)
      else case wt_ch w of
             req # ch \<Rightarrow> ([], w\<lparr>wt_reqs := wt_reqs w @ [req], wt_ch := ch\<rparr>)
           | [] \<Rightarrow> (wt_reqs w, w\<lparr>wt_reqs := []\<rparr>))"

definition write_batch ::
  "'bf kv_env \<Rightarrow> ('bf kv \<Rightarrow> 'bf kv option) \<Rightarrow> draws \<Rightarrow> entry list list \<Rightarrow> 'bf kv \<Rightarrow> 'bf kv option" where
  "write_batch env wait rnds batch kv = (if batch = [] then Some kv else map_option snd (write_requests env wait rnds batch kv))"

text \<open>
  The steps: another task sends a request while the channel is open and not full; the arms of
  \<open>select!\<close> (the signal to close, the timer, a request, the error of a closed channel); and the loop
  that empties the channel afterwards. \<open>keep\<close> is \<open>without_close_write_ch\<close>. A label names the request sent or the batch written.
\<close>

datatype write_label = Sent "entry list" | Written draws "entry list list" | Silent

inductive do_writes ::
  "'bf kv_env \<Rightarrow> ('bf kv \<Rightarrow> 'bf kv option) \<Rightarrow> bool \<Rightarrow> 'bf write_task \<Rightarrow> write_label \<Rightarrow> 'bf write_task \<Rightarrow> bool"
  for env wait keep where
  send: "\<lbrakk>\<not> wt_ch_closed w; length (wt_ch w) < KV_WRITE_CH_CAPACITY\<rbrakk>
    \<Longrightarrow> do_writes env wait keep w (Sent req) (w\<lparr>wt_ch := wt_ch w @ [req]\<rparr>)"
| tick: "\<lbrakk>wt_phase w = Serving; next_batch w = (batch, w'); write_batch env wait rnds batch (wt_kv w') = Some kv\<rbrakk>
    \<Longrightarrow> do_writes env wait keep w (Written rnds batch) (w'\<lparr>wt_kv := kv\<rparr>)"
| recv: "\<lbrakk>wt_phase w = Serving; wt_ch w = req # ch; next_batch (w\<lparr>wt_reqs := wt_reqs w @ [req], wt_ch := ch\<rparr>) = (batch, w');
     write_batch env wait rnds batch (wt_kv w') = Some kv\<rbrakk>
    \<Longrightarrow> do_writes env wait keep w (Written rnds batch) (w'\<lparr>wt_kv := kv\<rparr>)"
| recv_closed: "\<lbrakk>wt_phase w = Serving; wt_ch w = []; wt_ch_closed w; keep\<rbrakk>
    \<Longrightarrow> do_writes env wait keep w Silent (w\<lparr>wt_phase := Draining\<rparr>)"
| closed: "\<lbrakk>wt_phase w = Serving; keep \<or> \<not> wt_ch_closed w\<rbrakk>
    \<Longrightarrow> do_writes env wait keep w Silent (w\<lparr>wt_phase := Draining, wt_ch_closed := (\<not> keep \<or> wt_ch_closed w)\<rparr>)"
| drain: "\<lbrakk>wt_phase w = Draining; wt_ch w = req # ch; write_batch env wait rnds (wt_reqs w @ [req]) (wt_kv w) = Some kv\<rbrakk>
    \<Longrightarrow> do_writes env wait keep w (Written rnds (wt_reqs w @ [req])) (w\<lparr>wt_reqs := [], wt_ch := ch, wt_kv := kv\<rparr>)"
| exit: "\<lbrakk>wt_phase w = Draining; wt_ch w = []\<rbrakk>
    \<Longrightarrow> do_writes env wait keep w Silent (w\<lparr>wt_phase := Exited\<rparr>)"

inductive_cases do_writes_cases: "do_writes env wait keep w l w'"

subsection \<open>Runs\<close>

inductive writes_run ::
  "'bf kv_env \<Rightarrow> ('bf kv \<Rightarrow> 'bf kv option) \<Rightarrow> bool \<Rightarrow> 'bf write_task \<Rightarrow> write_label list \<Rightarrow> 'bf write_task \<Rightarrow> bool"
  for env wait keep w where
  start: "writes_run env wait keep w [] w"
| step: "\<lbrakk>writes_run env wait keep w ls w'; do_writes env wait keep w' l w''\<rbrakk> \<Longrightarrow> writes_run env wait keep w (ls @ [l]) w''"

definition sent :: "write_label list \<Rightarrow> entry list list" where
  "sent ls = concat (map (\<lambda>l. case l of Sent req \<Rightarrow> [req] | _ \<Rightarrow> []) ls)"

definition batches :: "write_label list \<Rightarrow> (draws \<times> entry list list) list" where
  "batches ls = concat (map (\<lambda>l. case l of Written rnds b \<Rightarrow> [(rnds, b)] | _ \<Rightarrow> []) ls)"

fun write_batches ::
  "'bf kv_env \<Rightarrow> ('bf kv \<Rightarrow> 'bf kv option) \<Rightarrow> (draws \<times> entry list list) list \<Rightarrow> 'bf kv \<Rightarrow> 'bf kv option" where
  "write_batches env wait [] kv = Some kv"
| "write_batches env wait ((rnds, b) # bs) kv = Option.bind (write_batch env wait rnds b kv) (write_batches env wait bs)"

lemma sent_append [simp]: "sent (ls @ ls') = sent ls @ sent ls'" "sent [Sent req] = [req]" "sent [Written rnds b] = []" "sent [Silent] = []"
  by (simp_all add: sent_def)

lemma batches_append [simp]: "batches (ls @ ls') = batches ls @ batches ls'" "batches [Sent req] = []" "batches [Written rnds b] = [(rnds, b)]" "batches [Silent] = []"
  by (simp_all add: batches_def)

lemma write_batches_append:
  "write_batches env wait (bs @ bs') kv = Option.bind (write_batches env wait bs kv) (write_batches env wait bs')"
  by (induction bs arbitrary: kv) (auto split: bind_splits)

lemma next_batch_keeps:
  assumes "next_batch w = (batch, w')"
  shows "batch @ wt_reqs w' @ wt_ch w' = wt_reqs w @ wt_ch w" and "wt_kv w' = wt_kv w" and "wt_phase w' = wt_phase w"
    and "wt_ch_closed w' = wt_ch_closed w" and "length (wt_reqs w') \<le> 3 * KV_WRITE_CH_CAPACITY"
    and "length (wt_ch w') \<le> length (wt_ch w)" and "length batch \<le> length (wt_reqs w)"
  using assms by (auto simp: next_batch_def split: if_splits list.splits)

text \<open>What a step does to the requests that are under way, and to the store.\<close>

lemma do_writes_step:
  assumes "do_writes env wait keep w l w'"
  shows "concat (map snd (batches [l])) @ wt_reqs w' @ wt_ch w' = wt_reqs w @ wt_ch w @ sent [l]"
    and "write_batches env wait (batches [l]) (wt_kv w) = Some (wt_kv w')"
  using assms next_batch_keeps by (cases; fastforce simp: write_batch_def)+

definition writer_bounded :: "'bf write_task \<Rightarrow> bool" where
  "writer_bounded w \<longleftrightarrow> length (wt_reqs w) \<le> 3 * KV_WRITE_CH_CAPACITY \<and> length (wt_ch w) \<le> KV_WRITE_CH_CAPACITY
     \<and> (wt_phase w = Exited \<longrightarrow> wt_ch_closed w \<longrightarrow> wt_ch w = [])"

lemma do_writes_bounded:
  assumes "do_writes env wait keep w l w'" and "writer_bounded w"
  shows "writer_bounded w' \<and> (\<forall>b\<in>set (batches [l]). length (snd b) \<le> 3 * KV_WRITE_CH_CAPACITY + 1)"
  using assms(1)
proof cases
  case (tick batch w1 rnds kv)
  then show ?thesis using assms(2) next_batch_keeps [OF tick(4)] by (auto simp: writer_bounded_def)
next
  case (recv req ch batch w1 rnds kv)
  then show ?thesis using assms(2) next_batch_keeps [OF recv(5)] by (auto simp: writer_bounded_def)
qed (use assms(2) in \<open>auto simp: writer_bounded_def\<close>)

lemma writes_run_keeps:
  assumes "writes_run env wait keep (write_task_new kv) ls w"
  shows "concat (map snd (batches ls)) @ wt_reqs w @ wt_ch w = sent ls"
    and "write_batches env wait (batches ls) kv = Some (wt_kv w)"
    and "writer_bounded w" and "\<forall>b\<in>set (batches ls). length (snd b) \<le> 3 * KV_WRITE_CH_CAPACITY + 1"
  using assms
proof (induction rule: writes_run.induct)
  case start
  { case 1 show ?case by (simp add: write_task_new_def sent_def batches_def)
  next case 2 show ?case by (simp add: write_task_new_def batches_def)
  next case 3 show ?case by (simp add: write_task_new_def writer_bounded_def)
  next case 4 show ?case by (simp add: batches_def) }
next
  case (step ls w' l w'')
  note s = do_writes_step [OF step(2)] and b = do_writes_bounded [OF step(2) step(5)]
  { case 1 show ?case using s(1) step(3) by simp
  next case 2 show ?case using s(2) step(4) by (simp add: write_batches_append)
  next case 3 show ?case using b by simp
  next case 4 show ?case using step(6) b by auto }
qed

text \<open>
  C12. The writing task neither reorders nor duplicates requests. However sends, the timer, receiving
  and closing interleave, the requests of the batches written so far, the ones taken from the channel
  and the ones still in it are, in this order, exactly the requests that were sent; the store is the
  one that writing these batches one after another gives; and no more than three times
  the capacity of the channel are held back at any time.
\<close>

theorem writer_keeps_order:
  assumes "writes_run env wait keep (write_task_new kv) ls w"
  shows "concat (map snd (batches ls)) @ wt_reqs w @ wt_ch w = sent ls
    \<and> write_batches env wait (batches ls) kv = Some (wt_kv w)
    \<and> writer_bounded w \<and> (\<forall>(rnds, b)\<in>set (batches ls). length b \<le> 3 * KV_WRITE_CH_CAPACITY + 1)"
  using writes_run_keeps [OF assms] by auto

text \<open>
  C20. Closing can lose requests. A request that was taken from the channel waits for the next turn
  of the loop when another one can be received at once; when the signal to close arrives then, the
  task only empties the channel, finds nothing there and exits: neither request
  is written, and the store is the one before.
\<close>

theorem close_loses_requests:
  "\<exists>ls w. writes_run env wait keep (write_task_new kv) ls w \<and> sent ls = [req, req']
    \<and> wt_phase w = Exited \<and> wt_reqs w = [req, req'] \<and> wt_kv w = kv"
proof -
  let ?w = "write_task_new kv"
  let ?w1 = "?w\<lparr>wt_ch := [req]\<rparr>" and ?w2 = "?w\<lparr>wt_ch := [req, req']\<rparr>" and ?w3 = "?w\<lparr>wt_reqs := [req, req']\<rparr>"
  let ?w4 = "?w3\<lparr>wt_phase := Draining, wt_ch_closed := \<not> keep\<rparr>"
  have "do_writes env wait keep ?w (Sent req) ?w1"
    using do_writes.send [of ?w env wait keep req] by (simp add: write_task_new_def KV_WRITE_CH_CAPACITY_def)
  moreover have "do_writes env wait keep ?w1 (Sent req') ?w2"
    using do_writes.send [of ?w1 env wait keep req'] by (simp add: write_task_new_def KV_WRITE_CH_CAPACITY_def)
  moreover have "do_writes env wait keep ?w2 (Written (\<lambda>_ _ _. 0) []) ?w3"
    using do_writes.recv [of ?w2 req "[req']" "[]" ?w3 env wait "\<lambda>_ _ _. 0" kv keep]
    by (simp add: write_task_new_def next_batch_def KV_WRITE_CH_CAPACITY_def write_batch_def)
  moreover have "do_writes env wait keep ?w3 Silent ?w4"
    using do_writes.closed [of ?w3 keep env wait] by (simp add: write_task_new_def)
  moreover have "do_writes env wait keep ?w4 Silent (?w4\<lparr>wt_phase := Exited\<rparr>)"
    using do_writes.exit [of ?w4 env wait keep] by (simp add: write_task_new_def)
  ultimately have "writes_run env wait keep ?w
      ((((([] @ [Sent req]) @ [Sent req']) @ [Written (\<lambda>_ _ _. 0) []]) @ [Silent]) @ [Silent]) (?w4\<lparr>wt_phase := Exited\<rparr>)"
    by - (assumption | rule writes_run.start | rule writes_run.step)+
  then show ?thesis by (intro exI conjI) (assumption, simp_all add: sent_def write_task_new_def)
qed

text \<open>Non-vacuity of C12: a request is sent and written by the next turn of the loop.\<close>

theorem writer_keeps_order_witness:
  "\<exists>w. let req = [set_entry [1] [7] 0]; ls = [Sent req, Written (\<lambda>_ _ _. 0) [req]] in
     writes_run example_env Some False (write_task_new example_kv) ls w
     \<and> concat (map snd (batches ls)) @ wt_reqs w @ wt_ch w = [req]
     \<and> write_batches example_env Some (batches ls) example_kv = Some (wt_kv w)"
proof -
  let ?w = "write_task_new example_kv :: unit write_task" and ?e = "set_entry [1] [7] 0"
  let ?w1 = "?w\<lparr>wt_ch := [[?e]]\<rparr>" and ?ls = "[Sent [?e], Written (\<lambda>_ _ _. 0) [[?e]]]"
  obtain kvss kvsss cur m where rep: "kv_rep example_env example_kv kvss kvsss cur m [[1] \<mapsto> [1]]"
    using example_kv_inv by (auto simp: kv_inv_def)
  have "plain ?e" by (simp add: plain_def entry_default_def)
  then obtain kv' where "write_requests example_env Some (\<lambda>_ _ _. 0) [[?e]] example_kv = Some ([[Inr ()]], kv')"
    using write_requests_plain [OF rep example_kv_room, of ?e] by (auto simp: entry_default_def)
  then have "do_writes example_env Some False ?w1 (Written (\<lambda>_ _ _. 0) [[?e]]) (?w\<lparr>wt_kv := kv'\<rparr>)"
    using do_writes.recv [of ?w1 "[?e]" "[]" "[[?e]]" ?w example_env Some "\<lambda>_ _ _. 0" kv' False]
    by (simp add: write_task_new_def next_batch_def KV_WRITE_CH_CAPACITY_def write_batch_def)
  moreover have "do_writes example_env Some False ?w (Sent [?e]) ?w1"
    using do_writes.send [of ?w example_env Some False "[?e]"] by (simp add: write_task_new_def KV_WRITE_CH_CAPACITY_def)
  ultimately have run: "writes_run example_env Some False ?w ?ls (?w\<lparr>wt_kv := kv'\<rparr>)"
    using writes_run.step [OF writes_run.step [OF writes_run.start]] by fastforce
  from run writer_keeps_order [OF run] show ?thesis by (intro exI [of _ "?w\<lparr>wt_kv := kv'\<rparr>"]) (simp add: Let_def sent_def)
qed

end
