(* ===== verification/Batch_Correct.thy ===== *)
theory Batch_Correct
  imports Kv_Flush
begin

section \<open>Batches, room for writes and compare-and-set\<close>

text \<open>
  Shows how \<open>batch_set\<close> cuts its entries into requests, that a writer that finds no room gets on
  once a memtable has been flushed, and what \<open>compare_and_set\<close> and \<open>compare_and_delete\<close> do to the map.
\<close>

subsection \<open>The requests of a batch\<close>

definition entries_size :: "options \<Rightarrow> (nat \<times> entry) list \<Rightarrow> nat" where
  "entries_size opt req = sum_list (map (\<lambda>(i, e). estimate_size opt (en_key e) (en_value e)) req)"

definition accepted :: "options \<Rightarrow> nat \<Rightarrow> entry list \<Rightarrow> (nat \<times> entry) list" where
  "accepted opt i es = filter (\<lambda>(j, e). entry_too_big opt e = None) (enumerate i es)"

definition within_limits :: "options \<Rightarrow> (nat \<times> entry) list \<Rightarrow> bool" where
  "within_limits opt req \<longleftrightarrow> req \<noteq> [] \<and> length req \<le> max 1 (unat (opt_max_batch_count opt))
     \<and> (tl req = [] \<or> entries_size opt (butlast req) < unat (opt_max_batch_size opt))"

lemma accepted_simps [simp]:
  "accepted opt i [] = []"
  "accepted opt i (e # es) = (if entry_too_big opt e = None then (i, e) # accepted opt (Suc i) es else accepted opt (Suc i) es)"
  by (simp_all add: accepted_def)

lemma pack_requests_limits:
  assumes "req \<noteq> [] \<Longrightarrow> length req < unat (opt_max_batch_count opt) \<and> entries_size opt req < unat (opt_max_batch_size opt)"
  shows "concat (pack_requests opt i req (length req) (entries_size opt req) es) = req @ accepted opt i es
    \<and> (\<forall>r\<in>set (pack_requests opt i req (length req) (entries_size opt req) es). within_limits opt r)"
  using assms
proof (induction es arbitrary: i req)
  case Nil
  have "entries_size opt (butlast req) \<le> entries_size opt req"
    by (cases req rule: rev_cases) (simp_all add: entries_size_def)
  with Nil show ?case by (auto simp: within_limits_def)
next
  case (Cons e es)
  let ?req = "req @ [(i, e)]"
  have sz: "entries_size opt ?req = entries_size opt req + estimate_size opt (en_key e) (en_value e)" by (simp add: entries_size_def)
  have w: "within_limits opt ?req" using Cons.prems by (cases req) (auto simp: within_limits_def)
  show ?case
    using Cons.IH [of req "Suc i"] Cons.IH [of ?req "Suc i"] Cons.IH [of "[]" "Suc i"] Cons.prems w sz
    by (auto simp: Let_def entries_size_def [of opt "[]"] not_le)
qed

text \<open>
  C32. How a batch is cut. The requests that \<open>batch_set\<close> makes of its entries hold, one after another,
  exactly the entries that are not too big, each once, in order and with its position in the
  batch, so that its answer can be stored there. No request is empty, none has more entries than the limit
  (or than one, when the limit is 0), and none reaches the size limit before its last entry.
\<close>

theorem batches_within_limits:
  "concat (pack_requests opt 0 [] 0 0 es) = accepted opt 0 es
    \<and> (\<forall>req\<in>set (pack_requests opt 0 [] 0 0 es). within_limits opt req)"
  using pack_requests_limits [of "[]" opt 0 es] by (simp add: entries_size_def)

text \<open>Non-vacuity of C32: three entries, the second of which is too big, with two entries per request.\<close>

theorem batches_within_limits_witness:
  "let opt = (options_default ''db'')\<lparr>opt_value_log_file_size := 2, opt_max_batch_count := 2\<rparr>;
       e = (\<lambda>n. entry_default\<lparr>en_key := [1], en_value := replicate n 7\<rparr>);
       es = [e 1, e 3, e 2, e 1]
   in pack_requests opt 0 [] 0 0 es = [[(0, e 1), (2, e 2)], [(3, e 1)]]
      \<and> (\<forall>req\<in>set (pack_requests opt 0 [] 0 0 es). within_limits opt req)"
proof -
  let ?opt = "(options_default ''db'')\<lparr>opt_value_log_file_size := 2, opt_max_batch_count := 2\<rparr>"
  let ?e = "\<lambda>n. entry_default\<lparr>en_key := [1], en_value := replicate n 7\<rparr>"
  have packed: "pack_requests ?opt 0 [] 0 0 [?e 1, ?e 3, ?e 2, ?e 1] = [[(0, ?e 1), (2, ?e 2)], [(3, ?e 1)]]"
    by (simp add: entry_too_big_def options_default_def entry_default_def MAX_KEY_SIZE_def estimate_size_def Let_def)
  show ?thesis unfolding Let_def by (intro conjI packed batches_within_limits [THEN conjunct2])
qed

subsection \<open>Waiting for room\<close>

lemma sl_empty_abs: "skip_abs s kvs \<Longrightarrow> sl_empty s = Some (kvs = [])"
  by (auto simp: skip_abs_def sl_empty_def sl_find_last_correct entries_def)

lemma swap_st_fresh:
  assumes "arena_fits opt"
  shows "\<exists>sm'. swap_st opt sm = Some sm' \<and> sl_empty (mt_ref sm') = Some True"
proof -
  obtain sz s where "opt_arena_size opt = Some sz" "sl_new (unat sz) (of_nat (sm_next sm)) = Some s" "skip_abs s []"
    using assms(1) sl_new_abs unfolding arena_fits_def by metis
  then show ?thesis by (simp add: swap_st_def mt_ref_def sl_empty_abs)
qed

text \<open>
  C11. A writer that finds no room gets on. When the memtable is full and the flush queue is full too,
  the loop that waits for room in \<open>write_requests\<close> does not run forever: once the flush task has written one memtable to level 0,
  it returns, with a fresh memtable to write to, the queue full again, and the map unchanged.
\<close>

theorem full_store_makes_room:
  assumes "kv_inv env kv M" and "flush_ready env kv" and "\<not> mem_size (must_mt kv) < ucast (opt_max_table_size (kv_opt kv))"
    and "sl_empty (must_mt kv) = Some False"
    and "kv_flush_chan kv \<noteq> []" and "length (kv_flush_chan kv) = opt_num_mem_tables (kv_opt kv)"
  shows "\<exists>kv'. wait_for_room (\<lambda>kv. map_option snd (flush_mem_table env waitlc order rnd kv)) kv = Some kv' \<and> kv_inv env kv' M
    \<and> sl_empty (must_mt kv') = Some True \<and> length (kv_flush_chan kv') = length (kv_flush_chan kv)"
proof -
  let ?wait = "\<lambda>kv. map_option snd (flush_mem_table env waitlc order rnd kv)"
  obtain kvss kvsss cur m where rep: "kv_rep env kv kvss kvsss cur m M" using assms(1) by (auto simp: kv_inv_def)
  have full: "ensure_room_for_write kv = Some (Inl (Unexpected ''No room for write''), kv)"
    using assms(3,4,6) by (simp add: ensure_room_for_write_def)
  obtain kv1 kvss1 kvsss1 where fl: "flush_mem_table env waitlc order rnd kv = Some (Inr True, kv1)" "kv_rep env kv1 kvss1 kvsss1 cur m M"
    "kv_opt kv1 = kv_opt kv" "kv_flush_chan kv1 = tl (kv_flush_chan kv)" "must_mt kv1 = must_mt kv"
    using flush_rep [OF rep assms(2,5), of waitlc order rnd] by blast
  have "arena_fits (kv_opt kv1)" using fl(2) by (simp add: kv_rep_def)
  then obtain mem where mem: "swap_st (kv_opt kv1) (kv_mem kv1) = Some mem" "sl_empty (mt_ref mem) = Some True"
    using swap_st_fresh by blast
  have room: "ensure_room_for_write kv1 = Some (Inr (), rotated kv1 mem)"
    using assms(3-6) fl(3-5) mem(1) rep_sync [OF fl(2)] length_greater_0_conv [of "kv_flush_chan kv"] by (simp add: ensure_room_cases)
  have "wait_for_room ?wait kv = Some (rotated kv1 mem)"
    using full fl(1) wait_for_room_now [OF room, of ?wait] by (subst wait_for_room.simps) simp
  moreover have "kv_inv env (rotated kv1 mem) M" using ensure_room_rep [OF fl(2) room] by (auto simp: kv_inv_def)
  moreover have "sl_empty (must_mt (rotated kv1 mem)) = Some True"
    using mem(2) by (simp add: must_mt_def rotated_def)
  moreover have "length (kv_flush_chan (rotated kv1 mem)) = length (kv_flush_chan kv)"
    using fl(4) assms(5) by (simp add: rotated_def)
  ultimately show ?thesis by blast
qed

text \<open>The store of the examples with a full memtable, one memtable that waits, and room in the queue for one.\<close>

definition example_full_kv :: "unit kv" where
  "example_full_kv = (let opt = (options_default ''db'')\<lparr>opt_max_table_size := 0, opt_num_mem_tables := 1\<rparr> in
     example_kv\<lparr>kv_opt := opt, kv_vlog := example_vlog\<lparr>vl_opt := opt\<rparr>, kv_mem := (kv_mem example_kv)\<lparr>sm_lists := (\<lambda>_. example_full_list)\<rparr>\<rparr>)"

lemma example_full_parts:
  "kv_lc example_full_kv = kv_lc example_kv" "kv_disk example_full_kv = kv_disk example_kv" "kv_flush_chan example_full_kv = kv_flush_chan example_kv"
  "kv_opt example_full_kv = (options_default ''db'')\<lparr>opt_max_table_size := 0, opt_num_mem_tables := 1\<rparr>"
  "kv_mem example_full_kv = (kv_mem example_kv)\<lparr>sm_lists := (\<lambda>_. example_full_list)\<rparr>"
  "kv_vlog example_full_kv = example_vlog\<lparr>vl_opt := kv_opt example_full_kv\<rparr>"
  by (simp_all add: example_full_kv_def Let_def)

lemma example_full_inv: "kv_inv example_env example_full_kv [[1] \<mapsto> [1]]"
proof -
  have "mem_ok (kv_mem example_full_kv) [[example_item 1], [example_item 1]]"
    using example_lists example_item_read(1) by (simp add: mem_ok_def example_full_parts example_kv_def)
  moreover have "arena_fits (kv_opt example_full_kv)"
    by (simp add: arena_fits_def example_full_parts options_default_def opt_arena_size_def node_size_def MAX_HEIGHT_def)
  moreover have "vl_ready (kv_vlog example_full_kv) example_vlog_disk example_log_file (replicate (2 ^ 21) 0)"
    using example_vl_ready by (simp add: example_full_parts vl_ready_def pick_log_by_vlog_id_def)
  moreover have "store_view [[example_item 1], [example_item 1]] [example_item 1] k = (if k = [1] then Inr (snd (example_item 1)) else Inl NotFound)" for k
    using example_item_read(1-3) by (cases "example_item 1"; simp add: store_view_def solid_def)
  moreover have "kv_lc example_full_kv = example_levels" "tasks_ok example_full_kv" "kv_disk example_full_kv = example_vlog_disk"
      "ke_bl example_env = example_bloom"
    by (simp_all add: example_full_parts example_kv_def tasks_ok_def example_env_def)
  ultimately have "kv_rep example_env example_full_kv [[example_item 1], [example_item 1]] [[[example_item 1]], []] example_log_file (replicate (2 ^ 21) 0) [[1] \<mapsto> [1]]"
    using example_levels_rep by (simp add: kv_rep_def example_view example_full_parts(6))
  then show ?thesis by (auto simp: kv_inv_def)
qed

lemma example_full_flush: "flush_ready example_env example_full_kv"
proof -
  have "opt_dir (kv_opt example_full_kv) = opt_dir (kv_opt example_kv)" "vl_vlogs (kv_vlog example_full_kv) = vl_vlogs (kv_vlog example_kv)"
    by (simp_all add: example_full_parts) (simp_all add: example_kv_def example_vlog_def options_default_def)
  moreover have "sm_lists (kv_mem example_kv) 0 = example_full_list" "vp_is_zero vp_default"
    "kv_flush_chan example_kv = [\<lparr>ft_mt = Some 0, ft_vptr = vp_default\<rparr>]"
    by (simp_all add: example_kv_def vp_is_zero_def vp_default_def)
  moreover have "flush_items example_full_kv vp_default kvs = flush_items example_kv vp_default kvs" for kvs
    by (simp add: flush_items_def vp_is_zero_def vp_default_def)
  ultimately show ?thesis
    using example_flush_ready by (simp add: flush_ready_def logs_apart_def example_full_parts(1-3,5))
qed

text \<open>Non-vacuity of C11: the store with a full memtable and a full queue.\<close>

theorem full_store_makes_room_witness:
  "\<exists>kv'. wait_for_room (\<lambda>kv. map_option snd (flush_mem_table example_env (\<lambda>lc refs disk. Some (lc, refs, disk)) [] (\<lambda>_. 0) kv)) example_full_kv
      = Some kv' \<and> kv_inv example_env kv' [[1] \<mapsto> [1]] \<and> sl_empty (must_mt kv') = Some True \<and> length (kv_flush_chan kv') = 1"
proof -
  have "must_mt example_full_kv = example_full_list" "length (kv_flush_chan example_full_kv) = 1" "kv_flush_chan example_full_kv \<noteq> []"
    by (simp_all add: must_mt_def mt_ref_def example_full_parts(3,5)) (simp_all add: example_kv_def)
  moreover have "sl_empty example_full_list = Some False" using sl_empty_abs [OF example_lists(2)] by simp
  ultimately show ?thesis
    using full_store_makes_room [OF example_full_inv example_full_flush, where waitlc = "\<lambda>lc refs disk. Some (lc, refs, disk)" and order = "[]" and rnd = "\<lambda>_. 0"]
    by (simp add: example_full_parts(4))
qed

subsection \<open>Compare-and-set\<close>

abbreviation cas_entry :: "bytes \<Rightarrow> bytes \<Rightarrow> u64 \<Rightarrow> entry" where
  "cas_entry k v c \<equiv> entry_default\<lparr>en_key := k, en_value := v, en_cas_counter_check := c\<rparr>"

text \<open>The check of an entry against the value that the store holds.\<close>

lemma write_entry_checked:
  assumes "kv_rep env kv kvss kvsss cur m M" and "en_cas_counter_check e \<noteq> 0" and "en_meta e = 0"
  shows "\<exists>refs. write_entry_to_lsm env rnd e p kv =
    (case store_view kvss (lower_items (kv_lc kv) kvsss) (en_key e) of
       Inl err \<Rightarrow> Some (Inl err, kv\<lparr>kv_refs := refs\<rparr>)
     | Inr old \<Rightarrow> if vs_cas_counter old \<noteq> en_cas_counter_check e then Some (Inl ValueCasMisMatch, kv\<lparr>kv_refs := refs\<rparr>)
                 else write_entry_to_lsm env rnd (e\<lparr>en_cas_counter_check := 0\<rparr>) p (kv\<lparr>kv_refs := refs\<rparr>))"
proof -
  obtain refs where "kv_get_vs env kv (en_key e) = Some (store_view kvss (lower_items (kv_lc kv) kvsss) (en_key e), kv\<lparr>kv_refs := refs\<rparr>)"
    using assms(1) kv_get_vs_view [OF mem_tables_abs] unfolding kv_rep_def by blast
  moreover have "lsm_value kv' (e\<lparr>en_cas_counter_check := 0\<rparr>) p = lsm_value kv' e p" for kv' :: "'a kv"
    by (simp add: lsm_value_def should_write_value_to_lsm_def)
  ultimately show ?thesis
    using assms(2,3) by (intro exI [of _ refs]) (auto simp: BIT_SET_IF_ABSENT_def write_entry_to_lsm_def split: sum.splits)
qed

lemma kv_invI [intro]: "kv_rep env kv kvss kvsss cur m M \<Longrightarrow> kv_inv env kv M"
  by (auto simp: kv_inv_def)

lemma kv_rep_refs: "kv_rep env kv kvss kvsss cur m M \<Longrightarrow> kv_rep env (kv\<lparr>kv_refs := refs\<rparr>) kvss kvsss cur m M"
  by (erule kv_rep_same) simp_all

lemma write_checked_rep:
  assumes rep: "kv_rep env kv kvss kvsss cur m M" and e: "en_cas_counter_check e \<noteq> 0" "en_meta e = 0" "en_value e \<noteq> []"
    and p: "read_back (kv_opt kv) (kv_vlog kv) (kv_disk kv) e p"
    and room: "\<And>v. vs_size v \<le> 22 + length (en_value e) \<Longrightarrow> sl_room (must_mt kv) (en_key e) v"
  defines "r \<equiv> (case store_view kvss (lower_items (kv_lc kv) kvsss) (en_key e) of
       Inl err \<Rightarrow> Inl err | Inr old \<Rightarrow> if vs_cas_counter old = en_cas_counter_check e then Inr () else Inl ValueCasMisMatch)"
  shows "\<exists>kv'. write_entry_to_lsm env rnd e p kv = Some (r, kv') \<and> kv_inv env kv' (if r = Inr () then written e M else M)"
proof -
  let ?e = "e\<lparr>en_cas_counter_check := 0\<rparr>"
  obtain refs where chk: "write_entry_to_lsm env rnd e p kv =
    (case store_view kvss (lower_items (kv_lc kv) kvsss) (en_key e) of
       Inl err \<Rightarrow> Some (Inl err, kv\<lparr>kv_refs := refs\<rparr>)
     | Inr old \<Rightarrow> if vs_cas_counter old \<noteq> en_cas_counter_check e then Some (Inl ValueCasMisMatch, kv\<lparr>kv_refs := refs\<rparr>)
                 else write_entry_to_lsm env rnd ?e p (kv\<lparr>kv_refs := refs\<rparr>))"
    using write_entry_checked [OF rep e(1,2), of rnd p] by blast
  have rep1: "kv_rep env (kv\<lparr>kv_refs := refs\<rparr>) kvss kvsss cur m M" by (rule kv_rep_refs [OF rep])
  have "plain ?e" "written ?e M = written e M" "read_back (kv_opt kv) (kv_vlog kv) (kv_disk kv) ?e p"
    using e p by (auto simp: plain_def written_def read_back_def logged_def entry_value_def)
  then have "\<exists>kv'. write_entry_to_lsm env rnd ?e p (kv\<lparr>kv_refs := refs\<rparr>) = Some (Inr (), kv') \<and> kv_inv env kv' (written e M)"
    using write_entry_rep [OF rep1, of ?e p rnd] room by (auto simp: must_mt_def)
  with chk rep1 show ?thesis by (auto simp: r_def split: sum.splits)
qed

lemma set_one_single:
  assumes rep: "kv_rep env kv kvss kvsss cur m M" and room: "kv_room env kv (numbered kv e)"
  shows "\<exists>p kv1 kvss1 m1. kv_rep env kv1 kvss1 kvsss cur m1 M \<and> (kvss1 = kvss \<or> kvss1 = [] # kvss) \<and> kv_lc kv1 = kv_lc kv
    \<and> kv_opt kv1 = kv_opt kv \<and> read_back (kv_opt kv1) (kv_vlog kv1) (kv_disk kv1) (numbered kv e) p
    \<and> (\<forall>v. vs_size v \<le> 22 + length (en_value e) \<longrightarrow> sl_room (must_mt kv1) (en_key e) v)
    \<and> (\<forall>r kv'. write_entry_to_lsm env (rnds 0 0 0) (numbered kv e) p kv1 = Some (r, kv') \<longrightarrow> set_one env wait rnds e kv = Some (r, kv'))"
proof -
  have "entry_too_big (kv_opt kv) e = None" using room by (auto simp: kv_room_def entry_too_big_def numbered_def split: if_splits)
  then show ?thesis
    using write_requests_single [OF rep room, of "rnds 0" wait] set_one_requests [of kv e env wait rnds] by metis
qed

lemma stored_view:
  assumes "kv_rep env kv kvss kvsss cur m M" and "kv_get_vs env kv k = Some (old, kv0)"
  shows "store_view kvss (lower_items (kv_lc kv) kvsss) k = old"
  using assms kv_get_vs_view [OF mem_tables_abs, of kv kvss env kvsss k] by (auto simp: kv_rep_def)

text \<open>
  C10. Compare-and-set. Let \<open>old\<close> be what the store holds for a key. With a counter other than 0,
  a value that is not empty, a key other than that of the log head, and room for the entry, \<open>compare_and_set\<close> stores the value exactly when \<open>old\<close> is a value with this counter; when the key is not there or
  its counter is another one, it answers with the error and leaves the map as it is.
\<close>

theorem compare_and_set_checks:
  assumes "kv_inv env kv M" and "k \<noteq> HEAD_KEY" and "v \<noteq> []" and "c \<noteq> 0" and "kv_room env kv (numbered kv (cas_entry k v c))"
    and "kv_get_vs env kv k = Some (old, kv0)"
  shows "\<exists>kv'. compare_and_set env wait rnds k v c kv =
      Some (case old of Inl e \<Rightarrow> Inl NotFound | Inr vs \<Rightarrow> if vs_cas_counter vs = c then Inr () else Inl ValueCasMisMatch, kv')
    \<and> kv_inv env kv' (case old of Inl e \<Rightarrow> M | Inr vs \<Rightarrow> if vs_cas_counter vs = c then M(k \<mapsto> v) else M)"
proof -
  let ?e = "cas_entry k v c"
  obtain kvss kvsss cur m where rep: "kv_rep env kv kvss kvsss cur m M" using assms(1) by (auto simp: kv_inv_def)
  note old = stored_view [OF rep assms(6)]
  have err: "old = Inl e \<Longrightarrow> e = NotFound" for e using rep assms(2) old by (auto simp: kv_rep_def answers_def)
  obtain p kv1 kvss1 m1 where w: "kv_rep env kv1 kvss1 kvsss cur m1 M" "kvss1 = kvss \<or> kvss1 = [] # kvss" "kv_lc kv1 = kv_lc kv"
    "read_back (kv_opt kv1) (kv_vlog kv1) (kv_disk kv1) (numbered kv ?e) p"
    "\<And>v'. vs_size v' \<le> 22 + length (en_value ?e) \<Longrightarrow> sl_room (must_mt kv1) (en_key ?e) v'"
    "\<And>r kv'. write_entry_to_lsm env (rnds 0 0 0) (numbered kv ?e) p kv1 = Some (r, kv') \<Longrightarrow> set_one env wait rnds ?e kv = Some (r, kv')"
    using set_one_single [OF rep assms(5), of rnds wait] by blast
  define r where "r = (case old of Inl e \<Rightarrow> Inl NotFound | Inr vs \<Rightarrow> if vs_cas_counter vs = c then Inr () else Inl ValueCasMisMatch)"
  have fields: "en_cas_counter_check (numbered kv ?e) = c" "en_meta (numbered kv ?e) = 0" "en_value (numbered kv ?e) = v"
    "en_key (numbered kv ?e) = k" "written (numbered kv ?e) M = M(k \<mapsto> v)"
    by (simp_all add: numbered_def entry_default_def written_def)
  have "(case store_view kvss1 (lower_items (kv_lc kv1) kvsss) k of
       Inl err \<Rightarrow> Inl err | Inr old \<Rightarrow> if vs_cas_counter old = c then Inr () else Inl ValueCasMisMatch) = r"
    using w(2,3) old err by (auto simp: r_def split: sum.splits)
  then obtain kv' where "write_entry_to_lsm env (rnds 0 0 0) (numbered kv ?e) p kv1 = Some (r, kv')"
    "kv_inv env kv' (if r = Inr () then M(k \<mapsto> v) else M)"
    using write_checked_rep [OF w(1) _ _ _ w(4), of "rnds 0 0 0", unfolded fields] w(5) assms(3,4) by auto
  with w(6) show ?thesis by (cases old) (auto simp: compare_and_set_def r_def split: if_splits)
qed

lemma example_kv_get_vs: "\<exists>refs. kv_get_vs example_env example_kv [1] = Some (Inr (snd (example_item 1)), example_kv\<lparr>kv_refs := refs\<rparr>)"
proof -
  have "lower_items (kv_lc example_kv) [[[example_item 1]], []] = [example_item 1]" by (simp add: example_kv_def example_levels_rep)
  then show ?thesis
    using kv_get_vs_view [OF mem_tables_abs, of example_kv _ example_env "[[[example_item 1]], []]" "[1]"] example_kv_rep example_view(1)
    by (fastforce simp: kv_rep_def)
qed

text \<open>Non-vacuity of C10: an update with the counter of the stored value.\<close>

theorem compare_and_set_checks_witness:
  "\<exists>kv'. compare_and_set example_env Some (\<lambda>_ _ _ _. 0) [1] [7] 1 example_kv = Some (Inr (), kv') \<and> kv_inv example_env kv' [[1] \<mapsto> [7]]"
proof -
  have "[1] \<noteq> HEAD_KEY" by (simp add: HEAD_KEY_def)
  moreover obtain kv0 where "kv_get_vs example_env example_kv [1] = Some (Inr (snd (example_item 1)), kv0)"
    using example_kv_get_vs by blast
  ultimately show ?thesis
    using compare_and_set_checks [OF example_kv_inv, of "[1]" "[7]" 1 "Inr (snd (example_item 1))" _ Some "\<lambda>_ _ _ _. 0"]
      example_kv_room [of "cas_entry [1] [7] 1"] by (simp add: example_item_def entry_default_def)
qed

text \<open>A put of any value, also of one that lookups skip.\<close>

lemma mt_put_tables:
  assumes "mem_ok (kv_mem kv) (kvs # kvss)" and "sl_room (must_mt kv) k v"
  shows "\<exists>mem. mt_put k v rnd (sm_mt (kv_mem kv)) (kv_mem kv) = Some mem
    \<and> list_all2 skip_abs (get_mem_tables (kv\<lparr>kv_refs := refs, kv_mem := mem\<rparr>)) (assoc_put k v kvs # kvss)"
proof -
  have "skip_abs (must_mt kv) kvs" using assms(1) by (simp add: mem_ok_def must_mt_def mt_ref_def)
  then obtain s where s: "sl_put (must_mt kv) k v rnd = Some s" "skip_abs s (assoc_put k v kvs)"
    using sl_put_abs assms(2) by blast
  have "map ((sm_lists (kv_mem kv))(sm_mt (kv_mem kv) := s)) (rev (sm_imm (kv_mem kv))) = map (sm_lists (kv_mem kv)) (rev (sm_imm (kv_mem kv)))"
    using assms(1) by (auto simp: mem_ok_def)
  with s assms(1) show ?thesis by (auto simp: mt_put_def mem_ok_def get_mem_tables_def must_mt_def mt_ref_def)
qed

lemma store_view_skips:
  assumes "vs_value v = []" and "\<not> deleted v" and "map_of kvs k = None"
  shows "store_view (assoc_put k v kvs # kvss) lower k = store_view (kvs # kvss) lower k"
  using assms by (simp add: store_view_def)

lemma empty_put_ignored:
  assumes rep: "kv_rep env kv (kvs # kvss) kvsss cur m M" and k: "map_of kvs k = None" "k \<noteq> HEAD_KEY"
    and v: "vs_value v = []" "\<not> deleted v" "sl_room (must_mt kv) k v"
  shows "\<exists>mem kv'. mt_put k v rnd (sm_mt (kv_mem kv)) (kv_mem kv) = Some mem
    \<and> kv_get env (kv\<lparr>kv_refs := refs, kv_mem := mem\<rparr>) k = Some (case M k of None \<Rightarrow> Inl NotFound | Some v \<Rightarrow> Inr v, kv')"
proof -
  have lv: "list_all2 (level_holds (ke_bl env)) (lc_levels (kv_lc kv)) kvsss" and mem: "mem_ok (kv_mem kv) (kvs # kvss)"
    and ans: "answers kv (store_view (kvs # kvss) (lower_items (kv_lc kv) kvsss) k) (M k)"
    using rep k(2) by (simp_all add: kv_rep_def)
  obtain mem where put: "mt_put k v rnd (sm_mt (kv_mem kv)) (kv_mem kv) = Some mem"
    "list_all2 skip_abs (get_mem_tables (kv\<lparr>kv_refs := refs, kv_mem := mem\<rparr>)) (assoc_put k v kvs # kvss)"
    using mt_put_tables [OF mem v(3)] by blast
  have "answers (kv\<lparr>kv_refs := refs, kv_mem := mem\<rparr>) = answers kv" by (rule answers_cong) simp_all
  with kv_get_answer [OF put(2), of env kvsss k "M k"] lv ans store_view_skips [OF v(1,2) k(1)] put(1) show ?thesis by auto
qed

text \<open>
  C21. Compare-and-delete does not delete. When the counter is the one of the stored value and
  the value is not in the current memtable, \<open>compare_and_delete\<close> reports success, but what it
  stores is an entry with an empty value that is not marked as deleted; lookups skip it, and the key still has
  its old value.
\<close>

theorem compare_and_delete_keeps_value:
  assumes "kv_inv env kv M" and "k \<noteq> HEAD_KEY" and "kv_room env kv (numbered kv (cas_entry k [] c))"
    and "kv_get_vs env kv k = Some (Inr vs, kv0)" and "vs_cas_counter vs = c" "c \<noteq> 0"
    and "sl_get (must_mt kv) k = Some None" and "0 < opt_value_threshold (kv_opt kv)"
  shows "\<exists>v kv' kv''. M k = Some v \<and> compare_and_delete env wait rnds k c kv = Some (Inr (), kv') \<and> kv_get env kv' k = Some (Inr v, kv'')"
proof -
  let ?e = "cas_entry k [] c" and ?v = "vs_new [] 0 0 (kv_last_used_cas_counter kv + 1)"
  obtain kvss kvsss cur m where rep: "kv_rep env kv kvss kvsss cur m M" using assms(1) by (auto simp: kv_inv_def)
  note old = stored_view [OF rep assms(4)]
  have "answers kv (Inr vs) (M k)" using rep assms(2) old by (metis kv_rep_def)
  then obtain v where v: "M k = Some v" by (auto simp: answers_def)
  obtain kvs kvss' where kvss: "kvss = kvs # kvss'" "skip_abs (must_mt kv) kvs"
    using rep by (auto simp: kv_rep_def mem_ok_def must_mt_def mt_ref_def list_all2_Cons1)
  obtain p kv1 kvss1 m1 where w: "kv_rep env kv1 kvss1 kvsss cur m1 M" "kvss1 = kvss \<or> kvss1 = [] # kvss" "kv_lc kv1 = kv_lc kv" "kv_opt kv1 = kv_opt kv"
    "\<And>v'. vs_size v' \<le> 22 + length (en_value ?e) \<Longrightarrow> sl_room (must_mt kv1) (en_key ?e) v'"
    "\<And>r kv'. write_entry_to_lsm env (rnds 0 0 0) (numbered kv ?e) p kv1 = Some (r, kv') \<Longrightarrow> set_one env wait rnds ?e kv = Some (r, kv')"
    using set_one_single [OF rep assms(3), of rnds wait] by blast
  obtain kvs1 kvss2 where k1: "kvss1 = kvs1 # kvss2" "map_of kvs1 k = None"
    using w(2) kvss(1) assms(7) sl_get_abs [OF kvss(2), of k] by auto
  have view: "store_view kvss1 (lower_items (kv_lc kv1) kvsss) k = Inr vs" using w(2,3) old by auto
  obtain refs where chk: "write_entry_to_lsm env (rnds 0 0 0) (numbered kv ?e) p kv1
      = write_entry_to_lsm env (rnds 0 0 0) (numbered kv ?e\<lparr>en_cas_counter_check := 0\<rparr>) p (kv1\<lparr>kv_refs := refs\<rparr>)"
    using write_entry_checked [OF w(1), of "numbered kv ?e" "rnds 0 0 0" p] view assms(5,6) by (auto simp: numbered_def entry_default_def)
  obtain mem kv' where mem: "mt_put k ?v (rnds 0 0 0) (sm_mt (kv_mem kv1)) (kv_mem kv1) = Some mem"
    "kv_get env (kv1\<lparr>kv_refs := refs, kv_mem := mem\<rparr>) k = Some (Inr v, kv')"
    using empty_put_ignored [OF w(1) [unfolded k1(1)] k1(2) assms(2), of ?v "rnds 0 0 0" refs] w(5) [of ?v] v
    by (auto simp: vs_new_def deleted_def vs_size_def vs_header_size_def)
  have "write_entry_to_lsm env (rnds 0 0 0) (numbered kv ?e) p kv1 = Some (Inr (), kv1\<lparr>kv_refs := refs, kv_mem := mem\<rparr>)"
    using mem(1) assms(8) w(4) unfolding chk
    by (simp add: write_entry_to_lsm_def numbered_def entry_default_def BIT_SET_IF_ABSENT_def lsm_value_def should_write_value_to_lsm_def)
  from w(6) [OF this] mem(2) v show ?thesis by (auto simp: compare_and_delete_def entry_default_def)
qed

text \<open>Non-vacuity of C21: the key of the memtable that waits to be flushed.\<close>

theorem compare_and_delete_keeps_value_witness:
  "\<exists>kv' kv''. compare_and_delete example_env Some (\<lambda>_ _ _ _. 0) [1] 1 example_kv = Some (Inr (), kv') \<and> kv_get example_env kv' [1] = Some (Inr [1], kv'')"
proof -
  have "[1] \<noteq> HEAD_KEY" "vs_cas_counter (snd (example_item 1)) = 1" "must_mt example_kv = example_list" "opt_value_threshold (kv_opt example_kv) = 20"
    by (simp_all add: HEAD_KEY_def example_item_def must_mt_def mt_ref_def example_kv_def example_vlog_def options_default_def)
  moreover obtain refs where "kv_get_vs example_env example_kv [1] = Some (Inr (snd (example_item 1)), example_kv\<lparr>kv_refs := refs\<rparr>)"
    using example_kv_get_vs by blast
  ultimately show ?thesis
    using compare_and_delete_keeps_value [OF example_kv_inv, of "[1]" 1 "snd (example_item 1)" _ Some "\<lambda>_ _ _ _. 0"]
      example_kv_room [of "cas_entry [1] [] 1"] sl_get_abs [OF example_lists(1), of "[1]"] by (auto simp: entry_default_def)
qed

end
