(* ===== verification/Kv_Gc.thy ===== *)
theory Kv_Gc
  imports Complex_Main Vlog_Core
begin

section \<open>Garbage collection of the value log\<close>

text \<open>
  Models \<open>trigger_gc\<close> and \<open>do_run_gc\<close> of \<open>src/src/value_log.rs\<close> and \<open>KV::run_value_log_gc\<close>, which pick a log file,
  sample it, and hand it to \<open>rewrite\<close>. The log reaches the store through \<open>get_kv\<close>, a raw pointer to the local
  variable of \<open>KV::open\<close> in which the store was built; \<open>open\<close> moves the store out of that variable
  before it returns, so that the source does not say what the pointer leads to. The
  store behind it is therefore an argument: \<open>kv_get\<close> is what its \<open>_get\<close> answers (\<open>None\<close> when the read goes wrong) and \<open>kv_set\<close>
  what its \<open>batch_set\<close> does to the log and to the rest of the state. Nothing ties them to the running store.

  The sizes that the source
  keeps as floating-point megabytes are kept in bytes: a length divided by \<open>2 ^ 20\<close> and the sums of such numbers are
  exact. Random numbers, the timer (\<open>late n\<close>: the time is up at the \<open>n\<close>-th entry)
  and the rounded comparison with the threshold (\<open>few\<close>) are arguments.
\<close>

type_synonym kv_get = "bytes \<Rightarrow> value_struct result option"
type_synonym 's kv_set = "entry list \<Rightarrow> value_log \<Rightarrow> 's \<Rightarrow> (value_log \<times> 's) option"

record gc_reason =
  gr_total :: nat
  gr_keep :: nat
  gr_discard :: nat

definition MB :: nat where "MB = 2 ^ 20"

text \<open>What the sample learns about an entry from the value that the store holds for its key.\<close>

datatype gc_verdict = Discard | Keep | Neither

definition gc_classify :: "kv_get \<Rightarrow> log_file \<Rightarrow> value_log \<Rightarrow> disk \<Rightarrow> entry \<Rightarrow> gc_verdict result option" where
  "gc_classify kv_get lf vl disk e = do {
     r \<leftarrow> kv_get (en_key e);
     (case r of
        Inl err \<Rightarrow> Some (Inl err)
      | Inr vs \<Rightarrow>
          if vs_meta vs AND BIT_DELETE \<noteq> 0 \<or> vs_meta vs AND BIT_VALUE_POINTER = 0 then Some (Inr Discard)
          else if vs_value vs = [] then None
          else (case vp_dec (vs_value vs) of
             Inl err \<Rightarrow> Some (Inl err)
           | Inr vptr \<Rightarrow>
               if vp_fid vptr > lf_fid lf \<or> vp_offset vptr > en_offset e then Some (Inr Discard)
               else if vp_fid vptr = lf_fid lf \<and> vp_offset vptr = en_offset e then Some (Inr Keep)
               else do {
                 buf \<leftarrow> read_value_bytes vl vptr disk;
                 latest \<leftarrow> entry_dec entry_default buf;
                 Some (case latest of Inl err \<Rightarrow> Inl (Unexpected ''Stop iteration'') | Inr l \<Rightarrow> Inr Neither) })) }"

fun gc_count :: "gc_verdict \<Rightarrow> nat \<Rightarrow> gc_reason \<Rightarrow> gc_reason" where
  "gc_count Discard esz reason = reason\<lparr>gr_discard := gr_discard reason + esz\<rparr>"
| "gc_count Keep esz reason = reason\<lparr>gr_keep := gr_keep reason + esz\<rparr>"
| "gc_count Neither esz reason = reason"

text \<open>
  The entry that the scanning task sends next, and where it goes on; a panic of that task closes the channel.
\<close>

definition gc_recv :: "log_file \<Rightarrow> disk \<Rightarrow> u32 \<Rightarrow> (entry \<times> value_pointer \<times> u32) option" where
  "gc_recv lf disk pos =
     (case read_entries lf disk pos 1 of
        Some (Inr ((e, p) # _, next_pos)) \<Rightarrow> Some (e, p, next_pos)
      | _ \<Rightarrow> None)"

text \<open>The loop over the entries. \<open>Inr None\<close> is a return with success before the end.\<close>

partial_function (option) gc_sample ::
  "kv_get \<Rightarrow> (nat \<Rightarrow> bool) \<Rightarrow> log_file \<Rightarrow> value_log \<Rightarrow> disk \<Rightarrow> int \<Rightarrow> u32 \<Rightarrow> nat \<Rightarrow> nat \<Rightarrow> gc_reason \<Rightarrow> gc_reason option result option" where
  "gc_sample kv_get late lf vl disk skip_first pos skipped n reason =
     (case gc_recv lf disk pos of
        None \<Rightarrow> Some (Inr (Some reason))
      | Some (e, p, next_pos) \<Rightarrow>
          let esz = unat (vp_len p) in
          if int (skipped + esz) < skip_first then gc_sample kv_get late lf vl disk skip_first next_pos (skipped + esz) n reason
          else if gr_total reason + esz > 100 * MB \<or> late (n + 1) then Some (Inr None)
          else do {
            r \<leftarrow> gc_classify kv_get lf vl disk e;
            (case r of
               Inl err \<Rightarrow> Some (Inl err)
             | Inr v \<Rightarrow> gc_sample kv_get late lf vl disk skip_first next_pos (skipped + esz) (n + 1)
                         (gc_count v esz (reason\<lparr>gr_total := gr_total reason + esz\<rparr>))) })"

definition gc_sample_file ::
  "kv_get \<Rightarrow> (nat \<Rightarrow> bool) \<Rightarrow> nat \<Rightarrow> log_file \<Rightarrow> value_log \<Rightarrow> disk \<Rightarrow> gc_reason option result option" where
  "gc_sample_file kv_get late start lf vl disk =
     gc_sample kv_get late lf vl disk (int (start * MB) - int (100 * MB)) 0 0 0 \<lparr>gr_total = 0, gr_keep = 0, gr_discard = 0\<rparr>"

text \<open>\<open>r1\<close> and \<open>r2\<close> pick the file and \<open>start\<close> the megabyte at which the sample starts.\<close>

definition do_run_gc ::
  "kv_get \<Rightarrow> 's kv_set \<Rightarrow> (nat \<Rightarrow> bool) \<Rightarrow> (nat \<Rightarrow> nat \<Rightarrow> bool) \<Rightarrow> nat \<Rightarrow> nat \<Rightarrow> nat \<Rightarrow> value_log \<Rightarrow> disk \<Rightarrow> 's
     \<Rightarrow> (unit result \<times> value_log \<times> 's) option" where
  "do_run_gc kv_get kv_set late few start r1 r2 vl disk s = do {
     lf \<leftarrow> pick_log vl r1 r2;
     (case lf of
        None \<Rightarrow> Some (Inl ValueNoRewrite, vl, s)
      | Some lf \<Rightarrow> do {
          r \<leftarrow> gc_sample_file kv_get late start lf vl disk;
          (case r of
             Inl e \<Rightarrow> Some (Inl e, vl, s)
           | Inr None \<Rightarrow> Some (Inr (), vl, s)
           | Inr (Some reason) \<Rightarrow>
               if gr_total reason < 10 * MB \<or> few (gr_discard reason) (gr_total reason) then Some (Inl ValueNoRewrite, vl, s)
               else do {
                 lf \<leftarrow> pick_log_by_vlog_id vl (lf_fid lf);
                 vl_rewrite kv_get kv_set lf vl disk s }) }) }"

text \<open>
  One collection at a time: \<open>busy\<close> says that the channel of capacity one is full. Closing fills it for good and
  waits (\<open>None\<close>) while a collection runs.
\<close>

definition trigger_gc where
  "trigger_gc kv_get kv_set late few start r1 r2 busy vl disk s =
     (if busy then Some (Inl ValueRejected, vl, s) else do_run_gc kv_get kv_set late few start r1 r2 vl disk s)"

definition wait_on_gc :: "bool \<Rightarrow> bool option" where
  "wait_on_gc busy = (if busy then None else Some True)"

definition run_value_log_gc where
  "run_value_log_gc kv_get kv_set late few start r1 r2 busy (ratio :: real) vl disk s =
     (if ratio \<ge> 1 \<or> ratio \<le> 0 then Some (Inl ValueInvalidRequest, vl, s)
      else trigger_gc kv_get kv_set late (few ratio) start r1 r2 busy vl disk s)"

end
