(* ===== verification/Gc_Correct.thy ===== *)
theory Gc_Correct
  imports Kv_Gc Vlog_Correct
begin

section \<open>What garbage collection may do\<close>

text \<open>
  A collection changes the log and the store only by writing a batch through \<open>get_kv\<close>, after a sample that
  justifies it. This holds whatever store is behind that pointer.
\<close>

subsection \<open>The sample\<close>




subsection \<open>The batch\<close>
















end
