(* ===== verification/Spec2Isabelle.thy ===== *)
theory Spec2Isabelle
  imports Iterator_Correct Open_Correct Kv_Writer Batch_Correct Gc_Correct
begin

text \<open>
  Verification of badger-rs, a Rust port of the Badger key-value store.

  \<^bold>\<open>The program.\<close> A store (\<open>KV\<close>, \<open>src/src/kv.rs\<close>) keeps its newest pairs in a memtable, a
  skip list in an arena (\<open>skl/\<close>); full memtables wait in a queue and are flushed to tables of level 0. Tables
  (\<open>table/\<close>) are immutable files of prefix-compressed blocks. Levels of tables (\<open>level_handler.rs\<close>,
  \<open>levels.rs\<close>) are merged downwards by compactions, whose key ranges a status (\<open>compaction.rs\<close>)
  keeps apart; which table is on which level is logged in the manifest (\<open>manifest.rs\<close>).
  Large values live in the value log (\<open>value_log.rs\<close>, \<open>log_file.rs\<close>), and the pair then
  holds a pointer to them. A write goes to the value log first and then to the memtable; a lookup asks
  the memtables, newest first, then the levels from 0 down, and follows the pointer; an iterator
  (\<open>iterator.rs\<close>, \<open>y/merge_iterator.rs\<close>) merges all of them.

  \<^bold>\<open>The theories\<close>, each importing the ones it builds on (sources under \<open>src/src/\<close>):
  \<^item> \<open>Badger_Prelude\<close>: machine integers, slices, big-endian codecs, searching, sorted association lists.
  \<^item> \<open>Y_Module\<close> (\<open>y/mod.rs\<close>, \<open>y/iterator.rs\<close>, \<open>lib.rs\<close>): errors, \<open>ValueStruct\<close> and its wire format.
  \<^item> \<open>Xiterator\<close> (\<open>y/iterator.rs\<close>): the iterator trait as the locales \<open>xcursor\<close> and \<open>xiterator\<close>.
  \<^item> \<open>Arena\<close> (\<open>skl/alloc.rs\<close>, \<open>skl/arena.rs\<close>, \<open>skl/node.rs\<close>), \<open>Skiplist\<close> and \<open>Skiplist_Correct\<close> (\<open>skl/skip.rs\<close>),
    \<open>Skip_Iterator\<close> (\<open>skl/cursor.rs\<close> and the iterators of \<open>skl/skip.rs\<close>): allocation without overlap, the skip list as a
    sorted map (locale \<open>memtable\<close>), its search and its iterators.
  \<^item> \<open>Table_Builder\<close> (\<open>table/builder.rs\<close>), \<open>Table_Model\<close>, \<open>Table_Correct\<close>, \<open>Table_Roundtrip\<close> (\<open>table/table.rs\<close>,
    \<open>table/iterator.rs\<close>), \<open>Table_Concat\<close> (\<open>ConcatIterator\<close>): a table is read back as it was built, in both directions.
  \<^item> \<open>Merge_Iterator\<close>, \<open>Merge_Correct\<close> (\<open>y/merge_iterator.rs\<close>) and \<open>Any_Iterator\<close>: merging, proved for every iterator
    that satisfies the locale \<open>merge_source\<close>, and used at the three kinds of iterators that the code boxes.
  \<^item> \<open>Badger_Options\<close> (\<open>options/mod.rs\<close>), \<open>Level_Handler\<close>, \<open>Level_Correct\<close> (\<open>level_handler.rs\<close>, key ranges), \<open>Compaction\<close>
    (\<open>compaction.rs\<close>), \<open>Manifest\<close>, \<open>Manifest_Correct\<close> (\<open>manifest.rs\<close>), \<open>Levels\<close>, \<open>Levels_Correct\<close> (\<open>levels.rs\<close>): lookups
    and updates of a level, the reservation of key ranges as a step relation, what the
    manifest leaves on disk and reads back, and a whole compaction, which leaves the lookups of user keys as they were.
  \<^item> \<open>Value_Log\<close> (\<open>log_file.rs\<close>, entries and pointers of \<open>value_log.rs\<close>), \<open>Vlog_Core\<close>, \<open>Vlog_Correct\<close> (\<open>value_log.rs\<close>):
    what is written is read back and stays readable; what replay and roll-over do.
  \<^item> \<open>Kv\<close> (\<open>st_manager.rs\<close>, \<open>kv.rs\<close>), \<open>Kv_Correct\<close>, \<open>Kv_Flush\<close>: lookups, writes and flushes against an abstract
    map. \<open>kv_rep\<close> ties the store to the pairs of its memtables and tables and to a map, \<open>kv_inv\<close> hides the pairs.
  \<^item> \<open>Kv_Open\<close>, \<open>Open_Correct\<close> (\<open>KV::open\<close>, \<open>KV::close\<close>): a new store represents the empty map.
  \<^item> \<open>Kv_Iterator\<close>, \<open>Iterator_Correct\<close> (\<open>iterator.rs\<close>, \<open>KV::new_iterator\<close>, \<open>backup.rs\<close>): an iteration and a backup enumerate the map.
  \<^item> \<open>Batch_Correct\<close>: how batches are cut, waiting for room, compare-and-set and compare-and-delete.
  \<^item> \<open>Kv_Writer\<close> (\<open>KV::do_writes\<close>): the writing task as a step relation under every interleaving with senders and closing.
  \<^item> \<open>Kv_Gc\<close>, \<open>Gc_Correct\<close> (\<open>ValueLogCore::do_run_gc\<close>): what a collection may do to the log, for any store behind the pointer \<open>get_kv\<close>.
  \<^item> This theory: runs of client operations and flushes on a store from its first opening on.

  \<^bold>\<open>Conventions.\<close> A Rust function that can panic returns an \<open>option\<close>, \<^term>\<open>None\<close> being the panic (a failed
  assertion or \<open>unwrap\<close>, an index out of range, an overflow in checked arithmetic); a \<open>Result\<close>
  is a sum with \<open>Inl\<close> for the error. Shared and mutable state is passed explicitly: skip lists by
  address in the memtable manager, tables with their reference counts \<open>refs\<close>, files as a \<open>disk\<close>
  from paths to bytes. Loops that follow data are structural recursions; loops whose end depends on
  the state are partial functions into \<open>option\<close>, and the theorems show that they return. No
  fuel is used but in \<open>collect\<close>, which bounds a traversal by one more than the number of items.

  \<^bold>\<open>Parameters.\<close> Code outside the repository is an argument: the bloom filter (\<open>bloom\<close>), protobuf, the checksum and the buffered writer of
  the manifest (\<open>pb\<close>), the checksum and the sizes that can be mapped (\<open>vl_env\<close>), the encoding of a backup pair. So
  are random draws, the order in which a hash map is visited, directory listings, and what
  other tasks do while one waits. Garbage collection reads and writes the store through a raw pointer to a local variable of
  \<open>KV::open\<close> that has been moved out of; the store behind it is an argument of the model as well, and nothing ties it to the running one. Their assumed laws are premises of the theorems, and each
  theorem with premises has a witness at a concrete state.

  \<^bold>\<open>Results.\<close> The store refines a map, from its first opening on and through flushes; iterating and
  backing up enumerate this map; compactions preserve it. These theorems state their limits: values are not empty (lookups
  pass over an empty one), and the keys with the prefix \<open>!badger!\<close>, one of which every flush writes, come first in
  the tables that are merged, since a merge skips them there and panics on them elsewhere. Around these stand the correctness of the skip list,
  the tables, the merge, the levels, the manifest, the value log, batches, compare-and-set and the
  order of writes. Several theorems state what the code does where this
  differs from its intent: among others a reopened manifest is overwritten, a small manifest that is rewritten becomes an empty file, replay restores no keys, a full log file
  makes the next write panic, closing can drop requests that were accepted, \<open>compare_and_delete\<close> keeps the key, and reversed iteration ascends. They are also why the
  refinement covers a store that is created, not one that is reopened.

  \<^bold>\<open>Not modelled.\<close> Concurrency inside an operation (the lock-free insertion into a skip list, locks, the tasks of one compaction
  side by side); operations run to their end, except for the reservations of
  compactions and the writing task, whose interleavings are explicit. Channels and closers (\<open>types.rs\<close>),
  metrics, logging, directory locks, \<open>spawn_update_size\<close>, generated protobuf code and the tests are left out; tables are loaded in the default mode, into memory. System calls
  succeed, except that opening a missing file or mapping an unsuitable length fails.
\<close>

section \<open>Runs of the store\<close>

text \<open>
  What a client does to a store, one operation after another, with the flush task in between. A
  write runs only when there is room for its entry in the memtable and the log (\<open>kv_room\<close>), and a flush when its table can be written
  (\<open>flush_ready\<close>); the key under which the store keeps the head of its log is not read. The other parameters (what happens while
  a writer waits, the random towers, the order in which a hash map is visited) may differ from step to step.
\<close>

datatype store_op = OpGet bytes | OpSet bytes bytes | OpDelete bytes | OpFlush

fun op_effect :: "store_op \<Rightarrow> (bytes \<Rightarrow> bytes option) \<Rightarrow> bytes \<Rightarrow> bytes option" where
  "op_effect (OpGet k) M = M"
| "op_effect (OpSet k v) M = M(k \<mapsto> v)"
| "op_effect (OpDelete k) M = M(k := None)"
| "op_effect OpFlush M = M"

inductive store_step :: "'bf kv_env \<Rightarrow> 'bf kv \<Rightarrow> store_op \<Rightarrow> 'bf kv \<Rightarrow> bool" for env where
  get: "\<lbrakk>k \<noteq> HEAD_KEY; kv_get env kv k = Some (r, kv')\<rbrakk> \<Longrightarrow> store_step env kv (OpGet k) kv'"
| set: "\<lbrakk>kv_room env kv (numbered kv (set_entry k v um)); kv_set env wait rnds k v um kv = Some (r, kv')\<rbrakk>
    \<Longrightarrow> store_step env kv (OpSet k v) kv'"
| delete: "\<lbrakk>kv_room env kv (numbered kv (delete_entry k)); kv_delete env wait rnds k kv = Some (r, kv')\<rbrakk>
    \<Longrightarrow> store_step env kv (OpDelete k) kv'"
| flush: "\<lbrakk>kv_flush_chan kv \<noteq> []; flush_ready env kv; flush_mem_table env waitlc order rnd kv = Some (r, kv')\<rbrakk>
    \<Longrightarrow> store_step env kv OpFlush kv'"

inductive store_run :: "'bf kv_env \<Rightarrow> 'bf kv \<Rightarrow> store_op list \<Rightarrow> 'bf kv \<Rightarrow> bool" for env kv where
  start: "store_run env kv [] kv"
| step: "\<lbrakk>store_run env kv ops kv'; store_step env kv' op kv''\<rbrakk> \<Longrightarrow> store_run env kv (ops @ [op]) kv''"

text \<open>An empty value is stored, but every lookup passes over it; the map covers writes of other values.\<close>

definition writes_value :: "store_op \<Rightarrow> bool" where
  "writes_value op \<longleftrightarrow> (\<forall>k. op \<noteq> OpSet k [])"

lemma store_step_map:
  assumes "store_step env kv op kv'" and "kv_inv env kv M" and "writes_value op"
  shows "kv_inv env kv' (op_effect op M)"
  using assms(1)
proof cases
  case (get k r)
  with kv_get_inv [OF assms(2), of k] show ?thesis by auto
next
  case (set k v um wait rnds r)
  then have "v \<noteq> []" using assms(3) by (auto simp: writes_value_def)
  with set set_one_inv [OF assms(2), of "set_entry k v um" wait rnds] show ?thesis
    by (auto simp: kv_set_def plain_def written_def entry_default_def)
next
  case (delete k wait rnds r)
  with set_one_inv [OF assms(2), of "delete_entry k" wait rnds] show ?thesis
    by (auto simp: kv_delete_def plain_def written_def entry_default_def)
next
  case (flush waitlc order rnd r)
  obtain kvss kvsss cur m where "kv_rep env kv kvss kvsss cur m M" using assms(2) by (auto simp: kv_inv_def)
  from flush_rep [OF this flush(3,2), of waitlc order rnd] flush(1,4) show ?thesis unfolding kv_inv_def by auto
qed

lemma store_run_map:
  assumes "store_run env kv ops kv'" and "kv_inv env kv M" and "\<forall>op\<in>set ops. writes_value op"
  shows "kv_inv env kv' (fold op_effect ops M)"
  using assms by (induction rule: store_run.induct) (auto dest: store_step_map)

text \<open>
  C2. A store from its first opening on. Let a store be created by \<open>KV::open\<close> in directories without a manifest and a log, and let a client set
  keys to values that are not empty, delete keys and read keys, each operation with room for its entry, and memtables be flushed in
  between. Then \<open>KV::get\<close> answers for
  every key but that of the log head the value that was set last and not deleted since, or \<open>NotFound\<close>. A run that sets a key to the
  empty value is not covered: lookups pass over such a value, to an older one or to \<open>NotFound\<close>.
\<close>

theorem opened_store_reads_last_write:
  fixes env :: "'bf kv_env" and hs :: "'bf level_handler list"
  assumes opt: "open_options opt = Some opt'" "arena_fits opt'" "opt_num_level_zero_tables opt' < opt_num_level_zero_tables_stall opt'"
      "2 ^ 20 \<le> unat (opt_value_log_file_size opt')" "unat (opt_value_log_file_size opt') \<le> 2 ^ 31"
    and levels: "init_levels opt' (opt_max_levels opt') = Some hs"
    and map: "ve_can_map (ke_vl env) (unat (opt_value_log_file_size opt' * 2))"
    and disk: "disk (path_join (opt_dir opt') MANIFEST_FILENAME) = None" "disk (vlog_file_path (opt_value_dir opt') 0) = None"
    and lists: "get_id_map names = Some {}" "get_data_files paths = []"
    and run: "kv_open env wait rnds names paths [] opt disk = Some (Inr kv, disk')" "store_run env kv ops kv'"
    and vals: "\<forall>op\<in>set ops. writes_value op" and k: "k \<noteq> HEAD_KEY"
  shows "\<exists>kv''. kv_get env kv' k = Some (case fold op_effect ops Map.empty k of None \<Rightarrow> Inl NotFound | Some v \<Rightarrow> Inr v, kv'')"
proof -
  have "kv_inv env kv Map.empty"
    using fresh_store_empty [OF opt levels map disk lists, of wait rnds] run(1) by auto
  from kv_get_inv [OF store_run_map [OF run(2) this vals] k] show ?thesis by blast
qed

text \<open>Non-vacuity of C2: a new store with the default options in which one key is set.\<close>

theorem opened_store_reads_last_write_witness:
  "\<exists>kv disk' kv' kv''. kv_open example_env Some (\<lambda>_ _. 0) [''MANIFEST'', ''dir_lock_guard.lock''] [''db/MANIFEST''] [] (options_default ''db'') Map.empty
      = Some (Inr kv, disk') \<and> store_run example_env kv [OpSet [1] [7]] kv' \<and> kv_get example_env kv' [1] = Some (Inr [7], kv'')"
proof -
  obtain hs :: "unit level_handler list" where hs: "init_levels default_opened (opt_max_levels default_opened) = Some hs" using default_open(4) by blast
  have map: "ve_can_map (ke_vl example_env) (unat (opt_value_log_file_size default_opened * 2))" by (simp add: default_open example_env_def example_vl_env_def)
  have lim: "2 ^ 20 \<le> unat (opt_value_log_file_size default_opened)" "unat (opt_value_log_file_size default_opened) \<le> 2 ^ 31" by (simp_all add: default_open)
  obtain kv disk' where kv: "kv_open example_env Some (\<lambda>_ _. 0) [''MANIFEST'', ''dir_lock_guard.lock''] [''db/MANIFEST''] [] (options_default ''db'') Map.empty
      = Some (Inr kv, disk')" "kv_inv example_env kv Map.empty" "fresh_store default_opened kv"
    using fresh_store_empty [OF default_open(1,3,5) lim hs map _ _ no_table_names, of Map.empty Some "\<lambda>_ _. 0"] by auto
  have room: "kv_room example_env kv (numbered kv (set_entry [1] [7] 0))" by (rule fresh_room [OF kv(3)]) (simp add: entry_default_def)
  then obtain kv' where "kv_set example_env Some (\<lambda>_ _ _ _. 0) [1] [7] 0 kv = Some (Inr (), kv')"
    using set_one_inv [OF kv(2), of "set_entry [1] [7] 0"] by (auto simp: kv_set_def plain_def entry_default_def)
  then have "store_run example_env kv ([] @ [OpSet [1] [7]]) kv'" using room by (intro store_run.step [OF store_run.start] store_step.set) simp_all
  moreover have "[1] \<noteq> HEAD_KEY" by (simp add: HEAD_KEY_def)
  ultimately show ?thesis
    using opened_store_reads_last_write [OF default_open(1,3,5) lim hs map _ _ no_table_names kv(1), of "[OpSet [1] [7]]" kv' "[1]"] kv(1)
    by (auto simp: writes_value_def)
qed

end
